(* ===== verification/Prelude.thy ===== *)
theory Prelude
  imports Main "HOL-Library.Word"
begin

text \<open>
  Vocabulary shared by every component: the machine types of the target (LP64, little
  endian), the \<open>errno\<close> values the sources set, results as sums, the allocator and
  C strings.

  \<^item> A \<open>char\<close> array or heap block is a list of bytes; the C string it holds is \<open>cstr\<close>,
    its bytes before the first NUL.
  \<^item> A call that returns 0 or -1 with \<open>errno\<close> has a value of \<open>errno + 'a\<close>
    (\<open>Inl\<close>: it returned -1 and left this \<open>errno\<close>; \<open>Inr\<close>: it returned, with its
    out-parameters).
  \<^item> \<open>malloc\<close> and \<open>realloc\<close> belong to the C library: an \<open>allocator\<close> says which
    requests are granted, and every operation that allocates takes one. \<open>mem_ok\<close> is
    the allocator that grants everything.
  \<^item> \<open>pthread_mutex_lock\<close> and \<open>pthread_mutex_unlock\<close> return an error \<^emph>\<open>number\<close> and
    never -1, so the \<open>ERRCHECK\<close> around them never fires.
\<close>

unbundle bit_operations_syntax

type_synonym byte = "8 word"
type_synonym size_t = "64 word"
type_synonym uint32 = "32 word"
type_synonym uint64 = "64 word"

named_theorems byte_simps \<open>encoding of machine words as bytes\<close>
named_theorems slot_simps \<open>updating one slot of an array of records\<close>

subsection \<open>Error numbers\<close>

datatype errno =
    EPERM | ENOENT | EIO | EAGAIN | ENOMEM | EEXIST | EINVAL | ENFILE | EMFILE | EBADMSG
  | EMSGSIZE | ENOBUFS | ENOTCONN | ECANCELED | EPIPE | ENAMETOOLONG
  | EINTR | ENETRESET | EISCONN | ETIMEDOUT | ECONNREFUSED

text \<open>The numbers of the Linux headers, which order the type.\<close>

primrec errno_code :: "errno \<Rightarrow> nat" where
  "errno_code EPERM = 1"
| "errno_code ENOENT = 2"
| "errno_code EIO = 5"
| "errno_code EAGAIN = 11"
| "errno_code ENOMEM = 12"
| "errno_code EEXIST = 17"
| "errno_code EINVAL = 22"
| "errno_code ENFILE = 23"
| "errno_code EMFILE = 24"
| "errno_code EPIPE = 32"
| "errno_code ENAMETOOLONG = 36"
| "errno_code EBADMSG = 74"
| "errno_code EMSGSIZE = 90"
| "errno_code ENOBUFS = 105"
| "errno_code ENOTCONN = 107"
| "errno_code ECANCELED = 125"
| "errno_code EINTR = 4"
| "errno_code ENETRESET = 102"
| "errno_code EISCONN = 106"
| "errno_code ETIMEDOUT = 110"
| "errno_code ECONNREFUSED = 111"

lemma errno_code_inj: "errno_code a = errno_code b \<longleftrightarrow> a = b"
  by (cases a; cases b) simp_all

instantiation errno :: linorder
begin

definition less_eq_errno :: "errno \<Rightarrow> errno \<Rightarrow> bool" where
  "less_eq_errno a b \<longleftrightarrow> errno_code a \<le> errno_code b"

definition less_errno :: "errno \<Rightarrow> errno \<Rightarrow> bool" where
  "less_errno a b \<longleftrightarrow> errno_code a < errno_code b"

instance
  by standard (auto simp: less_eq_errno_def less_errno_def errno_code_inj)

end

subsection \<open>The allocator\<close>

type_synonym allocator = "size_t \<Rightarrow> bool"

definition mem_ok :: allocator where
  "mem_ok n \<longleftrightarrow> True"

lemma mem_ok: "mem_ok n"
  by (simp add: mem_ok_def)

text \<open>A block of \<open>n\<close> bytes made from \<open>xs\<close>: what \<open>realloc\<close> keeps, and the new tail.
  The tail is indeterminate in C; the model fills it with zeros and no theorem about
  stored data depends on it.\<close>

definition resize_block :: "nat \<Rightarrow> byte list \<Rightarrow> byte list" where
  "resize_block n xs = take n xs @ replicate (n - length xs) 0"

lemma length_resize_block [simp]: "length (resize_block n xs) = n"
  by (simp add: resize_block_def)

lemma take_resize_block [simp]: "k \<le> n \<Longrightarrow> k \<le> length xs \<Longrightarrow> take k (resize_block n xs) = take k xs"
  by (simp add: resize_block_def min_def)

text \<open>The bytes of a heap block behind a pointer (\<open>None\<close> is NULL), and the block after
  \<open>memcpy\<close> of \<open>src\<close> to its start.\<close>

definition block :: "byte list option \<Rightarrow> byte list" where
  "block p = (case p of None \<Rightarrow> [] | Some xs \<Rightarrow> xs)"

lemma block_simps [simp]: "block None = []" "block (Some xs) = xs"
  by (simp_all add: block_def)

definition copy_to :: "byte list option \<Rightarrow> byte list \<Rightarrow> byte list option" where
  "copy_to p src = map_option (\<lambda>xs. src @ drop (length src) xs) p"

lemma copy_to_simps [simp]:
  "copy_to None src = None"
  "copy_to (Some xs) src = Some (src @ drop (length src) xs)"
  by (simp_all add: copy_to_def)

subsection \<open>C strings\<close>

definition cstr :: "byte list \<Rightarrow> byte list" where
  "cstr xs = takeWhile (\<lambda>b. b \<noteq> 0) xs"

lemma cstr_Nil [simp]: "cstr [] = []"
  by (simp add: cstr_def)

lemma cstr_Cons: "cstr (b # bs) = (if b = 0 then [] else b # cstr bs)"
  by (simp add: cstr_def)

lemma cstr_no_nul: "0 \<notin> set (cstr xs)"
  unfolding cstr_def by (auto dest: set_takeWhileD)

lemma cstr_id: "0 \<notin> set xs \<Longrightarrow> cstr xs = xs"
  unfolding cstr_def by (induction xs) auto

lemma cstr_idem [simp]: "cstr (cstr xs) = cstr xs"
  by (rule cstr_id [OF cstr_no_nul])

lemma cstr_append_nul: "0 \<notin> set xs \<Longrightarrow> cstr (xs @ 0 # ys) = xs"
  unfolding cstr_def by (induction xs) auto

lemma length_cstr_le: "length (cstr xs) \<le> length xs"
  unfolding cstr_def by (rule length_takeWhile_le)

subsection \<open>Words in memory: little endian bytes\<close>

primrec le_bytes :: "nat \<Rightarrow> uint64 \<Rightarrow> byte list" where
  "le_bytes 0 w = []"
| "le_bytes (Suc n) w = ucast w # le_bytes n (drop_bit 8 w)"

primrec le_word :: "byte list \<Rightarrow> uint64" where
  "le_word [] = 0"
| "le_word (b # bs) = ucast b OR push_bit 8 (le_word bs)"

lemma length_le_bytes [simp, byte_simps]: "length (le_bytes n w) = n"
  by (induction n arbitrary: w) simp_all

lemma low_byte_or_rest: "ucast (ucast w :: byte) OR push_bit 8 (take_bit n (drop_bit 8 w)) = take_bit (8 + n) (w :: uint64)"
  by (rule bit_word_eqI) (auto simp: bit_simps not_less)

lemma le_word_le_bytes: "le_word (le_bytes n w) = take_bit (8 * n) w"
proof (induction n arbitrary: w)
  case 0
  then show ?case by simp
next
  case (Suc n)
  have "le_word (le_bytes (Suc n) w) = ucast (ucast w :: byte) OR push_bit 8 (take_bit (8 * n) (drop_bit 8 w))"
    by (simp add: Suc.IH)
  also have "\<dots> = take_bit (8 * Suc n) w"
    by (simp add: low_byte_or_rest algebra_simps)
  finally show ?case .
qed

text \<open>An object of type \<open>size_t\<close> (or \<open>uint64_t\<close>) as the eight bytes \<open>memcpy\<close> copies.\<close>

definition size_bytes :: "size_t \<Rightarrow> byte list" where
  "size_bytes w = le_bytes 8 w"

definition bytes_size :: "byte list \<Rightarrow> size_t" where
  "bytes_size bs = le_word bs"

lemma length_size_bytes [simp, byte_simps]: "length (size_bytes w) = 8"
  by (simp add: size_bytes_def)

lemma bytes_size_size_bytes [simp, byte_simps]: "bytes_size (size_bytes w) = w"
  by (simp add: bytes_size_def size_bytes_def le_word_le_bytes take_bit_word_eq_self)

lemma size_bytes_inj: "size_bytes v = size_bytes w \<longleftrightarrow> v = w"
  by (metis bytes_size_size_bytes)

text \<open>A four-byte \<open>int\<close> or \<open>uint32_t\<close>.\<close>

definition int_bytes :: "uint32 \<Rightarrow> byte list" where
  "int_bytes w = le_bytes 4 (ucast w)"

definition bytes_int :: "byte list \<Rightarrow> uint32" where
  "bytes_int bs = ucast (le_word bs)"

lemma length_int_bytes [simp, byte_simps]: "length (int_bytes w) = 4"
  by (simp add: int_bytes_def)

lemma bytes_int_int_bytes [simp, byte_simps]: "bytes_int (int_bytes w) = w"
  unfolding bytes_int_def int_bytes_def le_word_le_bytes
  by (rule bit_word_eqI) (auto simp: bit_simps)

subsection \<open>Sizes of lists as words\<close>

lemma unat64_lt: "unat (w :: uint64) < 2 ^ 64"
proof -
  have "unat w < 2 ^ LENGTH(64)" by (rule unsigned_less)
  then show ?thesis by simp
qed

lemma byte_lt: "unat (c :: byte) < 256"
proof -
  have "unat c < 2 ^ LENGTH(8)" by (rule unsigned_less)
  then show ?thesis by simp
qed

lemma sint_small:
  assumes "unat (n :: uint64) < 2 ^ 63"
  shows "sint n = int (unat n)"
proof -
  have u: "uint n = int (unat n)" by simp
  have "int (unat n) < int (2 ^ 63)" using assms by (rule of_nat_less_iff [THEN iffD2])
  with u have "uint n < 2 ^ 63" by (simp only: of_nat_power of_nat_numeral)
  moreover have "- (2 ^ 63) \<le> uint n" by (rule order_trans [of _ 0]) simp_all
  ultimately have "signed_take_bit 63 (uint n) = uint n"
    by (intro signed_take_bit_int_eq_self)
  with u show ?thesis by (simp add: sint_uint)
qed

definition wlen :: "'a list \<Rightarrow> size_t" where
  "wlen xs = of_nat (length xs)"

lemma unat_wlen: "length xs < 2 ^ 64 \<Longrightarrow> unat (wlen xs) = length xs"
  by (simp add: wlen_def unat_of_nat)

lemma wlen_nonzero: "d \<noteq> [] \<Longrightarrow> length d < 2 ^ 64 \<Longrightarrow> wlen d \<noteq> 0"
  by (metis unat_wlen length_0_conv unat_0)

lemma wlen_Nil [simp]: "wlen [] = 0"
  by (simp add: wlen_def)

lemma wlen_unat: "unat n = length xs \<Longrightarrow> wlen xs = n"
  unfolding wlen_def by (metis of_nat_unat ucast_id)

subsection \<open>Arrays of records\<close>

lemma nth_update_same [slot_simps]: "i < length xs \<Longrightarrow> xs[i := x] ! i = x"
  by simp

lemma nth_slot: "j < length xs \<Longrightarrow> xs[i := y] ! j = (if i = j then y else xs ! j)"
  by (cases "i = j") simp_all

lemma sum_list_slot [slot_simps]:
  fixes f :: "'a \<Rightarrow> nat"
  shows "i < length xs \<Longrightarrow> sum_list (map f (xs[i := x])) + f (xs ! i) = sum_list (map f xs) + f x"
proof (induction xs arbitrary: i)
  case Nil
  then show ?case by simp
next
  case (Cons a xs)
  then show ?case by (cases i) (auto simp: algebra_simps)
qed

lemma sum_list_slot_le:
  fixes f :: "'a \<Rightarrow> nat"
  shows "i < length xs \<Longrightarrow> f (xs ! i) \<le> sum_list (map f xs)"
  by (simp add: member_le_sum_list)

lemma count_slot [slot_simps]:
  "i < length xs \<Longrightarrow> length (filter P (xs[i := x])) + (if P (xs ! i) then 1 else 0) =
     length (filter P xs) + (if P x then 1 else 0)"
proof (induction xs arbitrary: i)
  case Nil
  then show ?case by simp
next
  case (Cons a xs)
  then show ?case by (cases i) (simp, fastforce)
qed

lemma ball_slot [slot_simps]:
  "\<forall>x \<in> set xs. P x \<Longrightarrow> P y \<Longrightarrow> \<forall>x \<in> set (xs[i := y]). P x"
  by (auto dest: set_update_subset_insert [THEN subsetD])

lemma count_positive: "i < length xs \<Longrightarrow> P (xs ! i) \<Longrightarrow> 0 < length (filter P xs)"
  by (auto simp: filter_empty_conv)

end
