(* ===== verification/Hash.thy ===== *)
theory Hash
  imports Prelude
begin

text \<open>
  The message checksum of \<open>source/hash.h\<close>: djb2 on 64-bit words, with the overflow of
  the multiplication and of the addition replaced by explicit fallbacks. The theory shows
  that no operation wraps around and that on the
  inputs where djb2 itself does not overflow the two agree.
\<close>

definition UINT64_MAX :: uint64 where
  "UINT64_MAX = 18446744073709551615"

definition hash_step :: "uint64 \<Rightarrow> byte \<Rightarrow> uint64" where
  "hash_step hash c =
     (let newchar = ucast c;
          hash = (if UINT64_MAX div 33 < hash then UINT64_MAX mod hash else push_bit 5 hash + hash);
          diff = UINT64_MAX - hash;
          hash = (if UINT64_MAX - hash < newchar then diff else hash)
      in hash + newchar)"

definition hash :: "byte list \<Rightarrow> size_t \<Rightarrow> uint64" where
  "hash data n = foldl hash_step 5381 (take (unat n) data)"

subsection \<open>The same step on natural numbers\<close>

definition hash_step_nat :: "nat \<Rightarrow> nat \<Rightarrow> nat" where
  "hash_step_nat h c =
     (let m = 2 ^ 64 - 1;
          h1 = (if m div 33 < h then m mod h else 33 * h)
      in if m - h1 < c then m - h1 + c else h1 + c)"

definition djb2 :: "byte list \<Rightarrow> nat" where
  "djb2 data = foldl (\<lambda>h c. 33 * h + unat c) 5381 data"

lemma unat_UINT64_MAX [simp]: "unat UINT64_MAX = 2 ^ 64 - 1"
  by (simp add: UINT64_MAX_def)

lemma unat_newchar [simp]: "unat (ucast (c :: byte) :: uint64) = unat c"
proof -
  have "unat c < 2 ^ 64" using byte_lt [of c] by simp
  then show ?thesis by (simp add: unsigned_ucast_eq take_bit_eq_mod)
qed

lemma mul33_no_wrap:
  assumes "\<not> UINT64_MAX div 33 < h"
  shows "unat (push_bit 5 h + h) = 33 * unat h"
proof -
  have "unat h \<le> (2 ^ 64 - 1) div 33"
    using assms by (simp add: not_less word_le_nat_alt unat_div UINT64_MAX_def)
  then have lt: "33 * unat h < 2 ^ 64" by simp
  have "push_bit 5 h + h = 33 * h"
    by (simp add: push_bit_eq_mult)
  with lt show ?thesis by (simp add: unat_word_ariths)
qed

lemma diff_no_wrap: "unat (UINT64_MAX - h) = 2 ^ 64 - 1 - unat h"
proof -
  have "h \<le> UINT64_MAX"
    using unat64_lt [of h] by (simp add: word_le_nat_alt)
  then show ?thesis by (simp add: unat_sub)
qed

lemma add_no_wrap: "unat a + unat b < 2 ^ 64 \<Longrightarrow> unat (a + b :: uint64) = unat a + unat b"
  by (simp add: unat_word_ariths)

text \<open>One round of the checksum computes exactly its formula on unbounded numbers: neither
  the multiplication by 33 nor the additions and subtractions wrap around.\<close>

theorem hash_step_no_wrap:
  "unat (hash_step h c) = hash_step_nat (unat h) (unat c)"
proof -
  define h1 where "h1 = (if UINT64_MAX div 33 < h then UINT64_MAX mod h else push_bit 5 h + h)"
  have h1: "unat h1 = (if (2 ^ 64 - 1) div 33 < unat h then (2 ^ 64 - 1) mod unat h else 33 * unat h)"
    using mul33_no_wrap [of h]
    by (simp add: h1_def word_less_nat_alt unat_div unat_mod UINT64_MAX_def)
  have c: "unat c < 256" by (rule byte_lt)
  have step: "hash_step h c = (if UINT64_MAX - h1 < ucast c then UINT64_MAX - h1 else h1) + ucast c"
    unfolding hash_step_def h1_def Let_def by (rule refl)
  have "unat (hash_step h c) =
      (if 2 ^ 64 - 1 - unat h1 < unat c then 2 ^ 64 - 1 - unat h1 + unat c else unat h1 + unat c)"
  proof (cases "2 ^ 64 - 1 - unat h1 < unat c")
    case True
    with c show ?thesis
      unfolding step by (simp add: word_less_nat_alt diff_no_wrap add_no_wrap)
  next
    case False
    moreover have "unat h1 < 2 ^ 64" by (rule unat64_lt)
    ultimately show ?thesis
      unfolding step by (simp add: word_less_nat_alt diff_no_wrap add_no_wrap)
  qed
  then show ?thesis
    unfolding hash_step_nat_def Let_def h1 [symmetric] .
qed

subsection \<open>Agreement with djb2\<close>

lemma djb2_snoc: "djb2 (xs @ [x]) = 33 * djb2 xs + unat x"
  by (simp add: djb2_def)

lemma djb2_bound: "djb2 xs + 8 \<le> 5389 * 33 ^ length xs"
proof (induction xs rule: rev_induct)
  case Nil
  then show ?case by (simp add: djb2_def)
next
  case (snoc x xs)
  then show ?case using byte_lt [of x] by (simp add: djb2_snoc)
qed

lemma hash_step_nat_plain: "33 * h + c < 2 ^ 64 \<Longrightarrow> hash_step_nat h c = 33 * h + c"
  by (auto simp: hash_step_nat_def Let_def)

lemma hash_foldl_djb2: "djb2 xs < 2 ^ 64 \<Longrightarrow> unat (foldl hash_step 5381 xs) = djb2 xs"
proof (induction xs rule: rev_induct)
  case Nil
  then show ?case by (simp add: djb2_def)
next
  case (snoc x xs)
  from snoc.prems have lt: "33 * djb2 xs + unat x < 2 ^ 64"
    by (simp add: djb2_snoc)
  then have "unat (foldl hash_step 5381 xs) = djb2 xs"
    by (intro snoc.IH) simp
  with lt show ?case
    using hash_step_no_wrap [of "foldl hash_step 5381 xs" x]
    by (simp add: hash_step_nat_plain djb2_snoc)
qed

text \<open>The fallbacks change nothing on short inputs: for up to ten bytes, of any values, the
  checksum is the djb2 hash that the header quotes, computed without overflow.\<close>

theorem hash_is_djb2:
  assumes "length data \<le> 10"
  shows "unat (hash data (wlen data)) = djb2 data"
proof -
  have "djb2 data + 8 \<le> 5389 * 33 ^ length data" by (rule djb2_bound)
  also have "\<dots> \<le> 5389 * 33 ^ 10"
    using assms by (simp add: power_increasing del: power_numeral)
  finally have "djb2 data < 2 ^ 64" by simp
  moreover have "take (unat (wlen data)) data = data"
    using assms by (simp add: unat_wlen)
  ultimately show ?thesis by (simp add: hash_def hash_foldl_djb2)
qed

theorem hash_is_djb2_witness:
  "unat (hash [97, 98, 99] (wlen [97, 98, 99 :: byte])) = djb2 [97, 98, 99] \<and> djb2 [97, 98, 99] = 193485963"
  using hash_is_djb2 [of "[97, 98, 99]"] by (simp add: djb2_def)

text \<open>The checksum only depends on the bytes in use.\<close>

lemma hash_take: "unat n \<le> length data \<Longrightarrow> hash (take (unat n) data) n = hash data n"
  by (simp add: hash_def)

end
