(* ===== verification/Shared_State.thy ===== *)
theory Shared_State
  imports Prelude
begin

text \<open>
  The state shared by the workers, \<open>source/shared_state.c\<close>: read-only configuration,
  the table of connected clients with the name each may write next (\<open>lastop\<close>), and the
  counters. The theory shows that the table is a set of connections with a fixed capacity
  and that the counter agrees with it.
\<close>

record client_state =
  fd :: int
  lastop :: "byte list"

text \<open>\<open>state_mux\<close> is True while some thread holds the mutex and has returned to other work.
  A critical section that releases the mutex is one atomic step and leaves it alone.\<close>

text \<open>The storage counters are \<open>long\<close> in the code; they are kept as 64-bit words and read with
  \<open>sint\<close> where the code compares two of them.\<close>

record shared_state =
  ro_cache_miss_algorithm :: int
  ro_max_storage :: uint64
  ro_max_files :: int
  ro_max_conns :: int
  ro_acceptor_fd :: int
  state_mux :: bool
  clients :: "client_state list"
  current_storage :: uint64
  current_files :: int
  current_conns :: int
  max_reached_storage :: uint64
  max_reached_files :: int
  max_reached_conns :: int
  cache_miss_execs :: uint32
  lru_clock_pos :: nat

definition init_shared_state :: "allocator \<Rightarrow> int \<Rightarrow> uint64 \<Rightarrow> int \<Rightarrow> int \<Rightarrow> int \<Rightarrow> errno + shared_state" where
  "init_shared_state alloc cache_miss max_storage max_files max_conns acceptor =
     (if \<not> alloc (of_int (260 * max_conns)) then Inl ENOMEM
      else Inr \<lparr>ro_cache_miss_algorithm = cache_miss, ro_max_storage = max_storage,
                ro_max_files = max_files, ro_max_conns = max_conns, ro_acceptor_fd = acceptor,
                state_mux = False,
                clients = replicate (nat max_conns) \<lparr>fd = -1, lastop = []\<rparr>,
                current_storage = 0, current_files = 0, current_conns = 0,
                max_reached_storage = 0, max_reached_files = 0, max_reached_conns = 0,
                cache_miss_execs = 0, lru_clock_pos = 0\<rparr>)"

subsection \<open>The client table\<close>

fun assign_slot :: "int \<Rightarrow> client_state list \<Rightarrow> client_state list option" where
  "assign_slot conn [] = None"
| "assign_slot conn (c # cs) =
     (if fd c = -1 then Some (c\<lparr>fd := conn, lastop := []\<rparr> # cs)
      else map_option ((#) c) (assign_slot conn cs))"

definition add_client :: "shared_state \<Rightarrow> int \<Rightarrow> (errno + unit) \<times> shared_state" where
  "add_client ss conn =
     (if conn < 0 then (Inl EINVAL, ss)
      else if current_conns ss < ro_max_conns ss then
        (case assign_slot conn (clients ss) of
           None \<Rightarrow> (Inl ENFILE, ss)
         | Some cs \<Rightarrow>
             (let n = current_conns ss + 1 in
              (Inr (), ss\<lparr>clients := cs, current_conns := n,
                          max_reached_conns := (if max_reached_conns ss < n then n else max_reached_conns ss)\<rparr>)))
      else (Inl ENFILE, ss))"

fun release_slot :: "int \<Rightarrow> client_state list \<Rightarrow> client_state list option" where
  "release_slot conn [] = None"
| "release_slot conn (c # cs) =
     (if fd c = conn then Some (c\<lparr>fd := -1\<rparr> # cs)
      else map_option ((#) c) (release_slot conn cs))"

definition remove_client :: "shared_state \<Rightarrow> int \<Rightarrow> (errno + unit) \<times> shared_state" where
  "remove_client ss conn =
     (if conn < 0 then (Inl EINVAL, ss)
      else if 0 < current_conns ss then
        (case release_slot conn (clients ss) of
           None \<Rightarrow> (Inl ENOENT, ss)
         | Some cs \<Rightarrow> (Inr (), ss\<lparr>clients := cs, current_conns := current_conns ss - 1\<rparr>))
      else (Inl ENOENT, ss))"

text \<open>\<open>get_client_lastop\<close> returns a pointer into the table; the model returns the index of the
  entry, and writes through the pointer update \<open>clients ! i\<close>.\<close>

fun find_client :: "nat \<Rightarrow> int \<Rightarrow> client_state list \<Rightarrow> nat option" where
  "find_client i conn [] = None"
| "find_client i conn (c # cs) = (if fd c = conn then Some i else find_client (Suc i) conn cs)"

definition get_client_lastop :: "shared_state \<Rightarrow> int \<Rightarrow> errno + nat" where
  "get_client_lastop ss conn =
     (if conn < 0 then Inl EINVAL
      else case find_client 0 conn (clients ss) of None \<Rightarrow> Inl ENOENT | Some i \<Rightarrow> Inr i)"

definition get_current_connections :: "shared_state \<Rightarrow> int" where
  "get_current_connections ss = current_conns ss"

subsection \<open>Invariant\<close>

definition fds :: "client_state list \<Rightarrow> int list" where
  "fds cs = filter (\<lambda>x. x \<noteq> -1) (map fd cs)"

definition conns :: "shared_state \<Rightarrow> int set" where
  "conns ss = set (fds (clients ss))"

definition conns_inv :: "shared_state \<Rightarrow> bool" where
  "conns_inv ss \<longleftrightarrow>
     0 \<le> ro_max_conns ss \<and> length (clients ss) = nat (ro_max_conns ss)
   \<and> distinct (fds (clients ss)) \<and> (\<forall>x \<in> conns ss. 0 \<le> x)
   \<and> current_conns ss = int (length (fds (clients ss)))
   \<and> current_conns ss \<le> max_reached_conns ss \<and> max_reached_conns ss \<le> ro_max_conns ss"

lemma fds_Nil [simp]: "fds [] = []" and
  fds_Cons [simp]: "fds (c # cs) = (if fd c = -1 then fds cs else fd c # fds cs)"
  by (simp_all add: fds_def)

lemma length_fds_le: "length (fds cs) \<le> length cs"
  unfolding fds_def by (metis length_filter_le length_map)

lemma assign_slot_None: "assign_slot conn cs = None \<longleftrightarrow> length (fds cs) = length cs"
proof (induction cs)
  case Nil
  then show ?case by simp
next
  case (Cons c cs)
  then show ?case using length_fds_le [of cs] by auto
qed

lemma assign_slot_Some:
  "assign_slot conn cs = Some cs' \<Longrightarrow> conn \<noteq> -1 \<Longrightarrow>
   length cs' = length cs \<and> length (fds cs') = Suc (length (fds cs))
   \<and> set (fds cs') = insert conn (set (fds cs))
   \<and> (conn \<notin> set (fds cs) \<longrightarrow> distinct (fds cs) \<longrightarrow> distinct (fds cs'))"
  by (induction cs arbitrary: cs') (auto split: if_splits)

lemma release_slot_None: "conn \<noteq> -1 \<Longrightarrow> release_slot conn cs = None \<longleftrightarrow> conn \<notin> set (fds cs)"
  by (induction cs) auto

lemma release_slot_Some:
  "release_slot conn cs = Some cs' \<Longrightarrow> conn \<noteq> -1 \<Longrightarrow> distinct (fds cs) \<Longrightarrow>
   length cs' = length cs \<and> Suc (length (fds cs')) = length (fds cs)
   \<and> set (fds cs') = set (fds cs) - {conn} \<and> distinct (fds cs')"
proof (induction cs arbitrary: cs')
  case Nil
  then show ?case by simp
next
  case (Cons c cs)
  show ?case
  proof (cases "fd c = conn")
    case True
    with Cons.prems show ?thesis by auto
  next
    case False
    with Cons.prems obtain ds where ds: "release_slot conn cs = Some ds" "cs' = c # ds" by auto
    with Cons.IH [OF ds(1)] Cons.prems False show ?thesis by auto
  qed
qed

lemma find_client_spec:
  "conn \<noteq> -1 \<Longrightarrow>
   case find_client k conn cs of
     None \<Rightarrow> conn \<notin> set (fds cs)
   | Some i \<Rightarrow> k \<le> i \<and> i < k + length cs \<and> fd (cs ! (i - k)) = conn"
proof (induction cs arbitrary: k)
  case Nil
  then show ?case by simp
next
  case (Cons c cs)
  have IH: "case find_client (Suc k) conn cs of
     None \<Rightarrow> conn \<notin> set (fds cs)
   | Some i \<Rightarrow> Suc k \<le> i \<and> i < Suc k + length cs \<and> fd (cs ! (i - Suc k)) = conn"
    by (rule Cons.IH [OF Cons.prems])
  show ?case
  proof (cases "fd c = conn")
    case True
    then show ?thesis by simp
  next
    case False
    with IH show ?thesis by (auto simp: nth_Cons' split: option.splits)
  qed
qed

subsection \<open>The interface: a bounded set of connections\<close>

locale connection_table =
  fixes add remove :: "'s \<Rightarrow> int \<Rightarrow> (errno + unit) \<times> 's"
    and members :: "'s \<Rightarrow> int set"
    and capacity :: "'s \<Rightarrow> nat"
    and inv :: "'s \<Rightarrow> bool"
  assumes add_ok: "inv s \<Longrightarrow> 0 \<le> c \<Longrightarrow> c \<notin> members s \<Longrightarrow> card (members s) < capacity s \<Longrightarrow>
            \<exists>s'. add s c = (Inr (), s') \<and> inv s' \<and> members s' = insert c (members s) \<and> capacity s' = capacity s"
    and add_full: "inv s \<Longrightarrow> 0 \<le> c \<Longrightarrow> capacity s \<le> card (members s) \<Longrightarrow> add s c = (Inl ENFILE, s)"
    and remove_ok: "inv s \<Longrightarrow> 0 \<le> c \<Longrightarrow> c \<in> members s \<Longrightarrow>
            \<exists>s'. remove s c = (Inr (), s') \<and> inv s' \<and> members s' = members s - {c} \<and> capacity s' = capacity s"
    and remove_absent: "inv s \<Longrightarrow> 0 \<le> c \<Longrightarrow> c \<notin> members s \<Longrightarrow> remove s c = (Inl ENOENT, s)"
    and finite_members: "finite (members s)"
begin

text \<open>A session leaves the table as it found it, and a full table accepts a client again after
  one has left.\<close>

lemma session:
  assumes "inv s" "0 \<le> c" "c \<notin> members s" "card (members s) < capacity s"
  shows "\<exists>s1 s2. add s c = (Inr (), s1) \<and> remove s1 c = (Inr (), s2) \<and> inv s2 \<and> members s2 = members s"
proof -
  obtain s1 where s1: "add s c = (Inr (), s1)" "inv s1" "members s1 = insert c (members s)"
    using add_ok [OF assms] by blast
  obtain s2 where "remove s1 c = (Inr (), s2)" "inv s2" "members s2 = members s1 - {c}"
    using remove_ok [OF s1(2) assms(2)] s1(3) by blast
  with s1 assms(3) show ?thesis by auto
qed

lemma replace_client:
  assumes "inv s" "0 \<le> c" "0 \<le> d" "c \<in> members s" "d \<notin> members s" "card (members s) = capacity s"
  shows "add s d = (Inl ENFILE, s)"
    and "\<exists>s1 s2. remove s c = (Inr (), s1) \<and> add s1 d = (Inr (), s2) \<and> inv s2
           \<and> members s2 = insert d (members s - {c})"
proof -
  show "add s d = (Inl ENFILE, s)"
    using add_full [OF assms(1,3)] assms(6) by simp
  obtain s1 where s1: "remove s c = (Inr (), s1)" "inv s1" "members s1 = members s - {c}" "capacity s1 = capacity s"
    using remove_ok [OF assms(1,2,4)] by blast
  have "card (members s1) < capacity s1"
    using s1(3,4) assms(4,6) card_Diff1_less [OF finite_members assms(4)] by simp
  then show "\<exists>s1 s2. remove s c = (Inr (), s1) \<and> add s1 d = (Inr (), s2) \<and> inv s2
           \<and> members s2 = insert d (members s - {c})"
    using s1 add_ok [OF s1(2) assms(3)] assms(5) by auto
qed

end

lemma card_conns: "conns_inv ss \<Longrightarrow> card (conns ss) = length (fds (clients ss))"
  by (simp add: conns_inv_def conns_def distinct_card)

lemma add_client_ok:
  assumes inv: "conns_inv ss" and c: "0 \<le> c" "c \<notin> conns ss" and room: "card (conns ss) < nat (ro_max_conns ss)"
  shows "\<exists>s'. add_client ss c = (Inr (), s') \<and> conns_inv s' \<and> conns s' = insert c (conns ss)
           \<and> nat (ro_max_conns s') = nat (ro_max_conns ss)"
proof -
  have len: "length (fds (clients ss)) < length (clients ss)"
    using inv room by (simp add: card_conns conns_inv_def)
  then obtain cs where cs: "assign_slot c (clients ss) = Some cs"
    using assign_slot_None [of c "clients ss"] by (cases "assign_slot c (clients ss)") auto
  have lt: "current_conns ss < ro_max_conns ss"
    using inv len by (simp add: conns_inv_def)
  have new: "length cs = length (clients ss)" "length (fds cs) = Suc (length (fds (clients ss)))"
    "set (fds cs) = insert c (conns ss)" "distinct (fds cs)"
    using assign_slot_Some [OF cs] c inv by (auto simp: conns_def conns_inv_def)
  with inv c cs lt show ?thesis
    by (auto simp: add_client_def conns_inv_def conns_def Let_def)
qed

lemma add_client_full:
  assumes "conns_inv ss" and "0 \<le> c" and "nat (ro_max_conns ss) \<le> card (conns ss)"
  shows "add_client ss c = (Inl ENFILE, ss)"
  using assms length_fds_le [of "clients ss"]
  by (auto simp: add_client_def card_conns conns_inv_def)

lemma remove_client_ok:
  assumes inv: "conns_inv ss" and c: "0 \<le> c" "c \<in> conns ss"
  shows "\<exists>s'. remove_client ss c = (Inr (), s') \<and> conns_inv s' \<and> conns s' = conns ss - {c}
           \<and> nat (ro_max_conns s') = nat (ro_max_conns ss)"
proof -
  obtain cs where cs: "release_slot c (clients ss) = Some cs"
    using release_slot_None [of c "clients ss"] c by (cases "release_slot c (clients ss)") (auto simp: conns_def)
  have new: "length cs = length (clients ss)" "Suc (length (fds cs)) = length (fds (clients ss))"
    "set (fds cs) = conns ss - {c}" "distinct (fds cs)"
    using release_slot_Some [OF cs] c inv by (auto simp: conns_def conns_inv_def)
  have "0 < current_conns ss"
    using inv new(2) by (simp add: conns_inv_def) (metis list.size(3) nat.distinct(1))
  with inv c cs new show ?thesis
    by (auto simp: remove_client_def conns_inv_def conns_def)
qed

lemma remove_client_absent:
  "conns_inv ss \<Longrightarrow> 0 \<le> c \<Longrightarrow> c \<notin> conns ss \<Longrightarrow> remove_client ss c = (Inl ENOENT, ss)"
  using release_slot_None [of c "clients ss"] by (auto simp: remove_client_def conns_def)

interpretation clients: connection_table add_client remove_client conns "\<lambda>ss. nat (ro_max_conns ss)" conns_inv
proof
  show "finite (conns s)" for s by (simp add: conns_def)
qed (fact add_client_ok add_client_full remove_client_ok remove_client_absent)+

lemma conns_inv_init:
  assumes "0 \<le> max_conns" and "init_shared_state alloc alg st fl max_conns acc = Inr ss"
  shows "conns_inv ss \<and> conns ss = {}"
proof -
  have "fds (replicate n \<lparr>fd = -1, lastop = xs\<rparr>) = []" for n xs
    by (induction n) simp_all
  with assms show ?thesis
    by (auto simp: init_shared_state_def conns_inv_def conns_def split: if_splits)
qed

lemma get_client_lastop_Inr:
  "conns_inv ss \<Longrightarrow> get_client_lastop ss conn = Inr i \<Longrightarrow> i < length (clients ss) \<and> fd (clients ss ! i) = conn"
  using find_client_spec [where conn = conn and k = 0 and cs = "clients ss"]
  by (auto simp: get_client_lastop_def split: if_splits option.splits)

lemma get_client_lastop_member:
  "conns_inv ss \<Longrightarrow> conn \<in> conns ss \<Longrightarrow> \<exists>i. get_client_lastop ss conn = Inr i"
  using find_client_spec [where conn = conn and k = 0 and cs = "clients ss"]
  by (auto simp: get_client_lastop_def conns_inv_def conns_def split: option.splits)

text \<open>The client table refuses a connection exactly when it is full, and then changes
  nothing; otherwise it admits a new connection, and removing that connection restores the
  set of connections and the counts.\<close>

theorem client_session:
  assumes "conns_inv ss" and "0 \<le> c" and "c \<notin> conns ss"
  shows "if card (conns ss) < nat (ro_max_conns ss)
         then \<exists>s1 s2. add_client ss c = (Inr (), s1) \<and> conns_inv s1 \<and> conns s1 = insert c (conns ss)
                \<and> remove_client s1 c = (Inr (), s2) \<and> conns_inv s2 \<and> conns s2 = conns ss
         else add_client ss c = (Inl ENFILE, ss)"
proof (cases "card (conns ss) < nat (ro_max_conns ss)")
  case True
  obtain s1 where s1: "add_client ss c = (Inr (), s1)" "conns_inv s1" "conns s1 = insert c (conns ss)"
    using add_client_ok [OF assms True] by blast
  moreover obtain s2 where "remove_client s1 c = (Inr (), s2)" "conns_inv s2" "conns s2 = conns s1 - {c}"
    using remove_client_ok [OF s1(2) assms(2)] s1(3) by auto
  ultimately show ?thesis using True assms(3) by auto
next
  case False
  then show ?thesis using add_client_full [OF assms(1,2)] by simp
qed

definition ex_table :: "int list \<Rightarrow> shared_state" where
  "ex_table xs = \<lparr>ro_cache_miss_algorithm = 0, ro_max_storage = 10, ro_max_files = 4, ro_max_conns = 2,
     ro_acceptor_fd = 3, state_mux = False, clients = map (\<lambda>x. \<lparr>fd = x, lastop = []\<rparr>) xs,
     current_storage = 0, current_files = 0, current_conns = int (length (filter (\<lambda>x. x \<noteq> -1) xs)),
     max_reached_storage = 0, max_reached_files = 0, max_reached_conns = 2, cache_miss_execs = 0, lru_clock_pos = 0\<rparr>"

theorem client_session_witness:
  "(\<exists>s1 s2. add_client (ex_table [5, -1]) 7 = (Inr (), s1) \<and> conns_inv s1 \<and> conns s1 = insert 7 {5}
      \<and> remove_client s1 7 = (Inr (), s2) \<and> conns_inv s2 \<and> conns s2 = {5})
   \<and> add_client (ex_table [5, 6]) 7 = (Inl ENFILE, ex_table [5, 6])"
  using client_session [of "ex_table [5, -1]" 7] client_session [of "ex_table [5, 6]" 7]
  by (simp add: ex_table_def conns_inv_def conns_def fds_def)

end
