(* ===== verification/Server_Loop.thy ===== *)
theory Server_Loop
  imports Shared_State
begin

text \<open>
  The main thread of the server (\<open>source/server/server_loop.c\<close>, \<open>server_subcalls.c\<close>,
  \<open>server_threads.c\<close>, \<open>server_socket.c\<close> and the loop of \<open>exec/server.c\<close>): the array of polled
  descriptors, handing a ready connection to an idle worker, taking connections back from the
  workers that have finished, and the signals. The mailbox of a worker is the record
  \<open>worker_data\<close> of \<open>source/worker.h\<close>; every access to it is one step under its mutex.
\<close>

subsection \<open>Mailboxes\<close>

definition WORKER_IDLE :: int where "WORKER_IDLE = 0"
definition WORKER_DO :: int where "WORKER_DO = 1"
definition WORKER_DONE :: int where "WORKER_DONE = 2"

lemmas worker_consts [simp] = WORKER_IDLE_def WORKER_DO_def WORKER_DONE_def

text \<open>The pointers to the files, the log and the shared state are the same for all workers and not
  repeated here.\<close>

record worker_data =
  do_work :: int
  w_exit :: bool
  in_conn :: int
  add_conn :: int
  thread_id :: int

definition init_worker_data :: "int \<Rightarrow> nat \<Rightarrow> errno + worker_data" where
  "init_worker_data tid file_num =
     (if file_num = 0 then Inl EINVAL
      else Inr \<lparr>do_work = WORKER_IDLE, w_exit = False, in_conn = -1, add_conn = -1, thread_id = tid\<rparr>)"

text \<open>The allocations and the creation of each thread may fail; the result of \<open>init_worker_data\<close> is
  not looked at, so a block it did not fill keeps what \<open>malloc\<close> returned, \<open>raw\<close>.\<close>

definition prepare_threads ::
    "bool \<Rightarrow> (nat \<Rightarrow> bool) \<Rightarrow> worker_data \<Rightarrow> nat \<Rightarrow> nat \<Rightarrow> worker_data list option" where
  "prepare_threads mem spawn raw threads_count file_num =
     (if mem \<and> (\<forall>i \<in> set [0..<threads_count]. spawn i)
      then Some (map (\<lambda>i. case init_worker_data (int i) file_num of Inr w \<Rightarrow> w | Inl _ \<Rightarrow> raw) [0..<threads_count])
      else None)"

subsection \<open>The poll array\<close>

text \<open>The descriptors of the array: one entry for each connection, then the acceptor, then the file of
  signals. \<open>maxc\<close> is \<open>config->max_connections\<close>, so \<open>poll_size\<close> is \<open>maxc + 2\<close>.\<close>

definition initialize_poll_array :: "bool \<Rightarrow> int \<Rightarrow> int \<Rightarrow> nat \<Rightarrow> int list option" where
  "initialize_poll_array mem sck signal_fd maxc =
     (if mem then Some (replicate maxc (-1) @ [sck, signal_fd]) else None)"

text \<open>A connection for which there is no free entry is dropped without notice.\<close>

fun add_connection_to_poll :: "nat \<Rightarrow> int \<Rightarrow> int list \<Rightarrow> int list" where
  "add_connection_to_poll 0 conn ps = ps"
| "add_connection_to_poll (Suc k) conn [] = []"
| "add_connection_to_poll (Suc k) conn (p # ps) =
     (if p = -1 then conn # ps else p # add_connection_to_poll k conn ps)"

subsection \<open>Giving work and taking it back\<close>

fun thread_assign :: "int \<Rightarrow> 'a worker_data_scheme list \<Rightarrow> 'a worker_data_scheme list option" where
  "thread_assign conn [] = None"
| "thread_assign conn (w # ws) =
     (if do_work w = WORKER_IDLE then Some (w\<lparr>do_work := WORKER_DO, in_conn := conn\<rparr> # ws)
      else map_option ((#) w) (thread_assign conn ws))"

text \<open>The state of the main thread. \<open>closed\<close> are the descriptors it has closed.\<close>

record 'w main_state =
  poll_array :: "int list"
  threads_data :: "'w list"
  working_threads :: int
  m_exit :: bool
  m_sighup :: bool
  closed :: "int set"

text \<open>The result is the C result, 0 or -1; after -1 the program exits.\<close>

definition thread_assign_work ::
    "int \<Rightarrow> 'a worker_data_scheme main_state \<Rightarrow> int \<times> 'a worker_data_scheme main_state" where
  "thread_assign_work conn ms =
     (case thread_assign conn (threads_data ms) of
        None \<Rightarrow> (-1, ms)
      | Some ws \<Rightarrow> (0, ms\<lparr>threads_data := ws, working_threads := working_threads ms + 1\<rparr>))"

definition after_poll_acceptor ::
    "nat \<Rightarrow> 'a worker_data_scheme main_state \<Rightarrow> int \<times> 'a worker_data_scheme main_state" where
  "after_poll_acceptor maxc ms =
     (let work_conn = poll_array ms ! maxc
      in thread_assign_work work_conn (ms\<lparr>poll_array := (poll_array ms)[maxc := -1]\<rparr>))"

text \<open>\<open>ready i\<close>: the entry reported input. The first such entry whose descriptor is not -1 ends the
  search and is taken out of the array.\<close>

fun find_ready :: "nat \<Rightarrow> (nat \<Rightarrow> bool) \<Rightarrow> nat \<Rightarrow> int list \<Rightarrow> int \<times> int list" where
  "find_ready 0 ready i ps = (-1, ps)"
| "find_ready (Suc k) ready i ps =
     (if ready i
      then (if ps ! i = -1 then find_ready k ready (Suc i) ps else (ps ! i, ps[i := -1]))
      else find_ready k ready (Suc i) ps)"

definition after_poll_connection ::
    "nat \<Rightarrow> (nat \<Rightarrow> bool) \<Rightarrow> 'a worker_data_scheme main_state \<Rightarrow> int \<times> 'a worker_data_scheme main_state" where
  "after_poll_connection maxc ready ms =
     (case find_ready maxc ready 0 (poll_array ms) of
        (work_conn, ps) \<Rightarrow>
          if work_conn = -1 then (-1, ms\<lparr>poll_array := ps\<rparr>)
          else thread_assign_work work_conn (ms\<lparr>poll_array := ps\<rparr>))"

text \<open>What is done with the connections of one finished worker.\<close>

definition give_back :: "nat \<Rightarrow> int \<Rightarrow> int \<Rightarrow> int \<Rightarrow> int list \<Rightarrow> int list" where
  "give_back maxc acceptor work_conn new_conn ps =
     (if work_conn = acceptor
      then (let ps = ps[maxc := work_conn]
            in if 0 < new_conn then add_connection_to_poll maxc new_conn ps else ps)
      else if 0 < work_conn then add_connection_to_poll maxc work_conn ps
      else ps)"

fun finish_all ::
    "nat \<Rightarrow> int \<Rightarrow> 'a worker_data_scheme list \<Rightarrow> int list \<Rightarrow> int \<Rightarrow> 'a worker_data_scheme list \<times> int list \<times> int" where
  "finish_all maxc acceptor [] ps n = ([], ps, n)"
| "finish_all maxc acceptor (w # ws) ps n =
     (if do_work w = WORKER_DONE
      then (case finish_all maxc acceptor ws (give_back maxc acceptor (in_conn w) (add_conn w) ps) (n - 1) of
              (ws', ps', n') \<Rightarrow> (w\<lparr>do_work := WORKER_IDLE\<rparr> # ws', ps', n'))
      else (case finish_all maxc acceptor ws ps n of (ws', ps', n') \<Rightarrow> (w # ws', ps', n')))"

definition thread_has_finished ::
    "nat \<Rightarrow> int \<Rightarrow> 'a worker_data_scheme main_state \<Rightarrow> int \<times> 'a worker_data_scheme main_state" where
  "thread_has_finished maxc acceptor ms =
     (case finish_all maxc acceptor (threads_data ms) (poll_array ms) (working_threads ms) of
        (ws, ps, n) \<Rightarrow> (0, ms\<lparr>threads_data := ws, poll_array := ps, working_threads := n\<rparr>))"

subsection \<open>Signals and the end\<close>

text \<open>\<open>close\<close> fails on a descriptor that is not open.\<close>

definition close_fd :: "int \<Rightarrow> 'w main_state \<Rightarrow> int \<times> 'w main_state" where
  "close_fd d ms =
     (if d < 0 \<or> d \<in> closed ms then (-1, ms) else (0, ms\<lparr>closed := insert d (closed ms)\<rparr>))"

definition stop_all_threads :: "'a worker_data_scheme main_state \<Rightarrow> 'a worker_data_scheme main_state" where
  "stop_all_threads ms = ms\<lparr>threads_data := map (\<lambda>w. w\<lparr>w_exit := True\<rparr>) (threads_data ms)\<rparr>"

fun close_all_client_connections :: "nat \<Rightarrow> int list \<Rightarrow> 'w main_state \<Rightarrow> int \<times> 'w main_state" where
  "close_all_client_connections 0 ps ms = (0, ms)"
| "close_all_client_connections (Suc k) [] ms = (0, ms)"
| "close_all_client_connections (Suc k) (p # ps) ms =
     (if p \<noteq> -1
      then (case close_fd p ms of
              (r, ms) \<Rightarrow> if r = -1 then (-1, ms) else close_all_client_connections k ps ms)
      else close_all_client_connections k ps ms)"

datatype signal = SIGINT | SIGQUIT | SIGHUP | SIGUSR1

text \<open>\<open>None\<close>: the main thread waits for \<open>state_mux\<close>, which a worker left locked.\<close>

definition sighup_do ::
    "nat \<Rightarrow> int \<Rightarrow> shared_state \<Rightarrow> 'w main_state \<Rightarrow> (int \<times> 'w main_state) option" where
  "sighup_do maxc acceptor ss ms =
     (if state_mux ss then None
      else Some (case close_fd acceptor ms of
              (r, ms) \<Rightarrow>
                if r = -1 then (-1, ms)
                else (0, ms\<lparr>poll_array := (poll_array ms)[maxc := -1], m_sighup := True\<rparr>)))"

text \<open>Waiting for the threads to end changes nothing.\<close>

definition after_poll_signal ::
    "nat \<Rightarrow> int \<Rightarrow> signal \<Rightarrow> shared_state \<Rightarrow> 'a worker_data_scheme main_state
       \<Rightarrow> (int \<times> 'a worker_data_scheme main_state) option" where
  "after_poll_signal maxc acceptor sg ss ms =
     (if sg = SIGINT \<or> sg = SIGQUIT
      then (case close_fd (poll_array ms ! (maxc + 1)) ms of
              (r, ms) \<Rightarrow>
                if r = -1 then Some (-1, ms)
                else if state_mux ss then None
                else Some (case close_fd acceptor ms of
                        (r, ms) \<Rightarrow>
                          if r = -1 then (-1, ms)
                          else (let ms = stop_all_threads (ms\<lparr>poll_array := (poll_array ms)[maxc := -1]\<rparr>)
                                in case close_all_client_connections maxc (poll_array ms) ms of
                                     (r, ms) \<Rightarrow> if r = -1 then (-1, ms) else (0, ms\<lparr>m_exit := True\<rparr>))))
      else if sg = SIGHUP then sighup_do maxc acceptor ss ms
      else Some (thread_has_finished maxc acceptor ms))"

definition sighup_handler :: "nat \<Rightarrow> 'a worker_data_scheme main_state \<Rightarrow> int \<times> 'a worker_data_scheme main_state" where
  "sighup_handler maxc ms =
     (case close_fd (poll_array ms ! (maxc + 1)) (stop_all_threads ms) of
        (r, ms) \<Rightarrow> if r = -1 then (-1, ms) else (0, ms\<lparr>m_exit := True\<rparr>))"

text \<open>One round of the loop. \<open>poll\<close> looks at all entries while a worker is idle and otherwise only at
  the signals; \<open>ready\<close> is what it reports.\<close>

definition poll_call :: "nat \<Rightarrow> (nat \<Rightarrow> bool) \<Rightarrow> 'w main_state \<Rightarrow> nat \<Rightarrow> bool" where
  "poll_call maxc ready ms =
     (if working_threads ms < int (length (threads_data ms)) then ready
      else (\<lambda>i. i = maxc + 1 \<and> ready i))"

definition server_round ::
    "nat \<Rightarrow> int \<Rightarrow> signal \<Rightarrow> (nat \<Rightarrow> bool) \<Rightarrow> shared_state \<Rightarrow> 'a worker_data_scheme main_state
       \<Rightarrow> (int \<times> 'a worker_data_scheme main_state) option" where
  "server_round maxc acceptor sg ready ss ms =
     (if state_mux ss then None
      else if m_sighup ms \<and> get_current_connections ss = 0 then Some (sighup_handler maxc ms)
      else (let ready = poll_call maxc ready ms in
            if ready (maxc + 1) then after_poll_signal maxc acceptor sg ss ms
            else if ready maxc then Some (after_poll_acceptor maxc ms)
            else Some (after_poll_connection maxc ready ms)))"

end
