(* ===== verification/Compression.thy ===== *)
theory Compression
  imports Prelude
begin

text \<open>
  The compression layer of \<open>source/server/server_compression.c\<close>. Both directions clone
  their input; what the file store relies on is the contract of the locale \<open>codec\<close>.
  The out-parameters are part of the result, because a failing call writes them too.
\<close>

definition compression_init :: "errno + unit" where
  "compression_init = Inr ()"

definition compression_destroy :: "errno + unit" where
  "compression_destroy = Inr ()"

text \<open>\<open>check_param\<close>: \<open>Inr True\<close> is the return value 1 (nothing to do), \<open>Inr False\<close> is 0.\<close>

definition check_param ::
    "byte list option \<Rightarrow> size_t \<Rightarrow> byte list option \<times> size_t \<Rightarrow> (errno + bool) \<times> (byte list option \<times> size_t)" where
  "check_param inp in_size out =
     (if inp = None \<and> in_size = 0 then (Inr True, (None, 0))
      else if inp = None \<and> in_size \<noteq> 0 then (Inl EINVAL, out)
      else (Inr False, out))"

definition clone_data ::
    "allocator \<Rightarrow> byte list option \<Rightarrow> size_t \<Rightarrow> (errno + unit) \<times> (byte list option \<times> size_t)" where
  "clone_data alloc inp in_size =
     (if alloc in_size then (Inr (), (Some (take (unat in_size) (block inp)), in_size))
      else (Inl ENOMEM, (None, in_size)))"

definition compress_data ::
    "allocator \<Rightarrow> byte list option \<Rightarrow> size_t \<Rightarrow> byte list option \<times> size_t
       \<Rightarrow> (errno + unit) \<times> (byte list option \<times> size_t)" where
  "compress_data alloc inp in_size out =
     (case check_param inp in_size out of
        (Inl e, out') \<Rightarrow> (Inl e, out')
      | (Inr True, out') \<Rightarrow> (Inr (), out')
      | (Inr False, out') \<Rightarrow> clone_data alloc inp in_size)"

definition decompress_data ::
    "allocator \<Rightarrow> byte list option \<Rightarrow> size_t \<Rightarrow> byte list option \<times> size_t
       \<Rightarrow> (errno + unit) \<times> (byte list option \<times> size_t)" where
  "decompress_data alloc inp in_size out =
     (case check_param inp in_size out of
        (Inl e, out') \<Rightarrow> (Inl e, out')
      | (Inr True, out') \<Rightarrow> (Inr (), out')
      | (Inr False, out') \<Rightarrow> clone_data alloc inp in_size)"

lemma compress_data_ok:
  "length xs = unat n \<Longrightarrow> compress_data mem_ok (Some xs) n out = (Inr (), (Some xs, n))"
  by (simp add: compress_data_def check_param_def clone_data_def mem_ok_def)

lemma decompress_data_ok:
  "length xs = unat n \<Longrightarrow> decompress_data mem_ok (Some xs) n out = (Inr (), (Some xs, n))"
  by (simp add: decompress_data_def check_param_def clone_data_def mem_ok_def)

subsection \<open>The contract of a codec\<close>

locale codec =
  fixes enc dec :: "byte list \<Rightarrow> size_t \<Rightarrow> byte list option \<times> size_t
                      \<Rightarrow> (errno + unit) \<times> (byte list option \<times> size_t)"
  assumes enc_ok: "length xs = unat n \<Longrightarrow> \<exists>ys m. enc xs n out = (Inr (), (Some ys, m)) \<and> length ys = unat m"
    and dec_enc: "length xs = unat n \<Longrightarrow> enc xs n out = (Inr (), (Some ys, m)) \<Longrightarrow>
            dec ys m out' = (Inr (), (Some xs, n))"
begin

text \<open>A lossless codec never gives two inputs the same image.\<close>

lemma enc_inj:
  assumes "length xs = unat n" and "length ys = unat m"
    and "enc xs n out = enc ys m out'"
  shows "xs = ys \<and> n = m"
proof -
  obtain zs k where z: "enc xs n out = (Inr (), (Some zs, k))"
    using enc_ok [OF assms(1)] by blast
  with assms(3) have z': "enc ys m out' = (Inr (), (Some zs, k))" by simp
  from dec_enc [OF assms(1) z, of out] dec_enc [OF assms(2) z', of out]
  show ?thesis by simp
qed

end

interpretation clone: codec "\<lambda>xs. compress_data mem_ok (Some xs)" "\<lambda>xs. decompress_data mem_ok (Some xs)"
  by unfold_locales (auto simp: compress_data_ok decompress_data_ok)

end
