(* ===== verification/File_Store.thy ===== *)
theory File_Store
  imports Compression
begin

text \<open>
  The in-memory file of \<open>source/file.c\<close> and \<open>source/file.h\<close>. A slot holds a stored
  copy (\<open>data\<close>) and, while the file is open, a working copy (\<open>open_data\<close>); an
  \<open>open_size\<close> of -1 marks a closed file and an \<open>owner\<close> of -1 an empty slot. Every
  operation runs under the slot's mutex, so one call is one atomic step and the mutex is not
  a field of the model. All pointers a caller passes are valid; the NULL checks on them have
  no branch here.
\<close>

subsection \<open>The structure\<close>

definition OWNER_NEXIST :: int where "OWNER_NEXIST = -1"
definition OWNER_NULL :: int where "OWNER_NULL = 0"
definition OWNER_ADMIN :: int where "OWNER_ADMIN = 1024"
definition FILE_NAME_MAX_SIZE :: nat where "FILE_NAME_MAX_SIZE = 256"

lemmas owner_consts [simp] = OWNER_NEXIST_def OWNER_NULL_def OWNER_ADMIN_def

text \<open>\<open>name\<close> is the C string in the \<open>name\<close> array.\<close>

record file_t =
  owner :: int
  name :: "byte list"
  data_size :: size_t
  data :: "byte list option"
  open_size :: size_t
  open_data :: "byte list option"
  new_size :: size_t
  fifo_creation_time :: int
  lfu_frequency :: uint32
  lru_clock :: int

definition init_file_struct :: file_t where
  "init_file_struct =
     \<lparr>owner = OWNER_NEXIST, name = [], data_size = 0, data = None, open_size = -1, open_data = None,
      new_size = 0, fifo_creation_time = 0, lfu_frequency = 0, lru_clock = 0\<rparr>"

definition reset_file_struct :: "file_t \<Rightarrow> file_t" where
  "reset_file_struct f =
     f\<lparr>owner := OWNER_NEXIST, name := [], data_size := 0, open_size := -1, new_size := 0,
       data := None, open_data := None, fifo_creation_time := 0, lfu_frequency := 0, lru_clock := 0\<rparr>"

definition destroy_file_struct :: "file_t \<Rightarrow> file_t" where
  "destroy_file_struct f = f\<lparr>data := None, open_data := None\<rparr>"

subsection \<open>Operations\<close>

text \<open>The update of the usage data that ends every successful operation.\<close>

definition touch :: "file_t \<Rightarrow> file_t" where
  "touch f = f\<lparr>lfu_frequency := lfu_frequency f + 1, lru_clock := 1\<rparr>"

definition create_file_struct :: "int \<Rightarrow> file_t \<Rightarrow> byte list \<Rightarrow> int \<Rightarrow> (errno + unit) \<times> file_t" where
  "create_file_struct now f filename own =
     (if own \<le> OWNER_NEXIST then (Inl EINVAL, f)
      else if owner f \<noteq> OWNER_NEXIST then (Inl EEXIST, f)
      else (Inr (), f\<lparr>owner := own, fifo_creation_time := now, lru_clock := 1, lfu_frequency := 1,
                      name := take FILE_NAME_MAX_SIZE (cstr filename)\<rparr>))"

definition is_existing_file :: "file_t \<Rightarrow> bool" where
  "is_existing_file f \<longleftrightarrow> OWNER_NULL \<le> owner f"

text \<open>\<open>get_file_name\<close> and \<open>read_file\<close> fill a caller's buffer, given by its block and its
  size, and return the buffer and the number of bytes read.\<close>

definition get_file_name ::
    "allocator \<Rightarrow> file_t \<Rightarrow> byte list option \<times> size_t \<Rightarrow> errno + (byte list option \<times> size_t) \<times> size_t" where
  "get_file_name alloc f out =
     (if owner f = OWNER_NEXIST then Inl ENOENT
      else (let src = name f @ [0]; name_len = wlen src in
        if snd out < name_len then
          (if alloc name_len
           then Inr ((copy_to (Some (resize_block (unat name_len) (block (fst out)))) src, name_len), name_len)
           else Inl ENOMEM)
        else Inr ((copy_to (fst out) src, snd out), name_len)))"

text \<open>\<open>Inr True\<close> is the return value 0, a match.\<close>

definition check_file_name :: "file_t \<Rightarrow> byte list \<Rightarrow> errno + bool" where
  "check_file_name f nm = (if owner f = OWNER_NEXIST then Inl ENOENT else Inr (name f = cstr nm))"

definition is_open_file :: "file_t \<Rightarrow> bool" where
  "is_open_file f \<longleftrightarrow> open_size f \<noteq> -1"

definition is_locked_file :: "file_t \<Rightarrow> int \<Rightarrow> errno + bool" where
  "is_locked_file f who =
     (if who \<le> OWNER_NEXIST then Inl EINVAL
      else if owner f = OWNER_NEXIST then Inl ENOENT
      else Inr (owner f = who))"

definition get_size :: "file_t \<Rightarrow> errno + size_t" where
  "get_size f = (if owner f = OWNER_NEXIST then Inl ENOENT else Inr (data_size f + new_size f))"

definition get_usage_data :: "file_t \<Rightarrow> errno + int \<times> uint32 \<times> int" where
  "get_usage_data f =
     (if owner f = OWNER_NEXIST then Inl ENOENT
      else Inr (fifo_creation_time f, lfu_frequency f, lru_clock f))"

definition update_lru :: "file_t \<Rightarrow> int \<Rightarrow> (errno + unit) \<times> file_t" where
  "update_lru f newval =
     (if newval > 1 \<or> newval < 0 then (Inl EINVAL, f)
      else if owner f = OWNER_NEXIST then (Inl ENOENT, f)
      else (Inr (), f\<lparr>lru_clock := newval\<rparr>))"

definition open_file :: "allocator \<Rightarrow> file_t \<Rightarrow> int \<Rightarrow> (errno + unit) \<times> file_t" where
  "open_file alloc f who =
     (if who \<le> OWNER_NEXIST then (Inl EINVAL, f)
      else if owner f = OWNER_NEXIST then (Inl ENOENT, f)
      else if owner f \<noteq> OWNER_NULL \<and> owner f \<noteq> who then (Inl EAGAIN, f)
      else if is_open_file f then (Inr (), touch (f\<lparr>owner := who\<rparr>))
      else if data_size f = 0 then (Inr (), touch (f\<lparr>open_size := 0, owner := who\<rparr>))
      else (case decompress_data alloc (data f) (data_size f) (open_data f, 0) of
              (Inl e, (od, _)) \<Rightarrow> (Inl e, f\<lparr>open_data := od\<rparr>)
            | (Inr _, (od, os)) \<Rightarrow> (Inr (), touch (f\<lparr>open_data := od, open_size := os, owner := who\<rparr>))))"

text \<open>\<open>difference\<close> is the caller's variable: it is written only when bytes were compressed.\<close>

definition close_file :: "allocator \<Rightarrow> file_t \<Rightarrow> int \<Rightarrow> size_t \<Rightarrow> (errno + size_t) \<times> file_t" where
  "close_file alloc f who difference =
     (if who \<le> OWNER_NEXIST then (Inl EINVAL, f)
      else if owner f = OWNER_NEXIST then (Inl ENOENT, f)
      else if owner f \<noteq> OWNER_NULL \<and> owner f \<noteq> who then (Inl EAGAIN, f)
      else
        (let shut = (\<lambda>f. touch (f\<lparr>open_data := None, open_size := -1, new_size := 0, owner := OWNER_NULL\<rparr>)) in
         if \<not> is_open_file f then (Inr difference, touch f)
         else if 0 < sint (open_size f) then
           (let old_size = data_size f + new_size f;
                f0 = f\<lparr>data := None, data_size := 0\<rparr>
            in case compress_data alloc (open_data f0) (open_size f0) (data f0, data_size f0) of
                 (Inl e, (d, ds)) \<Rightarrow> (Inl e, f0\<lparr>data := d, data_size := ds\<rparr>)
               | (Inr _, (d, ds)) \<Rightarrow> (Inr (old_size - ds), shut (f0\<lparr>data := d, data_size := ds\<rparr>)))
         else (Inr difference, shut f)))"

definition open_bytes :: "file_t \<Rightarrow> byte list" where
  "open_bytes f = take (unat (open_size f)) (block (open_data f))"

definition read_file ::
    "allocator \<Rightarrow> file_t \<Rightarrow> int \<Rightarrow> byte list option \<times> size_t
       \<Rightarrow> (errno + (byte list option \<times> size_t) \<times> size_t) \<times> file_t" where
  "read_file alloc f who out =
     (if who \<le> OWNER_NEXIST then (Inl EINVAL, f)
      else if owner f = OWNER_NEXIST then (Inl ENOENT, f)
      else if owner f \<noteq> OWNER_NULL \<and> owner f \<noteq> who then (Inl EAGAIN, f)
      else if \<not> is_open_file f then (Inl EPERM, f)
      else if snd out < open_size f \<and> \<not> alloc (open_size f) then (Inl ENOMEM, f)
      else
        (let out = (if snd out < open_size f
                    then (Some (resize_block (unat (open_size f)) (block (fst out))), open_size f)
                    else out)
         in (Inr ((copy_to (fst out) (open_bytes f), snd out), open_size f), touch f)))"

definition force_open_file :: "allocator \<Rightarrow> file_t \<Rightarrow> (errno + unit) \<times> file_t" where
  "force_open_file alloc f =
     (if owner f = OWNER_NEXIST then (Inl ENOENT, f)
      else if owner f = OWNER_ADMIN then (Inl EAGAIN, f)
      else open_file alloc (f\<lparr>owner := OWNER_ADMIN\<rparr>) OWNER_ADMIN)"

definition force_read_file ::
    "allocator \<Rightarrow> file_t \<Rightarrow> byte list option \<times> size_t
       \<Rightarrow> (errno + (byte list option \<times> size_t) \<times> size_t) \<times> file_t" where
  "force_read_file alloc f out = read_file alloc f OWNER_ADMIN out"

definition write_file ::
    "allocator \<Rightarrow> file_t \<Rightarrow> int \<Rightarrow> byte list \<Rightarrow> size_t \<Rightarrow> (errno + unit) \<times> file_t" where
  "write_file alloc f who buf n =
     (if who \<le> OWNER_NEXIST \<or> n = 0 then (Inl EINVAL, f)
      else if owner f = OWNER_NEXIST then (Inl ENOENT, f)
      else if owner f \<noteq> who then (Inl EAGAIN, f)
      else if \<not> is_open_file f then (Inl EPERM, f)
      else if open_size f \<noteq> 0 then (Inl EEXIST, f)
      else if \<not> alloc n then (Inl ENOMEM, f\<lparr>open_data := None\<rparr>)
      else (Inr (), touch (f\<lparr>open_data := Some (take (unat n) buf), open_size := n, new_size := n\<rparr>)))"

definition append_file ::
    "allocator \<Rightarrow> file_t \<Rightarrow> int \<Rightarrow> byte list \<Rightarrow> size_t \<Rightarrow> (errno + unit) \<times> file_t" where
  "append_file alloc f who buf n =
     (if who \<le> OWNER_NEXIST \<or> n = 0 then (Inl EINVAL, f)
      else if owner f = OWNER_NEXIST then (Inl ENOENT, f)
      else if owner f \<noteq> OWNER_NULL \<and> owner f \<noteq> who then (Inl EAGAIN, f)
      else if \<not> is_open_file f then (Inl EPERM, f)
      else if \<not> alloc (open_size f + n) then (Inl ENOMEM, f)
      else (Inr (), touch (f\<lparr>open_data := Some (open_bytes f @ take (unat n) buf),
                             open_size := open_size f + n, new_size := new_size f + n\<rparr>)))"

definition lock_file :: "file_t \<Rightarrow> int \<Rightarrow> (errno + unit) \<times> file_t" where
  "lock_file f who =
     (if who \<le> OWNER_NEXIST then (Inl EINVAL, f)
      else if owner f = OWNER_NEXIST then (Inl ENOENT, f)
      else if owner f \<noteq> OWNER_NULL \<and> owner f \<noteq> who then (Inl EAGAIN, f)
      else if \<not> is_open_file f then (Inl EPERM, f)
      else (Inr (), touch (f\<lparr>owner := who\<rparr>)))"

definition unlock_file :: "file_t \<Rightarrow> int \<Rightarrow> (errno + unit) \<times> file_t" where
  "unlock_file f who =
     (if who \<le> OWNER_NEXIST then (Inl EINVAL, f)
      else if owner f = OWNER_NEXIST then (Inl ENOENT, f)
      else if owner f \<noteq> who then (Inl EAGAIN, f)
      else if \<not> is_open_file f then (Inl EPERM, f)
      else (Inr (), touch (f\<lparr>owner := OWNER_NULL\<rparr>)))"

definition remove_file :: "file_t \<Rightarrow> int \<Rightarrow> (errno + size_t) \<times> file_t" where
  "remove_file f who =
     (if who < OWNER_NEXIST then (Inl EINVAL, f)
      else if owner f = OWNER_NEXIST then (Inl ENOENT, f)
      else if owner f = OWNER_NULL \<or> owner f \<noteq> who then (Inl EAGAIN, f)
      else (Inr (data_size f + new_size f), reset_file_struct f))"

definition force_remove_file :: "file_t \<Rightarrow> (errno + size_t) \<times> file_t" where
  "force_remove_file f = remove_file f OWNER_ADMIN"

end
