(* ===== verification/File_Spec.thy ===== *)
theory File_Spec
  imports File_Store
begin

text \<open>
  What the file operations promise: a well-formedness invariant of one slot, the abstract
  file it stands for (owner, open flag, contents), the abstract operations, and for each
  operation of \<open>file.c\<close> the lemma that it implements its abstract counterpart.
\<close>

subsection \<open>Well-formed slots\<close>

definition file_inv :: "file_t \<Rightarrow> bool" where
  "file_inv f \<longleftrightarrow>
     OWNER_NEXIST \<le> owner f \<and> length (name f) \<le> FILE_NAME_MAX_SIZE \<and> 0 \<notin> set (name f)
   \<and> length (block (data f)) = unat (data_size f) \<and> unat (data_size f) < 2 ^ 63
   \<and> (owner f = OWNER_NEXIST \<longrightarrow> data_size f = 0 \<and> \<not> is_open_file f)
   \<and> (if is_open_file f
      then length (block (open_data f)) = unat (open_size f) \<and> unat (open_size f) < 2 ^ 63
         \<and> unat (open_size f) = unat (data_size f) + unat (new_size f)
         \<and> take (unat (data_size f)) (block (open_data f)) = block (data f)
      else open_data f = None \<and> new_size f = 0)"

record afile =
  a_owner :: int
  a_open :: bool
  a_content :: "byte list"

definition fabs :: "file_t \<Rightarrow> afile" where
  "fabs f = \<lparr>a_owner = owner f, a_open = is_open_file f,
             a_content = (if is_open_file f then block (open_data f) else block (data f))\<rparr>"

text \<open>The bytes a slot is charged for, as \<open>get_size\<close> reports them.\<close>

definition fsize :: "file_t \<Rightarrow> size_t" where
  "fsize f = data_size f + new_size f"

lemma fabs_simps [simp]:
  "a_owner (fabs f) = owner f" "a_open (fabs f) = is_open_file f"
  by (simp_all add: fabs_def)

lemma open_bytes_eq: "file_inv f \<Longrightarrow> is_open_file f \<Longrightarrow> open_bytes f = a_content (fabs f)"
  by (simp add: file_inv_def open_bytes_def fabs_def)

lemma unat_fsize: "file_inv f \<Longrightarrow> unat (fsize f) = length (a_content (fabs f))"
proof (cases "is_open_file f")
  case True
  moreover assume "file_inv f"
  ultimately have "unat (data_size f) + unat (new_size f) = length (block (open_data f))"
    "unat (data_size f) + unat (new_size f) < 2 ^ 63"
    by (auto simp: file_inv_def)
  with True show ?thesis by (simp add: fsize_def fabs_def unat_word_ariths)
next
  case False
  assume "file_inv f"
  with False show ?thesis by (simp add: fsize_def fabs_def file_inv_def)
qed

lemma content_lt: "file_inv f \<Longrightarrow> length (a_content (fabs f)) < 2 ^ 63"
  by (auto simp: file_inv_def fabs_def)

lemma is_existing_file_iff: "file_inv f \<Longrightarrow> is_existing_file f \<longleftrightarrow> owner f \<noteq> OWNER_NEXIST"
  by (auto simp: file_inv_def is_existing_file_def)

lemma touch_simps [simp]:
  "owner (touch f) = owner f" "name (touch f) = name f" "data_size (touch f) = data_size f"
  "data (touch f) = data f" "open_size (touch f) = open_size f" "open_data (touch f) = open_data f"
  "new_size (touch f) = new_size f" "fabs (touch f) = fabs f" "is_open_file (touch f) = is_open_file f"
  "file_inv (touch f) = file_inv f" "fifo_creation_time (touch f) = fifo_creation_time f"
  by (simp_all add: touch_def fabs_def is_open_file_def file_inv_def)

lemma open_fileD:
  assumes "file_inv f" and "is_open_file f"
  shows "length (block (open_data f)) = unat (open_size f)" and "unat (open_size f) < 2 ^ 63"
    and "unat (open_size f) = unat (data_size f) + unat (new_size f)"
    and "take (unat (data_size f)) (block (open_data f)) = block (data f)"
    and "open_size f = fsize f"
proof -
  show sz: "length (block (open_data f)) = unat (open_size f)" "unat (open_size f) < 2 ^ 63"
    "unat (open_size f) = unat (data_size f) + unat (new_size f)"
    "take (unat (data_size f)) (block (open_data f)) = block (data f)"
    using assms by (simp_all add: file_inv_def)
  have "unat (open_size f) = unat (fsize f)"
    using sz assms by (simp add: unat_fsize fabs_def)
  then show "open_size f = fsize f" by (rule unsigned_word_eqI)
qed

lemma file_inv_init: "file_inv init_file_struct"
  by (simp add: file_inv_def init_file_struct_def is_open_file_def)

lemma reset_eq_init: "reset_file_struct f = init_file_struct"
  by (simp add: reset_file_struct_def init_file_struct_def)

subsection \<open>Abstract operations\<close>

text \<open>Another client's lock refuses every operation but creation.\<close>

definition locked_out :: "int \<Rightarrow> afile \<Rightarrow> bool" where
  "locked_out who a \<longleftrightarrow> a_owner a \<noteq> OWNER_NULL \<and> a_owner a \<noteq> who"

definition a_open_op :: "int \<Rightarrow> afile \<Rightarrow> errno + afile" where
  "a_open_op who a =
     (if locked_out who a then Inl EAGAIN else Inr (a\<lparr>a_owner := who, a_open := True\<rparr>))"

definition a_close_op :: "int \<Rightarrow> afile \<Rightarrow> errno + afile" where
  "a_close_op who a =
     (if locked_out who a then Inl EAGAIN
      else Inr (if a_open a then a\<lparr>a_owner := OWNER_NULL, a_open := False\<rparr> else a))"

definition a_read_op :: "int \<Rightarrow> afile \<Rightarrow> errno + afile" where
  "a_read_op who a =
     (if locked_out who a then Inl EAGAIN else if \<not> a_open a then Inl EPERM else Inr a)"

definition a_write_op :: "byte list \<Rightarrow> int \<Rightarrow> afile \<Rightarrow> errno + afile" where
  "a_write_op d who a =
     (if a_owner a \<noteq> who then Inl EAGAIN else if \<not> a_open a then Inl EPERM
      else if a_content a \<noteq> [] then Inl EEXIST else Inr (a\<lparr>a_content := d\<rparr>))"

definition a_append_op :: "byte list \<Rightarrow> int \<Rightarrow> afile \<Rightarrow> errno + afile" where
  "a_append_op d who a =
     (if locked_out who a then Inl EAGAIN else if \<not> a_open a then Inl EPERM
      else Inr (a\<lparr>a_content := a_content a @ d\<rparr>))"

definition a_lock_op :: "int \<Rightarrow> afile \<Rightarrow> errno + afile" where
  "a_lock_op who a =
     (if locked_out who a then Inl EAGAIN else if \<not> a_open a then Inl EPERM
      else Inr (a\<lparr>a_owner := who\<rparr>))"

definition a_unlock_op :: "int \<Rightarrow> afile \<Rightarrow> errno + afile" where
  "a_unlock_op who a =
     (if a_owner a \<noteq> who then Inl EAGAIN else if \<not> a_open a then Inl EPERM
      else Inr (a\<lparr>a_owner := OWNER_NULL\<rparr>))"

definition a_remove_op :: "int \<Rightarrow> afile \<Rightarrow> errno + unit" where
  "a_remove_op who a =
     (if a_owner a = OWNER_NULL \<or> a_owner a \<noteq> who then Inl EAGAIN else Inr ())"

lemmas a_op_defs = a_open_op_def a_close_op_def a_read_op_def a_write_op_def a_append_op_def
  a_lock_op_def a_unlock_op_def a_remove_op_def locked_out_def

subsection \<open>What it means to implement an abstract operation\<close>

definition file_sim :: "file_t \<Rightarrow> (errno + afile) \<Rightarrow> (errno + 'a) \<times> file_t \<Rightarrow> bool" where
  "file_sim f spec out \<longleftrightarrow>
     file_inv (snd out)
   \<and> (case spec of
        Inl e \<Rightarrow> fst out = Inl e \<and> snd out = f
      | Inr a \<Rightarrow> (\<exists>x. fst out = Inr x) \<and> fabs (snd out) = a \<and> name (snd out) = name f
                 \<and> owner (snd out) \<noteq> OWNER_NEXIST
                 \<and> fifo_creation_time (snd out) = fifo_creation_time f)"

lemma file_simI_err: "file_inv f \<Longrightarrow> file_sim f (Inl e) (Inl e, f)"
  by (simp add: file_sim_def)

lemma file_simI_ok:
  "file_inv f' \<Longrightarrow> fabs f' = a \<Longrightarrow> name f' = name f \<Longrightarrow> owner f' \<noteq> OWNER_NEXIST \<Longrightarrow>
   fifo_creation_time f' = fifo_creation_time f \<Longrightarrow> file_sim f (Inr a) (Inr x, f')"
  by (simp add: file_sim_def)

lemma closed_size [simp]: "is_open_file (f\<lparr>open_size := -1\<rparr>) = False"
  by (simp add: is_open_file_def)

lemma unat_minus_one: "unat (-1 :: size_t) = 2 ^ 64 - 1"
  by (simp add: unsigned_minus_1_eq_mask mask_eq_exp_minus_1)

lemma open_size_ok: "unat (n :: size_t) < 2 ^ 63 \<Longrightarrow> n \<noteq> -1"
  using unat_minus_one by auto

lemma sint_pos: "unat (n :: size_t) < 2 ^ 63 \<Longrightarrow> 0 < sint n \<longleftrightarrow> n \<noteq> 0"
  by (simp only: sint_small of_nat_0_less_iff unat_gt_0)

subsection \<open>Every operation implements its abstract counterpart\<close>

lemma open_file_refines:
  assumes inv: "file_inv f" and ex: "owner f \<noteq> OWNER_NEXIST" and who: "0 \<le> who"
  shows "file_sim f (a_open_op who (fabs f)) (open_file mem_ok f who)"
proof (cases "locked_out who (fabs f)")
  case True
  with inv ex who show ?thesis
    by (simp add: a_open_op_def open_file_def locked_out_def file_simI_err)
next
  case False
  have ns: "length (block (data f)) = unat (data_size f)" "unat (data_size f) < 2 ^ 63"
    using inv by (simp_all add: file_inv_def)
  consider (opened) "is_open_file f" | (empty) "\<not> is_open_file f" "data_size f = 0"
    | (stored) d where "\<not> is_open_file f" "data_size f \<noteq> 0" "data f = Some d"
    using ns by (cases "data f") (auto simp: unat_eq_0)
  then show ?thesis
  proof cases
    case opened
    then have "open_file mem_ok f who = (Inr (), touch (f\<lparr>owner := who\<rparr>))"
      using False ex who by (auto simp: open_file_def locked_out_def)
    moreover have "file_inv (f\<lparr>owner := who\<rparr>)" "is_open_file (f\<lparr>owner := who\<rparr>)"
      using inv opened who by (simp_all add: file_inv_def is_open_file_def)
    ultimately show ?thesis
      using False opened who by (auto simp: a_open_op_def fabs_def intro!: file_simI_ok)
  next
    case empty
    let ?f = "f\<lparr>open_size := 0, owner := who\<rparr>"
    have "open_file mem_ok f who = (Inr (), touch ?f)"
      using False ex who empty by (auto simp: open_file_def locked_out_def)
    moreover have "is_open_file ?f" by (simp add: is_open_file_def)
    moreover have "file_inv ?f"
      using inv empty who by (auto simp: file_inv_def is_open_file_def)
    ultimately show ?thesis
      using False empty who inv
      by (auto simp: a_open_op_def fabs_def file_inv_def is_open_file_def intro!: file_simI_ok)
  next
    case stored
    let ?f = "f\<lparr>open_data := Some d, open_size := data_size f, owner := who\<rparr>"
    have "open_file mem_ok f who = (Inr (), touch ?f)"
      using False ex who stored ns
      by (auto simp: open_file_def locked_out_def decompress_data_ok)
    moreover have op: "is_open_file ?f"
      using open_size_ok [OF ns(2)] by (simp add: is_open_file_def)
    moreover have "file_inv ?f"
      using inv stored who op ns by (auto simp: file_inv_def)
    moreover have "fabs ?f = (fabs f)\<lparr>a_owner := who, a_open := True\<rparr>"
      using stored op by (simp add: fabs_def)
    ultimately show ?thesis
      using False who by (auto simp: a_open_op_def intro!: file_simI_ok)
  qed
qed

lemma close_file_refines:
  assumes inv: "file_inv f" and ex: "owner f \<noteq> OWNER_NEXIST" and who: "0 \<le> who"
  shows "file_sim f (a_close_op who (fabs f)) (close_file mem_ok f who diff)"
proof (cases "locked_out who (fabs f)")
  case True
  with inv ex who show ?thesis
    by (simp add: a_close_op_def close_file_def locked_out_def file_simI_err)
next
  case False
  let ?shut = "\<lambda>f. f\<lparr>open_data := None, open_size := -1, new_size := 0, owner := OWNER_NULL\<rparr>"
  consider (closed) "\<not> is_open_file f" | (empty) "is_open_file f" "open_size f = 0"
    | (full) d where "is_open_file f" "open_size f \<noteq> 0" "open_data f = Some d"
    using open_fileD(1) [OF inv] by (cases "open_data f") (auto simp: unat_eq_0)
  then show ?thesis
  proof cases
    case closed
    then have "close_file mem_ok f who diff = (Inr diff, touch f)"
      using False ex who by (auto simp: close_file_def locked_out_def Let_def)
    with inv ex closed False show ?thesis
      by (auto simp: a_close_op_def intro!: file_simI_ok)
  next
    case empty
    then have "close_file mem_ok f who diff = (Inr diff, touch (?shut f))"
      using False ex who by (auto simp: close_file_def locked_out_def Let_def)
    moreover have "file_inv (?shut f)"
      using inv empty by (auto simp: file_inv_def is_open_file_def)
    moreover have "fabs (?shut f) = (fabs f)\<lparr>a_owner := OWNER_NULL, a_open := False\<rparr>"
      using inv empty by (auto simp: fabs_def file_inv_def is_open_file_def)
    ultimately show ?thesis
      using False empty by (auto simp: a_close_op_def intro!: file_simI_ok)
  next
    case full
    have len: "length d = unat (open_size f)" "unat (open_size f) < 2 ^ 63"
      using inv full by (simp_all add: file_inv_def)
    let ?f = "?shut (f\<lparr>data := Some d, data_size := open_size f\<rparr>)"
    have pos: "0 < sint (open_size f)"
      using full(2) sint_pos [OF len(2)] by blast
    have "owner f = OWNER_NULL \<or> owner f = who"
      using False by (simp add: locked_out_def)
    then have "close_file mem_ok f who diff =
        (Inr (data_size f + new_size f - open_size f), touch ?f)"
      using ex who full(1,3) pos
      by (simp add: close_file_def Let_def compress_data_ok [OF len(1)])
    moreover have "length (name f) \<le> FILE_NAME_MAX_SIZE" "0 \<notin> set (name f)"
      using inv by (simp_all add: file_inv_def)
    then have "file_inv ?f"
      using len by (simp add: file_inv_def is_open_file_def)
    moreover have "fabs ?f = (fabs f)\<lparr>a_owner := OWNER_NULL, a_open := False\<rparr>"
      using full by (simp add: fabs_def is_open_file_def)
    ultimately show ?thesis
      using False full by (auto simp: a_close_op_def intro!: file_simI_ok)
  qed
qed

text \<open>With the cloning codec a close never changes the storage charged for the file.\<close>

lemma close_file_difference:
  assumes inv: "file_inv f"
    and ok: "close_file mem_ok f who 0 = (Inr diff, f')"
  shows "diff = 0"
proof (cases "is_open_file f \<and> 0 < sint (open_size f)")
  case False
  with ok show ?thesis by (auto simp: close_file_def Let_def split: if_splits)
next
  case True
  then have op: "is_open_file f" by simp
  note D = open_fileD [OF inv op]
  obtain d where "open_data f = Some d"
    using True D(1,2) by (cases "open_data f") (auto simp: sint_pos unat_eq_0)
  with ok True D show ?thesis
    by (auto simp: close_file_def Let_def compress_data_ok fsize_def split: if_splits)
qed

lemma read_file_refines:
  assumes inv: "file_inv f" and ex: "owner f \<noteq> OWNER_NEXIST" and who: "0 \<le> who"
  shows "file_sim f (a_read_op who (fabs f)) (read_file mem_ok f who out)"
  using assms
  by (auto simp: a_read_op_def read_file_def locked_out_def mem_ok_def Let_def
      intro!: file_simI_err file_simI_ok)

lemma lock_file_refines:
  assumes inv: "file_inv f" and ex: "owner f \<noteq> OWNER_NEXIST" and who: "0 \<le> who"
  shows "file_sim f (a_lock_op who (fabs f)) (lock_file f who)"
proof -
  have "file_inv (f\<lparr>owner := who\<rparr>)" if "is_open_file f"
    using inv who that by (simp add: file_inv_def is_open_file_def)
  with assms show ?thesis
    by (auto simp: a_lock_op_def lock_file_def locked_out_def fabs_def is_open_file_def
        intro!: file_simI_err file_simI_ok)
qed

lemma unlock_file_refines:
  assumes inv: "file_inv f" and ex: "owner f \<noteq> OWNER_NEXIST" and who: "0 \<le> who"
  shows "file_sim f (a_unlock_op who (fabs f)) (unlock_file f who)"
proof -
  have "file_inv (f\<lparr>owner := OWNER_NULL\<rparr>)" if "is_open_file f"
    using inv that by (simp add: file_inv_def is_open_file_def)
  with assms show ?thesis
    by (auto simp: a_unlock_op_def unlock_file_def fabs_def is_open_file_def
        intro!: file_simI_err file_simI_ok)
qed

lemma write_file_refines:
  assumes inv: "file_inv f" and ex: "owner f \<noteq> OWNER_NEXIST" and who: "0 \<le> who"
    and d: "d \<noteq> []" "length d < 2 ^ 63"
  shows "file_sim f (a_write_op d who (fabs f)) (write_file mem_ok f who d (wlen d))"
proof -
  have n: "unat (wlen d) = length d" using d by (simp add: unat_wlen)
  have n0: "wlen d \<noteq> 0" using assms by (simp add: wlen_nonzero)
  let ?f = "f\<lparr>open_data := Some d, open_size := wlen d, new_size := wlen d\<rparr>"
  show ?thesis
  proof (cases "is_open_file f \<and> open_size f = 0")
    case True
    then have c: "a_content (fabs f) = []"
      using open_fileD(1) [OF inv] by (simp add: fabs_def)
    have op: "is_open_file ?f"
      using open_size_ok [of "wlen d"] n d by (simp add: is_open_file_def)
    have "unat (data_size f) = 0" "block (data f) = []"
      using open_fileD [OF inv] True by auto
    then have "file_inv ?f"
      using inv op n d ex by (simp add: file_inv_def)
    with True c op n n0 ex inv who show ?thesis
      by (auto simp: a_write_op_def write_file_def mem_ok_def fabs_def
          intro!: file_simI_err file_simI_ok)
  next
    case False
    then have "is_open_file f \<Longrightarrow> a_content (fabs f) \<noteq> []"
      using open_fileD(1) [OF inv] by (auto simp: fabs_def unat_eq_0)
    with False n0 ex inv who show ?thesis
      by (auto simp: a_write_op_def write_file_def intro!: file_simI_err)
  qed
qed

lemma append_file_refines:
  assumes inv: "file_inv f" and ex: "owner f \<noteq> OWNER_NEXIST" and who: "0 \<le> who"
    and d: "d \<noteq> []" and fits: "length (a_content (fabs f)) + length d < 2 ^ 63"
  shows "file_sim f (a_append_op d who (fabs f)) (append_file mem_ok f who d (wlen d))"
proof (cases "is_open_file f")
  case False
  have "wlen d \<noteq> 0" using d fits by (simp add: wlen_nonzero)
  with assms False show ?thesis
    by (auto simp: a_append_op_def append_file_def locked_out_def intro!: file_simI_err)
next
  case True
  have n: "unat (wlen d) = length d" using fits by (simp add: unat_wlen)
  have n0: "wlen d \<noteq> 0" using assms by (simp add: wlen_nonzero)
  note D = open_fileD [OF inv True]
  let ?f = "f\<lparr>open_data := Some (open_bytes f @ d), open_size := open_size f + wlen d,
               new_size := new_size f + wlen d\<rparr>"
  have len: "length (a_content (fabs f)) = unat (open_size f)"
    using D(1) True by (simp add: fabs_def)
  have os: "unat (open_size f + wlen d) = unat (open_size f) + length d"
    and ns: "unat (new_size f + wlen d) = unat (new_size f) + length d"
    using fits len D(3) n by (simp_all add: unat_word_ariths)
  have op: "is_open_file ?f"
    using open_size_ok [of "open_size f + wlen d"] os fits len by (simp add: is_open_file_def)
  have "file_inv ?f"
    using inv True op os ns D len fits ex
    by (simp add: file_inv_def open_bytes_def)
  moreover have "fabs ?f = (fabs f)\<lparr>a_content := a_content (fabs f) @ d\<rparr>"
    using op True open_bytes_eq [OF inv True] by (simp add: fabs_def)
  ultimately show ?thesis
    using True n n0 ex inv who
    by (auto simp: a_append_op_def append_file_def locked_out_def mem_ok_def
        intro!: file_simI_err file_simI_ok)
qed

text \<open>Removing a locked file resets its slot and reports the bytes it was charged for.\<close>

lemma remove_file_spec:
  assumes ex: "owner f \<noteq> OWNER_NEXIST" and who: "0 \<le> who"
  shows "remove_file f who =
     (case a_remove_op who (fabs f) of
        Inl err \<Rightarrow> (Inl err, f)
      | Inr _ \<Rightarrow> (Inr (fsize f), init_file_struct))"
  using assms by (auto simp: remove_file_def a_remove_op_def fsize_def reset_eq_init)

text \<open>A successful read leaves the bytes of the file at the start of the caller's buffer, which
  was resized when it was too small.\<close>

definition buf_ok :: "byte list option \<times> size_t \<Rightarrow> bool" where
  "buf_ok b \<longleftrightarrow> length (block (fst b)) = unat (snd b)"

lemma copy_to_ok:
  assumes "buf_ok b" and "length d \<le> unat (snd b)"
  shows "buf_ok (copy_to (fst b) d, snd b)" and "take (length d) (block (copy_to (fst b) d)) = d"
  using assms by (cases "fst b"; simp add: buf_ok_def)+

lemma resized_ok:
  assumes "buf_ok out" and "unat n = length d"
    and "b = (if snd out < n then (Some (resize_block (unat n) (block (fst out))), n) else out)"
  shows "buf_ok b" and "length d \<le> unat (snd b)"
  using assms by (auto simp: buf_ok_def word_le_nat_alt word_less_nat_alt)

lemma read_file_result:
  assumes inv: "file_inv f" and op: "is_open_file f" and who: "0 \<le> who" "\<not> locked_out who (fabs f)"
    and ex: "owner f \<noteq> OWNER_NEXIST" and out: "buf_ok out"
  obtains b where "read_file mem_ok f who out = (Inr (b, open_size f), touch f)" "buf_ok b"
    "take (unat (open_size f)) (block (fst b)) = a_content (fabs f)"
    "unat (open_size f) = length (a_content (fabs f))"
proof -
  let ?d = "a_content (fabs f)"
  let ?out = "if snd out < open_size f then (Some (resize_block (unat (open_size f)) (block (fst out))), open_size f)
              else out"
  have n: "unat (open_size f) = length ?d"
    using open_fileD(1) [OF inv op] op by (simp add: fabs_def)
  note R = resized_ok [OF out n refl]
  have "read_file mem_ok f who out = (Inr ((copy_to (fst ?out) ?d, snd ?out), open_size f), touch f)"
    using who ex op open_bytes_eq [OF inv op] by (simp add: read_file_def locked_out_def Let_def mem_ok)
  from that [OF this copy_to_ok(1) [OF R]] copy_to_ok(2) [OF R] n show thesis by simp
qed

text \<open>Reading a file with contents into no buffer at all allocates exactly its bytes.\<close>

lemma read_file_fresh:
  assumes inv: "file_inv f" and op: "is_open_file f" and who: "0 \<le> who" "\<not> locked_out who (fabs f)"
    and ex: "owner f \<noteq> OWNER_NEXIST" and ne: "open_size f \<noteq> 0"
  shows "\<exists>b. read_file mem_ok f who (None, 0) = (Inr (b, open_size f), touch f)
           \<and> fst b = Some (a_content (fabs f))"
proof -
  let ?d = "a_content (fabs f)"
  have n: "unat (open_size f) = length ?d"
    using open_fileD(1) [OF inv op] op by (simp add: fabs_def)
  have "read_file mem_ok f who (None, 0) = (Inr ((copy_to (Some (resize_block (length ?d) [])) ?d, open_size f), open_size f), touch f)"
    using who ex op open_bytes_eq [OF inv op] n ne
    by (simp add: read_file_def locked_out_def Let_def mem_ok word_neq_0_conv)
  then show ?thesis by simp
qed

lemma file_inv_owner:
  assumes "file_inv f" and "owner f \<noteq> OWNER_NEXIST" and "0 \<le> w"
  shows "file_inv (f\<lparr>owner := w\<rparr>)" and "fabs (f\<lparr>owner := w\<rparr>) = (fabs f)\<lparr>a_owner := w\<rparr>"
proof -
  have op: "is_open_file (f\<lparr>owner := w\<rparr>) = is_open_file f" by (simp add: is_open_file_def)
  with assms show "file_inv (f\<lparr>owner := w\<rparr>)"
    by (cases "is_open_file f") (simp_all add: file_inv_def)
  from op show "fabs (f\<lparr>owner := w\<rparr>) = (fabs f)\<lparr>a_owner := w\<rparr>" by (simp add: fabs_def)
qed

end
