(* ===== verification/Store.thy ===== *)
theory Store
  imports File_Spec
begin

text \<open>
  The array of file slots and its searches (\<open>get_file\<close> and \<open>get_empty_slot\<close> of
  \<open>source/worker/worker_generics.c\<close>, \<open>initialize_file_structure\<close> of
  \<open>source/server/server_files.c\<close>). The array stands for a map from names to abstract
  files, \<open>store_abs\<close>. The locale \<open>file_operation\<close> is the interface between the file
  operations and everything that runs them on a slot: an operation that implements its
  abstract counterpart on one file implements it on the map.
\<close>

subsection \<open>Searching the slots\<close>

fun get_file_from :: "nat \<Rightarrow> file_t list \<Rightarrow> byte list \<Rightarrow> errno + nat" where
  "get_file_from i [] filename = Inl ENOENT"
| "get_file_from i (f # fs) filename =
     (if is_existing_file f
      then (case check_file_name f filename of
              Inr True \<Rightarrow> Inr i
            | Inr False \<Rightarrow> get_file_from (Suc i) fs filename
            | Inl e \<Rightarrow> Inl e)
      else get_file_from (Suc i) fs filename)"

definition get_file :: "file_t list \<Rightarrow> byte list \<Rightarrow> errno + nat" where
  "get_file files filename = get_file_from 0 files filename"

fun get_empty_slot_from :: "nat \<Rightarrow> file_t list \<Rightarrow> errno + nat" where
  "get_empty_slot_from i [] = Inl EMFILE"
| "get_empty_slot_from i (f # fs) =
     (if \<not> is_existing_file f then Inr i else get_empty_slot_from (Suc i) fs)"

definition get_empty_slot :: "file_t list \<Rightarrow> errno + nat" where
  "get_empty_slot files = get_empty_slot_from 0 files"

definition initialize_file_structure :: "nat \<Rightarrow> file_t list" where
  "initialize_file_structure max_files = replicate max_files init_file_struct"

subsection \<open>The invariant and the map of names\<close>

abbreviation existing :: "file_t \<Rightarrow> bool" where
  "existing f \<equiv> owner f \<noteq> OWNER_NEXIST"

definition unique_names :: "file_t list \<Rightarrow> bool" where
  "unique_names fs \<longleftrightarrow>
     (\<forall>i < length fs. \<forall>j < length fs.
        existing (fs ! i) \<and> existing (fs ! j) \<and> name (fs ! i) = name (fs ! j) \<longrightarrow> i = j)"

definition store_inv :: "file_t list \<Rightarrow> bool" where
  "store_inv fs \<longleftrightarrow> (\<forall>f \<in> set fs. file_inv f) \<and> unique_names fs"

definition store_abs :: "file_t list \<Rightarrow> byte list \<Rightarrow> afile option" where
  "store_abs fs n = map_option fabs (find (\<lambda>f. existing f \<and> name f = n) fs)"

text \<open>Bytes charged for and files present: what \<open>current_storage\<close> and \<open>current_files\<close> count.\<close>

definition used :: "file_t list \<Rightarrow> nat" where
  "used fs = sum_list (map (\<lambda>f. unat (fsize f)) fs)"

definition live :: "file_t list \<Rightarrow> nat" where
  "live fs = length (filter existing fs)"

lemma store_inv_nth: "store_inv fs \<Longrightarrow> i < length fs \<Longrightarrow> file_inv (fs ! i)"
  by (simp add: store_inv_def)

lemma used_nth_le: "i < length fs \<Longrightarrow> unat (fsize (fs ! i)) \<le> used fs"
  unfolding used_def by (rule sum_list_slot_le)

lemma store_init:
  "store_inv (initialize_file_structure n)" "store_abs (initialize_file_structure n) = Map.empty"
  "used (initialize_file_structure n) = 0" "live (initialize_file_structure n) = 0"
proof -
  have "(find P (initialize_file_structure n)) = None" if "\<not> P init_file_struct" for P
    using that by (induction n) (simp_all add: initialize_file_structure_def)
  then show "store_abs (initialize_file_structure n) = Map.empty"
    by (simp add: fun_eq_iff store_abs_def init_file_struct_def)
  have ne: "\<not> existing init_file_struct" "fsize init_file_struct = 0"
    by (simp_all add: init_file_struct_def fsize_def)
  show "store_inv (initialize_file_structure n)"
    using ne(1) by (simp add: store_inv_def unique_names_def initialize_file_structure_def file_inv_init
        del: owner_consts)
  show "used (initialize_file_structure n) = 0" "live (initialize_file_structure n) = 0"
    using ne by (simp_all add: used_def live_def initialize_file_structure_def sum_list_replicate
        del: owner_consts)
qed

lemma find_None_iff_nth: "find P xs = None \<longleftrightarrow> (\<forall>i < length xs. \<not> P (xs ! i))"
  by (auto simp: find_None_iff in_set_conv_nth)

lemma store_abs_None: "store_abs fs n = None \<longleftrightarrow> (\<forall>i < length fs. existing (fs ! i) \<longrightarrow> name (fs ! i) \<noteq> n)"
  by (auto simp: store_abs_def find_None_iff_nth)

lemma store_abs_nth:
  assumes "unique_names fs" and "i < length fs" and "existing (fs ! i)"
  shows "store_abs fs (name (fs ! i)) = Some (fabs (fs ! i))"
proof -
  let ?P = "\<lambda>f. existing f \<and> name f = name (fs ! i)"
  obtain f where f: "find ?P fs = Some f"
    using assms(2,3) find_None_iff_nth [of ?P fs] by (cases "find ?P fs") auto
  then obtain j where "j < length fs" "?P (fs ! j)" "f = fs ! j"
    by (auto simp: find_Some_iff)
  with assms have "f = fs ! i" unfolding unique_names_def by metis
  with f show ?thesis by (simp add: store_abs_def)
qed

lemma store_abs_SomeE:
  assumes "unique_names fs" and "store_abs fs n = Some a"
  obtains i where "i < length fs" "existing (fs ! i)" "name (fs ! i) = n" "fabs (fs ! i) = a"
  using assms unfolding store_abs_def by (auto simp: find_Some_iff)

text \<open>Replacing a slot by one with the same name, by an empty one, or an empty one by a file
  with a new name.\<close>

lemma unique_names_keep:
  assumes "unique_names fs" and "i < length fs"
    and "existing (fs ! i)" and "name f' = name (fs ! i)"
  shows "unique_names (fs[i := f'])"
  unfolding unique_names_def
proof (intro allI impI)
  fix j k
  assume jk: "j < length (fs[i := f'])" "k < length (fs[i := f'])"
    "existing (fs[i := f'] ! j) \<and> existing (fs[i := f'] ! k) \<and> name (fs[i := f'] ! j) = name (fs[i := f'] ! k)"
  have old: "existing (fs ! m) \<and> name (fs ! m) = name (fs[i := f'] ! m)"
    if "m < length fs" "existing (fs[i := f'] ! m)" for m
    using that assms(3,4) by (cases "m = i") simp_all
  from jk old [of j] old [of k] show "j = k"
    using assms(1) unfolding unique_names_def by simp
qed

lemma unique_names_clear:
  assumes "unique_names fs" and "\<not> existing f'"
  shows "unique_names (fs[i := f'])"
  unfolding unique_names_def
proof (intro allI impI)
  fix j k
  assume jk: "j < length (fs[i := f'])" "k < length (fs[i := f'])"
    "existing (fs[i := f'] ! j) \<and> existing (fs[i := f'] ! k) \<and> name (fs[i := f'] ! j) = name (fs[i := f'] ! k)"
  with assms(2) have "i \<noteq> j" "i \<noteq> k" by auto
  with jk assms(1) show "j = k" unfolding unique_names_def by auto
qed

lemma unique_names_add:
  assumes "unique_names fs" and "store_abs fs (name f') = None"
  shows "unique_names (fs[i := f'])"
  using assms unfolding unique_names_def store_abs_None
  by (auto simp: nth_slot split: if_splits)

lemma store_abs_other:
  assumes un: "unique_names fs" "unique_names (fs[i := f'])" and i: "i < length fs"
    and old: "existing (fs ! i) \<Longrightarrow> name (fs ! i) \<noteq> n"
    and new: "existing f' \<Longrightarrow> name f' \<noteq> n"
  shows "store_abs (fs[i := f']) n = store_abs fs n"
proof (cases "store_abs fs n")
  case None
  then have "store_abs (fs[i := f']) n = None"
    using new i unfolding store_abs_None by (auto simp: nth_list_update)
  with None show ?thesis by simp
next
  case (Some a)
  then obtain j where j: "j < length fs" "existing (fs ! j)" "name (fs ! j) = n" "fabs (fs ! j) = a"
    by (rule store_abs_SomeE [OF un(1)])
  then have "i \<noteq> j" using old by auto
  with j store_abs_nth [OF un(2), of j] Some show ?thesis by simp
qed

lemma store_abs_update:
  assumes un: "unique_names fs" and i: "i < length fs"
    and ex: "existing (fs ! i)" "existing f'" and nm: "name f' = name (fs ! i)"
  shows "store_abs (fs[i := f']) = (store_abs fs)(name (fs ! i) \<mapsto> fabs f')"
proof
  fix n
  have un': "unique_names (fs[i := f'])" by (rule unique_names_keep [OF un i ex(1) nm])
  show "store_abs (fs[i := f']) n = ((store_abs fs)(name (fs ! i) \<mapsto> fabs f')) n"
    using store_abs_nth [OF un', of i] store_abs_other [OF un un' i, of n] ex nm i
    by (cases "n = name (fs ! i)") auto
qed

lemma store_abs_remove:
  assumes un: "unique_names fs" and i: "i < length fs" and ex: "existing (fs ! i)" "\<not> existing f'"
  shows "store_abs (fs[i := f']) = (store_abs fs)(name (fs ! i) := None)"
proof
  fix n
  have un': "unique_names (fs[i := f'])" by (rule unique_names_clear [OF un ex(2)])
  have "store_abs (fs[i := f']) (name (fs ! i)) = None"
    using un ex i unfolding store_abs_None unique_names_def by (auto simp: nth_list_update)
  then show "store_abs (fs[i := f']) n = ((store_abs fs)(name (fs ! i) := None)) n"
    using store_abs_other [OF un un' i, of n] ex by (cases "n = name (fs ! i)") auto
qed

lemma store_abs_add:
  assumes un: "unique_names fs" and i: "i < length fs" and ex: "\<not> existing (fs ! i)" "existing f'"
    and new: "store_abs fs (name f') = None"
  shows "store_abs (fs[i := f']) = (store_abs fs)(name f' \<mapsto> fabs f')"
proof
  fix n
  have un': "unique_names (fs[i := f'])" by (rule unique_names_add [OF un new])
  show "store_abs (fs[i := f']) n = ((store_abs fs)(name f' \<mapsto> fabs f')) n"
    using store_abs_nth [OF un', of i] store_abs_other [OF un un' i, of n] ex i
    by (cases "n = name f'") auto
qed

lemma store_inv_slot:
  "store_inv fs \<Longrightarrow> file_inv f' \<Longrightarrow> unique_names (fs[i := f']) \<Longrightarrow> store_inv (fs[i := f'])"
  unfolding store_inv_def by (auto intro: ball_slot [rule_format])

lemma used_slot:
  "i < length fs \<Longrightarrow> used (fs[i := f']) + unat (fsize (fs ! i)) = used fs + unat (fsize f')"
  unfolding used_def by (rule sum_list_slot)

lemma live_slot:
  "i < length fs \<Longrightarrow> live (fs[i := f']) + (if existing (fs ! i) then 1 else 0)
     = live fs + (if existing f' then 1 else 0)"
  unfolding live_def by (rule count_slot)

text \<open>A slot-wise update in the map of names.\<close>

lemma store_abs_slotwise:
  assumes un: "unique_names fs" "unique_names fs'" and len: "length fs' = length fs"
    and slots: "\<And>j. j < length fs \<Longrightarrow> name (fs' ! j) = name (fs ! j) \<and> existing (fs' ! j) = existing (fs ! j)
      \<and> (existing (fs ! j) \<longrightarrow> fabs (fs' ! j) = (if j \<in> J then g (fabs (fs ! j)) else fabs (fs ! j)))"
    and J: "\<And>j. j \<in> J \<Longrightarrow> j < length fs \<and> existing (fs ! j)"
  shows "store_abs fs' s
    = map_option (\<lambda>a. if s \<in> (\<lambda>j. name (fs ! j)) ` J then g a else a) (store_abs fs s)"
proof (cases "store_abs fs s")
  case None
  then have "store_abs fs' s = None" using slots len unfolding store_abs_None by metis
  with None show ?thesis by simp
next
  case (Some a)
  then obtain i where i: "i < length fs" "existing (fs ! i)" "name (fs ! i) = s" "fabs (fs ! i) = a"
    by (rule store_abs_SomeE [OF un(1)])
  have "j = i" if "j \<in> J" "name (fs ! j) = s" for j
    using un(1) J [OF that(1)] that(2) i unfolding unique_names_def by metis
  then have "s \<in> (\<lambda>j. name (fs ! j)) ` J \<longleftrightarrow> i \<in> J" using i(3) by blast
  moreover have "store_abs fs' s = Some (fabs (fs' ! i))"
    using store_abs_nth [OF un(2), of i] slots [OF i(1)] i len by metis
  ultimately show ?thesis using slots [OF i(1)] i(2,4) Some by simp
qed

subsection \<open>What the searches return\<close>

lemma check_file_name_existing: "existing f \<Longrightarrow> check_file_name f n = Inr (name f = cstr n)"
  by (simp add: check_file_name_def)

lemma get_file_from_spec:
  assumes "\<forall>f \<in> set fs. file_inv f"
  shows "case get_file_from k fs n of
           Inl e \<Rightarrow> e = ENOENT \<and> (\<forall>i < length fs. existing (fs ! i) \<longrightarrow> name (fs ! i) \<noteq> cstr n)
         | Inr i \<Rightarrow> k \<le> i \<and> i < k + length fs \<and> existing (fs ! (i - k)) \<and> name (fs ! (i - k)) = cstr n"
  using assms
proof (induction fs arbitrary: k)
  case Nil
  then show ?case by simp
next
  case (Cons f fs)
  then have IH: "case get_file_from (Suc k) fs n of
           Inl e \<Rightarrow> e = ENOENT \<and> (\<forall>i < length fs. existing (fs ! i) \<longrightarrow> name (fs ! i) \<noteq> cstr n)
         | Inr i \<Rightarrow> Suc k \<le> i \<and> i < Suc k + length fs \<and> existing (fs ! (i - Suc k))
             \<and> name (fs ! (i - Suc k)) = cstr n"
    and inv: "file_inv f" by auto
  show ?case
  proof (cases "existing f \<and> name f = cstr n")
    case True
    then show ?thesis
      by (simp add: is_existing_file_iff [OF inv] check_file_name_existing del: owner_consts)
  next
    case False
    then have "get_file_from k (f # fs) n = get_file_from (Suc k) fs n"
      by (auto simp: is_existing_file_iff [OF inv] check_file_name_existing simp del: owner_consts)
    with IH False show ?thesis
      by (auto simp: less_Suc_eq_0_disj nth_Cons' Suc_diff_le split: sum.splits)
  qed
qed

lemma get_file_Inr:
  assumes "store_inv fs" and "get_file fs n = Inr i"
  shows "i < length fs" and "existing (fs ! i)" and "name (fs ! i) = cstr n"
    and "store_abs fs (cstr n) = Some (fabs (fs ! i))" and "file_inv (fs ! i)"
proof -
  have "\<forall>f \<in> set fs. file_inv f" "unique_names fs"
    using assms(1) by (simp_all add: store_inv_def)
  with get_file_from_spec [where fs = fs and k = 0 and n = n] assms(2) show *: "i < length fs" "existing (fs ! i)" "name (fs ! i) = cstr n"
    by (simp_all add: get_file_def)
  then show "store_abs fs (cstr n) = Some (fabs (fs ! i))"
    using store_abs_nth [OF \<open>unique_names fs\<close>, of i] by simp
  show "file_inv (fs ! i)" by (rule store_inv_nth [OF assms(1) *(1)])
qed

lemma get_file_Inl:
  assumes "store_inv fs" and "get_file fs n = Inl e"
  shows "e = ENOENT" and "store_abs fs (cstr n) = None"
  using get_file_from_spec [where fs = fs and k = 0 and n = n] assms
  by (simp_all add: store_inv_def get_file_def store_abs_None)

lemma get_empty_slot_from_spec:
  assumes "\<forall>f \<in> set fs. file_inv f"
  shows "case get_empty_slot_from k fs of
           Inl e \<Rightarrow> e = EMFILE \<and> (\<forall>i < length fs. existing (fs ! i))
         | Inr i \<Rightarrow> k \<le> i \<and> i < k + length fs \<and> \<not> existing (fs ! (i - k))"
  using assms
proof (induction fs arbitrary: k)
  case Nil
  then show ?case by simp
next
  case (Cons f fs)
  then have inv: "file_inv f" and IH: "case get_empty_slot_from (Suc k) fs of
           Inl e \<Rightarrow> e = EMFILE \<and> (\<forall>i < length fs. existing (fs ! i))
         | Inr i \<Rightarrow> Suc k \<le> i \<and> i < Suc k + length fs \<and> \<not> existing (fs ! (i - Suc k))"
    by auto
  show ?case
  proof (cases "existing f")
    case False
    then show ?thesis by (simp add: is_existing_file_iff [OF inv] del: owner_consts)
  next
    case True
    then have "get_empty_slot_from k (f # fs) = get_empty_slot_from (Suc k) fs"
      by (simp add: is_existing_file_iff [OF inv] del: owner_consts)
    with IH True show ?thesis
      by (auto simp: less_Suc_eq_0_disj nth_Cons' Suc_diff_le split: sum.splits)
  qed
qed

lemma get_empty_slot_Inr:
  "store_inv fs \<Longrightarrow> get_empty_slot fs = Inr i \<Longrightarrow> i < length fs \<and> \<not> existing (fs ! i)"
  using get_empty_slot_from_spec [where fs = fs and k = 0] by (simp add: store_inv_def get_empty_slot_def)

lemma get_empty_slot_Inl:
  "store_inv fs \<Longrightarrow> get_empty_slot fs = Inl e \<Longrightarrow> e = EMFILE \<and> (\<forall>i < length fs. existing (fs ! i))"
  using get_empty_slot_from_spec [where fs = fs and k = 0] by (simp add: store_inv_def get_empty_slot_def)

subsection \<open>Running a file operation on a slot\<close>

text \<open>The contract between an operation of \<open>file.c\<close> and the code that runs it on a slot of
  the array. \<open>pre\<close> is what the operation needs of the file.\<close>

locale file_operation =
  fixes run :: "file_t \<Rightarrow> int \<Rightarrow> (errno + 'a) \<times> file_t"
    and spec :: "int \<Rightarrow> afile \<Rightarrow> errno + afile"
    and pre :: "afile \<Rightarrow> bool"
  assumes refines: "file_inv f \<Longrightarrow> existing f \<Longrightarrow> 0 \<le> who \<Longrightarrow> pre (fabs f) \<Longrightarrow>
            file_sim f (spec who (fabs f)) (run f who)"
begin

lemma run_err:
  "file_inv f \<Longrightarrow> existing f \<Longrightarrow> 0 \<le> who \<Longrightarrow> pre (fabs f) \<Longrightarrow> spec who (fabs f) = Inl e \<Longrightarrow>
   run f who = (Inl e, f)"
  using refines [of f who] by (cases "run f who") (simp add: file_sim_def)

lemma run_ok:
  assumes "file_inv f" "existing f" "0 \<le> who" "pre (fabs f)" "spec who (fabs f) = Inr a"
  obtains x f' where "run f who = (Inr x, f')" "file_inv f'" "fabs f' = a" "name f' = name f"
    "existing f'" "fifo_creation_time f' = fifo_creation_time f"
  using refines [of f who] assms by (cases "run f who") (auto simp: file_sim_def)

lemma slot_ok:
  assumes inv: "store_inv fs" and i: "i < length fs" "existing (fs ! i)" and who: "0 \<le> who"
    and pre: "pre (fabs (fs ! i))" and ok: "spec who (fabs (fs ! i)) = Inr a"
  obtains x f' where "run (fs ! i) who = (Inr x, f')" "store_inv (fs[i := f'])" "file_inv f'"
    "existing f'"
    "store_abs (fs[i := f']) = (store_abs fs)(name (fs ! i) \<mapsto> a)"
    "used (fs[i := f']) + length (a_content (fabs (fs ! i))) = used fs + length (a_content a)"
    "live (fs[i := f']) = live fs"
proof -
  have f: "file_inv (fs ! i)" by (rule store_inv_nth [OF inv i(1)])
  have un: "unique_names fs" using inv by (simp add: store_inv_def)
  obtain x f' where r: "run (fs ! i) who = (Inr x, f')" "file_inv f'" "fabs f' = a"
      "name f' = name (fs ! i)" "existing f'"
    using run_ok [OF f i(2) who pre ok] .
  show thesis
  proof
    show "store_inv (fs[i := f'])"
      by (rule store_inv_slot [OF inv r(2) unique_names_keep [OF un i r(4)]])
    show "store_abs (fs[i := f']) = (store_abs fs)(name (fs ! i) \<mapsto> a)"
      using store_abs_update [OF un i r(5,4)] r(3) by simp
    show "used (fs[i := f']) + length (a_content (fabs (fs ! i))) = used fs + length (a_content a)"
      using used_slot [OF i(1), of f'] unat_fsize [OF f] unat_fsize [OF r(2)] r(3) by simp
    show "live (fs[i := f']) = live fs"
      using live_slot [OF i(1), of f'] i(2) r(5) by (simp del: owner_consts)
  qed (rule r(1,2,5))+
qed

end

interpretation fopen: file_operation "open_file mem_ok" a_open_op "\<lambda>_. True"
  by unfold_locales (rule open_file_refines)

interpretation fclose: file_operation "\<lambda>f who. close_file mem_ok f who 0" a_close_op "\<lambda>_. True"
  by unfold_locales (rule close_file_refines)

interpretation fread: file_operation "\<lambda>f who. read_file mem_ok f who out" a_read_op "\<lambda>_. True"
  for out
  by unfold_locales (rule read_file_refines)

interpretation fwrite: file_operation "\<lambda>f who. write_file mem_ok f who d (wlen d)" "a_write_op d"
    "\<lambda>_. d \<noteq> [] \<and> length d < 2 ^ 63"
  for d
  by unfold_locales (auto intro: write_file_refines)

interpretation fappend: file_operation "\<lambda>f who. append_file mem_ok f who d (wlen d)" "a_append_op d"
    "\<lambda>a. d \<noteq> [] \<and> length (a_content a) + length d < 2 ^ 63"
  for d
  by unfold_locales (auto intro: append_file_refines)

interpretation flock: file_operation lock_file a_lock_op "\<lambda>_. True"
  by unfold_locales (rule lock_file_refines)

interpretation funlock: file_operation unlock_file a_unlock_op "\<lambda>_. True"
  by unfold_locales (rule unlock_file_refines)

end
