(* ===== verification/Databuf.thy ===== *)
theory Databuf
  imports Prelude
begin

text \<open>
  The growing byte buffer of \<open>source/databuf.c\<close>, which carries the body of every
  message. The code uses it as a stack: \<open>push_buf\<close> appends bytes, \<open>pop_buf\<close> takes them
  back from the end. The theory models every operation, shows that each implements the
  operation of a stack of bytes, and derives from that (once, in the locale
  \<open>byte_stack\<close>) that a field pushed as \<open>data, length\<close> is read back as
  \<open>length, data\<close>.
\<close>

subsection \<open>The structure and its operations\<close>

record databuf =
  buffer :: "byte list option"
  buf_size :: size_t
  buf_cap :: size_t

definition contents :: "databuf \<Rightarrow> byte list" where
  "contents b = (case buffer b of None \<Rightarrow> [] | Some xs \<Rightarrow> xs)"

definition realloc_buf :: "allocator \<Rightarrow> databuf \<Rightarrow> size_t \<Rightarrow> (errno + unit) \<times> databuf" where
  "realloc_buf alloc b newsize =
     (let p = (if alloc newsize then Some (resize_block (unat newsize) (contents b)) else None);
          b' = b\<lparr>buffer := p\<rparr>
      in if p = None \<and> newsize \<noteq> 0 then (Inl ENOMEM, b')
         else (Inr (), b'\<lparr>buf_cap := newsize\<rparr>))"

definition create_data_buffer :: databuf where
  "create_data_buffer = \<lparr>buffer = None, buf_size = 0, buf_cap = 0\<rparr>"

text \<open>The destination of \<open>pop_buf\<close> is a block (\<open>None\<close> is NULL); the result is the block
  with its first \<open>datalen\<close> bytes overwritten.\<close>

definition pop_buf :: "databuf \<Rightarrow> size_t \<Rightarrow> byte list option \<Rightarrow> (errno + byte list) \<times> databuf" where
  "pop_buf b datalen read_data =
     (case read_data of
        None \<Rightarrow> (Inl EINVAL, b)
      | Some dst \<Rightarrow>
          if buf_size b < datalen then (Inl ENOBUFS, b)
          else
            (let b' = b\<lparr>buf_size := buf_size b - datalen\<rparr>;
                 src = take (unat datalen) (drop (unat (buf_size b')) (contents b'))
             in (Inr (src @ drop (unat datalen) dst), b')))"

definition pop_buf_discard :: "databuf \<Rightarrow> size_t \<Rightarrow> (errno + unit) \<times> databuf" where
  "pop_buf_discard b datalen =
     (if buf_size b < datalen then (Inl ENOBUFS, b)
      else (Inr (), b\<lparr>buf_size := buf_size b - datalen\<rparr>))"

text \<open>The reallocation loop of \<open>push_buf\<close>. Each round more than doubles the capacity, so
  \<open>grow_fuel\<close> rounds are enough for every request below \<open>2 ^ 62\<close> bytes
  (\<open>grow_buf_enough\<close>).\<close>

fun grow_buf :: "nat \<Rightarrow> allocator \<Rightarrow> databuf \<Rightarrow> size_t \<Rightarrow> (errno + unit) \<times> databuf" where
  "grow_buf 0 alloc b datalen =
     (if buf_cap b - buf_size b < datalen then (Inl ENOMEM, b) else (Inr (), b))"
| "grow_buf (Suc fuel) alloc b datalen =
     (if buf_cap b - buf_size b < datalen
      then (case realloc_buf alloc b (buf_cap b * 2 + 10) of
              (Inl e, b') \<Rightarrow> (Inl e, b')
            | (Inr _, b') \<Rightarrow> grow_buf fuel alloc b' datalen)
      else (Inr (), b))"

definition grow_fuel :: nat where
  "grow_fuel = 64"

definition push_buf :: "allocator \<Rightarrow> databuf \<Rightarrow> size_t \<Rightarrow> byte list option \<Rightarrow> (errno + unit) \<times> databuf" where
  "push_buf alloc b datalen write_data =
     (case write_data of
        None \<Rightarrow> (Inl EINVAL, b)
      | Some src \<Rightarrow>
          (case grow_buf grow_fuel alloc b datalen of
             (Inl e, b') \<Rightarrow> (Inl e, b')
           | (Inr _, b') \<Rightarrow>
               (let n = unat datalen; pos = unat (buf_size b'); c = contents b'
                in (Inr (),
                    b'\<lparr>buffer := map_option (\<lambda>_. take pos c @ take n src @ drop (pos + n) c) (buffer b'),
                       buf_size := buf_size b' + datalen\<rparr>))))"

text \<open>\<open>free\<close> leaves the pointer dangling; the buffer is not read again before
  \<open>create_data_buffer\<close>, and the model drops its bytes.\<close>

definition destroy_data_buffer :: "databuf \<Rightarrow> databuf" where
  "destroy_data_buffer b = b\<lparr>buffer := None, buf_size := 0, buf_cap := 0\<rparr>"

definition resize_data_buffer :: "allocator \<Rightarrow> databuf \<Rightarrow> size_t \<Rightarrow> (errno + unit) \<times> databuf" where
  "resize_data_buffer alloc b newsize =
     (case realloc_buf alloc b newsize of
        (Inl e, b') \<Rightarrow> (Inl e, b')
      | (Inr _, b') \<Rightarrow>
          (Inr (), if newsize < buf_size b' then b'\<lparr>buf_size := newsize\<rparr> else b'))"

subsection \<open>Well-formed buffers and the stack they hold\<close>

definition db_inv :: "databuf \<Rightarrow> bool" where
  "db_inv b \<longleftrightarrow> length (contents b) = unat (buf_cap b) \<and> buf_size b \<le> buf_cap b"

definition db_stack :: "databuf \<Rightarrow> byte list" where
  "db_stack b = take (unat (buf_size b)) (contents b)"

lemma length_db_stack: "db_inv b \<Longrightarrow> length (db_stack b) = unat (buf_size b)"
  by (simp add: db_inv_def db_stack_def word_le_nat_alt)

lemma db_inv_create [simp]: "db_inv create_data_buffer"
  by (simp add: db_inv_def create_data_buffer_def contents_def)

lemma db_stack_create [simp]: "db_stack create_data_buffer = []"
  by (simp add: db_stack_def create_data_buffer_def)

lemma db_inv_destroy: "db_inv (destroy_data_buffer b) \<and> db_stack (destroy_data_buffer b) = []"
  by (simp add: db_inv_def db_stack_def destroy_data_buffer_def contents_def)

text \<open>A realloc that does not shrink below the bytes in use keeps the stack.\<close>

lemma realloc_buf_mem_ok:
  assumes "db_inv b" and "buf_cap b \<le> newsize"
  shows "\<exists>b'. realloc_buf mem_ok b newsize = (Inr (), b') \<and> db_inv b' \<and> db_stack b' = db_stack b
           \<and> buf_size b' = buf_size b \<and> buf_cap b' = newsize"
proof -
  have "unat (buf_size b) \<le> unat (buf_cap b)" "unat (buf_cap b) \<le> unat newsize"
    using assms by (simp_all add: db_inv_def word_le_nat_alt)
  then show ?thesis
    using assms
    by (simp add: realloc_buf_def mem_ok_def db_inv_def db_stack_def contents_def word_le_nat_alt)
qed

lemma double_cap: "unat c < 2 ^ 62 \<Longrightarrow> unat (c * 2 + 10 :: size_t) = unat c * 2 + 10"
  by (simp add: unat_word_ariths)

lemma grow_guard:
  assumes "db_inv b"
  shows "buf_cap b - buf_size b < n \<longleftrightarrow> unat (buf_cap b) < unat (buf_size b) + unat n"
proof -
  have "unat (buf_cap b - buf_size b) = unat (buf_cap b) - unat (buf_size b)"
    using assms by (simp add: db_inv_def unat_sub)
  moreover have "unat (buf_size b) \<le> unat (buf_cap b)"
    using assms by (simp add: db_inv_def word_le_nat_alt)
  ultimately show ?thesis by (simp add: word_less_nat_alt less_diff_conv2 add.commute)
qed

lemma grow_buf_ok:
  assumes "db_inv b" and "unat (buf_size b) + unat n < 2 ^ 62"
    and "unat (buf_size b) + unat n + 10 \<le> (unat (buf_cap b) + 10) * 2 ^ fuel"
  shows "\<exists>b'. grow_buf fuel mem_ok b n = (Inr (), b') \<and> db_inv b' \<and> db_stack b' = db_stack b
           \<and> buf_size b' = buf_size b \<and> unat (buf_size b) + unat n \<le> unat (buf_cap b')"
  using assms
proof (induction fuel arbitrary: b)
  case 0
  then show ?case by (auto simp: grow_guard not_less)
next
  case (Suc fuel)
  show ?case
  proof (cases "unat (buf_cap b) < unat (buf_size b) + unat n")
    case False
    with Suc.prems show ?thesis by (auto simp: grow_guard not_less)
  next
    case True
    with Suc.prems(2) have cap: "unat (buf_cap b) < 2 ^ 62" by simp
    have le: "buf_cap b \<le> buf_cap b * 2 + 10"
      by (simp add: word_le_nat_alt double_cap [OF cap])
    obtain b' where b': "realloc_buf mem_ok b (buf_cap b * 2 + 10) = (Inr (), b')" "db_inv b'"
        "db_stack b' = db_stack b" "buf_size b' = buf_size b" "buf_cap b' = buf_cap b * 2 + 10"
      using realloc_buf_mem_ok [OF Suc.prems(1) le] by blast
    have "unat (buf_cap b') = unat (buf_cap b) * 2 + 10"
      by (simp only: b' double_cap [OF cap])
    then have "unat (buf_size b') + unat n + 10 \<le> (unat (buf_cap b') + 10) * 2 ^ fuel"
      using Suc.prems(3) by (simp add: b' algebra_simps)
    with Suc.IH [of b'] Suc.prems(2) True Suc.prems(1) show ?thesis
      by (auto simp: b' grow_guard)
  qed
qed

text \<open>More fuel never changes the outcome, whatever the allocator answers: \<open>grow_fuel\<close> is
  no bound on the program.\<close>

lemma grow_buf_fuel_Suc:
  assumes "db_inv b" and "unat (buf_size b) + unat n < 2 ^ 62"
    and "unat (buf_size b) + unat n + 10 \<le> (unat (buf_cap b) + 10) * 2 ^ fuel"
  shows "grow_buf (Suc fuel) alloc b n = grow_buf fuel alloc b n"
  using assms
proof (induction fuel arbitrary: b)
  case 0
  then show ?case by (simp add: grow_guard)
next
  case (Suc fuel)
  show ?case
  proof (cases "unat (buf_cap b) < unat (buf_size b) + unat n \<and> alloc (buf_cap b * 2 + 10)")
    case False
    with Suc.prems show ?thesis
      by (simp add: grow_guard realloc_buf_def Let_def double_cap
            unat_eq_0 [symmetric] del: unat_eq_0)
  next
    case True
    with Suc.prems(2) have cap: "unat (buf_cap b) < 2 ^ 62" by simp
    have le: "buf_cap b \<le> buf_cap b * 2 + 10"
      by (simp add: word_le_nat_alt double_cap [OF cap])
    obtain b' where b': "realloc_buf mem_ok b (buf_cap b * 2 + 10) = (Inr (), b')" "db_inv b'"
        "buf_size b' = buf_size b" "buf_cap b' = buf_cap b * 2 + 10"
      using realloc_buf_mem_ok [OF Suc.prems(1) le] by blast
    have eq: "realloc_buf alloc b (buf_cap b * 2 + 10) = (Inr (), b')"
      using b'(1) True by (simp add: realloc_buf_def mem_ok_def)
    have "unat (buf_cap b') = unat (buf_cap b) * 2 + 10"
      by (simp only: b' double_cap [OF cap])
    then have "unat (buf_size b') + unat n + 10 \<le> (unat (buf_cap b') + 10) * 2 ^ fuel"
      using Suc.prems(3) by (simp add: b' algebra_simps)
    with Suc.IH [of b'] Suc.prems(2) b'(2,3) show ?thesis
      by (simp add: eq del: grow_buf.simps) (simp add: eq)
  qed
qed

lemma grow_fuel_bound: "(k :: nat) < 2 ^ 62 \<Longrightarrow> k + 10 \<le> (c + 10) * 2 ^ grow_fuel"
proof -
  assume "k < 2 ^ 62"
  also have "(2 :: nat) ^ 62 \<le> 1 * 2 ^ 64 - 10" by simp
  finally have "k + 10 \<le> 1 * 2 ^ 64" by simp
  also have "\<dots> \<le> (c + 10) * 2 ^ 64" by (rule mult_le_mono1) simp
  finally show ?thesis by (simp add: grow_fuel_def)
qed

lemma grow_buf_enough:
  assumes "db_inv b" and "unat (buf_size b) + unat n < 2 ^ 62"
  shows "grow_buf (grow_fuel + k) alloc b n = grow_buf grow_fuel alloc b n"
proof (induction k)
  case 0
  then show ?case by simp
next
  case (Suc k)
  have "unat (buf_size b) + unat n + 10 \<le> (unat (buf_cap b) + 10) * 2 ^ grow_fuel"
    by (rule grow_fuel_bound [OF assms(2)])
  also have "\<dots> \<le> (unat (buf_cap b) + 10) * 2 ^ (grow_fuel + k)"
    by (simp add: power_add)
  finally show ?case
    using grow_buf_fuel_Suc [OF assms, of "grow_fuel + k"] Suc.IH by simp
qed

subsection \<open>Push and pop implement the stack\<close>

lemma push_buf_ok:
  assumes inv: "db_inv b" and n: "length d = unat n"
    and fits: "length (db_stack b) + length d < 2 ^ 62"
  shows "\<exists>b'. push_buf mem_ok b n (Some d) = (Inr (), b') \<and> db_inv b' \<and> db_stack b' = db_stack b @ d"
proof -
  have sz: "unat (buf_size b) + unat n < 2 ^ 62"
    using fits inv n by (simp add: length_db_stack)
  obtain b1 where b1: "grow_buf grow_fuel mem_ok b n = (Inr (), b1)" "db_inv b1"
      "db_stack b1 = db_stack b" "buf_size b1 = buf_size b"
      and room: "unat (buf_size b) + unat n \<le> unat (buf_cap b1)"
    using grow_buf_ok [OF inv sz grow_fuel_bound [OF sz]] by blast
  have lc: "length (contents b1) = unat (buf_cap b1)" and le: "unat (buf_size b1) \<le> unat (buf_cap b1)"
    using b1(2) by (simp_all add: db_inv_def word_le_nat_alt)
  have add: "unat (buf_size b1 + n) = unat (buf_size b) + unat n"
    using sz b1(4) by (simp add: unat_word_ariths)
  let ?pos = "unat (buf_size b)" and ?c = "contents b1"
  let ?b2 = "b1\<lparr>buffer := map_option (\<lambda>_. take ?pos ?c @ take (unat n) d @ drop (?pos + unat n) ?c) (buffer b1),
                buf_size := buf_size b1 + n\<rparr>"
  have push: "push_buf mem_ok b n (Some d) = (Inr (), ?b2)"
    by (simp add: push_buf_def b1 Let_def)
  have c2: "contents ?b2 = take ?pos ?c @ d @ drop (?pos + unat n) ?c"
    using lc room n by (cases "buffer b1") (auto simp: contents_def)
  have "length (take ?pos ?c) = ?pos"
    using lc room by simp
  then have "db_inv ?b2" and "db_stack ?b2 = take ?pos ?c @ d"
    using c2 lc le room n add b1(4) by (simp_all add: db_inv_def db_stack_def word_le_nat_alt)
  moreover have "take ?pos ?c = db_stack b"
    using b1(3,4) by (simp add: db_stack_def)
  ultimately show ?thesis using push by auto
qed

lemma pop_buf_ok:
  assumes inv: "db_inv b" and st: "db_stack b = s @ d" and n: "length d = unat n"
  shows "\<exists>b'. pop_buf b n (Some dst) = (Inr (d @ drop (length d) dst), b') \<and> db_inv b' \<and> db_stack b' = s"
proof -
  have len: "unat (buf_size b) = length s + unat n"
    using length_db_stack [OF inv] st n by simp
  then have le: "n \<le> buf_size b" by (simp add: word_le_nat_alt)
  have sub: "unat (buf_size b - n) = length s"
    using len le by (simp add: unat_sub)
  have "take (length s + unat n) (contents b) = s @ d"
    using st len by (simp add: db_stack_def)
  then have s: "take (length s) (contents b) = s" and d: "take (unat n) (drop (length s) (contents b)) = d"
    using n by (metis append_eq_conv_conj length_append min.absorb1 le_add1 take_take)
      (metis \<open>take (length s + unat n) (contents b) = s @ d\<close> append_eq_conv_conj take_drop add.commute)
  have "buf_size b - n \<le> buf_cap b"
    using inv sub len by (simp add: db_inv_def word_le_nat_alt)
  then show ?thesis
    using inv le s d n sub
    by (auto simp: pop_buf_def db_inv_def db_stack_def contents_def Let_def not_less)
qed

lemma pop_buf_short:
  "db_inv b \<Longrightarrow> length (db_stack b) < unat n \<Longrightarrow> pop_buf b n (Some dst) = (Inl ENOBUFS, b)"
  by (simp add: pop_buf_def length_db_stack word_less_nat_alt)

subsection \<open>The stack interface, and fields pushed as data followed by length\<close>

text \<open>The wire format of one variable-size field: its bytes, then their number as a
  \<open>size_t\<close>. The reader pops the number first.\<close>

definition field :: "byte list \<Rightarrow> byte list" where
  "field d = d @ size_bytes (wlen d)"

lemma length_field [simp]: "length (field d) = length d + 8"
  by (simp add: field_def)

locale byte_stack =
  fixes push :: "'s \<Rightarrow> byte list \<Rightarrow> (errno + unit) \<times> 's"
    and pop :: "'s \<Rightarrow> size_t \<Rightarrow> byte list \<Rightarrow> (errno + byte list) \<times> 's"
    and abs :: "'s \<Rightarrow> byte list"
    and inv :: "'s \<Rightarrow> bool"
    and limit :: nat
  assumes push_ok: "inv s \<Longrightarrow> length (abs s) + length d < limit \<Longrightarrow>
            \<exists>s'. push s d = (Inr (), s') \<and> inv s' \<and> abs s' = abs s @ d"
    and pop_ok: "inv s \<Longrightarrow> abs s = t @ d \<Longrightarrow> length d = unat n \<Longrightarrow>
            \<exists>s'. pop s n dst = (Inr (d @ drop (length d) dst), s') \<and> inv s' \<and> abs s' = t"
    and limit_word: "limit \<le> 2 ^ 64"
begin

lemma push_pop:
  assumes "inv s" and "length (abs s) + length d < limit" and "length d = length dst"
  shows "\<exists>s1 s2. push s d = (Inr (), s1) \<and> pop s1 (wlen d) dst = (Inr d, s2) \<and> inv s2 \<and> abs s2 = abs s"
proof -
  have n: "length d = unat (wlen d)"
    using assms(2) limit_word by (simp add: unat_wlen)
  obtain s1 where s1: "push s d = (Inr (), s1)" "inv s1" "abs s1 = abs s @ d"
    using push_ok [OF assms(1,2)] by blast
  with pop_ok [OF s1(2,3) n, of dst] assms(3) show ?thesis by auto
qed

lemma push_field:
  assumes "inv s" and "length (abs s) + length d + 8 < limit"
  shows "\<exists>s1 s2. push s d = (Inr (), s1) \<and> push s1 (size_bytes (wlen d)) = (Inr (), s2)
           \<and> inv s2 \<and> abs s2 = abs s @ field d"
proof -
  obtain s1 where s1: "push s d = (Inr (), s1)" "inv s1" "abs s1 = abs s @ d"
    using push_ok [OF assms(1), of d] assms(2) by auto
  have "length (abs s1) + length (size_bytes (wlen d)) < limit"
    using assms(2) s1(3) by simp
  with push_ok [OF s1(2)] s1 show ?thesis by (auto simp: field_def)
qed

lemma pop_field:
  assumes "inv s" and "abs s = t @ field d" and "length d < limit"
  shows "\<exists>s1 s2. pop s 8 (replicate 8 0) = (Inr (size_bytes (wlen d)), s1)
           \<and> pop s1 (wlen d) dst = (Inr (d @ drop (length d) dst), s2) \<and> inv s2 \<and> abs s2 = t"
proof -
  have "abs s = (t @ d) @ size_bytes (wlen d)"
    using assms(2) by (simp add: field_def)
  from pop_ok [OF assms(1) this, of 8 "replicate 8 0"] obtain s1
    where s1: "pop s 8 (replicate 8 0) = (Inr (size_bytes (wlen d)), s1)" "inv s1" "abs s1 = t @ d"
    by auto
  have "length d = unat (wlen d)"
    using assms(3) limit_word by (simp add: unat_wlen)
  from pop_ok [OF s1(2,3) this, of dst] s1(1) show ?thesis by auto
qed

end

definition push_bytes :: "allocator \<Rightarrow> databuf \<Rightarrow> byte list \<Rightarrow> (errno + unit) \<times> databuf" where
  "push_bytes alloc b d = push_buf alloc b (wlen d) (Some d)"

interpretation db: byte_stack "push_bytes mem_ok" "\<lambda>b n dst. pop_buf b n (Some dst)" db_stack db_inv "2 ^ 62"
proof
  fix s d
  assume "db_inv s" "length (db_stack s) + length (d :: byte list) < 2 ^ 62"
  then show "\<exists>s'. push_bytes mem_ok s d = (Inr (), s') \<and> db_inv s' \<and> db_stack s' = db_stack s @ d"
    unfolding push_bytes_def by (intro push_buf_ok) (simp_all add: unat_wlen)
next
  fix s t d n dst
  assume "db_inv s" "db_stack s = t @ d" "length (d :: byte list) = unat (n :: size_t)"
  then show "\<exists>s'. pop_buf s n (Some dst) = (Inr (d @ drop (length d) dst), s') \<and> db_inv s' \<and> db_stack s' = t"
    by (rule pop_buf_ok)
qed simp

text \<open>Whatever bytes are on the buffer, pushing a block and then its size, as the server
  does for every name and every file it returns, lets the reader pop the size and then
  exactly that block; afterwards the buffer holds what it held before.\<close>

theorem databuf_field_roundtrip:
  assumes "db_inv b" and "length (db_stack b) + length d + 8 < 2 ^ 62"
  shows "\<exists>b1 b2 b3 b4.
           push_bytes mem_ok b d = (Inr (), b1) \<and> push_bytes mem_ok b1 (size_bytes (wlen d)) = (Inr (), b2)
         \<and> pop_buf b2 8 (Some (replicate 8 0)) = (Inr (size_bytes (wlen d)), b3)
         \<and> pop_buf b3 (wlen d) (Some dst) = (Inr (d @ drop (length d) dst), b4)
         \<and> db_inv b4 \<and> db_stack b4 = db_stack b"
proof -
  obtain b1 b2 where p: "push_bytes mem_ok b d = (Inr (), b1)"
      "push_bytes mem_ok b1 (size_bytes (wlen d)) = (Inr (), b2)" "db_inv b2" "db_stack b2 = db_stack b @ field d"
    using db.push_field [OF assms] by blast
  from db.pop_field [OF p(3,4), of dst] assms(2) p(1,2) show ?thesis by auto
qed

theorem databuf_field_roundtrip_witness:
  "\<exists>b1 b2 b3 b4.
     push_bytes mem_ok create_data_buffer [7, 8] = (Inr (), b1)
   \<and> push_bytes mem_ok b1 (size_bytes (wlen [7, 8 :: byte])) = (Inr (), b2)
   \<and> pop_buf b2 8 (Some (replicate 8 0)) = (Inr (size_bytes (wlen [7, 8 :: byte])), b3)
   \<and> pop_buf b3 (wlen [7, 8 :: byte]) (Some [1, 1, 1]) = (Inr ([7, 8] @ drop (length [7, 8 :: byte]) [1, 1, 1]), b4)
   \<and> db_inv b4 \<and> db_stack b4 = db_stack create_data_buffer"
  by (rule databuf_field_roundtrip) simp_all

end
