(* ===== verification/Message_Type.thy ===== *)
theory Message_Type
  imports Prelude
begin

text \<open>
  The 32-bit message types of \<open>source/message_type.h\<close>: eight bits for the server's message
  number, eight for the client's, sixteen flags. The theory shows that the encodings do not
  overlap: flags never change which operation a message asks for, and no message is both
  a request and an answer to a request.
\<close>

type_synonym msg_t = uint32

subsection \<open>Fields\<close>

definition MESSAGE_SERVER_NULL :: msg_t where "MESSAGE_SERVER_NULL = 0"
definition MESSAGE_CLIENT_NULL :: msg_t where "MESSAGE_CLIENT_NULL = push_bit 16 255"
definition MESSAGE_SERVER_MASK :: msg_t where "MESSAGE_SERVER_MASK = push_bit 24 255"
definition MESSAGE_CLIENT_MASK :: msg_t where "MESSAGE_CLIENT_MASK = push_bit 16 255"
definition MESSAGE_FLAG_MASK :: msg_t where "MESSAGE_FLAG_MASK = push_bit 8 255 + 255"

definition SRV_MSG :: "msg_t \<Rightarrow> msg_t" where "SRV_MSG num = push_bit 24 num OR MESSAGE_CLIENT_NULL"
definition CNT_MSG :: "msg_t \<Rightarrow> msg_t" where "CNT_MSG num = push_bit 16 num OR MESSAGE_SERVER_NULL"
definition FLAG :: "nat \<Rightarrow> msg_t" where "FLAG num = push_bit num 1"

definition ISSERVER :: "msg_t \<Rightarrow> bool" where
  "ISSERVER msg \<longleftrightarrow> msg AND MESSAGE_CLIENT_MASK = MESSAGE_CLIENT_NULL"
definition ISCLIENT :: "msg_t \<Rightarrow> bool" where
  "ISCLIENT msg \<longleftrightarrow> msg AND MESSAGE_SERVER_MASK = MESSAGE_SERVER_NULL"
definition GETFLAGS :: "msg_t \<Rightarrow> msg_t" where "GETFLAGS msg = msg AND MESSAGE_FLAG_MASK"
definition HASFLAG :: "msg_t \<Rightarrow> msg_t \<Rightarrow> bool" where "HASFLAG msg flag \<longleftrightarrow> msg AND flag \<noteq> 0"

definition CHECK_SERVER_MSG_TYPE :: "msg_t \<Rightarrow> msg_t \<Rightarrow> bool" where
  "CHECK_SERVER_MSG_TYPE msg tp \<longleftrightarrow> msg AND MESSAGE_SERVER_MASK = tp"
definition CHECK_CLIENT_MSG_TYPE :: "msg_t \<Rightarrow> msg_t \<Rightarrow> bool" where
  "CHECK_CLIENT_MSG_TYPE msg tp \<longleftrightarrow> msg AND MESSAGE_CLIENT_MASK = tp"

subsection \<open>Answers, flags and requests\<close>

definition MESSAGE_NULL :: msg_t where "MESSAGE_NULL = SRV_MSG 0"
definition MESSAGE_OCONN_ACK :: msg_t where "MESSAGE_OCONN_ACK = SRV_MSG 1"
definition MESSAGE_CCONN_ACK :: msg_t where "MESSAGE_CCONN_ACK = SRV_MSG 2"
definition MESSAGE_OFILE_ACK :: msg_t where "MESSAGE_OFILE_ACK = SRV_MSG 3"
definition MESSAGE_CFILE_ACK :: msg_t where "MESSAGE_CFILE_ACK = SRV_MSG 4"
definition MESSAGE_RMFILE_ACK :: msg_t where "MESSAGE_RMFILE_ACK = SRV_MSG 5"
definition MESSAGE_LFILE_ACK :: msg_t where "MESSAGE_LFILE_ACK = SRV_MSG 6"
definition MESSAGE_ULFILE_ACK :: msg_t where "MESSAGE_ULFILE_ACK = SRV_MSG 7"
definition MESSAGE_RFILE_ACK :: msg_t where "MESSAGE_RFILE_ACK = SRV_MSG 8"
definition MESSAGE_RNFILE_ACK :: msg_t where "MESSAGE_RNFILE_ACK = SRV_MSG 9"
definition MESSAGE_WFILE_ACK :: msg_t where "MESSAGE_WFILE_ACK = SRV_MSG 10"
definition MESSAGE_AFILE_ACK :: msg_t where "MESSAGE_AFILE_ACK = SRV_MSG 11"

definition MESSAGE_OP_SUCC :: msg_t where "MESSAGE_OP_SUCC = FLAG 0"
definition MESSAGE_FILE_EXISTS :: msg_t where "MESSAGE_FILE_EXISTS = FLAG 2"
definition MESSAGE_FILE_NEXISTS :: msg_t where "MESSAGE_FILE_NEXISTS = FLAG 3"
definition MESSAGE_FILE_LOCK :: msg_t where "MESSAGE_FILE_LOCK = FLAG 4"
definition MESSAGE_FILE_NLOCK :: msg_t where "MESSAGE_FILE_NLOCK = FLAG 5"
definition MESSAGE_FILE_NOWN :: msg_t where "MESSAGE_FILE_NOWN = FLAG 6"
definition MESSAGE_FILE_ERRMAXFILES :: msg_t where "MESSAGE_FILE_ERRMAXFILES = FLAG 7"
definition MESSAGE_FILE_NOPEN :: msg_t where "MESSAGE_FILE_NOPEN = FLAG 9"
definition MESSAGE_FILE_CHACEMISS :: msg_t where "MESSAGE_FILE_CHACEMISS = FLAG 15"

definition MESSAGE_OPEN_CONN :: msg_t where "MESSAGE_OPEN_CONN = CNT_MSG 1"
definition MESSAGE_CLOSE_CONN :: msg_t where "MESSAGE_CLOSE_CONN = CNT_MSG 2"
definition MESSAGE_OPEN_FILE :: msg_t where "MESSAGE_OPEN_FILE = CNT_MSG 3"
definition MESSAGE_CLOSE_FILE :: msg_t where "MESSAGE_CLOSE_FILE = CNT_MSG 4"
definition MESSAGE_READ_FILE :: msg_t where "MESSAGE_READ_FILE = CNT_MSG 5"
definition MESSAGE_READN_FILE :: msg_t where "MESSAGE_READN_FILE = CNT_MSG 6"
definition MESSAGE_WRITE_FILE :: msg_t where "MESSAGE_WRITE_FILE = CNT_MSG 7"
definition MESSAGE_APPEND_FILE :: msg_t where "MESSAGE_APPEND_FILE = CNT_MSG 8"
definition MESSAGE_LOCK_FILE :: msg_t where "MESSAGE_LOCK_FILE = CNT_MSG 9"
definition MESSAGE_UNLOCK_FILE :: msg_t where "MESSAGE_UNLOCK_FILE = CNT_MSG 10"
definition MESSAGE_REMOVE_FILE :: msg_t where "MESSAGE_REMOVE_FILE = CNT_MSG 11"

definition MESSAGE_OPEN_OCREATE :: msg_t where "MESSAGE_OPEN_OCREATE = FLAG 1"
definition MESSAGE_OPEN_OLOCK :: msg_t where "MESSAGE_OPEN_OLOCK = FLAG 2"

text \<open>The names of the operations in the log.\<close>

definition STRING_OPEN_CONN :: string where "STRING_OPEN_CONN = ''Open Connection''"
definition STRING_CLOSE_CONN :: string where "STRING_CLOSE_CONN = ''Close Connection''"
definition STRING_OPEN_FILE :: string where "STRING_OPEN_FILE = ''Open File''"
definition STRING_CREATE_FILE :: string where "STRING_CREATE_FILE = ''Create File''"
definition STRING_OPENLOCK_FILE :: string where "STRING_OPENLOCK_FILE = ''OpenLock File''"
definition STRING_CREATELOCK_FILE :: string where "STRING_CREATELOCK_FILE = ''CreateLock File''"
definition STRING_CLOSE_FILE :: string where "STRING_CLOSE_FILE = ''Close File''"
definition STRING_READ_FILE :: string where "STRING_READ_FILE = ''Read File''"
definition STRING_READN_FILE :: string where "STRING_READN_FILE = ''Read N Files''"
definition STRING_WRITE_FILE :: string where "STRING_WRITE_FILE = ''Write File''"
definition STRING_APPEND_FILE :: string where "STRING_APPEND_FILE = ''Append To File''"
definition STRING_LOCK_FILE :: string where "STRING_LOCK_FILE = ''Lock File''"
definition STRING_UNLOCK_FILE :: string where "STRING_UNLOCK_FILE = ''Unlock File''"
definition STRING_REMOVE_FILE :: string where "STRING_REMOVE_FILE = ''Remove File''"
definition STRING_CACHE_MISS :: string where "STRING_CACHE_MISS = ''CacheMiss''"

lemmas msg_field_defs = MESSAGE_SERVER_NULL_def MESSAGE_CLIENT_NULL_def MESSAGE_SERVER_MASK_def
  MESSAGE_CLIENT_MASK_def MESSAGE_FLAG_MASK_def SRV_MSG_def CNT_MSG_def FLAG_def

lemmas msg_ack_defs = MESSAGE_NULL_def MESSAGE_OCONN_ACK_def MESSAGE_CCONN_ACK_def MESSAGE_OFILE_ACK_def
  MESSAGE_CFILE_ACK_def MESSAGE_RMFILE_ACK_def MESSAGE_LFILE_ACK_def MESSAGE_ULFILE_ACK_def
  MESSAGE_RFILE_ACK_def MESSAGE_RNFILE_ACK_def MESSAGE_WFILE_ACK_def MESSAGE_AFILE_ACK_def

lemmas msg_flag_defs = MESSAGE_OP_SUCC_def MESSAGE_FILE_EXISTS_def MESSAGE_FILE_NEXISTS_def
  MESSAGE_FILE_LOCK_def MESSAGE_FILE_NLOCK_def MESSAGE_FILE_NOWN_def MESSAGE_FILE_ERRMAXFILES_def
  MESSAGE_FILE_NOPEN_def MESSAGE_FILE_CHACEMISS_def MESSAGE_OPEN_OCREATE_def MESSAGE_OPEN_OLOCK_def

lemmas msg_req_defs = MESSAGE_OPEN_CONN_def MESSAGE_CLOSE_CONN_def MESSAGE_OPEN_FILE_def
  MESSAGE_CLOSE_FILE_def MESSAGE_READ_FILE_def MESSAGE_READN_FILE_def MESSAGE_WRITE_FILE_def
  MESSAGE_APPEND_FILE_def MESSAGE_LOCK_FILE_def MESSAGE_UNLOCK_FILE_def MESSAGE_REMOVE_FILE_def

lemmas msg_check_defs = ISSERVER_def ISCLIENT_def GETFLAGS_def HASFLAG_def CHECK_SERVER_MSG_TYPE_def
  CHECK_CLIENT_MSG_TYPE_def

subsection \<open>The fields do not overlap\<close>

text \<open>Flags are the low sixteen bits.\<close>

definition flag_bits :: "msg_t \<Rightarrow> bool" where
  "flag_bits fl \<longleftrightarrow> fl AND NOT MESSAGE_FLAG_MASK = 0"

lemma flag_bits_iff: "flag_bits fl \<longleftrightarrow> take_bit 16 fl = fl"
proof -
  have m: "MESSAGE_FLAG_MASK = mask 16"
    by (simp add: MESSAGE_FLAG_MASK_def mask_eq_exp_minus_1 push_bit_eq_mult)
  show ?thesis
    unfolding flag_bits_def m take_bit_eq_mask
    by (auto simp: bit_eq_iff bit_simps)
qed

lemma flag_bits_high: "flag_bits fl \<Longrightarrow> bit fl n \<Longrightarrow> n < 16"
  unfolding flag_bits_iff by (metis bit_take_bit_iff not_less)

lemma bit_client_mask: "bit MESSAGE_CLIENT_MASK n \<longleftrightarrow> 16 \<le> n \<and> n < 24"
proof -
  have "MESSAGE_CLIENT_MASK = push_bit 16 (mask 8)"
    by (simp add: MESSAGE_CLIENT_MASK_def mask_eq_exp_minus_1)
  show ?thesis unfolding \<open>MESSAGE_CLIENT_MASK = push_bit 16 (mask 8)\<close> bit_push_bit_iff bit_mask_iff by auto
qed

lemma bit_server_mask: "bit MESSAGE_SERVER_MASK n \<longleftrightarrow> 24 \<le> n \<and> n < 32"
proof -
  have "MESSAGE_SERVER_MASK = push_bit 24 (mask 8)"
    by (simp add: MESSAGE_SERVER_MASK_def mask_eq_exp_minus_1)
  show ?thesis unfolding \<open>MESSAGE_SERVER_MASK = push_bit 24 (mask 8)\<close> bit_push_bit_iff bit_mask_iff by auto
qed

lemma client_null_mask: "MESSAGE_CLIENT_NULL = MESSAGE_CLIENT_MASK"
  by (simp add: MESSAGE_CLIENT_NULL_def MESSAGE_CLIENT_MASK_def)

lemma bit_CNT_MSG: "bit (CNT_MSG k) n \<longleftrightarrow> 16 \<le> n \<and> n < 32 \<and> bit k (n - 16)"
  by (auto simp: CNT_MSG_def MESSAGE_SERVER_NULL_def bit_push_bit_iff)

lemma flag_and_client: "flag_bits fl \<Longrightarrow> (w OR fl) AND MESSAGE_CLIENT_MASK = w AND MESSAGE_CLIENT_MASK"
  by (rule bit_word_eqI) (auto simp: bit_simps bit_client_mask dest: flag_bits_high)

lemma flag_and_server: "flag_bits fl \<Longrightarrow> (w OR fl) AND MESSAGE_SERVER_MASK = w AND MESSAGE_SERVER_MASK"
  by (rule bit_word_eqI) (auto simp: bit_simps bit_server_mask dest: flag_bits_high)

lemma byte_high:
  assumes "(k :: msg_t) \<le> 255" and "bit k n"
  shows "n < 8"
proof -
  have "unat k < 256" using assms(1) by (simp add: word_le_nat_alt)
  then have "unat (take_bit 8 k) = unat k"
    by (simp add: take_bit_eq_mod unat_mod)
  then have "take_bit 8 k = k" by (rule unsigned_word_eqI)
  then show ?thesis using assms(2) by (metis bit_take_bit_iff)
qed

lemma client_number: "k \<le> 255 \<Longrightarrow> CNT_MSG k AND MESSAGE_CLIENT_MASK = CNT_MSG k"
  by (rule bit_word_eqI) (auto simp: bit_and_iff bit_CNT_MSG bit_client_mask dest: byte_high)

lemma client_not_server: "k \<le> 255 \<Longrightarrow> CNT_MSG k AND MESSAGE_SERVER_MASK = 0"
  by (rule bit_word_eqI) (auto simp: bit_and_iff bit_CNT_MSG bit_server_mask dest: byte_high)

lemma CNT_MSG_inj:
  assumes "k \<le> 255" and "j \<le> 255"
  shows "CNT_MSG k = CNT_MSG j \<longleftrightarrow> k = j"
proof
  assume eq: "CNT_MSG k = CNT_MSG j"
  show "k = j"
  proof (rule bit_word_eqI)
    fix n
    have "bit (CNT_MSG k) (n + 16) = bit (CNT_MSG j) (n + 16)" using eq by simp
    with byte_high [OF assms(1), of n] byte_high [OF assms(2), of n] show "bit k n = bit j n"
      by (auto simp: bit_CNT_MSG)
  qed
qed simp

text \<open>The dispatcher of the worker cannot confuse requests: a request number with any
  flags is recognised as a client message and matches exactly its own number.\<close>

theorem client_dispatch_exact:
  assumes "k \<le> 255" and "j \<le> 255" and "flag_bits fl"
  shows "ISCLIENT (CNT_MSG k OR fl)
       \<and> (CHECK_CLIENT_MSG_TYPE (CNT_MSG k OR fl) (CNT_MSG j) \<longleftrightarrow> k = j)
       \<and> GETFLAGS (CNT_MSG k OR fl) = fl"
proof (intro conjI)
  show "ISCLIENT (CNT_MSG k OR fl)"
    using assms by (simp add: ISCLIENT_def flag_and_server client_not_server MESSAGE_SERVER_NULL_def)
  show "CHECK_CLIENT_MSG_TYPE (CNT_MSG k OR fl) (CNT_MSG j) \<longleftrightarrow> k = j"
    using assms by (simp add: CHECK_CLIENT_MSG_TYPE_def flag_and_client client_number CNT_MSG_inj)
  have m: "MESSAGE_FLAG_MASK = mask 16"
    by (simp add: MESSAGE_FLAG_MASK_def mask_eq_exp_minus_1 push_bit_eq_mult)
  show "GETFLAGS (CNT_MSG k OR fl) = fl"
    unfolding GETFLAGS_def m
    by (rule bit_word_eqI)
      (use assms(3) in \<open>auto simp: bit_simps bit_CNT_MSG not_less dest: flag_bits_high\<close>)
qed

theorem client_dispatch_exact_witness:
  "ISCLIENT (CNT_MSG 3 OR 6) \<and> (CHECK_CLIENT_MSG_TYPE (CNT_MSG 3 OR 6) (CNT_MSG 4) \<longleftrightarrow> (3 :: msg_t) = 4)
   \<and> GETFLAGS (CNT_MSG 3 OR 6) = 6"
proof (rule client_dispatch_exact)
  show "flag_bits 6" by (simp add: flag_bits_def MESSAGE_FLAG_MASK_def push_bit_eq_mult)
qed simp_all

text \<open>Server messages: the number survives the flags, and the client accepts the answer.\<close>

lemma server_number: "flag_bits fl \<Longrightarrow>
  (SRV_MSG k OR fl) AND MESSAGE_SERVER_MASK = SRV_MSG k AND MESSAGE_SERVER_MASK"
  by (rule flag_and_server)

lemma server_is_server: "flag_bits fl \<Longrightarrow> ISSERVER (SRV_MSG k OR fl)"
  unfolding ISSERVER_def client_null_mask
  by (rule bit_word_eqI) (auto simp: bit_simps SRV_MSG_def client_null_mask bit_client_mask)

lemma flag_bits_or: "flag_bits a \<Longrightarrow> flag_bits b \<Longrightarrow> flag_bits (a OR b)"
  by (simp add: flag_bits_iff)

lemma flag_bits_consts [simp]:
  "flag_bits 0" "flag_bits MESSAGE_OP_SUCC" "flag_bits MESSAGE_FILE_EXISTS" "flag_bits MESSAGE_FILE_NEXISTS"
  "flag_bits MESSAGE_FILE_LOCK" "flag_bits MESSAGE_FILE_NLOCK" "flag_bits MESSAGE_FILE_NOWN"
  "flag_bits MESSAGE_FILE_ERRMAXFILES" "flag_bits MESSAGE_FILE_NOPEN" "flag_bits MESSAGE_FILE_CHACEMISS"
  "flag_bits MESSAGE_OPEN_OCREATE" "flag_bits MESSAGE_OPEN_OLOCK"
  by (simp_all add: flag_bits_iff msg_flag_defs FLAG_def)

end
