(* ===== verification/Net_Msg.thy ===== *)
theory Net_Msg
  imports Databuf Hash Message_Type
begin

text \<open>
  Messages and their transport: \<open>source/net_msg.c\<close>, \<open>source/net_msg_macros.c\<close> and the
  \<open>readn\<close> and \<open>writen\<close> loops of \<open>source/readn_writen.c\<close>. The kernel's \<open>read\<close> and
  \<open>write\<close> are modelled by what they may do to a stream socket: a descriptor's input is the
  list of chunks in which its bytes arrive (or an error), its output the list of how many
  bytes each \<open>write\<close> accepts. The main result is that a message written on one side is
  read unchanged on the other, however the bytes are cut up.
\<close>

subsection \<open>Reading and writing n bytes\<close>

text \<open>One \<open>read\<close> returns a prefix of the next chunk. The end of the list is end of file.\<close>

datatype rd_event = Data "byte list" | RdErr errno

text \<open>One \<open>write\<close> accepts at most this many bytes. The end of the list accepts everything.\<close>

datatype wr_event = Accept nat | WrErr errno

fun readn_loop :: "nat \<Rightarrow> nat \<Rightarrow> byte list \<Rightarrow> rd_event list \<Rightarrow> (errno + byte list) \<times> rd_event list" where
  "readn_loop n nleft acc [] = (Inr acc, [])"
| "readn_loop n nleft acc (RdErr e # evs) =
     (if nleft = 0 then (Inr acc, RdErr e # evs)
      else if nleft = n then (Inl e, evs) else (Inr acc, evs))"
| "readn_loop n nleft acc (Data xs # evs) =
     (if nleft = 0 then (Inr acc, Data xs # evs)
      else if xs = [] then (Inr acc, evs)
      else if nleft < length xs then (Inr (acc @ take nleft xs), Data (drop nleft xs) # evs)
      else readn_loop n (nleft - length xs) (acc @ xs) evs)"

text \<open>\<open>Inr bs\<close>: the call returned \<open>length bs\<close> and stored \<open>bs\<close>.\<close>

definition readn :: "rd_event list \<Rightarrow> nat \<Rightarrow> (errno + byte list) \<times> rd_event list" where
  "readn evs n = readn_loop n n [] evs"

text \<open>The result, the bytes that went out, and the events left.\<close>

fun writen_loop :: "nat \<Rightarrow> byte list \<Rightarrow> wr_event list \<Rightarrow> (errno + nat) \<times> byte list \<times> wr_event list" where
  "writen_loop n ptr [] = (Inr n, ptr, [])"
| "writen_loop n ptr (WrErr e # evs) =
     (if ptr = [] then (Inr n, [], WrErr e # evs)
      else if length ptr = n then (Inl e, [], evs) else (Inr (n - length ptr), [], evs))"
| "writen_loop n ptr (Accept k # evs) =
     (if ptr = [] then (Inr n, [], Accept k # evs)
      else if k = 0 then (Inr (n - length ptr), [], evs)
      else (case writen_loop n (drop k ptr) evs of (r, out, evs') \<Rightarrow> (r, take k ptr @ out, evs')))"

definition writen :: "wr_event list \<Rightarrow> byte list \<Rightarrow> (errno + nat) \<times> byte list \<times> wr_event list" where
  "writen evs ptr = writen_loop (length ptr) ptr evs"

subsection \<open>Messages\<close>

record net_msg =
  mtype :: uint32
  mdata :: databuf
  checksum :: uint64

definition NET_MESSAGE_NULL :: uint32 where "NET_MESSAGE_NULL = 0"

definition create_message :: net_msg where
  "create_message = \<lparr>mtype = NET_MESSAGE_NULL, mdata = create_data_buffer, checksum = 0\<rparr>"

definition destroy_message :: "net_msg \<Rightarrow> net_msg" where
  "destroy_message m = m\<lparr>mdata := destroy_data_buffer (mdata m)\<rparr>"

definition set_checksum :: "net_msg \<Rightarrow> net_msg" where
  "set_checksum m = m\<lparr>checksum := hash (contents (mdata m)) (buf_size (mdata m))\<rparr>"

definition check_checksum :: "net_msg \<Rightarrow> bool" where
  "check_checksum m \<longleftrightarrow> checksum m = hash (contents (mdata m)) (buf_size (mdata m))"

text \<open>The 24 bytes of \<open>msg_header\<close>: \<open>uint32_t type\<close>, four bytes of padding that
  \<open>memset\<close> clears, \<open>size_t len\<close> and \<open>uint64_t checksum\<close>.\<close>

definition header_bytes :: "uint32 \<Rightarrow> size_t \<Rightarrow> uint64 \<Rightarrow> byte list" where
  "header_bytes tp n cs = int_bytes tp @ replicate 4 0 @ size_bytes n @ size_bytes cs"

definition header_type :: "byte list \<Rightarrow> uint32" where
  "header_type bs = bytes_int (take 4 bs)"
definition header_len :: "byte list \<Rightarrow> size_t" where
  "header_len bs = bytes_size (take 8 (drop 8 bs))"
definition header_checksum :: "byte list \<Rightarrow> uint64" where
  "header_checksum bs = bytes_size (take 8 (drop 16 bs))"

definition header_size :: nat where "header_size = 24"

definition write_msghead :: "wr_event list \<Rightarrow> net_msg \<Rightarrow> (errno + bool) \<times> byte list \<times> wr_event list" where
  "write_msghead evs m =
     (case writen evs (header_bytes (mtype m) (buf_size (mdata m)) (checksum m)) of
        (Inl e, out, evs') \<Rightarrow> (Inl e, out, evs')
      | (Inr err, out, evs') \<Rightarrow>
          if err \<noteq> header_size then (Inl EMSGSIZE, out, evs')
          else (Inr (buf_size (mdata m) \<noteq> 0), out, evs'))"

definition write_msgbody :: "wr_event list \<Rightarrow> net_msg \<Rightarrow> (errno + unit) \<times> byte list \<times> wr_event list" where
  "write_msgbody evs m =
     (case writen evs (take (unat (buf_size (mdata m))) (contents (mdata m))) of
        (Inl e, out, evs') \<Rightarrow> (Inl e, out, evs')
      | (Inr err, out, evs') \<Rightarrow>
          if err \<noteq> unat (buf_size (mdata m)) then (Inl EMSGSIZE, out, evs') else (Inr (), out, evs'))"

definition write_msg :: "wr_event list \<Rightarrow> net_msg \<Rightarrow> (errno + unit) \<times> byte list \<times> wr_event list" where
  "write_msg evs m =
     (case write_msghead evs m of
        (Inl e, out, evs') \<Rightarrow> (Inl e, out, evs')
      | (Inr False, out, evs') \<Rightarrow> (Inr (), out, evs')
      | (Inr True, out, evs') \<Rightarrow>
          (case write_msgbody evs' m of (r, out', evs'') \<Rightarrow> (r, out @ out', evs'')))"

text \<open>\<open>Inr n\<close> from \<open>read_msghead\<close>: the header was read and announces \<open>n\<close> bytes of body.\<close>

definition read_msghead :: "rd_event list \<Rightarrow> net_msg \<Rightarrow> (errno + size_t) \<times> net_msg \<times> rd_event list" where
  "read_msghead evs m =
     (case readn evs header_size of
        (Inl e, evs') \<Rightarrow> (Inl e, m, evs')
      | (Inr bs, evs') \<Rightarrow>
          if length bs \<noteq> header_size then (Inl EMSGSIZE, m, evs')
          else (Inr (header_len bs), m\<lparr>mtype := header_type bs, checksum := header_checksum bs\<rparr>, evs'))"

definition read_msgbody ::
    "allocator \<Rightarrow> rd_event list \<Rightarrow> net_msg \<Rightarrow> size_t \<Rightarrow> (errno + unit) \<times> net_msg \<times> rd_event list" where
  "read_msgbody alloc evs m read_size =
     (case resize_data_buffer alloc (mdata m) read_size of
        (Inl e, b) \<Rightarrow> (Inl e, m\<lparr>mdata := b\<rparr>, evs)
      | (Inr _, b) \<Rightarrow>
          (case readn evs (unat read_size) of
             (Inl e, evs') \<Rightarrow> (Inl e, m\<lparr>mdata := b\<rparr>, evs')
           | (Inr bs, evs') \<Rightarrow>
               (let b' = b\<lparr>buffer := copy_to (buffer b) bs\<rparr> in
                if length bs \<noteq> unat read_size then (Inl EMSGSIZE, m\<lparr>mdata := b'\<rparr>, evs')
                else (Inr (), m\<lparr>mdata := b'\<lparr>buf_size := read_size\<rparr>\<rparr>, evs'))))"

definition read_msg ::
    "allocator \<Rightarrow> rd_event list \<Rightarrow> net_msg \<Rightarrow> (errno + unit) \<times> net_msg \<times> rd_event list" where
  "read_msg alloc evs m =
     (case read_msghead evs m of
        (Inl e, m', evs') \<Rightarrow> (Inl e, m', evs')
      | (Inr n, m', evs') \<Rightarrow> if n = 0 then (Inr (), m', evs') else read_msgbody alloc evs' m' n)"

definition is_server_message :: "net_msg \<Rightarrow> msg_t \<Rightarrow> bool" where
  "is_server_message m num \<longleftrightarrow>
     check_checksum m \<and> ISSERVER (mtype m)
   \<and> CHECK_SERVER_MSG_TYPE (mtype m) (num AND MESSAGE_SERVER_MASK)"

definition is_client_message :: "net_msg \<Rightarrow> msg_t \<Rightarrow> bool" where
  "is_client_message m num \<longleftrightarrow>
     check_checksum m \<and> ISCLIENT (mtype m)
   \<and> CHECK_CLIENT_MSG_TYPE (mtype m) (num AND MESSAGE_CLIENT_MASK)"

subsection \<open>The loops move exactly the bytes asked for\<close>

definition chunks :: "byte list \<Rightarrow> rd_event list \<Rightarrow> bool" where
  "chunks bs evs \<longleftrightarrow> (\<exists>xss. evs = map Data xss \<and> concat xss = bs \<and> [] \<notin> set xss)"

lemma chunks_Nil [simp]: "chunks bs [] \<longleftrightarrow> bs = []"
  by (auto simp: chunks_def)

lemma chunks_Cons: "chunks bs (e # evs) \<longleftrightarrow> (\<exists>xs rest. e = Data xs \<and> xs \<noteq> [] \<and> bs = xs @ rest \<and> chunks rest evs)"
proof
  assume "chunks bs (e # evs)"
  then obtain xss where x: "e # evs = map Data xss" "concat xss = bs" "[] \<notin> set xss"
    unfolding chunks_def by (elim exE conjE)
  then obtain xs yss where "xss = xs # yss" by (cases xss) auto
  with x show "\<exists>xs rest. e = Data xs \<and> xs \<noteq> [] \<and> bs = xs @ rest \<and> chunks rest evs"
    by (auto simp: chunks_def)
next
  assume "\<exists>xs rest. e = Data xs \<and> xs \<noteq> [] \<and> bs = xs @ rest \<and> chunks rest evs"
  then obtain xs xss where "e = Data xs" "xs \<noteq> []" "bs = xs @ concat xss" "evs = map Data xss" "[] \<notin> set xss"
    unfolding chunks_def by blast
  then show "chunks bs (e # evs)"
    unfolding chunks_def by (intro exI [of _ "xs # xss"]) auto
qed

lemma readn_loop_chunks:
  "chunks (a @ b) evs \<Longrightarrow> length a = nleft \<Longrightarrow>
   \<exists>evs'. readn_loop n nleft acc evs = (Inr (acc @ a), evs') \<and> chunks b evs'"
proof (induction n nleft acc evs arbitrary: a rule: readn_loop.induct)
  case (3 n nleft acc xs evs)
  then obtain rest where xs: "xs \<noteq> []" "a @ b = xs @ rest" "chunks rest evs"
    by (auto simp: chunks_Cons)
  consider "nleft = 0" | "0 < nleft" "nleft < length xs" | "0 < nleft" "length xs \<le> nleft"
    by linarith
  then show ?case
  proof cases
    case 1
    with 3 show ?thesis by simp
  next
    case 2
    with xs 3(3) have "take nleft xs = a" "b = drop nleft xs @ rest"
      by (auto simp: append_eq_append_conv_if)
    with 2 xs show ?thesis by (auto simp: chunks_Cons)
  next
    case 3: 3
    with xs "3.prems" obtain a' where a: "a = xs @ a'" "rest = a' @ b"
      by (auto simp: append_eq_append_conv2)
    with 3 "3.prems" xs "3.IH" [of a'] show ?thesis by auto
  qed
qed (auto simp: chunks_Cons)

lemma readn_chunks:
  "chunks (a @ b) evs \<Longrightarrow> length a = n \<Longrightarrow> \<exists>evs'. readn evs n = (Inr a, evs') \<and> chunks b evs'"
  unfolding readn_def using readn_loop_chunks [of a b evs n n "[]"] by simp

definition willing :: "wr_event list \<Rightarrow> bool" where
  "willing evs \<longleftrightarrow> (\<forall>e \<in> set evs. \<exists>k > 0. e = Accept k)"

lemma writen_loop_willing:
  "willing evs \<Longrightarrow> \<exists>evs'. writen_loop n ptr evs = (Inr n, ptr, evs') \<and> willing evs'"
proof (induction n ptr evs rule: writen_loop.induct)
  case (3 n ptr k evs)
  then have k: "0 < k" and w: "willing evs" by (auto simp: willing_def)
  show ?case
  proof (cases "ptr = []")
    case True
    with 3 show ?thesis by simp
  next
    case False
    with 3 k w show ?thesis by force
  qed
qed (auto simp: willing_def)

lemma writen_willing:
  "willing evs \<Longrightarrow> \<exists>evs'. writen evs ptr = (Inr (length ptr), ptr, evs') \<and> willing evs'"
  unfolding writen_def by (rule writen_loop_willing)

subsection \<open>A message on the wire\<close>

lemma length_header [simp]: "length (header_bytes tp n cs) = header_size"
  by (simp add: header_bytes_def header_size_def)

lemma header_fields:
  "header_type (header_bytes tp n cs) = tp" "header_len (header_bytes tp n cs) = n"
  "header_checksum (header_bytes tp n cs) = cs"
  by (simp_all add: header_bytes_def header_type_def header_len_def header_checksum_def)

definition wire :: "net_msg \<Rightarrow> byte list" where
  "wire m = header_bytes (mtype m) (buf_size (mdata m)) (checksum m) @ db_stack (mdata m)"

lemma write_msg_willing:
  assumes inv: "db_inv (mdata m)" and w: "willing evs"
  shows "\<exists>evs'. write_msg evs m = (Inr (), wire m, evs')"
proof -
  let ?h = "header_bytes (mtype m) (buf_size (mdata m)) (checksum m)"
  obtain e1 where h: "write_msghead evs m = (Inr (buf_size (mdata m) \<noteq> 0), ?h, e1)" "willing e1"
    using writen_willing [OF w, of ?h] by (auto simp: write_msghead_def)
  obtain e2 where b: "write_msgbody e1 m = (Inr (), db_stack (mdata m), e2)"
    using writen_willing [OF h(2), of "db_stack (mdata m)"] length_db_stack [OF inv]
    by (auto simp: write_msgbody_def db_stack_def)
  show ?thesis
    using h(1) b by (cases "buf_size (mdata m) = 0") (auto simp: write_msg_def wire_def db_stack_def)
qed

lemma resize_create:
  "\<exists>b. resize_data_buffer mem_ok create_data_buffer n = (Inr (), b)
     \<and> buffer b = Some (replicate (unat n) 0) \<and> buf_size b = 0 \<and> buf_cap b = n"
  by (simp add: resize_data_buffer_def realloc_buf_def create_data_buffer_def mem_ok_def
      resize_block_def contents_def)

lemma read_msg_wire:
  assumes inv: "db_inv (mdata m)" and ch: "chunks (wire m @ rest) revs"
  shows "\<exists>m' revs'. read_msg mem_ok revs create_message = (Inr (), m', revs') \<and> chunks rest revs'
           \<and> mtype m' = mtype m \<and> checksum m' = checksum m \<and> db_inv (mdata m')
           \<and> db_stack (mdata m') = db_stack (mdata m) \<and> buf_size (mdata m') = buf_size (mdata m)"
proof -
  let ?n = "buf_size (mdata m)" and ?h = "header_bytes (mtype m) (buf_size (mdata m)) (checksum m)"
  let ?m1 = "create_message\<lparr>mtype := mtype m, checksum := checksum m\<rparr>"
  have "chunks (?h @ (db_stack (mdata m) @ rest)) revs"
    using ch by (simp add: wire_def)
  from readn_chunks [OF this, of header_size] obtain e1
    where r1: "readn revs header_size = (Inr ?h, e1)" and ch1: "chunks (db_stack (mdata m) @ rest) e1"
    by auto
  have head: "read_msghead revs create_message = (Inr ?n, ?m1, e1)"
    using r1 by (simp add: read_msghead_def header_fields)
  have len: "length (db_stack (mdata m)) = unat ?n" by (rule length_db_stack [OF inv])
  show ?thesis
  proof (cases "?n = 0")
    case True
    with len have "db_stack (mdata m) = []" by simp
    moreover have "buf_size create_data_buffer = 0" by (simp add: create_data_buffer_def)
    ultimately show ?thesis using head ch1 True
      by (simp add: read_msg_def create_message_def)
  next
    case False
    obtain b where b: "resize_data_buffer mem_ok create_data_buffer ?n = (Inr (), b)"
        "buffer b = Some (replicate (unat ?n) 0)" "buf_size b = 0" "buf_cap b = ?n"
      using resize_create by blast
    obtain e2 where r2: "readn e1 (unat ?n) = (Inr (db_stack (mdata m)), e2)" "chunks rest e2"
      using readn_chunks [OF ch1 len] by blast
    let ?b' = "b\<lparr>buffer := Some (db_stack (mdata m)), buf_size := ?n\<rparr>"
    have "read_msg mem_ok revs create_message = (Inr (), ?m1\<lparr>mdata := ?b'\<rparr>, e2)"
      using head False b r2(1) len by (simp add: read_msg_def read_msgbody_def create_message_def Let_def)
    moreover have "db_inv ?b'" "db_stack ?b' = db_stack (mdata m)"
      using len b(4) by (simp_all add: db_inv_def db_stack_def contents_def)
    ultimately show ?thesis using r2(2) by simp
  qed
qed

subsection \<open>What is read is what has arrived\<close>

text \<open>The bytes that arrive on a descriptor.\<close>

fun arriving :: "rd_event list \<Rightarrow> byte list" where
  "arriving [] = []"
| "arriving (Data xs # evs) = xs @ arriving evs"
| "arriving (RdErr e # evs) = arriving evs"

text \<open>A loop that gets as many bytes as it asked for took them from the front of the stream.\<close>

lemma readn_loop_arriving:
  "readn_loop n nleft acc evs = (Inr bs, evs') \<Longrightarrow> length bs = length acc + nleft \<Longrightarrow>
   acc @ arriving evs = bs @ arriving evs'"
proof (induction n nleft acc evs rule: readn_loop.induct)
  case (3 n nleft acc xs evs)
  consider "nleft = 0" | "0 < nleft" "nleft < length xs" | "0 < nleft" "length xs \<le> nleft" by linarith
  then show ?case
  proof cases
    case 1
    with "3.prems" show ?thesis by simp
  next
    case 2
    with "3.prems" have "bs = acc @ take nleft xs" "evs' = Data (drop nleft xs) # evs" by (auto split: if_splits)
    then show ?thesis by (simp add: append_assoc [symmetric] del: append_assoc) (simp only: append_assoc append_take_drop_id)
  next
    case 3
    with "3.prems" have "xs \<noteq> []" by auto
    with 3 "3.prems" "3.IH" show ?thesis by simp
  qed
qed (auto split: if_splits)

lemma readn_arriving: "readn evs n = (Inr bs, evs') \<Longrightarrow> length bs = n \<Longrightarrow> arriving evs = bs @ arriving evs'"
  unfolding readn_def using readn_loop_arriving [of n n "[]" evs bs evs'] by simp

lemma read_msgbody_arriving:
  assumes "read_msgbody alloc evs m n = (Inr u, m', evs')"
  shows "mtype m' = mtype m \<and> checksum m' = checksum m \<and> db_inv (mdata m')
     \<and> length (db_stack (mdata m')) = unat n \<and> arriving evs = db_stack (mdata m') @ arriving evs'"
proof -
  obtain b where b: "resize_data_buffer alloc (mdata m) n = (Inr (), b)"
    using assms by (auto simp: read_msgbody_def split: prod.splits sum.splits)
  obtain bs where bs: "readn evs (unat n) = (Inr bs, evs')" "length bs = unat n"
      "m' = m\<lparr>mdata := b\<lparr>buffer := copy_to (buffer b) bs, buf_size := n\<rparr>\<rparr>"
    using assms b by (auto simp: read_msgbody_def Let_def split: prod.splits sum.splits if_splits)
  have "length (contents b) = unat n" "buf_cap b = n"
    using b by (auto simp: resize_data_buffer_def realloc_buf_def resize_block_def contents_def Let_def split: if_splits)
  with bs have "contents (mdata m') = bs" "buf_size (mdata m') = n" "buf_cap (mdata m') = n"
    by (auto simp: contents_def copy_to_def split: option.splits)
  then have "db_inv (mdata m')" "db_stack (mdata m') = bs" using bs(2) by (simp_all add: db_inv_def db_stack_def)
  with bs readn_arriving [OF bs(1,2)] show ?thesis by simp
qed

text \<open>C39. Whatever arrives on a socket, and in whatever pieces: a message that is read has the type, the
  checksum and the length that the first 24 bytes announce, its body is exactly that many bytes,
  the ones that follow, it lies within its buffer, and the rest of the stream is still to be read.\<close>

theorem received_message_wf:
  assumes "read_msg alloc evs create_message = (Inr u, m, evs')"
  shows "\<exists>h. length h = header_size \<and> arriving evs = h @ db_stack (mdata m) @ arriving evs'
     \<and> mtype m = header_type h \<and> checksum m = header_checksum h
     \<and> length (db_stack (mdata m)) = unat (header_len h) \<and> db_inv (mdata m)"
proof -
  obtain h e1 where h: "readn evs header_size = (Inr h, e1)" "length h = header_size"
    using assms by (auto simp: read_msg_def read_msghead_def split: prod.splits sum.splits if_splits)
  let ?m = "create_message\<lparr>mtype := header_type h, checksum := header_checksum h\<rparr>"
  have a: "arriving evs = h @ arriving e1" by (rule readn_arriving [OF h])
  have "read_msghead evs create_message = (Inr (header_len h), ?m, e1)" using h by (simp add: read_msghead_def)
  then have "read_msg alloc evs create_message
      = (if header_len h = 0 then (Inr (), ?m, e1) else read_msgbody alloc e1 ?m (header_len h))"
    by (simp add: read_msg_def)
  with assms consider "header_len h = 0" "m = ?m" "evs' = e1" | "read_msgbody alloc e1 ?m (header_len h) = (Inr u, m, evs')"
    by (cases "header_len h = 0") simp_all
  then show ?thesis
  proof cases
    case 1
    then have "db_stack (mdata m) = []" "db_inv (mdata m)" by (simp_all add: create_message_def)
    with 1 h(2) a show ?thesis by auto
  next
    case 2
    from read_msgbody_arriving [OF 2] h(2) a show ?thesis by auto
  qed
qed

theorem received_message_wf_witness:
  "\<exists>m evs' h. read_msg mem_ok [Data (replicate 8 0 @ size_bytes 2 @ replicate 8 0), Data [1], Data [2, 9]] create_message
       = (Inr (), m, evs') \<and> length h = header_size
     \<and> replicate 8 0 @ size_bytes 2 @ replicate 8 0 @ [1, 2, 9] = h @ db_stack (mdata m) @ arriving evs'
     \<and> length (db_stack (mdata m)) = unat (header_len h) \<and> db_inv (mdata m)"
proof -
  have "fst (read_msg mem_ok [Data (replicate 8 0 @ size_bytes 2 @ replicate 8 0), Data [1], Data [2, 9]] create_message) = Inr ()"
    by code_simp
  then obtain m evs' where r: "read_msg mem_ok [Data (replicate 8 0 @ size_bytes 2 @ replicate 8 0), Data [1], Data [2, 9]] create_message
      = (Inr (), m, evs')" by (cases "read_msg mem_ok [Data (replicate 8 0 @ size_bytes 2 @ replicate 8 0), Data [1], Data [2, 9]] create_message") auto
  from received_message_wf [OF this] r show ?thesis by auto
qed

text \<open>C40. A well-formed message that one side writes is the message the other side reads: same
  type, same checksum, same body, and the following bytes of the stream stay in place. This
  holds however the socket splits the writes and the reads.\<close>

theorem message_roundtrip:
  assumes "db_inv (mdata m)" and "willing evs"
  shows "\<exists>out evs'. write_msg evs m = (Inr (), out, evs')
         \<and> (\<forall>rest revs. chunks (out @ rest) revs \<longrightarrow>
              (\<exists>m' revs'. read_msg mem_ok revs create_message = (Inr (), m', revs') \<and> chunks rest revs'
                 \<and> mtype m' = mtype m \<and> checksum m' = checksum m
                 \<and> db_stack (mdata m') = db_stack (mdata m)))"
proof -
  obtain evs' where "write_msg evs m = (Inr (), wire m, evs')"
    using write_msg_willing [OF assms] by blast
  with read_msg_wire [OF assms(1)] show ?thesis by blast
qed

theorem message_roundtrip_witness:
  "\<exists>out evs'. write_msg [Accept 3, Accept 40] (create_message\<lparr>mtype := MESSAGE_OPEN_CONN\<rparr>) = (Inr (), out, evs')
   \<and> (\<forall>rest revs. chunks (out @ rest) revs \<longrightarrow>
        (\<exists>m' revs'. read_msg mem_ok revs create_message = (Inr (), m', revs') \<and> chunks rest revs'
           \<and> mtype m' = mtype (create_message\<lparr>mtype := MESSAGE_OPEN_CONN\<rparr>)
           \<and> checksum m' = checksum (create_message\<lparr>mtype := MESSAGE_OPEN_CONN\<rparr>)
           \<and> db_stack (mdata m') = db_stack (mdata (create_message\<lparr>mtype := MESSAGE_OPEN_CONN\<rparr>))))"
  by (rule message_roundtrip) (simp_all add: create_message_def willing_def)

subsection \<open>Checksums\<close>

lemma check_set_checksum: "check_checksum (set_checksum m)"
  by (simp add: check_checksum_def set_checksum_def)

lemma checksum_stack: "db_inv b \<Longrightarrow> hash (contents b) (buf_size b) = hash (db_stack b) (buf_size b)"
  by (simp add: db_stack_def db_inv_def hash_take word_le_nat_alt)

lemma check_checksum_transfer:
  assumes "db_inv (mdata m)" "db_inv (mdata m')" and "db_stack (mdata m') = db_stack (mdata m)"
    and "checksum m' = checksum m"
  shows "check_checksum m' \<longleftrightarrow> check_checksum m"
proof -
  have "unat (buf_size (mdata m')) = unat (buf_size (mdata m))"
    using assms length_db_stack by metis
  then have "buf_size (mdata m') = buf_size (mdata m)" by (rule unsigned_word_eqI)
  then show ?thesis
    using assms checksum_stack [OF assms(1)] checksum_stack [OF assms(2)]
    by (simp add: check_checksum_def)
qed

end
