(* ===== verification/Worker_Generics.thy ===== *)
theory Worker_Generics
  imports Store Net_Msg Shared_State
begin

text \<open>
  What the request handlers share (\<open>source/worker/worker_generics.c\<close>): the state they run
  on, reading a name from a request, the log entries, and the invariant that ties the
  counters of the shared state to the array of files.
\<close>

subsection \<open>The server state and its environment\<close>

text \<open>One call of \<open>do_log\<close>, before it is formatted.\<close>

record log_entry =
  l_thread :: int
  l_client :: int
  l_file :: "byte list"
  l_operation :: string
  l_outcome :: string
  l_read :: uint32
  l_write :: uint32

text \<open>\<open>ticks\<close> counts the calls of \<open>time(NULL)\<close> made so far.\<close>

record server =
  files :: "file_t list"
  shared :: shared_state
  slog :: "log_entry list"
  ticks :: nat

text \<open>What the C library decides, and what an uninitialised local variable holds: the
  allocator, the clock (its value at each call), the previous contents of the 256-byte
  \<open>name\<close> array and of \<open>file_size\<close>, and the \<open>errno\<close> a successful call leaves behind.\<close>

record env =
  e_alloc :: allocator
  e_clock :: "nat \<Rightarrow> int"
  e_name :: "byte list"
  e_size :: size_t
  e_errno :: errno

definition set_file :: "nat \<Rightarrow> file_t \<Rightarrow> server \<Rightarrow> server" where
  "set_file i f sv = sv\<lparr>files := (files sv)[i := f]\<rparr>"

definition on_shared :: "(shared_state \<Rightarrow> shared_state) \<Rightarrow> server \<Rightarrow> server" where
  "on_shared g sv = sv\<lparr>shared := g (shared sv)\<rparr>"

definition sub_storage :: "uint64 \<Rightarrow> server \<Rightarrow> server" where
  "sub_storage n = on_shared (\<lambda>ss. ss\<lparr>current_storage := current_storage ss - n\<rparr>)"

text \<open>Writing through \<open>lastop_writefile_pname\<close>, which points into the client table.\<close>

definition set_lastop :: "nat \<Rightarrow> byte list \<Rightarrow> server \<Rightarrow> server" where
  "set_lastop ci s =
     on_shared (\<lambda>ss. ss\<lparr>clients := (clients ss)[ci := (clients ss ! ci)\<lparr>lastop := s\<rparr>]\<rparr>)"

definition lastop_of :: "nat \<Rightarrow> server \<Rightarrow> byte list" where
  "lastop_of ci sv = lastop (clients (shared sv) ! ci)"

definition or_flag :: "net_msg \<Rightarrow> msg_t \<Rightarrow> net_msg" where
  "or_flag m fl = m\<lparr>mtype := mtype m OR fl\<rparr>"

definition none_str :: "byte list" where "none_str = [110, 111, 110, 101]"

text \<open>\<open>do_log\<close> does not look at whether the line could be written, and here it always can. How it can fail,
  and that a failing \<open>fopen\<close> leaves the mutex of the log locked, is the subject of \<open>Log\<close>.\<close>

definition do_log ::
    "int \<Rightarrow> int \<Rightarrow> byte list \<Rightarrow> string \<Rightarrow> string \<Rightarrow> uint32 \<Rightarrow> uint32 \<Rightarrow> server \<Rightarrow> server" where
  "do_log thread client file operation outcome rd wr sv =
     sv\<lparr>slog := slog sv @ [\<lparr>l_thread = thread, l_client = client, l_file = cstr file,
          l_operation = operation, l_outcome = outcome, l_read = rd, l_write = wr\<rparr>]\<rparr>"

subsection \<open>Replies\<close>

text \<open>\<open>push_buf\<close> on the data of a message.\<close>

definition push_msg :: "allocator \<Rightarrow> net_msg \<Rightarrow> size_t \<Rightarrow> byte list option \<Rightarrow> (errno + unit) \<times> net_msg" where
  "push_msg alloc m n src =
     (case push_buf alloc (mdata m) n src of (r, b) \<Rightarrow> (r, m\<lparr>mdata := b\<rparr>))"

text \<open>An answer no field has been pushed on yet.\<close>

definition fresh :: "net_msg \<Rightarrow> bool" where
  "fresh m \<longleftrightarrow> db_inv (mdata m) \<and> db_stack (mdata m) = []"

lemma fresh_create [simp]: "fresh create_message"
  by (simp add: fresh_def create_message_def)

lemma push_msg_ok:
  assumes "db_inv (mdata m)" and "length d = unat n" and "length (db_stack (mdata m)) + length d < 2 ^ 62"
  obtains m' where "push_msg mem_ok m n (Some d) = (Inr (), m')" "mtype m' = mtype m" "db_inv (mdata m')"
    "db_stack (mdata m') = db_stack (mdata m) @ d"
proof -
  obtain b where "push_buf mem_ok (mdata m) n (Some d) = (Inr (), b)" "db_inv b"
      "db_stack b = db_stack (mdata m) @ d"
    using push_buf_ok [OF assms] by auto
  then show thesis by (intro that [of "m\<lparr>mdata := b\<rparr>"]) (simp_all add: push_msg_def)
qed

text \<open>Only the first bytes of the source block are read.\<close>

lemma push_msg_block:
  assumes "take (unat n) (block src) = d" and "src \<noteq> None"
  shows "push_msg alloc m n src = push_msg alloc m n (Some d)"
proof -
  obtain xs where "src = Some xs" using assms(2) by blast
  moreover from this have "take (unat n) d = take (unat n) xs" using assms(1) by auto
  ultimately show ?thesis by (simp add: push_msg_def push_buf_def Let_def split: sum.splits prod.splits)
qed

subsection \<open>Names in messages\<close>

text \<open>The results of both \<open>pop_buf\<close> calls are ignored by the code: after a failure the
  variable keeps whatever it held. A name of 256 bytes without a NUL fills the array; the code
  then compares it with \<open>strcmp\<close>, which reads on behind the array. Here its string is the 256 bytes.
  A name sent by the client library ends with a NUL.\<close>

definition read_file_name :: "env \<Rightarrow> net_msg \<Rightarrow> size_t \<Rightarrow> (errno + byte list) \<times> net_msg" where
  "read_file_name e m bufsize =
     (case pop_buf (mdata m) 8 (Some (size_bytes (e_size e))) of (r, b) \<Rightarrow>
       (let file_size = (case r of Inr bs \<Rightarrow> bytes_size bs | Inl _ \<Rightarrow> e_size e) in
        if file_size \<le> bufsize then
          (case pop_buf b file_size (Some (e_name e)) of (r', b') \<Rightarrow>
             (Inr (case r' of Inr bs \<Rightarrow> bs | Inl _ \<Rightarrow> e_name e), m\<lparr>mdata := b'\<rparr>))
        else (Inl ENOBUFS, m\<lparr>mdata := b\<rparr>)))"

fun slashes :: "nat \<Rightarrow> byte list \<Rightarrow> byte list" where
  "slashes 0 xs = xs"
| "slashes (Suc k) [] = []"
| "slashes (Suc k) (b # bs) = (if b = 0 then b # bs else (if b = 47 then 95 else b) # slashes k bs)"

definition convert_slashes_to_underscores :: "byte list \<Rightarrow> byte list" where
  "convert_slashes_to_underscores nm = slashes FILE_NAME_MAX_SIZE nm"

lemma length_slashes [simp]: "length (slashes k xs) = length xs"
  by (induction k xs rule: slashes.induct) auto

lemma slashes_cstr: "length s \<le> k \<Longrightarrow> 0 \<notin> set s \<Longrightarrow>
  slashes k (s @ 0 # r) = map (\<lambda>b. if b = 47 then 95 else b) s @ 0 # r"
proof (induction k "s @ 0 # r" arbitrary: s rule: slashes.induct)
  case (3 k b bs)
  then show ?case by (cases s) auto
next
  case 1
  then show ?case by simp
qed simp

text \<open>A converted name is a flat file name: it keeps its length and has no slash left.\<close>

lemma convert_slashes_no_slash:
  assumes "length s \<le> FILE_NAME_MAX_SIZE" and "0 \<notin> set s"
  shows "47 \<notin> set (cstr (convert_slashes_to_underscores (s @ [0])))"
    and "length (cstr (convert_slashes_to_underscores (s @ [0]))) = length s"
proof -
  let ?t = "map (\<lambda>b. if b = 47 then 95 else b :: byte) s"
  have "0 \<notin> set ?t" using assms(2) by auto
  then have "cstr (convert_slashes_to_underscores (s @ [0])) = ?t"
    using slashes_cstr [OF assms, of "[]"] cstr_append_nul [of ?t "[]"]
    by (simp add: convert_slashes_to_underscores_def)
  then show "47 \<notin> set (cstr (convert_slashes_to_underscores (s @ [0])))"
    "length (cstr (convert_slashes_to_underscores (s @ [0]))) = length s"
    by auto
qed

text \<open>A request that carries a name of at most 256 bytes, however it was built.\<close>

definition carries_name :: "net_msg \<Rightarrow> byte list \<Rightarrow> byte list \<Rightarrow> bool" where
  "carries_name m rest nm \<longleftrightarrow>
     db_inv (mdata m) \<and> db_stack (mdata m) = rest @ field nm \<and> length nm \<le> 256"

lemma read_file_name_ok:
  assumes "carries_name m rest nm"
  obtains m' where "read_file_name e m 256 = (Inr (nm @ drop (length nm) (e_name e)), m')"
    "mtype m' = mtype m" "db_inv (mdata m')" "db_stack (mdata m') = rest"
proof -
  have len: "length nm < 2 ^ 62" "length nm \<le> 256"
    using assms by (simp_all add: carries_name_def)
  have n: "unat (wlen nm) = length nm" using len by (simp add: unat_wlen)
  have st: "db_inv (mdata m)" "db_stack (mdata m) = (rest @ nm) @ size_bytes (wlen nm)"
    using assms by (simp_all add: carries_name_def field_def)
  obtain b1 where b1: "pop_buf (mdata m) 8 (Some (size_bytes (e_size e))) = (Inr (size_bytes (wlen nm)), b1)"
      "db_inv b1" "db_stack b1 = rest @ nm"
    using pop_buf_ok [OF st, of 8 "size_bytes (e_size e)"] by auto
  obtain b2 where b2: "pop_buf b1 (wlen nm) (Some (e_name e)) = (Inr (nm @ drop (length nm) (e_name e)), b2)"
      "db_inv b2" "db_stack b2 = rest"
    using pop_buf_ok [OF b1(2,3), of "wlen nm" "e_name e"] n by auto
  have "wlen nm \<le> 256" using len n by (simp add: word_le_nat_alt)
  with b1 b2 show thesis
    by (intro that [of "m\<lparr>mdata := b2\<rparr>"]) (simp_all add: read_file_name_def)
qed

text \<open>A name sent with its NUL is read back as a C string, whatever the buffer held before.\<close>

lemma cstr_name_buffer: "0 \<notin> set s \<Longrightarrow> cstr ((s @ 0 # t) @ u) = s"
  using cstr_append_nul [of s "t @ u"] by simp

subsection \<open>Frame lemmas\<close>

named_theorems frame \<open>projections of the server state through its updates\<close>

lemma frame_simps [simp, frame]:
  "files (set_file i f sv) = (files sv)[i := f]" "shared (set_file i f sv) = shared sv"
  "slog (set_file i f sv) = slog sv" "ticks (set_file i f sv) = ticks sv"
  "files (on_shared g sv) = files sv" "shared (on_shared g sv) = g (shared sv)"
  "slog (on_shared g sv) = slog sv" "ticks (on_shared g sv) = ticks sv"
  "files (do_log a b c d o' r w sv) = files sv" "shared (do_log a b c d o' r w sv) = shared sv"
  "ticks (do_log a b c d o' r w sv) = ticks sv"
  "files (sub_storage n sv) = files sv" "files (set_lastop ci s sv) = files sv"
  "ticks (sub_storage n sv) = ticks sv" "ticks (set_lastop ci s sv) = ticks sv"
  "mtype (or_flag m fl) = mtype m OR fl" "mdata (or_flag m fl) = mdata m"
  by (simp_all add: set_file_def on_shared_def do_log_def sub_storage_def set_lastop_def or_flag_def)

lemma shared_sub_storage [frame]:
  "shared (sub_storage n sv) = (shared sv)\<lparr>current_storage := current_storage (shared sv) - n\<rparr>"
  by (simp add: sub_storage_def)

lemma shared_set_lastop [frame]:
  "shared (set_lastop ci s sv) = (shared sv)\<lparr>clients := (clients (shared sv))[ci := (clients (shared sv) ! ci)\<lparr>lastop := s\<rparr>]\<rparr>"
  by (simp add: set_lastop_def)

lemma map_fd_set_lastop [simp]: "map fd (cs[ci := (cs ! ci)\<lparr>lastop := s\<rparr>]) = map fd cs"
  by (cases "ci < length cs") (simp_all add: map_update list_update_same_conv list_update_beyond)

lemma fds_set_lastop [simp]: "fds (cs[ci := (cs ! ci)\<lparr>lastop := s\<rparr>]) = fds cs"
  by (simp add: fds_def)

text \<open>What no request on files changes in the shared state. The entry of a client keeps its
  connection; its \<open>lastop\<close> may change between \<open>same_conns\<close> states.\<close>

definition same_conns :: "shared_state \<Rightarrow> shared_state \<Rightarrow> bool" where
  "same_conns ss ss' \<longleftrightarrow>
     clients ss' = clients ss \<and> ro_max_conns ss' = ro_max_conns ss
   \<and> ro_acceptor_fd ss' = ro_acceptor_fd ss \<and> state_mux ss' = state_mux ss"

definition same_table :: "server \<Rightarrow> server \<Rightarrow> bool" where
  "same_table sv sv' \<longleftrightarrow>
     map fd (clients (shared sv')) = map fd (clients (shared sv))
   \<and> ro_max_conns (shared sv') = ro_max_conns (shared sv)
   \<and> ro_acceptor_fd (shared sv') = ro_acceptor_fd (shared sv) \<and> state_mux (shared sv') = state_mux (shared sv)"

lemma same_conns_refl [simp]: "same_conns ss ss"
  by (simp add: same_conns_def)

lemma same_conns_trans [trans]: "same_conns a b \<Longrightarrow> same_conns b c \<Longrightarrow> same_conns a c"
  by (simp add: same_conns_def)

lemma same_table_refl [simp]: "same_table sv sv"
  by (simp add: same_table_def)

lemma same_table_trans: "same_table a b \<Longrightarrow> same_table b c \<Longrightarrow> same_table a c"
  by (simp add: same_table_def)

lemma same_tableI: "same_conns (shared sv) (shared sv') \<Longrightarrow> same_table sv sv'"
  by (simp add: same_conns_def same_table_def)

lemma same_table_conns: "same_table sv sv' \<Longrightarrow> conns (shared sv') = conns (shared sv)"
  by (simp add: same_table_def conns_def fds_def)

lemma same_table_frame [simp]:
  "same_table sv (set_lastop ci s sv') = same_table sv sv'"
  "same_table (set_lastop ci s sv) sv' = same_table sv sv'"
  "same_table sv (set_file i f sv') = same_table sv sv'"
  "same_table sv (do_log a b c d o' r w sv') = same_table sv sv'"
  "same_table sv (sub_storage n sv') = same_table sv sv'"
  by (simp_all add: same_table_def shared_set_lastop shared_sub_storage)

subsection \<open>The invariant of the server\<close>

text \<open>The counters count: \<open>current_storage\<close> is the sum of the sizes of the stored files and
  within the capacity, \<open>current_files\<close> is the number of files, the recorded maxima bound
  both, and the LRU clock points into the array.\<close>

definition counters_inv :: "file_t list \<Rightarrow> shared_state \<Rightarrow> bool" where
  "counters_inv fs ss \<longleftrightarrow>
     unat (ro_max_storage ss) < 2 ^ 61
   \<and> unat (current_storage ss) = used fs \<and> used fs \<le> unat (ro_max_storage ss)
   \<and> unat (max_reached_storage ss) \<le> unat (ro_max_storage ss)
   \<and> current_storage ss \<le> max_reached_storage ss
   \<and> current_files ss = int (live fs) \<and> current_files ss \<le> max_reached_files ss
   \<and> max_reached_files ss \<le> int (length fs)
   \<and> 0 < length fs \<and> length fs < 2 ^ 31 \<and> lru_clock_pos ss < length fs"

definition server_inv :: "server \<Rightarrow> bool" where
  "server_inv sv \<longleftrightarrow>
     store_inv (files sv) \<and> counters_inv (files sv) (shared sv) \<and> conns_inv (shared sv)"

lemma counters_inv_clients [simp]:
  "counters_inv fs (ss\<lparr>clients := cs\<rparr>) = counters_inv fs ss"
  by (simp add: counters_inv_def)

lemma conns_inv_lastop [simp]:
  "conns_inv (ss\<lparr>clients := (clients ss)[ci := (clients ss ! ci)\<lparr>lastop := s\<rparr>]\<rparr>) = conns_inv ss"
  by (simp add: conns_inv_def conns_def)

lemma server_inv_set_lastop [simp]: "server_inv (set_lastop ci s sv) = server_inv sv"
  by (simp add: server_inv_def shared_set_lastop)

lemma server_inv_do_log [simp]: "server_inv (do_log a b c d out r w sv) = server_inv sv"
  by (simp add: server_inv_def)

text \<open>The bytes of a stored file are within the capacity.\<close>

lemma content_capacity:
  assumes "server_inv sv" and "i < length (files sv)"
  shows "length (a_content (fabs (files sv ! i))) < 2 ^ 61"
proof -
  have "file_inv (files sv ! i)" "used (files sv) < 2 ^ 61"
    using assms by (simp_all add: server_inv_def counters_inv_def store_inv_def)
  with used_nth_le [OF assms(2)] show ?thesis by (simp add: unat_fsize)
qed

lemma server_inv_store: "server_inv sv \<Longrightarrow> store_inv (files sv)"
  by (simp add: server_inv_def)

text \<open>A slot update that changes neither the charge nor the number of files.\<close>

lemma server_inv_slot_same:
  assumes "server_inv sv" and "store_inv ((files sv)[i := f])"
    and "used ((files sv)[i := f]) = used (files sv)" and "live ((files sv)[i := f]) = live (files sv)"
  shows "server_inv (set_file i f sv)"
  using assms by (simp add: server_inv_def counters_inv_def)

text \<open>Emptying the slot of a file, with the counters adjusted as the code does.\<close>

lemma init_fsize [simp]: "fsize init_file_struct = 0"
  by (simp add: init_file_struct_def fsize_def)

lemma init_owner [simp]: "owner init_file_struct = OWNER_NEXIST"
  by (simp add: init_file_struct_def)

lemma counters_remove:
  assumes inv: "counters_inv fs ss" and i: "i < length fs" "existing (fs ! i)"
    and ss': "current_storage ss' = current_storage ss - fsize (fs ! i)"
      "current_files ss' = current_files ss - 1"
      "ro_max_storage ss' = ro_max_storage ss" "max_reached_storage ss' = max_reached_storage ss"
      "max_reached_files ss' = max_reached_files ss" "lru_clock_pos ss' = lru_clock_pos ss"
  shows "counters_inv (fs[i := init_file_struct]) ss'"
    and "used (fs[i := init_file_struct]) + unat (fsize (fs ! i)) = used fs"
proof -
  have C: "unat (current_storage ss) = used fs" "current_files ss = int (live fs)"
      "current_storage ss \<le> max_reached_storage ss" "current_files ss \<le> max_reached_files ss"
    using inv by (simp_all add: counters_inv_def)
  show u: "used (fs[i := init_file_struct]) + unat (fsize (fs ! i)) = used fs"
    using used_slot [OF i(1), of init_file_struct] by simp
  have l: "live (fs[i := init_file_struct]) + 1 = live fs"
    using live_slot [OF i(1), of init_file_struct] i(2) by simp
  have le: "fsize (fs ! i) \<le> current_storage ss"
    using u C(1) by (simp add: word_le_nat_alt)
  then have sub: "unat (current_storage ss - fsize (fs ! i)) = used (fs[i := init_file_struct])"
    using u C(1) by (simp add: unat_sub)
  then have "current_storage ss - fsize (fs ! i) \<le> max_reached_storage ss"
    using C(1,3) u by (simp add: word_le_nat_alt)
  then show "counters_inv (fs[i := init_file_struct]) ss'"
    using inv ss' sub u l C by (simp add: counters_inv_def)
qed

text \<open>What clients observe: the map of names to files, and the storage charged.\<close>

abbreviation sabs :: "server \<Rightarrow> byte list \<Rightarrow> afile option" where
  "sabs sv \<equiv> store_abs (files sv)"

text \<open>The same for a whole server, whatever else the update does to the shared state.\<close>

lemma server_inv_remove:
  assumes inv: "server_inv sv" and i: "i < length (files sv)" "existing (files sv ! i)"
    and sv': "files sv' = (files sv)[i := init_file_struct]"
      "current_storage (shared sv') = current_storage (shared sv) - fsize (files sv ! i)"
      "current_files (shared sv') = current_files (shared sv) - 1"
      "ro_max_storage (shared sv') = ro_max_storage (shared sv)"
      "max_reached_storage (shared sv') = max_reached_storage (shared sv)"
      "max_reached_files (shared sv') = max_reached_files (shared sv)"
      "lru_clock_pos (shared sv') = lru_clock_pos (shared sv)"
      "conns_inv (shared sv') = conns_inv (shared sv)"
  shows "server_inv sv'" and "sabs sv' = (sabs sv)(name (files sv ! i) := None)"
    and "used (files sv') + unat (fsize (files sv ! i)) = used (files sv)"
proof -
  have un: "unique_names (files sv)"
    using server_inv_store [OF inv] by (simp add: store_inv_def)
  have C: "counters_inv (files sv) (shared sv)" using inv by (simp add: server_inv_def)
  have "store_inv (files sv')"
    unfolding sv'(1)
    by (rule store_inv_slot [OF server_inv_store [OF inv] file_inv_init unique_names_clear [OF un]]) simp
  with counters_remove [OF C i sv'(2-7)] sv'(1,8) inv show "server_inv sv'"
    "used (files sv') + unat (fsize (files sv ! i)) = used (files sv)"
    by (simp_all add: server_inv_def)
  show "sabs sv' = (sabs sv)(name (files sv ! i) := None)"
    unfolding sv'(1) by (rule store_abs_remove [OF un i]) simp
qed

text \<open>Replacing a file by one of the same name and size.\<close>

lemma server_inv_replace:
  assumes inv: "server_inv sv" and i: "i < length (files sv)" "existing (files sv ! i)"
    and f: "file_inv f" "existing f" "name f = name (files sv ! i)"
      "length (a_content (fabs f)) = length (a_content (fabs (files sv ! i)))"
  shows "server_inv (set_file i f sv)" and "used ((files sv)[i := f]) = used (files sv)"
    and "sabs (set_file i f sv) = (sabs sv)(name (files sv ! i) \<mapsto> fabs f)"
proof -
  have st: "store_inv (files sv)" by (rule server_inv_store [OF inv])
  then have un: "unique_names (files sv)" by (simp add: store_inv_def)
  show u: "used ((files sv)[i := f]) = used (files sv)"
    using used_slot [OF i(1), of f] unat_fsize [OF f(1)] unat_fsize [OF store_inv_nth [OF st i(1)]] f(4) by simp
  have "live ((files sv)[i := f]) = live (files sv)"
    using live_slot [OF i(1), of f] i(2) f(2) by (simp del: owner_consts)
  with u show "server_inv (set_file i f sv)"
    by (intro server_inv_slot_same [OF inv store_inv_slot [OF st f(1) unique_names_keep [OF un i f(3)]]])
  show "sabs (set_file i f sv) = (sabs sv)(name (files sv ! i) \<mapsto> fabs f)"
    using store_abs_update [OF un i f(2,3)] by simp
qed

end
