(* ===== verification/Worker_Files.thy ===== *)
theory Worker_Files
  imports Worker_Generics
begin

text \<open>
  The handlers of requests on one file that change no sizes: open and create
  (\<open>worker_openfile.c\<close>), close (\<open>worker_closefile.c\<close>), lock and unlock
  (\<open>worker_lock.c\<close>), remove (\<open>worker_removefile.c\<close>) and read (\<open>worker_read.c\<close>). A handler
  takes the environment, the thread and connection numbers, the request, the empty answer,
  the index of the client's table entry and the server, and returns its return value, the
  answer and the server. A handler runs as one step of the model.
\<close>

type_synonym handler =
  "env \<Rightarrow> int \<Rightarrow> int \<Rightarrow> net_msg \<Rightarrow> net_msg \<Rightarrow> nat \<Rightarrow> server \<Rightarrow> int \<times> net_msg \<times> server"

subsection \<open>Open and create\<close>

definition open_file_create ::
    "env \<Rightarrow> int \<Rightarrow> bool \<Rightarrow> byte list \<Rightarrow> int \<Rightarrow> net_msg \<Rightarrow> net_msg \<Rightarrow> nat \<Rightarrow> server \<Rightarrow> int \<times> net_msg \<times> server" where
  "open_file_create e thread fexists nm conn in_msg out ci sv =
     (let want_lock = HASFLAG (GETFLAGS (mtype in_msg)) MESSAGE_OPEN_OLOCK;
          own = (if want_lock then conn else OWNER_NULL);
          log = (\<lambda>s. do_log thread conn nm STRING_CREATE_FILE s 0 0)
      in if \<not> fexists then
           (case get_empty_slot (files sv) of
              Inl err \<Rightarrow>
                if err \<noteq> EMFILE then (-1, out, sv)
                else (0, or_flag out MESSAGE_FILE_ERRMAXFILES, log ''Too many open files.'' sv)
            | Inr nof \<Rightarrow>
                (case create_file_struct (e_clock e (ticks sv)) (files sv ! nof) nm own of
                   (Inl err, f) \<Rightarrow>
                     (let sv = set_file nof f sv in
                      if err \<noteq> EEXIST then (-1, out, log ''File error.'' sv)
                      else (0, or_flag out MESSAGE_FILE_EXISTS, log ''File already exists.'' sv))
                 | (Inr _, f) \<Rightarrow>
                     (let sv = (set_file nof f sv)\<lparr>ticks := Suc (ticks sv)\<rparr>;
                          sv = on_shared (\<lambda>ss. let n = current_files ss + 1 in
                                 ss\<lparr>current_files := n,
                                    max_reached_files := (if max_reached_files ss < n then n else max_reached_files ss)\<rparr>) sv
                      in case open_file (e_alloc e) (files sv ! nof) own of
                           (Inl _, f) \<Rightarrow> (-1, out, log ''File error.'' (set_file nof f sv))
                         | (Inr _, f) \<Rightarrow>
                             (let sv = set_file nof f sv;
                                  sv = (if want_lock then set_lastop ci (cstr nm) sv else sv)
                              in (0, or_flag out MESSAGE_OP_SUCC,
                                  if own = OWNER_NULL then log ''Success.'' sv
                                  else do_log thread conn nm STRING_CREATELOCK_FILE ''Success.'' 0 0 sv)))))
         else (0, or_flag out MESSAGE_FILE_EXISTS, log ''File already exists.'' sv))"

definition open_file_open ::
    "env \<Rightarrow> int \<Rightarrow> nat option \<Rightarrow> byte list \<Rightarrow> int \<Rightarrow> net_msg \<Rightarrow> net_msg \<Rightarrow> nat \<Rightarrow> server \<Rightarrow> int \<times> net_msg \<times> server" where
  "open_file_open e thread fslot nm conn in_msg out ci sv =
     (let own = (if HASFLAG (GETFLAGS (mtype in_msg)) MESSAGE_OPEN_OLOCK then conn else OWNER_NULL);
          log = (\<lambda>s. do_log thread conn nm STRING_OPEN_FILE s 0 0)
      in case fslot of
           Some fex \<Rightarrow>
             (case open_file (e_alloc e) (files sv ! fex) own of
                (Inr _, f) \<Rightarrow>
                  (let sv = set_file fex f sv in
                   (0, or_flag out MESSAGE_OP_SUCC,
                    if own = OWNER_NULL then log ''Success.'' sv
                    else do_log thread conn nm STRING_OPENLOCK_FILE ''Success.'' 0 0 sv))
              | (Inl err, f) \<Rightarrow>
                  (let sv = set_file fex f sv in
                   if err = ENOENT then (0, or_flag out MESSAGE_FILE_NEXISTS, log ''File doesn't exist.'' sv)
                   else if err = EAGAIN then (0, or_flag out MESSAGE_FILE_NOWN, log ''Permission denied.'' sv)
                   else (-1, out, log ''File error.'' sv)))
         | None \<Rightarrow> (0, or_flag out MESSAGE_FILE_NEXISTS, log ''File doesn't exist.'' sv))"

definition do_open_file :: handler where
  "do_open_file e thread conn in_msg out_msg ci sv =
     (case read_file_name e in_msg (of_nat FILE_NAME_MAX_SIZE) of
        (Inl _, _) \<Rightarrow> (-1, out_msg, sv)
      | (Inr nm, in_msg) \<Rightarrow>
          (let out = out_msg\<lparr>mtype := MESSAGE_OFILE_ACK\<rparr>;
               sv = set_lastop ci [] sv;
               fex = get_file (files sv) nm;
               create = HASFLAG (GETFLAGS (mtype in_msg)) MESSAGE_OPEN_OCREATE
           in case fex of
                Inl err \<Rightarrow>
                  if err \<noteq> ENOENT then (-1, out, do_log thread conn nm STRING_OPEN_FILE ''File error.'' 0 0 sv)
                  else if create then open_file_create e thread False nm conn in_msg out ci sv
                  else open_file_open e thread None nm conn in_msg out ci sv
              | Inr i \<Rightarrow>
                  if create then open_file_create e thread True nm conn in_msg out ci sv
                  else open_file_open e thread (Some i) nm conn in_msg out ci sv))"

subsection \<open>Close\<close>

definition do_close_file :: handler where
  "do_close_file e thread conn in_msg out_msg ci sv =
     (case read_file_name e in_msg (of_nat FILE_NAME_MAX_SIZE) of
        (Inl _, _) \<Rightarrow> (-1, out_msg, sv)
      | (Inr nm, _) \<Rightarrow>
          (let sv = set_lastop ci [] sv;
               out = out_msg\<lparr>mtype := MESSAGE_CFILE_ACK\<rparr>;
               log = (\<lambda>s w. do_log thread conn nm STRING_CLOSE_FILE s 0 w)
           in case get_file (files sv) nm of
                Inr fex \<Rightarrow>
                  (case close_file (e_alloc e) (files sv ! fex) conn 0 of
                     (Inr diff, f) \<Rightarrow>
                       (0, or_flag out MESSAGE_OP_SUCC,
                        log ''Success.'' (ucast diff) (sub_storage diff (set_file fex f sv)))
                   | (Inl err, f) \<Rightarrow>
                       (let sv = set_file fex f sv in
                        if err = ENOENT then (0, or_flag out MESSAGE_FILE_NEXISTS, log ''File does not exist.'' 0 sv)
                        else if err = EAGAIN then (0, or_flag out MESSAGE_FILE_NOWN, log ''Permission denied.'' 0 sv)
                        else (-1, out, log ''File error.'' 0 sv)))
              | Inl err \<Rightarrow>
                  if err = ENOENT then (0, or_flag out MESSAGE_FILE_NEXISTS, log ''File does not exist.'' 0 sv)
                  else (-1, out, log ''File error.'' 0 sv)))"

subsection \<open>Lock and unlock\<close>

definition do_lock_file :: handler where
  "do_lock_file e thread conn in_msg out_msg ci sv =
     (case read_file_name e in_msg (of_nat FILE_NAME_MAX_SIZE) of
        (Inl _, _) \<Rightarrow> (-1, out_msg, sv)
      | (Inr nm, _) \<Rightarrow>
          (let sv = set_lastop ci [] sv;
               out = out_msg\<lparr>mtype := MESSAGE_LFILE_ACK\<rparr>;
               log = (\<lambda>s. do_log thread conn nm STRING_LOCK_FILE s 0 0)
           in case get_file (files sv) nm of
                Inr fex \<Rightarrow>
                  (case lock_file (files sv ! fex) conn of
                     (Inr _, f) \<Rightarrow> (0, or_flag out MESSAGE_OP_SUCC, log ''Success.'' (set_file fex f sv))
                   | (Inl err, f) \<Rightarrow>
                       (let sv = set_file fex f sv in
                        if err = ENOENT then (0, or_flag out MESSAGE_FILE_NEXISTS, log ''File doesn't exist.'' sv)
                        else if err = EPERM then (0, or_flag out MESSAGE_FILE_NOPEN, log ''File is closed.'' sv)
                        else if err = EAGAIN then (0, or_flag out MESSAGE_FILE_NOWN, log ''Permission denied.'' sv)
                        else (-1, out, log ''File error.'' sv)))
              | Inl err \<Rightarrow>
                  if err = ENOENT then (0, or_flag out MESSAGE_FILE_NEXISTS, log ''File doesn't exist.'' sv)
                  else (-1, out, log ''File error.'' sv)))"

definition do_unlock_file :: handler where
  "do_unlock_file e thread conn in_msg out_msg ci sv =
     (case read_file_name e in_msg (of_nat FILE_NAME_MAX_SIZE) of
        (Inl _, _) \<Rightarrow> (-1, out_msg, sv)
      | (Inr nm, _) \<Rightarrow>
          (let sv = set_lastop ci [] sv;
               out = out_msg\<lparr>mtype := MESSAGE_ULFILE_ACK\<rparr>;
               log = (\<lambda>s. do_log thread conn nm STRING_UNLOCK_FILE s 0 0)
           in case get_file (files sv) nm of
                Inr fex \<Rightarrow>
                  (case unlock_file (files sv ! fex) conn of
                     (Inr _, f) \<Rightarrow> (0, or_flag out MESSAGE_OP_SUCC, log ''Success.'' (set_file fex f sv))
                   | (Inl err, f) \<Rightarrow>
                       (let sv = set_file fex f sv in
                        if err = ENOENT then (0, or_flag out MESSAGE_FILE_NEXISTS, log ''File doesn't exist.'' sv)
                        else if err = EPERM then (0, or_flag out MESSAGE_FILE_NOPEN, log ''File is closed.'' sv)
                        else if err = EAGAIN then (0, or_flag out MESSAGE_FILE_NOWN, log ''Permission denied.'' sv)
                        else (-1, out, log ''File error.'' sv)))
              | Inl err \<Rightarrow>
                  if err = ENOENT then (0, or_flag out MESSAGE_FILE_NEXISTS, log ''File doesn't exist.'' sv)
                  else (-1, out, log ''File error.'' sv)))"

subsection \<open>Remove\<close>

definition do_remove_file :: handler where
  "do_remove_file e thread conn in_msg out_msg ci sv =
     (case read_file_name e in_msg (of_nat FILE_NAME_MAX_SIZE) of
        (Inl _, _) \<Rightarrow> (-1, out_msg, sv)
      | (Inr nm, _) \<Rightarrow>
          (let sv = set_lastop ci [] sv;
               out = out_msg\<lparr>mtype := MESSAGE_RMFILE_ACK\<rparr>;
               log = (\<lambda>s. do_log thread conn nm STRING_REMOVE_FILE s 0 0)
           in case get_file (files sv) nm of
                Inr fex \<Rightarrow>
                  if owner (files sv ! fex) = OWNER_NULL then (0, or_flag out MESSAGE_FILE_NLOCK, sv)
                  else
                    (case remove_file (files sv ! fex) conn of
                       (Inr sz, f) \<Rightarrow>
                         (0, or_flag out MESSAGE_OP_SUCC,
                          log ''Success.''
                            (sub_storage sz (on_shared (\<lambda>ss. ss\<lparr>current_files := current_files ss - 1\<rparr>)
                               (set_file fex f sv))))
                     | (Inl err, f) \<Rightarrow>
                         (let sv = set_file fex f sv in
                          if err = ENOENT then (0, or_flag out MESSAGE_FILE_NEXISTS, log ''File doesn't exist.'' sv)
                          else if err = EPERM then (0, or_flag out MESSAGE_FILE_NOPEN, log ''File is closed.'' sv)
                          else if err = EAGAIN then (0, or_flag out MESSAGE_FILE_NOWN, log ''Permission denied.'' sv)
                          else (-1, out, log ''File error.'' sv)))
              | Inl err \<Rightarrow>
                  if err = ENOENT then (0, or_flag out MESSAGE_FILE_NEXISTS, log ''File doesn't exist.'' sv)
                  else (-1, out, log ''File error.'' sv)))"

subsection \<open>Read\<close>

definition do_read_file :: handler where
  "do_read_file e thread conn in_msg out_msg ci sv =
     (case read_file_name e in_msg (of_nat FILE_NAME_MAX_SIZE) of
        (Inl _, _) \<Rightarrow> (-1, out_msg, sv)
      | (Inr nm, _) \<Rightarrow>
          (let sv = set_lastop ci [] sv;
               out = out_msg\<lparr>mtype := MESSAGE_RFILE_ACK\<rparr>;
               log = (\<lambda>s r. do_log thread conn nm STRING_READ_FILE s r 0)
           in case get_file (files sv) nm of
                Inr fex \<Rightarrow>
                  (case read_file (e_alloc e) (files sv ! fex) conn (None, 0) of
                     (Inr ((buf, _), read_size), f) \<Rightarrow>
                       (let sv = set_file fex f sv; out = or_flag out MESSAGE_OP_SUCC in
                        case (if read_size \<noteq> 0 then push_msg (e_alloc e) out read_size buf else (Inr (), out)) of
                          (Inl _, out) \<Rightarrow> (-1, out, sv)
                        | (Inr _, out) \<Rightarrow>
                            (case push_msg (e_alloc e) out 8 (Some (size_bytes read_size)) of
                               (Inl _, out) \<Rightarrow> (-1, out, sv)
                             | (Inr _, out) \<Rightarrow> (0, out, log ''Success.'' (ucast read_size) sv)))
                   | (Inl err, f) \<Rightarrow>
                       (let sv = set_file fex f sv in
                        if err = ENOENT then (0, or_flag out MESSAGE_FILE_NEXISTS, log ''File doesn't exist.'' 0 sv)
                        else if err = EAGAIN then (0, or_flag out MESSAGE_FILE_NOWN, log ''Permission denied.'' 0 sv)
                        else if err = EPERM then (0, or_flag out MESSAGE_FILE_NOPEN, log ''File is closed.'' 0 sv)
                        else (-1, out, log ''File error.'' 0 sv)))
              | Inl err \<Rightarrow>
                  if err = ENOENT then (0, or_flag out MESSAGE_FILE_NEXISTS, log ''File doesn't exist.'' 0 sv)
                  else (-1, out, log ''File error.'' 0 sv)))"

end
