(* ===== verification/Handler_Spec.thy ===== *)
theory Handler_Spec
  imports Worker_Files
begin

text \<open>
  What a request on one file promises to the client: an abstract operation on the map from
  names to files, and an answer that reports its outcome. The locale \<open>named_handler\<close> is
  this promise; it is interpreted for every handler of \<open>Worker_Files\<close> that addresses an
  existing file, and its lemmas (no effect on other files, no effect of a refused request)
  then hold for each of them.
\<close>

subsection \<open>Requests\<close>

text \<open>The request carries the C string \<open>s\<close>, with its NUL, in at most 256 bytes.\<close>

definition requests :: "net_msg \<Rightarrow> byte list \<Rightarrow> bool" where
  "requests m s \<longleftrightarrow> 0 \<notin> set s \<and> (\<exists>rest t. carries_name m rest (s @ 0 # t))"

text \<open>Every allocation succeeds, and \<open>name\<close> is an array of 256 bytes.\<close>

definition good_env :: "env \<Rightarrow> bool" where
  "good_env e \<longleftrightarrow> e_alloc e = mem_ok \<and> length (e_name e) = FILE_NAME_MAX_SIZE"

text \<open>The handler reads the name \<open>s\<close> from the message. The handlers are specified for every
  message they can read a name from; \<open>requests\<close> is the case of a message built by a client.\<close>

definition names :: "env \<Rightarrow> net_msg \<Rightarrow> byte list \<Rightarrow> bool" where
  "names e m s \<longleftrightarrow> (\<exists>buf m'. read_file_name e m 256 = (Inr buf, m') \<and> cstr buf = s)"

lemma name_max [simp]: "of_nat FILE_NAME_MAX_SIZE = (256 :: size_t)"
  by (simp add: FILE_NAME_MAX_SIZE_def)

lemma read_requests:
  assumes "requests m s"
  obtains buf m' where "read_file_name e m 256 = (Inr buf, m')" "cstr buf = s" "mtype m' = mtype m"
proof -
  from assms obtain rest t where c: "carries_name m rest (s @ 0 # t)" and nul: "0 \<notin> set s"
    by (auto simp: requests_def)
  obtain m' where "read_file_name e m 256 = (Inr ((s @ 0 # t) @ drop (length (s @ 0 # t)) (e_name e)), m')"
      "mtype m' = mtype m"
    using read_file_name_ok [OF c] .
  with that cstr_name_buffer [OF nul] show thesis by blast
qed

lemma length_requests: "requests m s \<Longrightarrow> length s < 256"
  by (auto simp: requests_def carries_name_def)

lemma requests_names: "requests m s \<Longrightarrow> names e m s"
  by (rule read_requests) (auto simp: names_def)

lemma read_file_name_mtype: "read_file_name e m n = (r, m') \<Longrightarrow> mtype m' = mtype m"
  by (auto simp: read_file_name_def Let_def split: prod.splits if_splits)

lemma pop_buf_length: "pop_buf b n (Some dst) = (Inr bs, b') \<Longrightarrow> length bs \<le> max (unat n) (length dst)"
  by (auto simp: pop_buf_def Let_def split: if_splits)

lemma length_names:
  assumes e: "good_env e" and nm: "names e m s"
  shows "length s \<le> 256"
proof -
  obtain buf m' where rn: "read_file_name e m 256 = (Inr buf, m')" and s: "cstr buf = s"
    using nm by (auto simp: names_def)
  then obtain n b b' where n: "n \<le> (256 :: size_t)" and pop: "pop_buf b n (Some (e_name e)) = (Inr buf, b') \<or> buf = e_name e"
    by (auto simp: read_file_name_def Let_def split: prod.splits sum.splits if_splits)
  have "unat n \<le> 256" using n by (simp add: word_le_nat_alt)
  then have "length buf \<le> 256"
    using pop pop_buf_length [of b n "e_name e" buf b'] e by (auto simp: good_env_def FILE_NAME_MAX_SIZE_def)
  then show ?thesis using s length_takeWhile_le [of "\<lambda>b. b \<noteq> 0" buf] by (simp add: cstr_def)
qed

subsection \<open>The abstract request\<close>

text \<open>\<open>op\<close> says what becomes of the file (\<open>None\<close>: it is gone).\<close>

definition request ::
    "(int \<Rightarrow> afile \<Rightarrow> errno + afile option) \<Rightarrow> int \<Rightarrow> byte list \<Rightarrow> (byte list \<Rightarrow> afile option)
       \<Rightarrow> (errno + unit) \<times> (byte list \<Rightarrow> afile option)" where
  "request op who n m =
     (case m n of
        None \<Rightarrow> (Inl ENOENT, m)
      | Some a \<Rightarrow> (case op who a of Inl e \<Rightarrow> (Inl e, m) | Inr a' \<Rightarrow> (Inr (), m(n := a'))))"

definition keep :: "(int \<Rightarrow> afile \<Rightarrow> errno + afile) \<Rightarrow> int \<Rightarrow> afile \<Rightarrow> errno + afile option" where
  "keep op who a = (case op who a of Inl e \<Rightarrow> Inl e | Inr a' \<Rightarrow> Inr (Some a'))"

text \<open>The flags that report an outcome.\<close>

primrec std_flag :: "errno + unit \<Rightarrow> msg_t" where
  "std_flag (Inr _) = MESSAGE_OP_SUCC"
| "std_flag (Inl e) =
     (if e = ENOENT then MESSAGE_FILE_NEXISTS
      else if e = EPERM then MESSAGE_FILE_NOPEN else MESSAGE_FILE_NOWN)"

locale named_handler =
  fixes h :: handler
    and ack :: msg_t
    and flag :: "errno + unit \<Rightarrow> msg_t"
    and op :: "int \<Rightarrow> afile \<Rightarrow> errno + afile option"
    and ok :: "net_msg \<Rightarrow> net_msg \<Rightarrow> bool"
  assumes rejects: "read_file_name e in_msg 256 = (Inl err, m') \<Longrightarrow> h e thread conn in_msg out ci sv = (-1, out, sv)"
    and handles: "good_env e \<Longrightarrow> server_inv sv \<Longrightarrow> names e in_msg s \<Longrightarrow> ok in_msg out \<Longrightarrow> 0 < conn \<Longrightarrow>
      \<exists>out' sv'. h e thread conn in_msg out ci sv = (0, out', sv') \<and> server_inv sv'
        \<and> (case request op conn s (sabs sv) of (r, m) \<Rightarrow> mtype out' = ack OR flag r \<and> sabs sv' = m)"
begin

text \<open>Whatever the message, the handler either gives up at once or serves a name.\<close>

lemma any_message:
  assumes "good_env e" "server_inv sv" "ok in_msg out" "0 < conn"
  obtains (rejected) "h e thread conn in_msg out ci sv = (-1, out, sv)"
    | (served) s out' sv' where "names e in_msg s" "h e thread conn in_msg out ci sv = (0, out', sv')"
        "server_inv sv'" "sabs sv' = snd (request op conn s (sabs sv))"
proof (cases "read_file_name e in_msg 256")
  case (Pair r m')
  show thesis
  proof (cases r)
    case (Inl err)
    with Pair rejected rejects show thesis by blast
  next
    case (Inr buf)
    with Pair have nm: "names e in_msg (cstr buf)" by (auto simp: names_def)
    from handles [OF assms(1,2) nm assms(3,4), of thread ci] show thesis
      by (auto simp: split_def intro: served [OF nm])
  qed
qed

text \<open>Only the named file can change.\<close>

lemma others_unchanged:
  assumes "good_env e" "server_inv sv" "names e in_msg s" "ok in_msg out" "0 < conn" "n \<noteq> s"
  shows "sabs (snd (snd (h e thread conn in_msg out ci sv))) n = sabs sv n"
proof -
  have "snd (request op conn s (sabs sv)) n = sabs sv n"
    using assms(6) by (auto simp: request_def split: option.splits sum.splits)
  moreover obtain out' sv' where "h e thread conn in_msg out ci sv = (0, out', sv')"
      "sabs sv' = snd (request op conn s (sabs sv))"
    using handles [OF assms(1-5), of thread ci] by (auto simp: split_def)
  ultimately show ?thesis by simp
qed

text \<open>A refused request changes nothing, and the invariant survives every request.\<close>

lemma refused_unchanged:
  assumes "good_env e" "server_inv sv" "names e in_msg s" "ok in_msg out" "0 < conn"
    and "case sabs sv s of None \<Rightarrow> True | Some a \<Rightarrow> \<exists>err. op conn a = Inl err"
  shows "sabs (snd (snd (h e thread conn in_msg out ci sv))) = sabs sv"
proof -
  have "snd (request op conn s (sabs sv)) = sabs sv"
    using assms(6) by (auto simp: request_def split: option.splits sum.splits)
  moreover obtain out' sv' where "h e thread conn in_msg out ci sv = (0, out', sv')"
      "sabs sv' = snd (request op conn s (sabs sv))"
    using handles [OF assms(1-5), of thread ci] by (auto simp: split_def)
  ultimately show ?thesis by simp
qed

lemma handler_inv:
  assumes "good_env e" "server_inv sv" "names e in_msg s" "ok in_msg out" "0 < conn"
  shows "fst (h e thread conn in_msg out ci sv) = 0 \<and> server_inv (snd (snd (h e thread conn in_msg out ci sv)))"
  using handles [OF assms, of thread ci] by (auto simp: split_def)

end

subsection \<open>The handlers keep the promise\<close>

lemma sabs_frame [simp]: "sabs (set_lastop ci s sv) = sabs sv" "sabs (do_log a b c d out r w sv) = sabs sv"
  by simp_all

text \<open>Putting a slot back unchanged.\<close>

lemma set_file_same [simp]: "i < length (files sv) \<Longrightarrow> set_file i (files sv ! i) sv = sv"
  by (simp add: set_file_def)

lemma set_file_same_lastop [simp]:
  "i < length (files sv) \<Longrightarrow> set_file i (files sv ! i) (set_lastop ci s sv) = set_lastop ci s sv"
  using set_file_same [of i "set_lastop ci s sv"] by simp

text \<open>An operation that keeps the contents of the file it succeeds on.\<close>

definition keeps_content :: "(int \<Rightarrow> afile \<Rightarrow> errno + afile) \<Rightarrow> bool" where
  "keeps_content op \<longleftrightarrow> (\<forall>who a a'. op who a = Inr a' \<longrightarrow> a_content a' = a_content a)"

lemma keeps_content_ops:
  "keeps_content a_open_op" "keeps_content a_close_op" "keeps_content a_read_op"
  "keeps_content a_lock_op" "keeps_content a_unlock_op"
  by (auto simp: keeps_content_def a_op_defs split: if_splits)

context file_operation
begin

text \<open>Running such an operation on a slot of the server.\<close>

lemma server_slot:
  assumes inv: "server_inv sv" and i: "i < length (files sv)" "existing (files sv ! i)" and who: "0 \<le> who"
    and pre: "pre (fabs (files sv ! i))" and ok: "spec who (fabs (files sv ! i)) = Inr a"
    and keeps: "keeps_content spec"
  obtains x f' where "run (files sv ! i) who = (Inr x, f')" "server_inv (set_file i f' sv)"
    "sabs (set_file i f' sv) = (sabs sv)(name (files sv ! i) \<mapsto> a)" "existing f'"
proof -
  obtain x f' where r: "run (files sv ! i) who = (Inr x, f')" "store_inv ((files sv)[i := f'])" "existing f'"
      "store_abs ((files sv)[i := f']) = (sabs sv)(name (files sv ! i) \<mapsto> a)"
      "used ((files sv)[i := f']) + length (a_content (fabs (files sv ! i))) = used (files sv) + length (a_content a)"
      "live ((files sv)[i := f']) = live (files sv)"
    using slot_ok [OF server_inv_store [OF inv] i who pre ok] by metis
  have "used ((files sv)[i := f']) = used (files sv)"
    using r(5) ok keeps by (auto simp: keeps_content_def)
  with r that server_inv_slot_same [OF inv r(2)] show thesis by auto
qed

end

text \<open>Every handler first reads the name and searches for it.\<close>

lemma named_request:
  assumes e: "good_env e" and inv: "server_inv sv" and rq: "names e in_msg s"
  obtains (missing) buf m' where "read_file_name e in_msg 256 = (Inr buf, m')" "cstr buf = s"
      "mtype m' = mtype in_msg" "get_file (files sv) buf = Inl ENOENT" "sabs sv s = None"
    | (found) buf m' i where "read_file_name e in_msg 256 = (Inr buf, m')" "cstr buf = s"
      "mtype m' = mtype in_msg" "get_file (files sv) buf = Inr i" "i < length (files sv)"
      "existing (files sv ! i)" "name (files sv ! i) = s"
      "sabs sv s = Some (fabs (files sv ! i))" "file_inv (files sv ! i)"
proof -
  obtain buf m' where rn: "read_file_name e in_msg 256 = (Inr buf, m')" "cstr buf = s" "mtype m' = mtype in_msg"
    using rq read_file_name_mtype by (auto simp: names_def)
  note st = server_inv_store [OF inv]
  show thesis
  proof (cases "get_file (files sv) buf")
    case (Inl err)
    with rn get_file_Inl [OF st Inl] show thesis by (auto intro!: missing)
  next
    case (Inr i)
    with rn get_file_Inr [OF st Inr] show thesis by (auto intro!: found)
  qed
qed

lemma do_lock_file_handles:
  assumes e: "good_env e" and inv: "server_inv sv" and rq: "names e in_msg s" and conn: "0 < conn"
  shows "\<exists>out' sv'. do_lock_file e thread conn in_msg out ci sv = (0, out', sv') \<and> server_inv sv'
        \<and> (case request (keep a_lock_op) conn s (sabs sv) of (r, m) \<Rightarrow>
             mtype out' = MESSAGE_LFILE_ACK OR std_flag r \<and> sabs sv' = m)"
  using e inv rq
proof (cases rule: named_request)
  case missing
  with inv show ?thesis by (simp add: do_lock_file_def Let_def request_def)
next
  case (found buf m' i)
  show ?thesis
  proof (cases "a_lock_op conn (fabs (files sv ! i))")
    case (Inl err)
    then have "lock_file (files sv ! i) conn = (Inl err, files sv ! i)"
      using flock.run_err [OF found(9,6)] conn by simp
    moreover have "err = EAGAIN \<or> err = EPERM"
      using Inl by (auto simp: a_op_defs split: if_splits)
    ultimately show ?thesis
      using Inl found inv by (auto simp: do_lock_file_def Let_def request_def keep_def)
  next
    case (Inr a)
    have "server_inv (set_lastop ci [] sv)" using inv by simp
    then obtain x f' where "lock_file (files sv ! i) conn = (Inr x, f')"
        "server_inv (set_file i f' (set_lastop ci [] sv))"
        "sabs (set_file i f' (set_lastop ci [] sv)) = (sabs sv)(s \<mapsto> a)"
      by (rule flock.server_slot [of _ i conn a]) (use found conn Inr keeps_content_ops in auto)
    then show ?thesis
      using Inr found by (simp add: do_lock_file_def Let_def request_def keep_def)
  qed
qed

lemma do_unlock_file_handles:
  assumes e: "good_env e" and inv: "server_inv sv" and rq: "names e in_msg s" and conn: "0 < conn"
  shows "\<exists>out' sv'. do_unlock_file e thread conn in_msg out ci sv = (0, out', sv') \<and> server_inv sv'
        \<and> (case request (keep a_unlock_op) conn s (sabs sv) of (r, m) \<Rightarrow>
             mtype out' = MESSAGE_ULFILE_ACK OR std_flag r \<and> sabs sv' = m)"
  using e inv rq
proof (cases rule: named_request)
  case missing
  with inv show ?thesis by (simp add: do_unlock_file_def Let_def request_def)
next
  case (found buf m' i)
  show ?thesis
  proof (cases "a_unlock_op conn (fabs (files sv ! i))")
    case (Inl err)
    then have "unlock_file (files sv ! i) conn = (Inl err, files sv ! i)"
      using funlock.run_err [OF found(9,6)] conn by simp
    moreover have "err = EAGAIN \<or> err = EPERM"
      using Inl by (auto simp: a_op_defs split: if_splits)
    ultimately show ?thesis
      using Inl found inv by (auto simp: do_unlock_file_def Let_def request_def keep_def)
  next
    case (Inr a)
    have "server_inv (set_lastop ci [] sv)" using inv by simp
    then obtain x f' where "unlock_file (files sv ! i) conn = (Inr x, f')"
        "server_inv (set_file i f' (set_lastop ci [] sv))"
        "sabs (set_file i f' (set_lastop ci [] sv)) = (sabs sv)(s \<mapsto> a)"
      by (rule funlock.server_slot [of _ i conn a]) (use found conn Inr keeps_content_ops in auto)
    then show ?thesis
      using Inr found by (simp add: do_unlock_file_def Let_def request_def keep_def)
  qed
qed

lemma sub_storage_0 [simp]: "sub_storage 0 sv = sv"
  by (simp add: sub_storage_def on_shared_def)

lemma do_close_file_handles:
  assumes e: "good_env e" and inv: "server_inv sv" and rq: "names e in_msg s" and conn: "0 < conn"
  shows "\<exists>out' sv'. do_close_file e thread conn in_msg out ci sv = (0, out', sv') \<and> server_inv sv'
        \<and> (case request (keep a_close_op) conn s (sabs sv) of (r, m) \<Rightarrow>
             mtype out' = MESSAGE_CFILE_ACK OR std_flag r \<and> sabs sv' = m)"
  using e inv rq
proof (cases rule: named_request)
  case missing
  with inv show ?thesis by (simp add: do_close_file_def Let_def request_def)
next
  case (found buf m' i)
  have al: "e_alloc e = mem_ok" using e by (simp add: good_env_def)
  show ?thesis
  proof (cases "a_close_op conn (fabs (files sv ! i))")
    case (Inl err)
    then have "close_file mem_ok (files sv ! i) conn 0 = (Inl err, files sv ! i)"
      using fclose.run_err [OF found(9,6)] conn by simp
    moreover have "err = EAGAIN"
      using Inl by (auto simp: a_op_defs split: if_splits)
    ultimately show ?thesis
      using Inl found inv al by (simp add: do_close_file_def Let_def request_def keep_def)
  next
    case (Inr a)
    have "server_inv (set_lastop ci [] sv)" using inv by simp
    then obtain d f' where r: "close_file mem_ok (files sv ! i) conn 0 = (Inr d, f')"
        "server_inv (set_file i f' (set_lastop ci [] sv))"
        "sabs (set_file i f' (set_lastop ci [] sv)) = (sabs sv)(s \<mapsto> a)"
      by (rule fclose.server_slot [of _ i conn a]) (use found conn Inr keeps_content_ops in auto)
    moreover have "d = 0" by (rule close_file_difference [OF found(9) r(1)])
    ultimately show ?thesis
      using Inr found al by (simp add: do_close_file_def Let_def request_def keep_def)
  qed
qed

text \<open>Open without \<open>O_CREATE\<close>: the lock flag decides for whom the file is opened.\<close>

definition open_request :: "bool \<Rightarrow> net_msg \<Rightarrow> bool" where
  "open_request lk m \<longleftrightarrow>
     \<not> HASFLAG (GETFLAGS (mtype m)) MESSAGE_OPEN_OCREATE \<and> HASFLAG (GETFLAGS (mtype m)) MESSAGE_OPEN_OLOCK = lk"

definition open_op :: "bool \<Rightarrow> int \<Rightarrow> afile \<Rightarrow> errno + afile option" where
  "open_op lk who = keep a_open_op (if lk then who else OWNER_NULL)"

lemma do_open_file_handles:
  assumes e: "good_env e" and inv: "server_inv sv" and rq: "names e in_msg s"
    and fl: "open_request lk in_msg" and conn: "0 < conn"
  shows "\<exists>out' sv'. do_open_file e thread conn in_msg out ci sv = (0, out', sv') \<and> server_inv sv'
        \<and> (case request (open_op lk) conn s (sabs sv) of (r, m) \<Rightarrow>
             mtype out' = MESSAGE_OFILE_ACK OR std_flag r \<and> sabs sv' = m)"
  using e inv rq
proof (cases rule: named_request)
  case missing
  with inv fl show ?thesis
    by (simp add: do_open_file_def open_file_open_def open_request_def Let_def request_def)
next
  case (found buf m' i)
  have al: "e_alloc e = mem_ok" using e by (simp add: good_env_def)
  let ?own = "if lk then conn else OWNER_NULL"
  have own: "0 \<le> ?own" using conn by simp
  have fl': "\<not> HASFLAG (GETFLAGS (mtype m')) MESSAGE_OPEN_OCREATE"
      "HASFLAG (GETFLAGS (mtype m')) MESSAGE_OPEN_OLOCK = lk"
    using fl found(3) by (simp_all add: open_request_def)
  show ?thesis
  proof (cases "a_open_op ?own (fabs (files sv ! i))")
    case (Inl err)
    then have "open_file mem_ok (files sv ! i) ?own = (Inl err, files sv ! i)"
      using fopen.run_err [OF found(9,6) own] by simp
    moreover have "err = EAGAIN"
      using Inl by (auto simp: a_op_defs split: if_splits)
    ultimately show ?thesis
      using Inl found inv al fl'
      by (simp add: do_open_file_def open_file_open_def open_op_def Let_def request_def keep_def
          del: owner_consts)
  next
    case (Inr a)
    have "server_inv (set_lastop ci [] sv)" using inv by simp
    then obtain x f' where "open_file mem_ok (files sv ! i) ?own = (Inr x, f')"
        "server_inv (set_file i f' (set_lastop ci [] sv))"
        "sabs (set_file i f' (set_lastop ci [] sv)) = (sabs sv)(s \<mapsto> a)"
      by (rule fopen.server_slot [of _ i ?own a])
        (use found own Inr keeps_content_ops in \<open>auto simp del: owner_consts\<close>)
    then show ?thesis
      using Inr found al fl'
      by (simp add: do_open_file_def open_file_open_def open_op_def Let_def request_def keep_def
          del: owner_consts)
  qed
qed

text \<open>Remove: only the client that holds the lock may remove, and a file nobody has locked
  is reported as such (here by \<open>EPERM\<close>).\<close>

definition remove_op :: "int \<Rightarrow> afile \<Rightarrow> errno + afile option" where
  "remove_op who a =
     (if a_owner a = OWNER_NULL then Inl EPERM else if a_owner a \<noteq> who then Inl EAGAIN else Inr None)"

primrec remove_flag :: "errno + unit \<Rightarrow> msg_t" where
  "remove_flag (Inr _) = MESSAGE_OP_SUCC"
| "remove_flag (Inl e) =
     (if e = ENOENT then MESSAGE_FILE_NEXISTS
      else if e = EPERM then MESSAGE_FILE_NLOCK else MESSAGE_FILE_NOWN)"

lemma do_remove_file_handles:
  assumes e: "good_env e" and inv: "server_inv sv" and rq: "names e in_msg s" and conn: "0 < conn"
  shows "\<exists>out' sv'. do_remove_file e thread conn in_msg out ci sv = (0, out', sv') \<and> server_inv sv'
        \<and> (case request remove_op conn s (sabs sv) of (r, m) \<Rightarrow>
             mtype out' = MESSAGE_RMFILE_ACK OR remove_flag r \<and> sabs sv' = m)"
  using e inv rq
proof (cases rule: named_request)
  case missing
  with inv show ?thesis by (simp add: do_remove_file_def Let_def request_def)
next
  case (found buf m' i)
  let ?f = "files sv ! i"
  have rm: "remove_file ?f conn = (case a_remove_op conn (fabs ?f) of
        Inl err \<Rightarrow> (Inl err, ?f) | Inr _ \<Rightarrow> (Inr (fsize ?f), init_file_struct))"
    using found(6) conn by (intro remove_file_spec) simp_all
  consider (unlocked) "owner ?f = OWNER_NULL" | (other) "owner ?f \<noteq> OWNER_NULL" "owner ?f \<noteq> conn"
    | (own) "owner ?f = conn" "owner ?f \<noteq> OWNER_NULL" by blast
  then show ?thesis
  proof cases
    case unlocked
    with found inv show ?thesis
      by (simp add: do_remove_file_def Let_def request_def remove_op_def)
  next
    case other
    with found inv rm show ?thesis
      by (simp add: do_remove_file_def Let_def request_def remove_op_def a_remove_op_def)
  next
    case own
    let ?sv = "sub_storage (fsize ?f) (on_shared (\<lambda>ss. ss\<lparr>current_files := current_files ss - 1\<rparr>)
                 (set_file i init_file_struct (set_lastop ci [] sv)))"
    have "server_inv ?sv \<and> sabs ?sv = (sabs sv)(name ?f := None)"
      using server_inv_remove [of "set_lastop ci [] sv" i ?sv] inv found(5,6)
      by (simp add: shared_sub_storage shared_set_lastop conns_inv_def conns_def)
    moreover have "a_remove_op conn (fabs ?f) = Inr ()"
      using own by (simp add: a_remove_op_def)
    ultimately show ?thesis
      using own found rm by (simp add: do_remove_file_def Let_def request_def remove_op_def)
  qed
qed

text \<open>Read: the answer carries the contents, followed by their length.\<close>

lemma push_content_ok:
  assumes m: "db_inv (mdata m)" and n: "unat n = length d"
    and fits: "length (db_stack (mdata m)) + length d + 8 < 2 ^ 62"
  obtains m1 m2 where
    "(if n \<noteq> 0 then push_msg mem_ok m n (Some d) else (Inr (), m)) = (Inr (), m1)"
    "push_msg mem_ok m1 8 (Some (size_bytes n)) = (Inr (), m2)" "mtype m2 = mtype m"
    "db_inv (mdata m2)" "db_stack (mdata m2) = db_stack (mdata m) @ field d"
proof -
  have "unat n = unat (wlen d)" using n fits by (simp add: unat_wlen)
  then have w: "n = wlen d" by (rule unsigned_word_eqI)
  obtain m1 where m1: "push_msg mem_ok m n (Some d) = (Inr (), m1)" "mtype m1 = mtype m"
      "db_inv (mdata m1)" "db_stack (mdata m1) = db_stack (mdata m) @ d"
    using push_msg_ok [OF m, of d n] n fits by auto
  let ?m1 = "if n \<noteq> 0 then m1 else m"
  have m1': "db_inv (mdata ?m1)" "db_stack (mdata ?m1) = db_stack (mdata m) @ d" "mtype ?m1 = mtype m"
    using m1 m n by auto
  obtain m2 where "push_msg mem_ok ?m1 8 (Some (size_bytes n)) = (Inr (), m2)" "mtype m2 = mtype ?m1"
      "db_inv (mdata m2)" "db_stack (mdata m2) = db_stack (mdata ?m1) @ size_bytes n"
    using push_msg_ok [OF m1'(1), of "size_bytes n" 8] m1'(2) fits by auto
  with m1(1) m1'(2,3) w show thesis by (intro that [of ?m1 m2]) (simp_all add: field_def)
qed

lemma reply_content:
  assumes "fresh m" and "unat n = length d" and "length d < 2 ^ 61"
  obtains m1 m2 where
    "(if n \<noteq> 0 then push_msg mem_ok m n (Some d) else (Inr (), m)) = (Inr (), m1)"
    "push_msg mem_ok m1 8 (Some (size_bytes n)) = (Inr (), m2)" "mtype m2 = mtype m"
    "db_inv (mdata m2)" "db_stack (mdata m2) = field d"
proof -
  have "db_inv (mdata m)" "db_stack (mdata m) = []" using assms(1) by (simp_all add: fresh_def)
  with push_content_ok [of m n d] assms(2,3) that show thesis by auto
qed

lemma do_read_file_replies:
  assumes e: "good_env e" and inv: "server_inv sv" and rq: "names e in_msg s" and out: "fresh out"
    and conn: "0 < conn"
  shows "\<exists>out' sv'. do_read_file e thread conn in_msg out ci sv = (0, out', sv') \<and> server_inv sv'
        \<and> (case request (keep a_read_op) conn s (sabs sv) of (r, m) \<Rightarrow>
             mtype out' = MESSAGE_RFILE_ACK OR std_flag r \<and> sabs sv' = m
           \<and> db_inv (mdata out')
           \<and> db_stack (mdata out') = (if r = Inr () then field (a_content (the (sabs sv s))) else []))"
  using e inv rq
proof (cases rule: named_request)
  case missing
  with inv out show ?thesis by (simp add: do_read_file_def Let_def request_def fresh_def)
next
  case (found buf m' i)
  have al: "e_alloc e = mem_ok" using e by (simp add: good_env_def)
  let ?f = "files sv ! i"
  show ?thesis
  proof (cases "a_read_op conn (fabs ?f)")
    case (Inl err)
    then have "read_file mem_ok ?f conn (None, 0) = (Inl err, ?f)"
      using fread.run_err [OF found(9,6)] conn by simp
    moreover have "err = EAGAIN \<or> err = EPERM"
      using Inl by (auto simp: a_op_defs split: if_splits)
    ultimately show ?thesis
      using Inl found inv al out
      by (auto simp: do_read_file_def Let_def request_def keep_def fresh_def)
  next
    case (Inr a)
    then have op: "is_open_file ?f" and who: "\<not> locked_out conn (fabs ?f)"
      by (auto simp: a_read_op_def split: if_splits)
    let ?d = "a_content (fabs ?f)" and ?n = "open_size ?f"
    have cap: "length ?d < 2 ^ 61" by (rule content_capacity [OF inv found(5)])
    have "server_inv (set_lastop ci [] sv)" using inv by simp
    then obtain x f' where r: "read_file mem_ok ?f conn (None, 0) = (Inr x, f')"
        "server_inv (set_file i f' (set_lastop ci [] sv))"
        "sabs (set_file i f' (set_lastop ci [] sv)) = (sabs sv)(s \<mapsto> a)"
      by (rule fread.server_slot [of _ i conn a "(None, 0)"]) (use found conn Inr keeps_content_ops in auto)
    have "0 \<le> conn" "buf_ok (None, 0)" using conn by (simp_all add: buf_ok_def)
    then obtain b where rb: "read_file mem_ok ?f conn (None, 0) = (Inr (b, ?n), touch ?f)"
      and b: "buf_ok b" "take (unat ?n) (block (fst b)) = ?d" "unat ?n = length ?d"
      using read_file_result [OF found(9) op _ who found(6)] by blast
    obtain bp bn where bb: "b = (bp, bn)" by (cases b)
    have x: "x = ((bp, bn), ?n)" using rb r(1) bb by simp
    let ?out = "or_flag (out\<lparr>mtype := MESSAGE_RFILE_ACK\<rparr>) MESSAGE_OP_SUCC"
    have "fresh ?out" using out by (simp add: fresh_def)
    then obtain m1 m2 where m:
        "(if ?n \<noteq> 0 then push_msg mem_ok ?out ?n (Some ?d) else (Inr (), ?out)) = (Inr (), m1)"
        "push_msg mem_ok m1 8 (Some (size_bytes ?n)) = (Inr (), m2)" "mtype m2 = mtype ?out"
        "db_inv (mdata m2)" "db_stack (mdata m2) = field ?d"
      using reply_content [OF _ b(3) cap] by blast
    have "(if ?n \<noteq> 0 then push_msg mem_ok ?out ?n bp else (Inr (), ?out)) = (Inr (), m1)"
      using m(1) push_msg_block [OF b(2), of mem_ok ?out] b(2,3) bb
      by (cases bp) (auto simp: unat_eq_0)
    with m(2-5) r x found al Inr show ?thesis
      unfolding do_read_file_def al by (simp add: Let_def request_def keep_def)
  qed
qed

subsection \<open>Creation\<close>

text \<open>A new file takes an empty slot and is charged nothing.\<close>

lemma empty_slot_size:
  "file_inv f \<Longrightarrow> owner f = OWNER_NEXIST \<Longrightarrow> fsize f = 0 \<and> \<not> is_open_file f \<and> data_size f = 0 \<and> new_size f = 0
     \<and> block (data f) = []"
  by (auto simp: file_inv_def fsize_def)

lemma create_file_struct_ok:
  assumes inv: "file_inv f" and emp: "owner f = OWNER_NEXIST" and own: "0 \<le> own"
    and nm: "cstr nm = s" "length s \<le> 256"
  obtains f' where "create_file_struct now f nm own = (Inr (), f')" "file_inv f'" "existing f'"
    "name f' = s" "fsize f' = 0" "fabs f' = \<lparr>a_owner = own, a_open = False, a_content = []\<rparr>"
    "fifo_creation_time f' = now"
proof -
  note Z = empty_slot_size [OF inv emp]
  let ?f = "f\<lparr>owner := own, fifo_creation_time := now, lru_clock := 1, lfu_frequency := 1, name := s\<rparr>"
  have "create_file_struct now f nm own = (Inr (), ?f)"
    using own emp nm by (simp add: create_file_struct_def FILE_NAME_MAX_SIZE_def)
  moreover have "0 \<notin> set s" using cstr_no_nul [of nm] nm by simp
  then have "file_inv ?f"
    using inv Z own nm by (simp add: file_inv_def is_open_file_def FILE_NAME_MAX_SIZE_def)
  ultimately show thesis
    using Z own by (intro that [of ?f]) (simp_all add: fabs_def is_open_file_def fsize_def)
qed

lemma server_inv_add:
  assumes inv: "server_inv sv" and i: "i < length (files sv)" "\<not> existing (files sv ! i)"
    and f: "file_inv f" "existing f" "fsize f = 0" "sabs sv (name f) = None"
    and sv': "files sv' = (files sv)[i := f]"
      "current_files (shared sv') = current_files (shared sv) + 1"
      "max_reached_files (shared sv') = max (max_reached_files (shared sv)) (current_files (shared sv) + 1)"
      "current_storage (shared sv') = current_storage (shared sv)"
      "ro_max_storage (shared sv') = ro_max_storage (shared sv)"
      "max_reached_storage (shared sv') = max_reached_storage (shared sv)"
      "lru_clock_pos (shared sv') = lru_clock_pos (shared sv)"
      "conns_inv (shared sv') = conns_inv (shared sv)"
  shows "server_inv sv'" and "sabs sv' = (sabs sv)(name f \<mapsto> fabs f)"
proof -
  have st: "store_inv (files sv)" by (rule server_inv_store [OF inv])
  then have un: "unique_names (files sv)" by (simp add: store_inv_def)
  have "fsize (files sv ! i) = 0"
    using empty_slot_size [OF store_inv_nth [OF st i(1)]] i(2) by simp
  then have u: "used (files sv') = used (files sv)"
    using used_slot [OF i(1), of f] f(3) sv'(1) by simp
  have l: "live (files sv') = Suc (live (files sv))"
    using live_slot [OF i(1), of f] i(2) f(2) sv'(1) by simp
  have "live (files sv') \<le> length (files sv)"
    using sv'(1) length_filter_le [of existing "files sv'"] by (simp add: live_def)
  moreover have "store_inv (files sv')"
    unfolding sv'(1) by (rule store_inv_slot [OF st f(1) unique_names_add [OF un f(4)]])
  ultimately show "server_inv sv'"
    using inv sv' u l by (simp add: server_inv_def counters_inv_def)
  show "sabs sv' = (sabs sv)(name f \<mapsto> fabs f)"
    unfolding sv'(1) by (rule store_abs_add [OF un i f(2,4)])
qed

definition no_slot :: "file_t list \<Rightarrow> bool" where
  "no_slot fs \<longleftrightarrow> (\<forall>f \<in> set fs. existing f)"

lemma do_open_file_creates:
  assumes e: "good_env e" and inv: "server_inv sv" and rq: "names e in_msg s"
    and fl: "HASFLAG (GETFLAGS (mtype in_msg)) MESSAGE_OPEN_OCREATE"
      "HASFLAG (GETFLAGS (mtype in_msg)) MESSAGE_OPEN_OLOCK = lk" and conn: "0 < conn"
  shows "\<exists>out' sv'. do_open_file e thread conn in_msg out ci sv = (0, out', sv') \<and> server_inv sv'
        \<and> (if sabs sv s \<noteq> None then mtype out' = MESSAGE_OFILE_ACK OR MESSAGE_FILE_EXISTS \<and> sabs sv' = sabs sv
           else if no_slot (files sv)
           then mtype out' = MESSAGE_OFILE_ACK OR MESSAGE_FILE_ERRMAXFILES \<and> sabs sv' = sabs sv
           else mtype out' = MESSAGE_OFILE_ACK OR MESSAGE_OP_SUCC
              \<and> sabs sv' = (sabs sv)(s \<mapsto> \<lparr>a_owner = (if lk then conn else OWNER_NULL), a_open = True, a_content = []\<rparr>)
              \<and> (ci < length (clients (shared sv)) \<longrightarrow> lastop_of ci sv' = (if lk then s else [])))"
  using e inv rq
proof (cases rule: named_request)
  case (found buf m' i)
  then show ?thesis
    using inv fl by (simp add: do_open_file_def open_file_create_def Let_def)
next
  case (missing buf m')
  let ?own = "if lk then conn else OWNER_NULL" and ?sv = "set_lastop ci [] sv"
  have own: "0 \<le> ?own" using conn by simp
  have al: "e_alloc e = mem_ok" using e by (simp add: good_env_def)
  have fl': "HASFLAG (GETFLAGS (mtype m')) MESSAGE_OPEN_OCREATE"
      "HASFLAG (GETFLAGS (mtype m')) MESSAGE_OPEN_OLOCK = lk"
    using fl missing(3) by simp_all
  have st: "store_inv (files sv)" by (rule server_inv_store [OF inv])
  show ?thesis
  proof (cases "get_empty_slot (files sv)")
    case (Inl err)
    with get_empty_slot_Inl [OF st Inl] have "err = EMFILE" "no_slot (files sv)"
      by (auto simp: no_slot_def in_set_conv_nth)
    with Inl missing fl' inv show ?thesis
      by (simp add: do_open_file_def open_file_create_def Let_def del: owner_consts)
  next
    case (Inr i)
    with get_empty_slot_Inr [OF st] have i: "i < length (files sv)" "\<not> existing (files sv ! i)" by blast+
    then have full: "\<not> no_slot (files sv)" by (auto simp: no_slot_def)
    have "length s \<le> 256" using length_names [OF e rq] .
    then obtain f where f: "create_file_struct (e_clock e (ticks sv)) (files sv ! i) buf ?own = (Inr (), f)"
        "file_inv f" "existing f" "name f = s" "fsize f = 0"
        "fabs f = \<lparr>a_owner = ?own, a_open = False, a_content = []\<rparr>"
      using create_file_struct_ok [OF store_inv_nth [OF st i(1)] _ own missing(2)] i(2)
      by (metis (no_types))
    let ?count = "\<lambda>ss. let n = current_files ss + 1 in ss\<lparr>current_files := n,
          max_reached_files := (if max_reached_files ss < n then n else max_reached_files ss)\<rparr>"
    let ?sv1 = "on_shared ?count ((set_file i f ?sv)\<lparr>ticks := Suc (ticks ?sv)\<rparr>)"
    have "server_inv ?sv1 \<and> sabs ?sv1 = (sabs sv)(s \<mapsto> fabs f)"
      using server_inv_add [of ?sv i f ?sv1] inv i f missing(5)
      by (simp add: Let_def max_def shared_set_lastop conns_inv_def conns_def)
    then have sv1: "server_inv ?sv1" "sabs ?sv1 = (sabs sv)(s \<mapsto> fabs f)" by blast+
    obtain x f' where f': "open_file mem_ok (files ?sv1 ! i) ?own = (Inr x, f')"
        "server_inv (set_file i f' ?sv1)"
        "sabs (set_file i f' ?sv1) = (sabs ?sv1)(s \<mapsto> \<lparr>a_owner = ?own, a_open = True, a_content = []\<rparr>)"
      by (rule fopen.server_slot [OF sv1(1), of i ?own "\<lparr>a_owner = ?own, a_open = True, a_content = []\<rparr>"])
        (use f i own keeps_content_ops in \<open>auto simp: a_open_op_def locked_out_def\<close>)
    show ?thesis
      using f f' sv1(2) missing Inr fl' al i inv conn
      by (cases lk) (simp_all add: do_open_file_def open_file_create_def Let_def full
          lastop_of_def shared_set_lastop)
  qed
qed

interpretation lock_request: named_handler do_lock_file MESSAGE_LFILE_ACK std_flag "keep a_lock_op" "\<lambda>_ _. True"
  by unfold_locales (simp add: do_lock_file_def, rule do_lock_file_handles)

interpretation unlock_request: named_handler do_unlock_file MESSAGE_ULFILE_ACK std_flag "keep a_unlock_op" "\<lambda>_ _. True"
  by unfold_locales (simp add: do_unlock_file_def, rule do_unlock_file_handles)

interpretation close_request: named_handler do_close_file MESSAGE_CFILE_ACK std_flag "keep a_close_op" "\<lambda>_ _. True"
  by unfold_locales (simp add: do_close_file_def, rule do_close_file_handles)

interpretation open_req: named_handler do_open_file MESSAGE_OFILE_ACK std_flag "open_op lk" "\<lambda>m _. open_request lk m"
  for lk
  by unfold_locales (simp add: do_open_file_def, rule do_open_file_handles)

interpretation remove_request: named_handler do_remove_file MESSAGE_RMFILE_ACK remove_flag remove_op "\<lambda>_ _. True"
  by unfold_locales (simp add: do_remove_file_def, rule do_remove_file_handles)

interpretation read_request: named_handler do_read_file MESSAGE_RFILE_ACK std_flag "keep a_read_op" "\<lambda>_ out. fresh out"
  by unfold_locales (simp add: do_read_file_def, use do_read_file_replies in \<open>fastforce simp: split_def\<close>)

end
