(* ===== verification/Worker_Conn.thy ===== *)
theory Worker_Conn
  imports Handler_Spec
begin

text \<open>
  The handlers of connections (\<open>source/worker/worker_connection.c\<close>). A connection is its file
  descriptor; what the socket delivers and accepts is given by the events of \<open>Net_Msg\<close>, what
  \<open>accept\<close> returns is a parameter. The theory shows that closing a connection leaves no file
  owned by it, and what each outcome of accepting one does to the client table.
\<close>

subsection \<open>The handlers\<close>

text \<open>The result of a handler of this file: the C result, the variable \<open>*conn\<close> (\<open>*newconn\<close>) it
  writes, the bytes it sent and the server. \<open>None\<close>: it waits for \<open>state_mux\<close>, which nobody will
  release. A closed descriptor is -1. As in \<open>worker_do\<close>, a new client that sends nothing and does
  not leave (the comment in the code asks for a timeout) is not expressed.\<close>

type_synonym conn_result = "(int \<times> int \<times> byte list \<times> server) option"

text \<open>When \<open>accept\<close> fails the code returns without unlocking \<open>state_mux\<close>.\<close>

definition do_acceptor ::
    "env \<Rightarrow> int \<Rightarrow> errno + int \<Rightarrow> rd_event list \<Rightarrow> wr_event list \<Rightarrow> int \<Rightarrow> server \<Rightarrow> conn_result" where
  "do_acceptor e thread accepted evs wevs newconn sv =
     (let log = (\<lambda>c s. do_log thread c none_str STRING_OPEN_CONN s 0 0) in
      if state_mux (shared sv) then None
      else if ro_max_conns (shared sv) \<le> current_conns (shared sv)
      then Some (0, newconn, [], log (-1) ''Max clients connected.'' sv)
      else
        (case accepted of
           Inl _ \<Rightarrow> Some (-1, -1, [], on_shared (\<lambda>ss. ss\<lparr>state_mux := True\<rparr>) sv)
         | Inr c \<Rightarrow>
             (case read_msg (e_alloc e) evs create_message of
                (Inl _, _, _) \<Rightarrow> Some (-1, c, [], sv)
              | (Inr _, in_msg, _) \<Rightarrow>
                  if is_client_message in_msg MESSAGE_OPEN_CONN then
                    (case add_client (shared sv) c of
                       (Inl _, ss) \<Rightarrow>
                         Some (0, -1, [], log (-1) ''Max clients connected. [2]'' (on_shared (\<lambda>_. ss) sv))
                     | (Inr _, ss) \<Rightarrow>
                         (let sv = on_shared (\<lambda>_. ss) sv;
                              out_msg = set_checksum (create_message\<lparr>mtype := MESSAGE_OCONN_ACK\<rparr>)
                          in case write_msg wevs out_msg of
                               (Inl _, sent, _) \<Rightarrow> Some (-1, c, sent, sv)
                             | (Inr _, sent, _) \<Rightarrow> Some (0, c, sent, log c ''Client connected.'' sv)))
                  else Some (0, -1, [], log (-1) ''Unknown client tried to connect.'' sv))))"

text \<open>The loop that closes the files of the connection: \<open>k\<close> slots are left, \<open>i\<close> is the loop
  counter. A failing \<open>close_file\<close> leaves \<open>diff\<close> at 0.\<close>

definition close_owned_slot :: "env \<Rightarrow> int \<Rightarrow> nat \<Rightarrow> server \<Rightarrow> server" where
  "close_owned_slot e conn i sv =
     (if is_locked_file (files sv ! i) conn = Inr True then
        (case close_file (e_alloc e) (files sv ! i) conn 0 of
           (Inl _, f) \<Rightarrow> sub_storage 0 (set_file i f sv)
         | (Inr diff, f) \<Rightarrow> sub_storage diff (set_file i f sv))
      else sv)"

fun close_owned :: "nat \<Rightarrow> env \<Rightarrow> int \<Rightarrow> nat \<Rightarrow> server \<Rightarrow> server" where
  "close_owned 0 e conn i sv = sv"
| "close_owned (Suc k) e conn i sv = close_owned k e conn (Suc i) (close_owned_slot e conn i sv)"

definition do_close_connection ::
    "env \<Rightarrow> int \<Rightarrow> wr_event list \<Rightarrow> int \<Rightarrow> net_msg \<Rightarrow> server \<Rightarrow> int \<times> int \<times> byte list \<times> server" where
  "do_close_connection e thread wevs conn out_msg sv =
     (let sv = close_owned (length (files sv)) e conn 0 sv;
          out_msg = set_checksum (out_msg\<lparr>mtype := MESSAGE_CCONN_ACK\<rparr>)
      in case write_msg wevs out_msg of
           (Inl _, sent, _) \<Rightarrow> (-1, conn, sent, sv)
         | (Inr _, sent, _) \<Rightarrow>
             (let sv = do_log thread conn none_str STRING_CLOSE_CONN ''Connection closed.'' 0 0 sv in
              case remove_client (shared sv) conn of
                (Inl _, ss) \<Rightarrow> (-1, conn, sent, on_shared (\<lambda>_. ss) sv)
              | (Inr _, ss) \<Rightarrow> (0, -1, sent, on_shared (\<lambda>_. ss) sv)))"

subsection \<open>Closing a connection closes its files\<close>

definition a_disconnect :: "int \<Rightarrow> afile \<Rightarrow> afile" where
  "a_disconnect who a =
     (if a_owner a = who \<and> a_open a then a\<lparr>a_owner := OWNER_NULL, a_open := False\<rparr> else a)"

text \<open>\<open>sv'\<close> differs from \<open>sv\<close> in the slots \<open>J\<close>, where the abstract file went through \<open>g\<close>.\<close>

definition slots_mapped :: "(afile \<Rightarrow> afile) \<Rightarrow> nat set \<Rightarrow> server \<Rightarrow> server \<Rightarrow> bool" where
  "slots_mapped g J sv sv' \<longleftrightarrow>
     server_inv sv' \<and> shared sv' = shared sv \<and> length (files sv') = length (files sv)
   \<and> (\<forall>j < length (files sv). name (files sv' ! j) = name (files sv ! j)
        \<and> existing (files sv' ! j) = existing (files sv ! j)
        \<and> (existing (files sv ! j) \<longrightarrow> fabs (files sv' ! j) = (if j \<in> J then g (fabs (files sv ! j)) else fabs (files sv ! j))))"

lemma slots_mapped_refl: "server_inv sv \<Longrightarrow> slots_mapped g {} sv sv"
  by (simp add: slots_mapped_def)

lemma slots_mapped_step:
  assumes inv: "server_inv sv" and i: "i < length (files sv)" "existing (files sv ! i)" "i \<notin> J"
    and f: "file_inv f" "existing f" "name f = name (files sv ! i)" "fabs f = g (fabs (files sv ! i))"
      "\<And>a. length (a_content (g a)) = length (a_content a)"
    and rest: "slots_mapped g J (set_file i f sv) sv'"
  shows "slots_mapped g (insert i J) sv sv'"
proof -
  have nth: "files (set_file i f sv) ! j = (if j = i then f else files sv ! j)" for j using i(1) by simp
  have "name (files sv' ! j) = name (files sv ! j) \<and> existing (files sv' ! j) = existing (files sv ! j)
      \<and> (existing (files sv ! j) \<longrightarrow>
           fabs (files sv' ! j) = (if j \<in> insert i J then g (fabs (files sv ! j)) else fabs (files sv ! j)))"
    if "j < length (files sv)" for j
    using rest that nth [of j] i f(2-4) by (cases "j = i") (simp_all add: slots_mapped_def del: owner_consts)
  with rest show ?thesis by (simp add: slots_mapped_def del: owner_consts)
qed

lemma slots_mapped_abs:
  assumes inv: "server_inv sv" and M: "slots_mapped g J sv sv'" and J: "J \<subseteq> {j. j < length (files sv) \<and> existing (files sv ! j)}"
  shows "sabs sv' s = map_option (\<lambda>a. if s \<in> (\<lambda>j. name (files sv ! j)) ` J then g a else a) (sabs sv s)"
proof (rule store_abs_slotwise)
  show "unique_names (files sv)" "unique_names (files sv')"
    using server_inv_store [OF inv] server_inv_store [of sv'] M by (simp_all add: store_inv_def slots_mapped_def)
qed (use M J in \<open>auto simp: slots_mapped_def simp del: owner_consts\<close>)

lemma close_owned_slot_ok:
  assumes e: "good_env e" and inv: "server_inv sv" and i: "i < length (files sv)" and conn: "0 < conn"
  shows "(owner (files sv ! i) \<noteq> conn \<and> close_owned_slot e conn i sv = sv)
       \<or> (owner (files sv ! i) = conn \<and> (\<exists>f. close_owned_slot e conn i sv = set_file i f sv \<and> file_inv f \<and> existing f
            \<and> name f = name (files sv ! i) \<and> fabs f = a_disconnect conn (fabs (files sv ! i))))"
proof (cases "owner (files sv ! i) = conn")
  case False
  with conn show ?thesis by (simp add: close_owned_slot_def is_locked_file_def)
next
  case True
  let ?f = "files sv ! i"
  have f: "file_inv ?f" "existing ?f"
    using store_inv_nth [OF server_inv_store [OF inv] i] True conn by simp_all
  have w: "0 \<le> conn" using conn by simp
  have "a_close_op conn (fabs ?f) = Inr (a_disconnect conn (fabs ?f))"
    using True by (simp add: a_close_op_def locked_out_def a_disconnect_def)
  then obtain d f' where c: "close_file mem_ok ?f conn 0 = (Inr d, f')" "file_inv f'" "existing f'" "name f' = name ?f"
      "fabs f' = a_disconnect conn (fabs ?f)"
    using fclose.run_ok [OF f w] by blast
  have "close_owned_slot e conn i sv = set_file i f' sv"
    using c(1) close_file_difference [OF f(1) c(1)] True conn e
    by (simp add: close_owned_slot_def is_locked_file_def good_env_def)
  with True c show ?thesis by blast
qed

lemma close_owned_ok:
  assumes e: "good_env e" and conn: "0 < conn"
  shows "server_inv sv \<Longrightarrow> k = length (files sv) - i \<Longrightarrow> i \<le> length (files sv) \<Longrightarrow>
    slots_mapped (a_disconnect conn) {j. i \<le> j \<and> j < length (files sv) \<and> owner (files sv ! j) = conn} sv
      (close_owned k e conn i sv)"
proof (induction k arbitrary: i sv)
  case 0
  then have "{j. i \<le> j \<and> j < length (files sv) \<and> owner (files sv ! j) = conn} = {}" by auto
  with slots_mapped_refl [OF 0(1)] show ?case by (simp only: close_owned.simps)
next
  case (Suc k)
  let ?J = "\<lambda>i sv. {j. i \<le> j \<and> j < length (files sv) \<and> owner (files sv ! j) = conn}"
  have i: "i < length (files sv)" and i': "Suc i \<le> length (files sv)" and k: "k = length (files sv) - Suc i"
    using Suc.prems(2,3) by simp_all
  have len: "length (a_content (a_disconnect conn a)) = length (a_content a)" for a by (simp add: a_disconnect_def)
  from close_owned_slot_ok [OF e Suc.prems(1) i conn] show ?case
  proof (elim disjE conjE exE)
    assume no: "owner (files sv ! i) \<noteq> conn" "close_owned_slot e conn i sv = sv"
    then have "?J i sv = ?J (Suc i) sv" by (auto simp: Suc_le_eq le_less)
    with Suc.IH [OF Suc.prems(1) k i'] no(2) show ?thesis by simp
  next
    fix f
    assume own: "owner (files sv ! i) = conn" and c: "close_owned_slot e conn i sv = set_file i f sv"
      and f: "file_inv f" "existing f" "name f = name (files sv ! i)" "fabs f = a_disconnect conn (fabs (files sv ! i))"
    have ex: "existing (files sv ! i)" using own conn by simp
    have inv: "server_inv (set_file i f sv)"
      by (rule server_inv_replace(1) [OF Suc.prems(1) i ex f(1-3)]) (simp add: f(4) len)
    have J: "?J (Suc i) (set_file i f sv) = ?J (Suc i) sv" "?J i sv = insert i (?J (Suc i) sv)"
      using i own by (auto simp: Suc_le_eq le_less)
    have "slots_mapped (a_disconnect conn) (?J (Suc i) sv) (set_file i f sv) (close_owned k e conn (Suc i) (set_file i f sv))"
      using Suc.IH [OF inv, of "Suc i"] k i' J(1) by simp
    from slots_mapped_step [OF Suc.prems(1) i ex _ f len this] show ?thesis unfolding J(2) using c by simp
  qed
qed

text \<open>In the map of names: what the connection owned is closed.\<close>

lemma close_owned_abs:
  assumes e: "good_env e" and inv: "server_inv sv" and conn: "0 < conn"
  shows "server_inv (close_owned (length (files sv)) e conn 0 sv)"
    and "shared (close_owned (length (files sv)) e conn 0 sv) = shared sv"
    and "sabs (close_owned (length (files sv)) e conn 0 sv) s = map_option (a_disconnect conn) (sabs sv s)"
proof -
  let ?sv = "close_owned (length (files sv)) e conn 0 sv"
  let ?J = "{j. j < length (files sv) \<and> owner (files sv ! j) = conn}"
  have M: "slots_mapped (a_disconnect conn) ?J sv ?sv"
    using close_owned_ok [OF e conn inv, of "length (files sv)" 0] by simp
  then show "server_inv ?sv" "shared ?sv = shared sv" by (simp_all add: slots_mapped_def)
  have un: "unique_names (files sv)" using server_inv_store [OF inv] by (simp add: store_inv_def)
  have "sabs ?sv s = map_option (\<lambda>a. if s \<in> (\<lambda>j. name (files sv ! j)) ` ?J then a_disconnect conn a else a) (sabs sv s)"
    using conn by (intro slots_mapped_abs [OF inv M]) auto
  also have "\<dots> = map_option (a_disconnect conn) (sabs sv s)"
  proof (cases "sabs sv s")
    case (Some a)
    then obtain i where i: "i < length (files sv)" "existing (files sv ! i)" "name (files sv ! i) = s" "fabs (files sv ! i) = a"
      by (rule store_abs_SomeE [OF un])
    have "a_disconnect conn a = a" if "s \<notin> (\<lambda>j. name (files sv ! j)) ` ?J"
    proof -
      have "owner (files sv ! i) \<noteq> conn" using that i by blast
      then show ?thesis using i(4) by (auto simp: a_disconnect_def)
    qed
    with Some show ?thesis by simp
  qed simp
  finally show "sabs ?sv s = map_option (a_disconnect conn) (sabs sv s)" .
qed

subsection \<open>What the handlers do to the table\<close>

text \<open>Both operations on the table touch nothing else.\<close>

lemma add_client_frame:
  "add_client ss c = (r, ss') \<Longrightarrow> \<exists>cs n k. ss' = ss\<lparr>clients := cs, current_conns := n, max_reached_conns := k\<rparr>"
  by (auto simp: add_client_def Let_def split: if_splits option.splits) (metis shared_state.surjective shared_state.update_convs(7,10,13))+

lemma remove_client_frame:
  "remove_client ss c = (r, ss') \<Longrightarrow> \<exists>cs n k. ss' = ss\<lparr>clients := cs, current_conns := n, max_reached_conns := k\<rparr>"
  by (auto simp: remove_client_def split: if_splits option.splits) (metis shared_state.surjective shared_state.update_convs(7,10,13))+

lemma table_update:
  assumes "server_inv sv" and "ss' = (shared sv)\<lparr>clients := cs, current_conns := n, max_reached_conns := k\<rparr>"
    and "conns_inv ss'"
  shows "server_inv (on_shared (\<lambda>_. ss') sv)" and "ro_acceptor_fd ss' = ro_acceptor_fd (shared sv)"
    and "state_mux ss' = state_mux (shared sv)" and "ro_max_conns ss' = ro_max_conns (shared sv)"
  using assms by (simp_all add: server_inv_def counters_inv_def)

text \<open>Whether a closing connection is taken off the table depends only on the answer getting
  through.\<close>

lemma do_close_connection_spec:
  assumes e: "good_env e" and inv: "server_inv sv" and conn: "0 < conn" "conn \<in> conns (shared sv)"
    and run: "do_close_connection e thread wevs conn out sv = (r, c, sent, sv')"
  shows "server_inv sv' \<and> (\<forall>s. sabs sv' s = map_option (a_disconnect conn) (sabs sv s))
    \<and> ro_acceptor_fd (shared sv') = ro_acceptor_fd (shared sv) \<and> state_mux (shared sv') = state_mux (shared sv)
    \<and> ro_max_conns (shared sv') = ro_max_conns (shared sv)
    \<and> ((r = 0 \<and> c = -1 \<and> conns (shared sv') = conns (shared sv) - {conn})
      \<or> (r = -1 \<and> c = conn \<and> conns (shared sv') = conns (shared sv)
          \<and> (\<exists>err rest. write_msg wevs (set_checksum (out\<lparr>mtype := MESSAGE_CCONN_ACK\<rparr>)) = (Inl err, sent, rest))))"
proof -
  let ?sv = "close_owned (length (files sv)) e conn 0 sv"
  let ?out = "set_checksum (out\<lparr>mtype := MESSAGE_CCONN_ACK\<rparr>)"
  note A = close_owned_abs [OF e inv conn(1)]
  obtain w sent' rest where w: "write_msg wevs ?out = (w, sent', rest)"
    by (cases "write_msg wevs ?out")
  have ci: "conns_inv (shared sv)" using inv by (simp add: server_inv_def)
  obtain ss where ss: "remove_client (shared sv) conn = (Inr (), ss)" "conns_inv ss" "conns ss = conns (shared sv) - {conn}"
    using remove_client_ok [OF ci _ conn(2)] conn(1) by auto
  obtain cs n k where upd: "ss = (shared ?sv)\<lparr>clients := cs, current_conns := n, max_reached_conns := k\<rparr>"
    using remove_client_frame [OF ss(1)] A(2) by auto
  note T = table_update [OF A(1) upd ss(2)]
  show ?thesis
  proof (cases w)
    case (Inl err)
    with w run have R: "r = -1 \<and> c = conn \<and> sent' = sent \<and> sv' = ?sv"
      by (auto simp: do_close_connection_def Let_def)
    have "\<exists>err rest. write_msg wevs ?out = (Inl err, sent, rest)" using w Inl R by blast
    with R A show ?thesis by (simp only:) simp
  next
    case (Inr u)
    let ?sv1 = "do_log thread conn none_str STRING_CLOSE_CONN ''Connection closed.'' 0 0 ?sv"
    have "r = 0" "c = -1" "sv' = on_shared (\<lambda>_. ss) ?sv1"
      using Inr w run ss(1) A(2) by (simp_all add: do_close_connection_def Let_def)
    moreover have "server_inv (on_shared (\<lambda>_. ss) ?sv1)"
      using T(1) by (simp add: server_inv_def)
    ultimately show ?thesis using A ss(3) T(2-4) by simp
  qed
qed

text \<open>Accepting a connection never touches the files; the table gains the new connection only when
  the peer introduced itself and there was room.\<close>

lemma do_acceptor_spec:
  assumes inv: "server_inv sv" and acc: "\<And>c. accepted = Inr c \<Longrightarrow> 0 \<le> c \<and> c \<notin> conns (shared sv)"
    and run: "do_acceptor e thread accepted evs wevs newconn sv = Some (r, c', sent, sv')"
  shows "server_inv sv' \<and> files sv' = files sv \<and> ro_acceptor_fd (shared sv') = ro_acceptor_fd (shared sv)
    \<and> ro_max_conns (shared sv') = ro_max_conns (shared sv) \<and> (r = 0 \<longrightarrow> state_mux (shared sv') = state_mux (shared sv))
    \<and> ((conns (shared sv') = conns (shared sv) \<and> (r = 0 \<longrightarrow> c' = newconn \<or> c' = -1))
       \<or> (accepted = Inr c' \<and> conns (shared sv') = insert c' (conns (shared sv))
           \<and> (\<exists>m rest. read_msg (e_alloc e) evs create_message = (Inr (), m, rest) \<and> is_client_message m MESSAGE_OPEN_CONN)))"
proof -
  have ci: "conns_inv (shared sv)" using inv by (simp add: server_inv_def)
  have mux: "server_inv (on_shared (\<lambda>ss. ss\<lparr>state_mux := True\<rparr>) sv)"
    using inv by (simp add: server_inv_def counters_inv_def conns_inv_def conns_def)
  consider (quiet) "files sv' = files sv" "shared sv' = shared sv" "r = 0 \<longrightarrow> c' = newconn \<or> c' = -1"
    | (stuck) "sv' = on_shared (\<lambda>ss. ss\<lparr>state_mux := True\<rparr>) sv" "r = -1"
    | (asked) c m rest ar ss where "accepted = Inr c" "read_msg (e_alloc e) evs create_message = (Inr (), m, rest)"
        "is_client_message m MESSAGE_OPEN_CONN" "add_client (shared sv) c = (ar, ss)" "files sv' = files sv" "shared sv' = ss"
        "ar = Inr () \<longrightarrow> c' = c" "ar \<noteq> Inr () \<longrightarrow> c' = -1"
    using run by (fastforce simp: do_acceptor_def Let_def split: if_splits sum.splits prod.splits)
  then show ?thesis
  proof cases
    case quiet
    then show ?thesis using inv by (simp add: server_inv_def)
  next
    case stuck
    then show ?thesis using mux by (simp add: conns_def)
  next
    case asked
    have c: "0 \<le> c" "c \<notin> conns (shared sv)" using acc [OF asked(1)] by blast+
    show ?thesis
    proof (cases "card (conns (shared sv)) < nat (ro_max_conns (shared sv))")
      case True
      then obtain s' where s': "add_client (shared sv) c = (Inr (), s')" "conns_inv s'" "conns s' = insert c (conns (shared sv))"
        using add_client_ok [OF ci c] by blast
      obtain cs n k where upd: "ss = (shared sv)\<lparr>clients := cs, current_conns := n, max_reached_conns := k\<rparr>"
        using add_client_frame [OF asked(4)] by blast
      have "conns_inv ss" using s' asked(4) by simp
      from table_update [OF inv upd this] asked s' show ?thesis by (simp add: server_inv_def)
    next
      case False
      then have "ss = shared sv" "c' = -1" using add_client_full [OF ci c(1)] asked(4,8) by auto
      then show ?thesis using asked(5,6) inv by (simp add: server_inv_def)
    qed
  qed
qed

end
