(* ===== verification/Cache_Miss.thy ===== *)
theory Cache_Miss
  imports Worker_Generics
begin

text \<open>
  The eviction of a file when the storage is full (\<open>source/worker/worker_cache_miss.c\<close>):
  the common test of a candidate, the three replacement policies, the removal of the victim
  and the message that sends it back to the client. What they promise is in \<open>Eviction\<close>.
\<close>

subsection \<open>Candidates\<close>

text \<open>\<open>Inr True\<close> is the return value 1: the slot is skipped.\<close>

definition loop_check :: "byte list \<Rightarrow> file_t \<Rightarrow> errno + bool" where
  "loop_check nodel_file f =
     (let size_check = (case get_size f of
            Inl e \<Rightarrow> if e = ENOENT then Inr True else Inl e
          | Inr datasize \<Rightarrow> Inr (\<not> 0 < datasize));
          name_check = (case check_file_name f nodel_file of
            Inr True \<Rightarrow> Inr True
          | Inr False \<Rightarrow> size_check
          | Inl e \<Rightarrow> if e \<noteq> ENOENT then Inl e else size_check)
      in case is_locked_file f OWNER_ADMIN of
           Inr True \<Rightarrow> Inr True
         | Inr False \<Rightarrow> name_check
         | Inl e \<Rightarrow> if e \<noteq> ENOENT then Inl e else name_check)"

subsection \<open>Removing the victim\<close>

text \<open>The caller's \<open>buf\<close>, \<open>buf_size\<close>, \<open>name\<close> and \<open>name_size\<close>; both sizes also receive the
  number of bytes read, since the callers pass the same pointer twice.\<close>

type_synonym outbuf = "byte list option \<times> size_t"

definition delete_evicted ::
    "env \<Rightarrow> int \<Rightarrow> nat \<Rightarrow> server \<Rightarrow> outbuf \<Rightarrow> outbuf \<Rightarrow> (errno + outbuf \<times> outbuf) \<times> server" where
  "delete_evicted e thread i sv buf nm =
     (case force_open_file (e_alloc e) (files sv ! i) of
        (Inr _, f) \<Rightarrow>
          (let sv = set_file i f sv in
           case force_read_file (e_alloc e) (files sv ! i) buf of
             (Inl err, f) \<Rightarrow> (Inl err, set_file i f sv)
           | (Inr ((b, _), read_size), f) \<Rightarrow>
               (let sv = set_file i f sv in
                case get_file_name (e_alloc e) (files sv ! i) nm of
                  Inl err \<Rightarrow> (Inl err, sv)
                | Inr ((n, _), name_len) \<Rightarrow>
                    (case force_remove_file (files sv ! i) of
                       (Inl err, f) \<Rightarrow> (Inl err, set_file i f sv)
                     | (Inr storage, f) \<Rightarrow>
                         (let sv = do_log thread 0 (block n) STRING_CACHE_MISS ''Success.'' 0 0 (set_file i f sv);
                              sv = on_shared (\<lambda>ss. ss\<lparr>current_storage := current_storage ss - storage,
                                                     current_files := current_files ss - 1\<rparr>) sv
                          in (Inr ((b, read_size), (n, name_len)), sv)))))
      | (Inl err, f) \<Rightarrow>
          (let sv = set_file i f sv in
           if err \<noteq> ENOENT \<and> err \<noteq> EAGAIN then (Inl err, sv) else (Inr (buf, nm), sv)))"

subsection \<open>First in, first out\<close>

text \<open>The loop variables \<open>curr_older\<close>, \<open>curr_older_time\<close> and \<open>selected\<close>.\<close>

definition FIFO_loop_do :: "nat \<Rightarrow> byte list \<Rightarrow> file_t \<Rightarrow> nat \<times> int \<times> bool \<Rightarrow> errno + nat \<times> int \<times> bool" where
  "FIFO_loop_do i nodel_file f cur =
     (case loop_check nodel_file f of
        Inl e \<Rightarrow> Inl e
      | Inr True \<Rightarrow> Inr cur
      | Inr False \<Rightarrow>
          (case get_usage_data f of
             Inl e \<Rightarrow> if e \<noteq> ENOENT then Inl e else Inr cur
           | Inr (tm, _, _) \<Rightarrow> Inr (if tm < fst (snd cur) then (i, tm, True) else cur)))"

fun FIFO_loop :: "nat \<Rightarrow> byte list \<Rightarrow> file_t list \<Rightarrow> nat \<times> int \<times> bool \<Rightarrow> errno + nat \<times> int \<times> bool" where
  "FIFO_loop i nodel_file [] cur = Inr cur"
| "FIFO_loop i nodel_file (f # fs) cur =
     (case FIFO_loop_do i nodel_file f cur of
        Inl e \<Rightarrow> Inl e
      | Inr cur \<Rightarrow> FIFO_loop (Suc i) nodel_file fs cur)"

definition evict_FIFO ::
    "env \<Rightarrow> int \<Rightarrow> byte list \<Rightarrow> server \<Rightarrow> outbuf \<Rightarrow> outbuf \<Rightarrow> (errno + outbuf \<times> outbuf) \<times> server" where
  "evict_FIFO e thread nodel_file sv buf nm =
     (let now = e_clock e (ticks sv); sv = sv\<lparr>ticks := Suc (ticks sv)\<rparr> in
      case FIFO_loop 0 nodel_file (files sv) (0, now, False) of
        Inl err \<Rightarrow> (Inl err, sv)
      | Inr (curr_older, _, selected) \<Rightarrow>
          if selected then delete_evicted e thread curr_older sv buf nm else (Inr (buf, nm), sv))"

subsection \<open>Least recently used (second chance)\<close>

text \<open>\<open>Inr True\<close> is the return value 1: the clock stops here.\<close>

definition LRU_loop_do :: "byte list \<Rightarrow> file_t \<Rightarrow> (errno + bool) \<times> file_t" where
  "LRU_loop_do nodel_file f =
     (case loop_check nodel_file f of
        Inl e \<Rightarrow> (Inl e, f)
      | Inr True \<Rightarrow> (Inr False, f)
      | Inr False \<Rightarrow>
          (case get_usage_data f of
             Inl e \<Rightarrow> if e \<noteq> ENOENT then (Inl e, f) else (Inr False, f)
           | Inr (_, _, clk) \<Rightarrow>
               if clk = 1 then (Inr False, snd (update_lru f 0)) else (Inr True, f)))"

text \<open>At most \<open>n\<close> more slots are looked at; the result is the slot to expel.\<close>

fun LRU_loop :: "nat \<Rightarrow> byte list \<Rightarrow> nat \<Rightarrow> server \<Rightarrow> (errno + nat option) \<times> server" where
  "LRU_loop 0 nodel_file pos sv = (Inr None, sv)"
| "LRU_loop (Suc n) nodel_file pos sv =
     (case LRU_loop_do nodel_file (files sv ! pos) of
        (Inl e, f) \<Rightarrow> (Inl e, set_file pos f sv)
      | (Inr True, f) \<Rightarrow> (Inr (Some pos), set_file pos f sv)
      | (Inr False, f) \<Rightarrow> LRU_loop n nodel_file (Suc pos mod length (files sv)) (set_file pos f sv))"

definition evict_LRU ::
    "env \<Rightarrow> int \<Rightarrow> byte list \<Rightarrow> server \<Rightarrow> outbuf \<Rightarrow> outbuf \<Rightarrow> (errno + outbuf \<times> outbuf) \<times> server" where
  "evict_LRU e thread nodel_file sv buf nm =
     (case LRU_loop (length (files sv)) nodel_file (lru_clock_pos (shared sv)) sv of
        (Inl err, sv) \<Rightarrow> (Inl err, sv)
      | (Inr None, sv) \<Rightarrow> (Inr (buf, nm), sv)
      | (Inr (Some expel), sv) \<Rightarrow>
          (case delete_evicted e thread expel sv buf nm of
             (Inl err, sv) \<Rightarrow> (Inl err, sv)
           | (Inr out, sv) \<Rightarrow>
               (Inr out, on_shared (\<lambda>ss. ss\<lparr>lru_clock_pos := Suc expel mod length (files sv)\<rparr>) sv)))"

subsection \<open>Least frequently used\<close>

definition INT_MAX :: int where "INT_MAX = 2147483647"

definition LFU_loop_do :: "nat \<Rightarrow> byte list \<Rightarrow> file_t \<Rightarrow> nat \<times> int \<times> bool \<Rightarrow> errno + nat \<times> int \<times> bool" where
  "LFU_loop_do i nodel_file f cur =
     (case loop_check nodel_file f of
        Inl e \<Rightarrow> Inl e
      | Inr True \<Rightarrow> Inr cur
      | Inr False \<Rightarrow>
          (case get_usage_data f of
             Inl e \<Rightarrow> if e \<noteq> ENOENT then Inl e else Inr cur
           | Inr (_, freq, _) \<Rightarrow> Inr (if sint freq < fst (snd cur) then (i, sint freq, True) else cur)))"

fun LFU_loop :: "nat \<Rightarrow> byte list \<Rightarrow> file_t list \<Rightarrow> nat \<times> int \<times> bool \<Rightarrow> errno + nat \<times> int \<times> bool" where
  "LFU_loop i nodel_file [] cur = Inr cur"
| "LFU_loop i nodel_file (f # fs) cur =
     (case LFU_loop_do i nodel_file f cur of
        Inl e \<Rightarrow> Inl e
      | Inr cur \<Rightarrow> LFU_loop (Suc i) nodel_file fs cur)"

definition evict_LFU ::
    "env \<Rightarrow> int \<Rightarrow> byte list \<Rightarrow> server \<Rightarrow> outbuf \<Rightarrow> outbuf \<Rightarrow> (errno + outbuf \<times> outbuf) \<times> server" where
  "evict_LFU e thread nodel_file sv buf nm =
     (case LFU_loop 0 nodel_file (files sv) (0, INT_MAX, False) of
        Inl err \<Rightarrow> (Inl err, sv)
      | Inr (curr_least_used, _, selected) \<Rightarrow>
          if selected then delete_evicted e thread curr_least_used sv buf nm else (Inr (buf, nm), sv))"

subsection \<open>Cache miss\<close>

definition ALGO_FIFO :: int where "ALGO_FIFO = 0"
definition ALGO_LRU :: int where "ALGO_LRU = 1"
definition ALGO_LFU :: int where "ALGO_LFU = 2"

definition evict ::
    "env \<Rightarrow> int \<Rightarrow> byte list \<Rightarrow> server \<Rightarrow> outbuf \<Rightarrow> outbuf \<Rightarrow> (errno + outbuf \<times> outbuf) \<times> server" where
  "evict e thread nodel_file sv =
     (let algo = ro_cache_miss_algorithm (shared sv) in
      if algo = ALGO_LFU then evict_LFU e thread nodel_file sv
      else if algo = ALGO_LRU then evict_LRU e thread nodel_file sv
      else evict_FIFO e thread nodel_file sv)"

definition push_victim :: "allocator \<Rightarrow> outbuf \<Rightarrow> outbuf \<Rightarrow> net_msg \<Rightarrow> (errno + unit) \<times> net_msg" where
  "push_victim alloc buf nm out =
     (case push_msg alloc out (snd buf) (fst buf) of
        (Inl e, out) \<Rightarrow> (Inl e, out)
      | (Inr _, out) \<Rightarrow>
          (case push_msg alloc out 8 (Some (size_bytes (snd buf))) of
             (Inl e, out) \<Rightarrow> (Inl e, out)
           | (Inr _, out) \<Rightarrow>
               (case push_msg alloc out (snd nm) (fst nm) of
                  (Inl e, out) \<Rightarrow> (Inl e, out)
                | (Inr _, out) \<Rightarrow> push_msg alloc out 8 (Some (size_bytes (snd nm))))))"

definition cache_miss ::
    "env \<Rightarrow> int \<Rightarrow> byte list \<Rightarrow> server \<Rightarrow> net_msg \<Rightarrow> (errno + unit) \<times> net_msg \<times> server" where
  "cache_miss e thread nodel_file sv out =
     (case evict e thread nodel_file sv (None, 0) (None, 0) of
        (Inl err, sv) \<Rightarrow> (Inl err, out, sv)
      | (Inr (buf, nm), sv) \<Rightarrow>
          if fst nm \<noteq> None \<and> fst buf \<noteq> None
          then (case push_victim (e_alloc e) buf
                       (map_option convert_slashes_to_underscores (fst nm), snd nm) out of
                  (Inl err, out) \<Rightarrow> (Inl err, out, sv)
                | (Inr _, out) \<Rightarrow>
                    (Inr (), out, on_shared (\<lambda>ss. ss\<lparr>cache_miss_execs := cache_miss_execs ss + 1\<rparr>) sv))
          else (Inl ECANCELED, out, do_log thread 0 none_str STRING_CACHE_MISS ''Skipped.'' 0 0 sv))"

end
