(* ===== verification/Eviction.thy ===== *)
theory Eviction
  imports Cache_Miss Handler_Spec
begin

text \<open>
  What an eviction does. The locale \<open>eviction_policy\<close> is the contract of a replacement policy:
  which slots it may choose, and that the chosen file, and only it, leaves the store and
  reaches the caller's buffers. It is interpreted for FIFO (\<open>fifo\<close>), second chance
  (\<open>lru\<close>), least frequently used (\<open>lfu\<close>) and for the configured one (\<open>configured\<close>), and
  \<open>cache_miss_spec\<close> follows for all of them.
\<close>

subsection \<open>What is a candidate\<close>

text \<open>A stored file with contents, that no eviction holds and that is not the protected one.\<close>

definition candidate :: "byte list \<Rightarrow> file_t \<Rightarrow> bool" where
  "candidate nodel_file f \<longleftrightarrow>
     existing f \<and> owner f \<noteq> OWNER_ADMIN \<and> name f \<noteq> cstr nodel_file \<and> fsize f \<noteq> 0"

lemma loop_check_spec: "loop_check nodel_file f = Inr (\<not> candidate nodel_file f)"
  by (cases "owner f = OWNER_ADMIN"; cases "name f = cstr nodel_file")
    (simp_all add: loop_check_def candidate_def is_locked_file_def check_file_name_def get_size_def
      fsize_def Let_def word_neq_0_conv)

lemma candidate_content:
  assumes "file_inv f" and "candidate nodel_file f"
  shows "0 < length (a_content (fabs f))"
proof -
  have "0 < unat (fsize f)" using assms(2) by (simp add: candidate_def unat_gt_0)
  with unat_fsize [OF assms(1)] show ?thesis by simp
qed

lemma candidate_usage: "candidate nodel_file f \<Longrightarrow>
    get_usage_data f = Inr (fifo_creation_time f, lfu_frequency f, lru_clock f)"
  by (simp add: candidate_def get_usage_data_def)

lemma FIFO_loop_do_spec:
  "FIFO_loop_do i nodel_file f cur =
     Inr (if candidate nodel_file f \<and> fifo_creation_time f < fst (snd cur)
          then (i, fifo_creation_time f, True) else cur)"
  by (cases "candidate nodel_file f") (simp_all add: FIFO_loop_do_def loop_check_spec candidate_usage)

lemma LFU_loop_do_spec:
  "LFU_loop_do i nodel_file f cur =
     Inr (if candidate nodel_file f \<and> sint (lfu_frequency f) < fst (snd cur)
          then (i, sint (lfu_frequency f), True) else cur)"
  by (cases "candidate nodel_file f") (simp_all add: LFU_loop_do_def loop_check_spec candidate_usage)

lemma LRU_loop_do_spec:
  "LRU_loop_do nodel_file f =
     (if candidate nodel_file f
      then if lru_clock f = 1 then (Inr False, f\<lparr>lru_clock := 0\<rparr>) else (Inr True, f)
      else (Inr False, f))"
  by (cases "candidate nodel_file f")
    (simp_all add: LRU_loop_do_def loop_check_spec candidate_usage update_lru_def, simp add: candidate_def)

subsection \<open>The victim leaves the store\<close>

lemma delete_evicted_ok:
  assumes e: "good_env e" and inv: "server_inv sv" and i: "i < length (files sv)"
    and c: "candidate nodel_file (files sv ! i)"
  obtains sv' where
    "delete_evicted e thread i sv (None, 0) (None, 0) =
       (Inr ((Some (a_content (fabs (files sv ! i))), fsize (files sv ! i)),
             (Some (name (files sv ! i) @ [0]), wlen (name (files sv ! i) @ [0]))), sv')"
    "files sv' = (files sv)[i := init_file_struct]" "ticks sv' = ticks sv"
    "shared sv' = (shared sv)\<lparr>current_storage := current_storage (shared sv) - fsize (files sv ! i),
                             current_files := current_files (shared sv) - 1\<rparr>"
proof -
  let ?f = "files sv ! i" and ?d = "a_content (fabs (files sv ! i))" and ?nm = "name (files sv ! i) @ [0]"
  have al: "e_alloc e = mem_ok" using e by (simp add: good_env_def)
  have f: "file_inv ?f" by (rule store_inv_nth [OF server_inv_store [OF inv] i])
  have c': "existing ?f" "owner ?f \<noteq> OWNER_ADMIN" "fsize ?f \<noteq> 0" using c by (simp_all add: candidate_def)
  let ?g = "?f\<lparr>owner := OWNER_ADMIN\<rparr>"
  have g: "file_inv ?g" "fabs ?g = (fabs ?f)\<lparr>a_owner := OWNER_ADMIN\<rparr>"
    using file_inv_owner [OF f c'(1), of OWNER_ADMIN] by simp_all
  obtain x f1 where f1: "open_file mem_ok ?g OWNER_ADMIN = (Inr x, f1)" "file_inv f1"
      "fabs f1 = \<lparr>a_owner = OWNER_ADMIN, a_open = True, a_content = ?d\<rparr>" "name f1 = name ?f" "existing f1"
    by (rule fopen.run_ok [OF g(1), of OWNER_ADMIN "\<lparr>a_owner = OWNER_ADMIN, a_open = True, a_content = ?d\<rparr>"])
      (use g in \<open>auto simp: a_open_op_def locked_out_def\<close>)
  have fo: "force_open_file mem_ok ?f = (Inr x, f1)"
    using f1(1) c' by (simp add: force_open_file_def)
  have op: "is_open_file f1" "owner f1 = OWNER_ADMIN"
    using arg_cong [OF f1(3), of a_open] arg_cong [OF f1(3), of a_owner] by simp_all
  have "unat (fsize f1) = unat (fsize ?f)"
    using unat_fsize [OF f] unat_fsize [OF f1(2)] f1(3) by simp
  then have "fsize f1 = fsize ?f" by (rule unsigned_word_eqI)
  then have sz: "fsize f1 = fsize ?f" "open_size f1 = fsize ?f"
    using open_fileD [OF f1(2) op(1)] by simp_all
  obtain b where b: "read_file mem_ok f1 OWNER_ADMIN (None, 0) = (Inr (b, fsize ?f), touch f1)"
      "fst b = Some ?d"
    using read_file_fresh [OF f1(2) op(1), of OWNER_ADMIN] f1(3) op sz c'(3) by (auto simp: locked_out_def)
  have "length (name ?f) \<le> 256" using f by (simp add: file_inv_def FILE_NAME_MAX_SIZE_def)
  then have nm: "unat (wlen ?nm) = length ?nm" "wlen ?nm \<noteq> 0"
    by (simp_all add: unat_wlen wlen_nonzero)
  then have gn: "get_file_name mem_ok (touch f1) (None, 0) = Inr ((Some ?nm, wlen ?nm), wlen ?nm)"
    using f1(4,5) by (simp add: get_file_name_def Let_def mem_ok word_neq_0_conv)
  have rm: "force_remove_file (touch f1) = (Inr (fsize ?f), init_file_struct)"
    using remove_file_spec [of "touch f1" OWNER_ADMIN] op sz f1(3)
    by (simp add: force_remove_file_def a_remove_op_def fsize_def)
  obtain bp bn where "b = (bp, bn)" by (cases b)
  with that fo b gn rm al i show thesis
    by (simp add: delete_evicted_def force_read_file_def Let_def)
qed

subsection \<open>Files up to their clock bits\<close>

definition unclock :: "file_t \<Rightarrow> file_t" where
  "unclock f = f\<lparr>lru_clock := 0\<rparr>"

definition same_files :: "file_t list \<Rightarrow> file_t list \<Rightarrow> bool" where
  "same_files fs fs' \<longleftrightarrow> map unclock fs = map unclock fs'"

lemma unclock_simps [simp]:
  "owner (unclock f) = owner f" "name (unclock f) = name f" "fabs (unclock f) = fabs f"
  "fsize (unclock f) = fsize f" "file_inv (unclock f) = file_inv f" "unclock (unclock f) = unclock f"
  "lfu_frequency (unclock f) = lfu_frequency f" "fifo_creation_time (unclock f) = fifo_creation_time f"
  "candidate nd (unclock f) = candidate nd f" "unclock (f\<lparr>lru_clock := c\<rparr>) = unclock f"
  by (simp_all add: unclock_def fabs_def is_open_file_def fsize_def file_inv_def candidate_def)

lemma find_map_unclock: "(\<And>f. P (unclock f) = P f) \<Longrightarrow> find P (map unclock fs) = map_option unclock (find P fs)"
  by (induction fs) auto

lemma unclock_map [simp]:
  "store_inv (map unclock fs) = store_inv fs" "store_abs (map unclock fs) = store_abs fs"
  "used (map unclock fs) = used fs" "live (map unclock fs) = live fs"
proof -
  show "store_inv (map unclock fs) = store_inv fs"
    by (simp add: store_inv_def unique_names_def del: owner_consts)
  show "store_abs (map unclock fs) = store_abs fs"
    by (simp add: fun_eq_iff store_abs_def find_map_unclock option.map_comp comp_def del: owner_consts)
  show "used (map unclock fs) = used fs" by (simp add: used_def comp_def)
  show "live (map unclock fs) = live fs" by (simp add: live_def filter_map comp_def del: owner_consts)
qed

lemma same_files_eq:
  assumes "same_files fs fs'"
  shows "store_inv fs = store_inv fs'" "store_abs fs = store_abs fs'" "used fs = used fs'"
    "live fs = live fs'" "length fs = length fs'"
proof -
  have m: "map unclock fs = map unclock fs'" using assms by (simp add: same_files_def)
  from arg_cong [OF m, of store_inv] show "store_inv fs = store_inv fs'" by simp
  from arg_cong [OF m, of store_abs] show "store_abs fs = store_abs fs'" by simp
  from arg_cong [OF m, of used] show "used fs = used fs'" by simp
  from arg_cong [OF m, of live] show "live fs = live fs'" by simp
  from arg_cong [OF m, of length] show "length fs = length fs'" by simp
qed

lemma same_files_refl [simp]: "same_files fs fs"
  by (simp add: same_files_def)

lemma same_files_sym: "same_files fs fs' \<Longrightarrow> same_files fs' fs"
  by (simp add: same_files_def)

lemma same_files_trans: "same_files fs fs' \<Longrightarrow> same_files fs' fs'' \<Longrightarrow> same_files fs fs''"
  by (simp add: same_files_def)

lemma same_files_update: "same_files fs fs' \<Longrightarrow> same_files (fs[i := f]) (fs'[i := f])"
  by (simp add: same_files_def map_update)

lemma same_files_clear: "same_files (fs[i := (fs ! i)\<lparr>lru_clock := c\<rparr>]) fs"
proof -
  have "map unclock (fs[i := (fs ! i)\<lparr>lru_clock := c\<rparr>]) = map unclock fs"
    by (cases "i < length fs") (simp_all add: map_update list_update_same_conv list_update_beyond)
  then show ?thesis by (simp add: same_files_def)
qed

lemma same_files_nth: "same_files fs fs' \<Longrightarrow> i < length fs \<Longrightarrow> unclock (fs ! i) = unclock (fs' ! i)"
  unfolding same_files_def by (metis length_map nth_map)

lemma server_inv_same:
  assumes "same_files (files sv') (files sv)" and "shared sv' = shared sv"
  shows "server_inv sv' = server_inv sv"
  using same_files_eq [OF assms(1)] assms(2) by (simp add: server_inv_def counters_inv_def)

subsection \<open>The contract of a policy\<close>

text \<open>The outcome of one eviction: nothing was chosen, or slot \<open>i\<close> was, its contents and its
  name are in the caller's buffers, and the file is gone.\<close>

fun outcome :: "server \<Rightarrow> nat option \<Rightarrow> (errno + outbuf \<times> outbuf) \<times> server \<Rightarrow> bool" where
  "outcome sv None (r, sv') \<longleftrightarrow>
     r = Inr ((None, 0), (None, 0)) \<and> same_files (files sv') (files sv) \<and> shared sv' = shared sv"
| "outcome sv (Some i) (r, sv') \<longleftrightarrow>
     r = Inr ((Some (a_content (fabs (files sv ! i))), fsize (files sv ! i)),
              (Some (name (files sv ! i) @ [0]), wlen (name (files sv ! i) @ [0])))
   \<and> same_files (files sv') ((files sv)[i := init_file_struct])
   \<and> (\<exists>p < length (files sv). shared sv' = (shared sv)\<lparr>
        current_storage := current_storage (shared sv) - fsize (files sv ! i),
        current_files := current_files (shared sv) - 1, lru_clock_pos := p\<rparr>)"

definition expelled :: "server \<Rightarrow> nat \<Rightarrow> server \<Rightarrow> bool" where
  "expelled sv i sv' \<longleftrightarrow>
     server_inv sv' \<and> sabs sv' = (sabs sv)(name (files sv ! i) := None)
   \<and> used (files sv') + length (a_content (fabs (files sv ! i))) = used (files sv)
   \<and> Suc (live (files sv')) = live (files sv)"

lemma outcome_None:
  assumes "server_inv sv" and "outcome sv None (r, sv')"
  shows "server_inv sv'" and "sabs sv' = sabs sv"
  using assms server_inv_same same_files_eq(2) by auto

lemma outcome_Some:
  assumes inv: "server_inv sv" and i: "i < length (files sv)" "existing (files sv ! i)"
    and out: "outcome sv (Some i) (r, sv')"
  shows "expelled sv i sv'"
proof -
  let ?ss = "(shared sv)\<lparr>current_storage := current_storage (shared sv) - fsize (files sv ! i),
                current_files := current_files (shared sv) - 1\<rparr>"
  let ?mid = "sv\<lparr>files := (files sv)[i := init_file_struct], shared := ?ss\<rparr>"
  have f: "file_inv (files sv ! i)" by (rule store_inv_nth [OF server_inv_store [OF inv] i(1)])
  have mid: "server_inv ?mid" "sabs ?mid = (sabs sv)(name (files sv ! i) := None)"
      "used (files ?mid) + unat (fsize (files sv ! i)) = used (files sv)"
    using server_inv_remove [OF inv i, of ?mid] by (simp_all add: conns_inv_def conns_def)
  from out obtain p where p: "same_files (files sv') (files ?mid)" "p < length (files sv)"
      "shared sv' = ?ss\<lparr>lru_clock_pos := p\<rparr>"
    by auto
  note eq = same_files_eq [OF p(1)]
  have "counters_inv (files ?mid) (?ss\<lparr>lru_clock_pos := p\<rparr>)"
    using mid(1) p(2) by (simp add: server_inv_def counters_inv_def)
  then have "server_inv sv'"
    using mid(1) eq p(3) by (simp add: server_inv_def counters_inv_def conns_inv_def conns_def)
  moreover have "Suc (live (files ?mid)) = live (files sv)"
    using live_slot [OF i(1), of init_file_struct] i(2) by simp
  ultimately show ?thesis using mid(2,3) eq unat_fsize [OF f] by (simp add: expelled_def)
qed

locale eviction_policy =
  fixes run :: "env \<Rightarrow> int \<Rightarrow> byte list \<Rightarrow> server \<Rightarrow> outbuf \<Rightarrow> outbuf \<Rightarrow> (errno + outbuf \<times> outbuf) \<times> server"
    and chooses :: "env \<Rightarrow> byte list \<Rightarrow> server \<Rightarrow> nat \<Rightarrow> bool"
  assumes chosen: "chooses e nd sv i \<Longrightarrow> i < length (files sv) \<and> candidate nd (files sv ! i)"
    and policy: "good_env e \<Longrightarrow> server_inv sv \<Longrightarrow>
      ((\<forall>i. \<not> chooses e nd sv i) \<and> outcome sv None (run e thread nd sv (None, 0) (None, 0)))
      \<or> (\<exists>i. chooses e nd sv i \<and> outcome sv (Some i) (run e thread nd sv (None, 0) (None, 0)))"
begin

text \<open>The protected file survives, and so does every other file but the chosen one.\<close>

lemma protected_kept:
  assumes "good_env e" "server_inv sv" "run e thread nd sv (None, 0) (None, 0) = (r, sv')"
  shows "server_inv sv' \<and> sabs sv' (cstr nd) = sabs sv (cstr nd)"
proof -
  consider "outcome sv None (r, sv')" | i where "chooses e nd sv i" "outcome sv (Some i) (r, sv')"
    using policy [OF assms(1,2), of nd thread] assms(3) by auto
  then show ?thesis
  proof cases
    case 1
    with outcome_None [OF assms(2)] show ?thesis by metis
  next
    case 2
    then have "i < length (files sv)" "candidate nd (files sv ! i)" using chosen by blast+
    then have "existing (files sv ! i)" "name (files sv ! i) \<noteq> cstr nd" by (simp_all add: candidate_def)
    with outcome_Some [OF assms(2) \<open>i < length (files sv)\<close> _ 2(2)] show ?thesis
      by (auto simp: expelled_def)
  qed
qed

text \<open>An eviction takes place exactly when the policy has something to choose, and then it
  frees at least one byte.\<close>

lemma evicts_iff:
  assumes "good_env e" "server_inv sv" "run e thread nd sv (None, 0) (None, 0) = (r, sv')"
  shows "if \<exists>i. chooses e nd sv i then used (files sv') < used (files sv)
         else used (files sv') = used (files sv) \<and> sabs sv' = sabs sv"
proof (cases "\<exists>i. chooses e nd sv i")
  case True
  then obtain i where i: "chooses e nd sv i" "outcome sv (Some i) (r, sv')"
    using policy [OF assms(1,2), of nd thread] assms(3) by auto
  then have c: "i < length (files sv)" "candidate nd (files sv ! i)" using chosen by blast+
  then have "existing (files sv ! i)" by (simp add: candidate_def)
  with outcome_Some [OF assms(2) c(1) _ i(2)]
  have "used (files sv') + length (a_content (fabs (files sv ! i))) = used (files sv)"
    by (simp add: expelled_def)
  moreover have "0 < length (a_content (fabs (files sv ! i)))"
    by (rule candidate_content [OF store_inv_nth [OF server_inv_store [OF assms(2)] c(1)] c(2)])
  ultimately have "used (files sv') < used (files sv)" by linarith
  with True show ?thesis by simp
next
  case False
  then have "outcome sv None (r, sv')"
    using policy [OF assms(1,2), of nd thread] assms(3) by auto
  with False same_files_eq show ?thesis by auto
qed

end

subsection \<open>FIFO and LFU choose a minimum\<close>

text \<open>\<open>key\<close> is the creation time or the frequency, \<open>bound\<close> the initial value of the minimum.\<close>

definition least :: "(file_t \<Rightarrow> int) \<Rightarrow> int \<Rightarrow> byte list \<Rightarrow> file_t list \<Rightarrow> nat \<Rightarrow> bool" where
  "least key bound nd fs i \<longleftrightarrow>
     i < length fs \<and> candidate nd (fs ! i) \<and> key (fs ! i) < bound
   \<and> (\<forall>j < length fs. candidate nd (fs ! j) \<longrightarrow> key (fs ! i) \<le> key (fs ! j))"

fun min_loop :: "(file_t \<Rightarrow> int) \<Rightarrow> nat \<Rightarrow> byte list \<Rightarrow> file_t list \<Rightarrow> nat \<times> int \<times> bool \<Rightarrow> nat \<times> int \<times> bool" where
  "min_loop key i nd [] cur = cur"
| "min_loop key i nd (f # fs) cur =
     min_loop key (Suc i) nd fs (if candidate nd f \<and> key f < fst (snd cur) then (i, key f, True) else cur)"

lemma FIFO_loop_eq: "FIFO_loop i nd fs cur = Inr (min_loop fifo_creation_time i nd fs cur)"
  by (induction i nd fs cur rule: FIFO_loop.induct) (simp_all add: FIFO_loop_do_spec)

lemma LFU_loop_eq: "LFU_loop i nd fs cur = Inr (min_loop (\<lambda>f. sint (lfu_frequency f)) i nd fs cur)"
  by (induction i nd fs cur rule: LFU_loop.induct) (simp_all add: LFU_loop_do_spec)

lemma min_loop_spec:
  assumes "min_loop key k nd fs cur = (i, t, s)"
  shows "t \<le> fst (snd cur) \<and> (\<forall>j < length fs. candidate nd (fs ! j) \<longrightarrow> t \<le> key (fs ! j))
       \<and> ((i, t, s) = cur \<or> s \<and> k \<le> i \<and> i < k + length fs \<and> candidate nd (fs ! (i - k))
           \<and> t = key (fs ! (i - k)) \<and> t < fst (snd cur))"
  using assms
proof (induction key k nd fs cur rule: min_loop.induct)
  case 1
  then show ?case by simp
next
  case (2 key k nd f fs cur)
  let ?cur = "if candidate nd f \<and> key f < fst (snd cur) then (k, key f, True) else cur"
  have IH: "t \<le> fst (snd ?cur) \<and> (\<forall>j < length fs. candidate nd (fs ! j) \<longrightarrow> t \<le> key (fs ! j))
       \<and> ((i, t, s) = ?cur \<or> s \<and> Suc k \<le> i \<and> i < Suc k + length fs \<and> candidate nd (fs ! (i - Suc k))
           \<and> t = key (fs ! (i - Suc k)) \<and> t < fst (snd ?cur))"
    using 2 by simp
  have shift: "(f # fs) ! (i - k) = fs ! (i - Suc k)" if "Suc k \<le> i"
    using that by (simp add: nth_Cons' Suc_diff_le)
  have all: "\<forall>j < length (f # fs). candidate nd ((f # fs) ! j) \<longrightarrow> t \<le> key ((f # fs) ! j)"
    using IH by (auto simp: less_Suc_eq_0_disj split: if_splits)
  show ?case
  proof (cases "candidate nd f \<and> key f < fst (snd cur)")
    case True
    with IH all shift show ?thesis by auto
  next
    case False
    with IH all shift show ?thesis by auto
  qed
qed

lemma min_loop_least:
  assumes "min_loop key 0 nd fs (0, bound, False) = (i, t, s)"
  shows "s \<longleftrightarrow> (\<exists>i. least key bound nd fs i)" and "s \<Longrightarrow> least key bound nd fs i"
  using min_loop_spec [OF assms] by (auto simp: least_def)

lemma outcome_delete:
  assumes "good_env e" and "server_inv sv" and "i < length (files sv)" and "candidate nd (files sv ! i)"
    and "same_files (files sv) (files sv0)" and "shared sv = shared sv0" and "server_inv sv0"
  shows "outcome sv0 (Some i) (delete_evicted e thread i sv (None, 0) (None, 0))"
proof -
  obtain sv' where sv': "delete_evicted e thread i sv (None, 0) (None, 0) =
       (Inr ((Some (a_content (fabs (files sv ! i))), fsize (files sv ! i)),
             (Some (name (files sv ! i) @ [0]), wlen (name (files sv ! i) @ [0]))), sv')"
    "files sv' = (files sv)[i := init_file_struct]"
    "shared sv' = (shared sv)\<lparr>current_storage := current_storage (shared sv) - fsize (files sv ! i),
                             current_files := current_files (shared sv) - 1\<rparr>"
    using delete_evicted_ok [OF assms(1-4)] by metis
  have u: "unclock (files sv ! i) = unclock (files sv0 ! i)" by (rule same_files_nth [OF assms(5,3)])
  have eq: "fabs (files sv ! i) = fabs (files sv0 ! i)" "fsize (files sv ! i) = fsize (files sv0 ! i)"
      "name (files sv ! i) = name (files sv0 ! i)"
    using arg_cong [OF u, of fabs] arg_cong [OF u, of fsize] arg_cong [OF u, of name] by simp_all
  have "lru_clock_pos (shared sv0) < length (files sv0)"
    using assms(7) by (simp add: server_inv_def counters_inv_def)
  then show ?thesis
    using sv' eq same_files_update [OF assms(5)] assms(6)
    by (auto intro!: exI [of _ "lru_clock_pos (shared sv0)"])
qed

lemma outcome_clock:
  "outcome sv (Some i) (r, sv') \<Longrightarrow> p < length (files sv) \<Longrightarrow>
   outcome sv (Some i) (r, on_shared (\<lambda>ss. ss\<lparr>lru_clock_pos := p\<rparr>) sv')"
  by (auto intro!: exI [of _ p])

interpretation fifo: eviction_policy evict_FIFO
  "\<lambda>e nd sv i. least fifo_creation_time (e_clock e (ticks sv)) nd (files sv) i"
proof
  fix e nd i and sv :: server
  assume "least fifo_creation_time (e_clock e (ticks sv)) nd (files sv) i"
  then show "i < length (files sv) \<and> candidate nd (files sv ! i)" by (simp add: least_def)
next
  fix e :: env and sv nd thread
  assume e: "good_env e" and inv: "server_inv sv"
  let ?now = "e_clock e (ticks sv)" and ?sv = "sv\<lparr>ticks := Suc (ticks sv)\<rparr>"
  obtain i t s where m: "min_loop fifo_creation_time 0 nd (files sv) (0, ?now, False) = (i, t, s)"
    by (cases "min_loop fifo_creation_time 0 nd (files sv) (0, ?now, False)") auto
  have inv': "server_inv ?sv" using inv by (simp add: server_inv_def)
  show "(\<forall>i. \<not> least fifo_creation_time ?now nd (files sv) i)
      \<and> outcome sv None (evict_FIFO e thread nd sv (None, 0) (None, 0))
    \<or> (\<exists>i. least fifo_creation_time ?now nd (files sv) i
      \<and> outcome sv (Some i) (evict_FIFO e thread nd sv (None, 0) (None, 0)))"
  proof (cases s)
    case True
    then have l: "least fifo_creation_time ?now nd (files sv) i" by (rule min_loop_least(2) [OF m])
    then have "outcome sv (Some i) (delete_evicted e thread i ?sv (None, 0) (None, 0))"
      by (intro outcome_delete [where nd = nd, OF e inv' _ _ _ _ inv]) (simp_all add: least_def)
    with l True m show ?thesis by (auto simp: evict_FIFO_def FIFO_loop_eq Let_def)
  next
    case False
    with min_loop_least(1) [OF m] m show ?thesis by (simp add: evict_FIFO_def FIFO_loop_eq Let_def)
  qed
qed

interpretation lfu: eviction_policy evict_LFU
  "\<lambda>e nd sv i. least (\<lambda>f. sint (lfu_frequency f)) INT_MAX nd (files sv) i"
proof
  fix nd i and sv :: server
  assume "least (\<lambda>f. sint (lfu_frequency f)) INT_MAX nd (files sv) i"
  then show "i < length (files sv) \<and> candidate nd (files sv ! i)" by (simp add: least_def)
next
  fix e :: env and sv nd thread
  assume e: "good_env e" and inv: "server_inv sv"
  let ?key = "\<lambda>f. sint (lfu_frequency f)"
  obtain i t s where m: "min_loop ?key 0 nd (files sv) (0, INT_MAX, False) = (i, t, s)"
    by (cases "min_loop ?key 0 nd (files sv) (0, INT_MAX, False)") auto
  show "(\<forall>i. \<not> least ?key INT_MAX nd (files sv) i)
      \<and> outcome sv None (evict_LFU e thread nd sv (None, 0) (None, 0))
    \<or> (\<exists>i. least ?key INT_MAX nd (files sv) i
      \<and> outcome sv (Some i) (evict_LFU e thread nd sv (None, 0) (None, 0)))"
  proof (cases s)
    case True
    then have l: "least ?key INT_MAX nd (files sv) i" by (rule min_loop_least(2) [OF m])
    then have "outcome sv (Some i) (delete_evicted e thread i sv (None, 0) (None, 0))"
      by (intro outcome_delete [where nd = nd, OF e inv _ _ _ _ inv]) (simp_all add: least_def)
    with l True m show ?thesis by (auto simp: evict_LFU_def LFU_loop_eq Let_def)
  next
    case False
    with min_loop_least(1) [OF m] m show ?thesis by (simp add: evict_LFU_def LFU_loop_eq Let_def)
  qed
qed

subsection \<open>LRU chooses the first unused file on the clock\<close>

definition clock_slot :: "nat \<Rightarrow> nat \<Rightarrow> nat \<Rightarrow> nat" where
  "clock_slot n pos k = (pos + k) mod n"

definition on_clock :: "byte list \<Rightarrow> file_t list \<Rightarrow> nat \<Rightarrow> nat \<Rightarrow> bool" where
  "on_clock nd fs pos i \<longleftrightarrow>
     (\<exists>k < length fs. i = clock_slot (length fs) pos k
        \<and> candidate nd (fs ! i) \<and> lru_clock (fs ! i) \<noteq> 1
        \<and> (\<forall>k' < k. let f = fs ! clock_slot (length fs) pos k' in candidate nd f \<longrightarrow> lru_clock f = 1))"

lemma clock_slot_Suc: "clock_slot n (Suc pos mod n) k = clock_slot n pos (Suc k)"
  by (simp add: clock_slot_def mod_add_left_eq)

lemma clock_slot_0: "pos < n \<Longrightarrow> clock_slot n pos 0 = pos"
  by (simp add: clock_slot_def)

lemma clock_slot_lt: "0 < n \<Longrightarrow> clock_slot n pos k < n"
  by (simp add: clock_slot_def)

lemma on_clock_slot: "on_clock nd fs pos i \<Longrightarrow> i < length fs \<and> candidate nd (fs ! i)"
  unfolding on_clock_def by (elim exE conjE) (metis clock_slot_lt gr_implies_not0 gr0I)

lemma clock_slot_neq:
  assumes "pos < n" and "0 < k" and "k < n"
  shows "clock_slot n pos k \<noteq> pos"
proof (cases "pos + k < n")
  case True
  with assms show ?thesis by (simp add: clock_slot_def)
next
  case False
  then have "clock_slot n pos k = pos + k - n"
    using assms by (simp add: clock_slot_def mod_if)
  with assms False show ?thesis by simp
qed

lemma clock_slot_onto:
  assumes "pos < n" and "i < n"
  obtains k where "k < n" "i = clock_slot n pos k"
proof (cases "pos \<le> i")
  case True
  with assms that [of "i - pos"] show thesis by (simp add: clock_slot_def)
next
  case False
  with assms that [of "i + n - pos"] show thesis by (simp add: clock_slot_def)
qed

text \<open>What one turn of at most \<open>m\<close> slots does.\<close>

definition turn :: "byte list \<Rightarrow> nat \<Rightarrow> nat \<Rightarrow> file_t list \<Rightarrow> (errno + nat option) \<Rightarrow> file_t list \<Rightarrow> bool" where
  "turn nd m pos fs r fs' \<longleftrightarrow>
     (let slot = clock_slot (length fs) pos in
      case r of
        Inl _ \<Rightarrow> False
      | Inr None \<Rightarrow> (\<forall>k < m. candidate nd (fs ! slot k) \<longrightarrow>
            lru_clock (fs ! slot k) = 1 \<and> lru_clock (fs' ! slot k) = 0)
      | Inr (Some i) \<Rightarrow> (\<exists>k < m. i = slot k \<and> candidate nd (fs ! i) \<and> lru_clock (fs ! i) \<noteq> 1
            \<and> (\<forall>k' < k. candidate nd (fs ! slot k') \<longrightarrow> lru_clock (fs ! slot k') = 1)))"

lemma turn_on_clock: "turn nd (length fs) pos fs (Inr (Some i)) fs' \<longleftrightarrow> on_clock nd fs pos i"
  by (auto simp: turn_def on_clock_def Let_def)

lemma turn_step:
  assumes pos: "pos < length fs" and m: "Suc m \<le> length fs"
    and g: "g = (if candidate nd (fs ! pos) then (fs ! pos)\<lparr>lru_clock := 0\<rparr> else fs ! pos)"
    and c: "candidate nd (fs ! pos) \<Longrightarrow> lru_clock (fs ! pos) = 1"
    and keep: "\<And>j. \<forall>k < m. j \<noteq> clock_slot (length fs) (Suc pos mod length fs) k \<Longrightarrow> fs' ! j = (fs[pos := g]) ! j"
    and t: "turn nd m (Suc pos mod length fs) (fs[pos := g]) r fs'"
  shows "turn nd (Suc m) pos fs r fs'"
proof -
  let ?n = "length fs" and ?slot = "clock_slot (length fs) pos"
  have same: "(fs[pos := g]) ! ?slot (Suc k) = fs ! ?slot (Suc k)" if "k < m" for k
    using clock_slot_neq [OF pos, of "Suc k"] that m by simp
  have s0: "?slot 0 = pos" by (rule clock_slot_0 [OF pos])
  have "pos \<noteq> clock_slot ?n (Suc pos mod ?n) k" if "k < m" for k
    using clock_slot_neq [OF pos, of "Suc k"] that m by (simp add: clock_slot_Suc)
  then have here: "fs' ! pos = g" using keep [of pos] pos by simp
  show ?thesis
  proof (cases r)
    case (Inl e)
    with t show ?thesis by (simp add: turn_def)
  next
    case (Inr res)
    show ?thesis
    proof (cases res)
      case None
      have "candidate nd (fs ! ?slot k) \<longrightarrow> lru_clock (fs ! ?slot k) = 1 \<and> lru_clock (fs' ! ?slot k) = 0"
        if "k < Suc m" for k
      proof (cases k)
        case 0
        with s0 here g c show ?thesis by simp
      next
        case (Suc k')
        with that t Inr None same [of k'] show ?thesis
          by (auto simp: turn_def clock_slot_Suc)
      qed
      with Inr None show ?thesis by (simp add: turn_def)
    next
      case (Some i)
      then obtain k where k: "k < m" "i = ?slot (Suc k)" "candidate nd (fs ! i)" "lru_clock (fs ! i) \<noteq> 1"
          and before: "\<forall>k' < k. candidate nd (fs ! ?slot (Suc k')) \<longrightarrow> lru_clock (fs ! ?slot (Suc k')) = 1"
        using t Inr same by (auto simp: turn_def clock_slot_Suc)
      have "\<forall>k' < Suc k. candidate nd (fs ! ?slot k') \<longrightarrow> lru_clock (fs ! ?slot k') = 1"
        using before c s0 by (auto simp: less_Suc_eq_0_disj)
      with k Inr Some show ?thesis by (auto simp: turn_def Let_def)
    qed
  qed
qed

lemma LRU_loop_spec:
  assumes "pos < length (files sv)" and "m \<le> length (files sv)" and "LRU_loop m nd pos sv = (r, sv')"
  shows "same_files (files sv') (files sv) \<and> shared sv' = shared sv
       \<and> (\<forall>j. (\<forall>k < m. j \<noteq> clock_slot (length (files sv)) pos k) \<longrightarrow> files sv' ! j = files sv ! j)
       \<and> turn nd m pos (files sv) r (files sv')"
  using assms
proof (induction m arbitrary: pos sv)
  case 0
  then show ?case by (auto simp: turn_def)
next
  case (Suc m)
  let ?n = "length (files sv)" and ?f = "files sv ! pos"
  show ?case
  proof (cases "candidate nd ?f \<and> lru_clock ?f \<noteq> 1")
    case True
    then have "r = Inr (Some pos)" "sv' = sv"
      using Suc.prems by (simp_all add: LRU_loop_do_spec)
    with True Suc.prems(1) show ?thesis
      by (auto simp: turn_def Let_def clock_slot_0 intro!: exI [of _ 0])
  next
    case False
    let ?g = "if candidate nd ?f then ?f\<lparr>lru_clock := 0\<rparr> else ?f"
    let ?sv = "set_file pos ?g sv" and ?pos = "Suc pos mod ?n"
    have loop: "LRU_loop m nd ?pos ?sv = (r, sv')"
      using Suc.prems False by (simp add: LRU_loop_do_spec split: if_splits)
    have "0 < ?n" using Suc.prems(1) by linarith
    then have p: "?pos < length (files ?sv)" by simp
    have "m \<le> length (files ?sv)" using Suc.prems(2) by simp
    from Suc.IH [OF p this loop] have IH: "same_files (files sv') (files ?sv)" "shared sv' = shared ?sv"
        "\<And>j. \<forall>k < m. j \<noteq> clock_slot ?n ?pos k \<Longrightarrow> files sv' ! j = files ?sv ! j"
        "turn nd m ?pos (files ?sv) r (files sv')"
      by simp_all
    have "same_files (files ?sv) (files sv)"
      using same_files_clear by simp
    then have sf: "same_files (files sv') (files sv)" by (rule same_files_trans [OF IH(1)])
    have tn: "turn nd (Suc m) pos (files sv) r (files sv')"
      by (rule turn_step [OF Suc.prems(1,2) refl]) (use False IH(3,4) in auto)
    have "files sv' ! j = files sv ! j" if "\<forall>k < Suc m. j \<noteq> clock_slot ?n pos k" for j
    proof -
      have "j \<noteq> pos" using that Suc.prems(1) clock_slot_0 by fastforce
      moreover have "\<forall>k < m. j \<noteq> clock_slot ?n ?pos k" using that by (simp add: clock_slot_Suc)
      ultimately show ?thesis using IH(3) by simp
    qed
    with sf tn IH(2) show ?thesis by simp
  qed
qed

lemma clock_slot_add: "clock_slot n (clock_slot n pos j) k = clock_slot n pos (j + k)"
  by (simp add: clock_slot_def mod_add_left_eq add.assoc)

lemma clock_slot_inj:
  assumes "j < n" and "k < n" and "clock_slot n pos j = clock_slot n pos k"
  shows "j = k"
proof (rule ccontr)
  have apart: "clock_slot n pos j \<noteq> clock_slot n pos k" if "j < k" "k < n" for j k
    using clock_slot_neq [of "clock_slot n pos j" n "k - j"] clock_slot_lt [of n pos j] that
    by (simp add: clock_slot_add) (metis less_imp_diff_less)
  assume "j \<noteq> k"
  then consider "j < k" | "k < j" by linarith
  then show False using apart [of j k] apart [of k j] assms by cases auto
qed

text \<open>The slots after the hand has passed \<open>k\<close> of them.\<close>

definition clear_bit :: "byte list \<Rightarrow> file_t \<Rightarrow> file_t" where
  "clear_bit nd f = (if candidate nd f then f\<lparr>lru_clock := 0\<rparr> else f)"

definition passed :: "byte list \<Rightarrow> nat \<Rightarrow> nat \<Rightarrow> file_t list \<Rightarrow> file_t list" where
  "passed nd pos k fs =
     map (\<lambda>j. if \<exists>k' < k. j = clock_slot (length fs) pos k' then clear_bit nd (fs ! j) else fs ! j) [0..<length fs]"

lemma length_passed [simp]: "length (passed nd pos k fs) = length fs"
  by (simp add: passed_def)

lemma nth_passed:
  "j < length fs \<Longrightarrow> passed nd pos k fs ! j
     = (if \<exists>k' < k. j = clock_slot (length fs) pos k' then clear_bit nd (fs ! j) else fs ! j)"
  by (auto simp: passed_def)

lemma passed_0 [simp]: "passed nd pos 0 fs = fs"
  by (rule nth_equalityI) (simp_all add: nth_passed)

lemma clear_bit_idem [simp]: "clear_bit nd (clear_bit nd f) = clear_bit nd f"
  by (simp add: clear_bit_def)

lemma passed_Suc:
  assumes "pos < length fs"
  shows "passed nd (Suc pos mod length fs) k (fs[pos := clear_bit nd (fs ! pos)]) = passed nd pos (Suc k) fs"
proof (rule nth_equalityI)
  fix j
  assume "j < length (passed nd (Suc pos mod length fs) k (fs[pos := clear_bit nd (fs ! pos)]))"
  then have j: "j < length fs" by simp
  have "(\<exists>k' < Suc k. j = clock_slot (length fs) pos k') \<longleftrightarrow> j = pos \<or> (\<exists>k' < k. j = clock_slot (length fs) pos (Suc k'))"
    using clock_slot_0 [OF assms] by (auto simp: less_Suc_eq_0_disj)
  then show "passed nd (Suc pos mod length fs) k (fs[pos := clear_bit nd (fs ! pos)]) ! j = passed nd pos (Suc k) fs ! j"
    using j by (cases "j = pos") (auto simp: nth_passed clock_slot_Suc)
qed simp

lemma LRU_loop_passed:
  assumes "pos < length (files sv)" and "LRU_loop m nd pos sv = (Inr res, sv')"
  shows "\<exists>k \<le> m. sv' = sv\<lparr>files := passed nd pos k (files sv)\<rparr>
     \<and> (case res of None \<Rightarrow> k = m | Some i \<Rightarrow> k < m \<and> i = clock_slot (length (files sv)) pos k)"
  using assms
proof (induction m arbitrary: pos sv)
  case (Suc m)
  let ?n = "length (files sv)" and ?f = "files sv ! pos"
  show ?case
  proof (cases "candidate nd ?f \<and> lru_clock ?f \<noteq> 1")
    case True
    then have "res = Some pos" "sv' = sv" using Suc.prems by (simp_all add: LRU_loop_do_spec)
    with Suc.prems(1) show ?thesis by (intro exI [of _ 0]) (simp add: clock_slot_0)
  next
    case False
    let ?sv = "set_file pos (clear_bit nd ?f) sv"
    have "LRU_loop m nd (Suc pos mod ?n) ?sv = (Inr res, sv')"
      using Suc.prems False by (simp add: LRU_loop_do_spec clear_bit_def split: if_splits)
    moreover have "0 < ?n" using Suc.prems(1) by linarith
    then have "Suc pos mod ?n < length (files ?sv)" by simp
    ultimately obtain k where "k \<le> m" "sv' = ?sv\<lparr>files := passed nd (Suc pos mod ?n) k (files ?sv)\<rparr>"
        "case res of None \<Rightarrow> k = m | Some i \<Rightarrow> k < m \<and> i = clock_slot (length (files ?sv)) (Suc pos mod ?n) k"
      using Suc.IH by blast
    then show ?thesis
      using passed_Suc [OF Suc.prems(1), of nd k]
      by (intro exI [of _ "Suc k"]) (auto simp: set_file_def clock_slot_Suc split: option.splits)
  qed
qed simp

lemma evict_LRU_outcome:
  assumes loop: "LRU_loop (length (files sv)) nd (lru_clock_pos (shared sv)) sv = (Inr (Some i), sv1)"
    and del: "outcome sv (Some i) (delete_evicted e thread i sv1 (None, 0) (None, 0))"
    and n: "0 < length (files sv)"
  shows "outcome sv (Some i) (evict_LRU e thread nd sv (None, 0) (None, 0))"
proof -
  obtain r sv2 where d: "delete_evicted e thread i sv1 (None, 0) (None, 0) = (r, sv2)"
    by (cases "delete_evicted e thread i sv1 (None, 0) (None, 0)")
  with del obtain out where r: "r = Inr out" "same_files (files sv2) ((files sv)[i := init_file_struct])"
    by auto
  have "length (files sv2) = length (files sv)" using same_files_eq(5) [OF r(2)] by simp
  then have "outcome sv (Some i) (r, on_shared (\<lambda>ss. ss\<lparr>lru_clock_pos := Suc i mod length (files sv2)\<rparr>) sv2)"
    using outcome_clock del d n by simp
  with loop d r(1) show ?thesis by (simp add: evict_LRU_def)
qed

interpretation lru: eviction_policy evict_LRU
  "\<lambda>e nd sv i. on_clock nd (files sv) (lru_clock_pos (shared sv)) i"
proof
  fix e nd i and sv :: server
  assume "on_clock nd (files sv) (lru_clock_pos (shared sv)) i"
  then show "i < length (files sv) \<and> candidate nd (files sv ! i)" by (rule on_clock_slot)
next
  fix e :: env and sv nd thread
  assume e: "good_env e" and inv: "server_inv sv"
  let ?pos = "lru_clock_pos (shared sv)" and ?n = "length (files sv)"
  have pos: "?pos < ?n" using inv by (simp add: server_inv_def counters_inv_def)
  obtain r sv1 where loop: "LRU_loop ?n nd ?pos sv = (r, sv1)" by (cases "LRU_loop ?n nd ?pos sv")
  have L: "same_files (files sv1) (files sv)" "shared sv1 = shared sv" "turn nd ?n ?pos (files sv) r (files sv1)"
    using LRU_loop_spec [OF pos le_refl loop] by blast+
  have inv1: "server_inv sv1" using server_inv_same [OF L(1,2)] inv by simp
  have n1: "length (files sv1) = ?n" by (rule same_files_eq(5) [OF L(1)])
  show "(\<forall>i. \<not> on_clock nd (files sv) ?pos i)
      \<and> outcome sv None (evict_LRU e thread nd sv (None, 0) (None, 0))
    \<or> (\<exists>i. on_clock nd (files sv) ?pos i
      \<and> outcome sv (Some i) (evict_LRU e thread nd sv (None, 0) (None, 0)))"
  proof (cases r)
    case (Inl x)
    with L(3) show ?thesis by (simp add: turn_def)
  next
    case (Inr res)
    show ?thesis
    proof (cases res)
      case None
      then have "\<not> on_clock nd (files sv) ?pos i" for i
        using L(3) Inr by (auto simp: turn_def on_clock_def Let_def)
      with None Inr L loop show ?thesis by (simp add: evict_LRU_def)
    next
      case (Some i)
      then have i: "on_clock nd (files sv) ?pos i"
        using L(3) Inr by (auto simp: turn_def on_clock_def Let_def)
      then have c: "i < ?n" "candidate nd (files sv ! i)"
        using on_clock_slot by blast+
      have "unclock (files sv1 ! i) = unclock (files sv ! i)" by (rule same_files_nth [OF L(1)]) (simp add: n1 c)
      then have "candidate nd (files sv1 ! i)" using c(2) by (metis unclock_simps(9))
      then have "outcome sv (Some i) (delete_evicted e thread i sv1 (None, 0) (None, 0))"
        using outcome_delete [OF e inv1 _ _ L(1,2) inv] c n1 by simp
      then have "outcome sv (Some i) (evict_LRU e thread nd sv (None, 0) (None, 0))"
        by (rule evict_LRU_outcome [OF loop [unfolded Inr Some]]) (use pos in linarith)
      with i c show ?thesis by auto
    qed
  qed
qed

text \<open>One turn of the clock in full.\<close>

lemma evict_LRU_exact:
  assumes e: "good_env e" and inv: "server_inv sv" and run: "evict_LRU e thread nd sv (None, 0) (None, 0) = (r, sv')"
  defines "fs \<equiv> files sv" and "pos \<equiv> lru_clock_pos (shared sv)"
  shows "(\<forall>i. \<not> on_clock nd fs pos i) \<and> shared sv' = shared sv \<and> files sv' = map (clear_bit nd) fs
     \<or> (\<exists>k < length fs. on_clock nd fs pos (clock_slot (length fs) pos k)
          \<and> files sv' = (passed nd pos k fs)[clock_slot (length fs) pos k := init_file_struct]
          \<and> lru_clock_pos (shared sv') = clock_slot (length fs) pos (Suc k)
          \<and> (\<forall>k' < k. candidate nd (fs ! clock_slot (length fs) pos k') \<longrightarrow> lru_clock (fs ! clock_slot (length fs) pos k') = 1))"
proof -
  have pos: "pos < length fs" using inv by (simp add: server_inv_def counters_inv_def fs_def pos_def)
  obtain q sv1 where loop: "LRU_loop (length fs) nd pos sv = (q, sv1)" by (cases "LRU_loop (length fs) nd pos sv")
  have L: "same_files (files sv1) fs" "shared sv1 = shared sv" "turn nd (length fs) pos fs q (files sv1)"
    using LRU_loop_spec [of pos sv "length fs" nd] pos loop unfolding fs_def by blast+
  then obtain res where q: "q = Inr res" by (cases q) (simp_all add: turn_def)
  then obtain k where k: "k \<le> length fs" "sv1 = sv\<lparr>files := passed nd pos k fs\<rparr>"
      "case res of None \<Rightarrow> k = length fs | Some i \<Rightarrow> k < length fs \<and> i = clock_slot (length fs) pos k"
    using LRU_loop_passed [of pos sv "length fs" nd res sv1] pos loop unfolding fs_def by blast
  show ?thesis
  proof (cases res)
    case None
    have "passed nd pos (length fs) fs = map (clear_bit nd) fs"
    proof (rule nth_equalityI)
      fix j assume "j < length (passed nd pos (length fs) fs)"
      then have "j < length fs" by simp
      moreover then obtain k where "k < length fs" "j = clock_slot (length fs) pos k" using clock_slot_onto [OF pos] by blast
      ultimately show "passed nd pos (length fs) fs ! j = map (clear_bit nd) fs ! j" by (auto simp: nth_passed)
    qed simp
    moreover have "\<not> on_clock nd fs pos i" for i using L(3) q None by (auto simp: turn_def on_clock_def Let_def)
    ultimately show ?thesis using k None run loop q by (auto simp: evict_LRU_def fs_def pos_def)
  next
    case (Some i)
    then have i: "k < length fs" "i = clock_slot (length fs) pos k" using k(3) by simp_all
    have on: "on_clock nd fs pos i" using L(3) q Some turn_on_clock by simp
    have inv1: "server_inv sv1" using server_inv_same [OF L(1) [unfolded fs_def] L(2)] inv by simp
    have i1: "i < length (files sv1)" "candidate nd (files sv1 ! i)"
      using on_clock_slot [OF on] k(2) by (auto simp: nth_passed clear_bit_def candidate_def fsize_def fs_def)
    from delete_evicted_ok [OF e inv1 i1, of thread] obtain out sv2 where d: "delete_evicted e thread i sv1 (None, 0) (None, 0) = (Inr out, sv2)"
        "files sv2 = (files sv1)[i := init_file_struct]" by blast
    have "files sv' = (passed nd pos k fs)[i := init_file_struct]" "lru_clock_pos (shared sv') = Suc i mod length fs"
      using run loop q Some d k(2) by (auto simp: evict_LRU_def fs_def pos_def)
    moreover have "Suc i mod length fs = clock_slot (length fs) pos (Suc k)"
      unfolding i(2) by (simp add: clock_slot_def mod_Suc_eq)
    moreover obtain k2 where "k2 < length fs" "i = clock_slot (length fs) pos k2"
        "\<forall>k' < k2. candidate nd (fs ! clock_slot (length fs) pos k') \<longrightarrow> lru_clock (fs ! clock_slot (length fs) pos k') = 1"
      using on unfolding on_clock_def Let_def by blast
    moreover then have "k2 = k" using clock_slot_inj i by metis
    ultimately show ?thesis using on i by auto
  qed
qed

lemma on_clock_unique:
  assumes "on_clock nd fs pos i" and "on_clock nd fs pos j"
  shows "i = j"
proof -
  let ?slot = "clock_slot (length fs) pos"
  obtain k where k: "k < length fs" "i = ?slot k" "candidate nd (fs ! i)" "lru_clock (fs ! i) \<noteq> 1"
      "\<forall>k' < k. candidate nd (fs ! ?slot k') \<longrightarrow> lru_clock (fs ! ?slot k') = 1"
    using assms(1) unfolding on_clock_def Let_def by blast
  obtain l where l: "l < length fs" "j = ?slot l" "candidate nd (fs ! j)" "lru_clock (fs ! j) \<noteq> 1"
      "\<forall>k' < l. candidate nd (fs ! ?slot k') \<longrightarrow> lru_clock (fs ! ?slot k') = 1"
    using assms(2) unfolding on_clock_def Let_def by blast
  have "\<not> k < l" "\<not> l < k" using k l by blast+
  with k(2) l(2) show ?thesis by simp
qed

subsection \<open>The configured policy\<close>

definition picks :: "env \<Rightarrow> byte list \<Rightarrow> server \<Rightarrow> nat \<Rightarrow> bool" where
  "picks e nd sv i \<longleftrightarrow>
     (let algo = ro_cache_miss_algorithm (shared sv) in
      if algo = ALGO_LFU then least (\<lambda>f. sint (lfu_frequency f)) INT_MAX nd (files sv) i
      else if algo = ALGO_LRU then on_clock nd (files sv) (lru_clock_pos (shared sv)) i
      else least fifo_creation_time (e_clock e (ticks sv)) nd (files sv) i)"

interpretation configured: eviction_policy evict picks
proof
  fix e nd sv i
  assume "picks e nd sv i"
  then show "i < length (files sv) \<and> candidate nd (files sv ! i)"
    using fifo.chosen lru.chosen lfu.chosen by (simp add: picks_def Let_def split: if_splits)
next
  fix e sv nd thread
  assume e: "good_env e" and inv: "server_inv sv"
  show "(\<forall>i. \<not> picks e nd sv i) \<and> outcome sv None (evict e thread nd sv (None, 0) (None, 0))
      \<or> (\<exists>i. picks e nd sv i \<and> outcome sv (Some i) (evict e thread nd sv (None, 0) (None, 0)))"
    using fifo.policy [OF e inv] lru.policy [OF e inv] lfu.policy [OF e inv]
    by (simp add: picks_def evict_def Let_def)
qed

subsection \<open>What cache_miss does\<close>

text \<open>The two fields of a victim as they are pushed on the answer.\<close>

definition file_fields :: "file_t \<Rightarrow> byte list" where
  "file_fields f = field (a_content (fabs f)) @ field (convert_slashes_to_underscores (name f @ [0]))"

lemma push_field_ok:
  assumes "db_inv (mdata m)" and "unat n = length d" and "length (db_stack (mdata m)) + length d + 8 < 2 ^ 62"
  obtains m1 m2 where "push_msg mem_ok m n (Some d) = (Inr (), m1)"
    "push_msg mem_ok m1 8 (Some (size_bytes n)) = (Inr (), m2)" "mtype m2 = mtype m"
    "db_inv (mdata m2)" "db_stack (mdata m2) = db_stack (mdata m) @ field d"
proof -
  have "unat n = unat (wlen d)" using assms(2,3) by (simp add: unat_wlen)
  then have n: "n = wlen d" by (rule unsigned_word_eqI)
  obtain m1 where m1: "push_msg mem_ok m n (Some d) = (Inr (), m1)" "mtype m1 = mtype m"
      "db_inv (mdata m1)" "db_stack (mdata m1) = db_stack (mdata m) @ d"
    using push_msg_ok [OF assms(1), of d n] assms(2,3) by auto
  obtain m2 where "push_msg mem_ok m1 8 (Some (size_bytes n)) = (Inr (), m2)" "mtype m2 = mtype m1"
      "db_inv (mdata m2)" "db_stack (mdata m2) = db_stack (mdata m1) @ size_bytes n"
    using push_msg_ok [OF m1(3), of "size_bytes n" 8] m1(4) assms(2,3) by auto
  with m1 n that show thesis by (simp add: field_def)
qed

lemma push_victim_ok:
  assumes m: "db_inv (mdata m)" and n: "unat n = length d" and k: "unat k = length s"
    and fits: "length (db_stack (mdata m)) + length d + length s + 16 < 2 ^ 62"
  obtains m' where "push_victim mem_ok (Some d, n) (Some s, k) m = (Inr (), m')" "mtype m' = mtype m"
    "db_inv (mdata m')" "db_stack (mdata m') = db_stack (mdata m) @ field d @ field s"
proof -
  obtain m1 m2 where a: "push_msg mem_ok m n (Some d) = (Inr (), m1)"
      "push_msg mem_ok m1 8 (Some (size_bytes n)) = (Inr (), m2)" "mtype m2 = mtype m"
      "db_inv (mdata m2)" "db_stack (mdata m2) = db_stack (mdata m) @ field d"
    using push_field_ok [OF m n] fits by auto
  have "length (db_stack (mdata m2)) + length s + 8 < 2 ^ 62" using a(5) fits by simp
  then obtain m3 m4 where "push_msg mem_ok m2 k (Some s) = (Inr (), m3)"
      "push_msg mem_ok m3 8 (Some (size_bytes k)) = (Inr (), m4)" "mtype m4 = mtype m2"
      "db_inv (mdata m4)" "db_stack (mdata m4) = db_stack (mdata m2) @ field s"
    using push_field_ok [OF a(4) k] by auto
  with a that show thesis by (simp add: push_victim_def)
qed

text \<open>There is room on the answer for every file that could still be evicted.\<close>

definition reply_room :: "net_msg \<Rightarrow> server \<Rightarrow> bool" where
  "reply_room out sv \<longleftrightarrow>
     db_inv (mdata out) \<and> length (db_stack (mdata out)) + used (files sv) + 300 * live (files sv) + 8 < 2 ^ 62"

lemma length_convert [simp]: "length (convert_slashes_to_underscores nm) = length nm"
  by (simp add: convert_slashes_to_underscores_def)

lemma cache_miss_spec:
  assumes e: "good_env e" and inv: "server_inv sv" and room: "reply_room out sv"
    and run: "cache_miss e thread nd sv out = (r, out', sv')"
  shows "((\<forall>i. \<not> picks e nd sv i) \<and> r = Inl ECANCELED \<and> out' = out \<and> server_inv sv'
          \<and> same_files (files sv') (files sv) \<and> shared sv' = shared sv)
       \<or> (\<exists>i. picks e nd sv i \<and> r = Inr () \<and> expelled sv i sv' \<and> reply_room out' sv'
          \<and> mtype out' = mtype out
          \<and> db_stack (mdata out') = db_stack (mdata out) @ file_fields (files sv ! i)
          \<and> same_files (files sv') ((files sv)[i := init_file_struct])
          \<and> same_conns (shared sv) (shared sv') \<and> ro_max_storage (shared sv') = ro_max_storage (shared sv)
          \<and> cache_miss_execs (shared sv') = cache_miss_execs (shared sv) + 1)"
proof -
  obtain r1 sv1 where ev: "evict e thread nd sv (None, 0) (None, 0) = (r1, sv1)"
    by (cases "evict e thread nd sv (None, 0) (None, 0)")
  consider (skip) "\<forall>i. \<not> picks e nd sv i" "outcome sv None (r1, sv1)"
    | (out) i where "picks e nd sv i" "outcome sv (Some i) (r1, sv1)"
    using configured.policy [OF e inv, of nd thread] ev by metis
  then show ?thesis
  proof cases
    case skip
    then show ?thesis
      using run ev outcome_None(1) [OF inv skip(2)] by (auto simp: cache_miss_def)
  next
    case out
    let ?f = "files sv ! i" and ?bump = "\<lambda>ss. ss\<lparr>cache_miss_execs := cache_miss_execs ss + 1\<rparr>"
    let ?d = "a_content (fabs ?f)" and ?s = "convert_slashes_to_underscores (name ?f @ [0])"
    have i: "i < length (files sv)" "candidate nd ?f" using configured.chosen [OF out(1)] by blast+
    then have ex: "existing ?f" by (simp add: candidate_def)
    have f: "file_inv ?f" by (rule store_inv_nth [OF server_inv_store [OF inv] i(1)])
    have X: "expelled sv i sv1" by (rule outcome_Some [OF inv i(1) ex out(2)])
    have len: "length (name ?f) \<le> 256" using f by (simp add: file_inv_def FILE_NAME_MAX_SIZE_def)
    have n: "unat (fsize ?f) = length ?d" "unat (wlen (name ?f @ [0])) = length ?s"
      using unat_fsize [OF f] len by (simp_all add: unat_wlen)
    have al: "e_alloc e = mem_ok" using e by (simp add: good_env_def)
    have m: "db_inv (mdata out)" and fits: "length (db_stack (mdata out)) + length ?d + length ?s + 16 < 2 ^ 62"
      using room X len by (simp_all add: reply_room_def expelled_def)
    obtain m' where m': "push_victim mem_ok (Some ?d, fsize ?f) (Some ?s, wlen (name ?f @ [0])) out = (Inr (), m')"
        "mtype m' = mtype out" "db_inv (mdata m')" "db_stack (mdata m') = db_stack (mdata out) @ field ?d @ field ?s"
      using push_victim_ok [OF m n fits] .
    have res: "r = Inr ()" "out' = m'" "sv' = on_shared ?bump sv1"
      using run ev out(2) m'(1) al by (simp_all add: cache_miss_def)
    have "server_inv (on_shared ?bump sv1) = server_inv sv1"
      by (simp add: server_inv_def counters_inv_def conns_inv_def conns_def)
    then have X': "expelled sv i sv'" using X res(3) by (simp add: expelled_def)
    moreover have "reply_room out' sv'"
      using room X' m'(3,4) res(2) len by (simp add: reply_room_def expelled_def)
    ultimately show ?thesis
      using out res m'(2,4) by (auto simp: file_fields_def same_conns_def)
  qed
qed

end
