(* ===== verification/Worker_Readn.thy ===== *)
theory Worker_Readn
  imports Eviction
begin

text \<open>
  The request for several files at once (\<open>do_readn_files\<close> of \<open>source/worker/worker_read.c\<close>):
  the handler walks through the slots, opens each file for the client, reads it, closes it again
  if it was closed before, and pushes its contents and its name on the answer. The theory shows
  which files are sent, and what happens to each file on the way: a file that was open without
  an owner stays owned by the reader.
\<close>

subsection \<open>The handler\<close>

text \<open>The local variables of the loop, with the server and the answer. \<open>rn_buf\<close> and \<open>rn_name\<close> are
  reused from one file to the next.\<close>

record readn_state =
  rn_sv :: server
  rn_out :: net_msg
  rn_buf :: outbuf
  rn_name :: outbuf
  rn_count :: size_t
  rn_total :: uint32

text \<open>Closing a file that was closed before it was read.\<close>

definition readn_close :: "env \<Rightarrow> int \<Rightarrow> nat \<Rightarrow> server \<Rightarrow> (errno + unit) \<times> server" where
  "readn_close e conn i sv =
     (case close_file (e_alloc e) (files sv ! i) conn 0 of
        (Inl err, f) \<Rightarrow>
          (if err \<noteq> ENOENT \<and> err \<noteq> EAGAIN then Inl err else Inr (), set_file i f sv)
      | (Inr diff, f) \<Rightarrow>
          (Inr (), if diff \<noteq> 0 then sub_storage diff (set_file i f sv) else set_file i f sv))"

text \<open>The four fields of one file. The name is converted in place.\<close>

definition readn_push ::
    "env \<Rightarrow> int \<Rightarrow> int \<Rightarrow> nat \<Rightarrow> errno \<Rightarrow> size_t \<Rightarrow> readn_state \<Rightarrow> (errno + unit) \<times> readn_state" where
  "readn_push e thread conn i error read_buf st =
     (case get_file_name (e_alloc e) (files (rn_sv st) ! i) (rn_name st) of
        Inl _ \<Rightarrow>
          (if error \<noteq> ENOENT
           then (Inl error, st\<lparr>rn_sv := do_log thread conn none_str STRING_READN_FILE ''File error.'' 0 0 (rn_sv st)\<rparr>)
           else (Inr (), st))
      | Inr (nm, read_name) \<Rightarrow>
          (case (if read_buf \<noteq> 0 then push_msg (e_alloc e) (rn_out st) read_buf (fst (rn_buf st))
                 else (Inr (), rn_out st)) of
             (Inl err, out) \<Rightarrow> (Inl err, st\<lparr>rn_name := nm, rn_out := out\<rparr>)
           | (Inr _, out) \<Rightarrow>
             (case push_msg (e_alloc e) out 8 (Some (size_bytes read_buf)) of
                (Inl err, out) \<Rightarrow> (Inl err, st\<lparr>rn_name := nm, rn_out := out\<rparr>)
              | (Inr _, out) \<Rightarrow>
                (let nm = (map_option convert_slashes_to_underscores (fst nm), snd nm);
                     st = st\<lparr>rn_name := nm, rn_total := rn_total st + ucast read_buf\<rparr>
                 in case push_msg (e_alloc e) out read_name (fst nm) of
                      (Inl err, out) \<Rightarrow> (Inl err, st\<lparr>rn_out := out\<rparr>)
                    | (Inr _, out) \<Rightarrow>
                      (case push_msg (e_alloc e) out 8 (Some (size_bytes read_name)) of
                         (Inl err, out) \<Rightarrow> (Inl err, st\<lparr>rn_out := out\<rparr>)
                       | (Inr _, out) \<Rightarrow> (Inr (), st\<lparr>rn_out := out, rn_count := rn_count st + 1\<rparr>))))))"

text \<open>One round of the loop. \<open>error\<close> is the \<open>errno\<close> read after \<open>read_file\<close>, which a successful
  call does not set.\<close>

definition readn_slot ::
    "env \<Rightarrow> int \<Rightarrow> int \<Rightarrow> nat \<Rightarrow> readn_state \<Rightarrow> (errno + unit) \<times> readn_state" where
  "readn_slot e thread conn i st =
     (let wasclosed = \<not> is_open_file (files (rn_sv st) ! i) in
      case open_file (e_alloc e) (files (rn_sv st) ! i) conn of
        (Inl err, f) \<Rightarrow>
          (if err \<noteq> ENOENT \<and> err \<noteq> EAGAIN then Inl err else Inr (), st\<lparr>rn_sv := set_file i f (rn_sv st)\<rparr>)
      | (Inr _, f) \<Rightarrow>
          (case read_file (e_alloc e) f conn (rn_buf st) of
             (res, f) \<Rightarrow>
               (case (if wasclosed then readn_close e conn i (set_file i f (rn_sv st))
                      else (Inr (), set_file i f (rn_sv st))) of
                  (Inl err, sv) \<Rightarrow> (Inl err, st\<lparr>rn_sv := sv\<rparr>)
                | (Inr _, sv) \<Rightarrow>
                    (case res of
                       Inr (buf, read_buf) \<Rightarrow>
                         readn_push e thread conn i (e_errno e) read_buf (st\<lparr>rn_sv := sv, rn_buf := buf\<rparr>)
                     | Inl error \<Rightarrow>
                         (if error \<noteq> EAGAIN \<and> error \<noteq> EPERM \<and> error \<noteq> ENOENT
                          then (Inl error, st\<lparr>rn_sv := do_log thread conn none_str STRING_READN_FILE ''File error.'' 0 0 sv\<rparr>)
                          else (Inr (), st\<lparr>rn_sv := sv\<rparr>))))))"

text \<open>\<open>k\<close> slots are left; \<open>i\<close> is the loop counter.\<close>

fun readn_files_loop ::
    "nat \<Rightarrow> env \<Rightarrow> int \<Rightarrow> int \<Rightarrow> int \<Rightarrow> nat \<Rightarrow> readn_state \<Rightarrow> (errno + unit) \<times> readn_state" where
  "readn_files_loop 0 e thread conn n i st = (Inr (), st)"
| "readn_files_loop (Suc k) e thread conn n i st =
     (if n \<le> 0 \<or> rn_count st < of_int n
      then (case readn_slot e thread conn i st of
              (Inl err, st) \<Rightarrow> (Inl err, st)
            | (Inr _, st) \<Rightarrow> readn_files_loop k e thread conn n (Suc i) st)
      else (Inr (), st))"

definition do_readn_files ::
    "env \<Rightarrow> int \<Rightarrow> int \<Rightarrow> net_msg \<Rightarrow> net_msg \<Rightarrow> nat \<Rightarrow> server \<Rightarrow> int \<times> net_msg \<times> server" where
  "do_readn_files e thread conn in_msg out_msg ci sv =
     (let sv = set_lastop ci [] sv; out = out_msg\<lparr>mtype := MESSAGE_RNFILE_ACK\<rparr> in
      case pop_buf (mdata in_msg) 4 (Some (replicate 4 0)) of
        (Inl _, _) \<Rightarrow> (-1, out, sv)
      | (Inr bs, _) \<Rightarrow>
          (case readn_files_loop (length (files sv)) e thread conn (sint (bytes_int bs)) 0
                  \<lparr>rn_sv = sv, rn_out = out, rn_buf = (None, 0), rn_name = (None, 0), rn_count = 0, rn_total = 0\<rparr> of
             (Inl _, st) \<Rightarrow> (-1, rn_out st, rn_sv st)
           | (Inr _, st) \<Rightarrow>
               (case push_msg (e_alloc e) (rn_out st) 8 (Some (size_bytes (rn_count st))) of
                  (Inl _, out) \<Rightarrow> (-1, out, rn_sv st)
                | (Inr _, out) \<Rightarrow>
                    (0, or_flag out MESSAGE_OP_SUCC,
                     do_log thread conn none_str STRING_READN_FILE ''Success.'' (rn_total st) 0 (rn_sv st)))))"

subsection \<open>One file\<close>

text \<open>What the round does to a file the client may read.\<close>

definition a_readn_op :: "int \<Rightarrow> afile \<Rightarrow> afile" where
  "a_readn_op who a = a\<lparr>a_owner := (if a_open a then who else OWNER_NULL)\<rparr>"

definition readable :: "int \<Rightarrow> file_t \<Rightarrow> bool" where
  "readable who f \<longleftrightarrow> existing f \<and> \<not> locked_out who (fabs f)"

lemma get_file_name_result:
  assumes f: "file_inv f" "existing f" and nm: "buf_ok nm"
  obtains nm' where "get_file_name mem_ok f nm = Inr (nm', wlen (name f @ [0]))" "buf_ok nm'"
    "take (Suc (length (name f))) (block (fst nm')) = name f @ [0]" "fst nm' \<noteq> None"
proof -
  let ?src = "name f @ [0]"
  let ?b = "if snd nm < wlen ?src then (Some (resize_block (unat (wlen ?src)) (block (fst nm))), wlen ?src) else nm"
  have "length (name f) \<le> 256" using f(1) by (simp add: file_inv_def FILE_NAME_MAX_SIZE_def)
  then have n: "unat (wlen ?src) = length ?src" by (simp add: unat_wlen)
  note R = resized_ok [OF nm n refl]
  have g: "get_file_name mem_ok f nm = Inr ((copy_to (fst ?b) ?src, snd ?b), wlen ?src)"
    using f(2) by (simp add: get_file_name_def Let_def mem_ok)
  have c: "take (length ?src) (block (copy_to (fst ?b) ?src)) = ?src" by (rule copy_to_ok(2) [OF R])
  have "fst ?b \<noteq> None" using R by (cases "fst ?b") (simp_all add: buf_ok_def)
  with that [OF g copy_to_ok(1) [OF R]] c show thesis by (simp add: copy_to_def)
qed

lemma convert_prefix:
  assumes "take (Suc (length s)) xs = s @ [0]" and "0 \<notin> set s" and "length s \<le> 256"
  shows "take (Suc (length s)) (convert_slashes_to_underscores xs) = convert_slashes_to_underscores (s @ [0])"
proof -
  have xs: "xs = s @ 0 # drop (Suc (length s)) xs"
    using append_take_drop_id [of "Suc (length s)" xs] assms(1) by simp
  have len: "length s \<le> FILE_NAME_MAX_SIZE" using assms(3) by (simp add: FILE_NAME_MAX_SIZE_def)
  show ?thesis
    unfolding convert_slashes_to_underscores_def
    by (subst xs) (simp add: slashes_cstr [OF len assms(2)] slashes_cstr [OF len assms(2), of "[]", simplified])
qed

text \<open>The room left on the answer for the slots from \<open>i\<close> on.\<close>

definition readn_room :: "nat \<Rightarrow> readn_state \<Rightarrow> bool" where
  "readn_room i st \<longleftrightarrow>
     db_inv (mdata (rn_out st))
   \<and> length (db_stack (mdata (rn_out st))) + used (drop i (files (rn_sv st)))
       + 300 * (length (files (rn_sv st)) - i) + 8 < 2 ^ 62"

definition readn_ok :: "nat \<Rightarrow> readn_state \<Rightarrow> bool" where
  "readn_ok i st \<longleftrightarrow>
     server_inv (rn_sv st) \<and> buf_ok (rn_buf st) \<and> buf_ok (rn_name st) \<and> readn_room i st"

lemma readn_push_ok:
  assumes e: "good_env e" and f: "file_inv (files (rn_sv st) ! i)" "existing (files (rn_sv st) ! i)"
    and nm: "buf_ok (rn_name st)" and m: "db_inv (mdata (rn_out st))"
    and d: "unat n = length d" "take (unat n) (block (fst (rn_buf st))) = d"
    and fits: "length (db_stack (mdata (rn_out st))) + length d + 300 < 2 ^ 62"
  shows "\<exists>out nm'. readn_push e thread conn i er n st
      = (Inr (), st\<lparr>rn_out := out, rn_name := nm', rn_count := rn_count st + 1, rn_total := rn_total st + ucast n\<rparr>)
    \<and> buf_ok nm' \<and> db_inv (mdata out) \<and> mtype out = mtype (rn_out st)
    \<and> db_stack (mdata out) = db_stack (mdata (rn_out st)) @ field d
        @ field (convert_slashes_to_underscores (name (files (rn_sv st) ! i) @ [0]))"
proof -
  let ?f = "files (rn_sv st) ! i" and ?out = "rn_out st"
  let ?s = "convert_slashes_to_underscores (name ?f @ [0])" and ?k = "wlen (name ?f @ [0])"
  have al: "e_alloc e = mem_ok" using e by (simp add: good_env_def)
  have len: "length (name ?f) \<le> 256" "0 \<notin> set (name ?f)"
    using f(1) by (simp_all add: file_inv_def FILE_NAME_MAX_SIZE_def)
  obtain nm' where g: "get_file_name mem_ok ?f (rn_name st) = Inr (nm', ?k)" "buf_ok nm'"
      "take (Suc (length (name ?f))) (block (fst nm')) = name ?f @ [0]" "fst nm' \<noteq> None"
    using get_file_name_result [OF f nm] .
  let ?nm = "map_option convert_slashes_to_underscores (fst nm')"
  have k: "unat ?k = length ?s" using len by (simp add: unat_wlen)
  have blk: "block ?nm = convert_slashes_to_underscores (block (fst nm'))" using g(4) by auto
  have conv: "take (unat ?k) (block ?nm) = ?s"
    using convert_prefix [OF g(3) len(2,1)] k blk by simp
  obtain m1 m2 where a: "(if n \<noteq> 0 then push_msg mem_ok ?out n (Some d) else (Inr (), ?out)) = (Inr (), m1)"
      "push_msg mem_ok m1 8 (Some (size_bytes n)) = (Inr (), m2)" "mtype m2 = mtype ?out"
      "db_inv (mdata m2)" "db_stack (mdata m2) = db_stack (mdata ?out) @ field d"
    using push_content_ok [OF m d(1)] fits by auto
  have "(if n \<noteq> 0 then push_msg mem_ok ?out n (fst (rn_buf st)) else (Inr (), ?out)) = (Inr (), m1)"
    using a(1) push_msg_block [OF d(2), of mem_ok ?out] d by (cases "fst (rn_buf st)") (auto simp: unat_eq_0)
  moreover obtain m3 m4 where b: "push_msg mem_ok m2 ?k (Some ?s) = (Inr (), m3)"
      "push_msg mem_ok m3 8 (Some (size_bytes ?k)) = (Inr (), m4)" "mtype m4 = mtype m2"
      "db_inv (mdata m4)" "db_stack (mdata m4) = db_stack (mdata m2) @ field ?s"
    using push_field_ok [OF a(4) k] a(5) fits len by auto
  moreover have "push_msg mem_ok m2 ?k ?nm = (Inr (), m3)"
    using push_msg_block [OF conv, of mem_ok m2] g(4) b(1) by simp
  ultimately have "readn_push e thread conn i er n st
      = (Inr (), st\<lparr>rn_out := m4, rn_name := (?nm, snd nm'), rn_count := rn_count st + 1, rn_total := rn_total st + ucast n\<rparr>)"
    using a(2) unfolding readn_push_def al g(1) by (simp add: Let_def split del: if_split)
  moreover have "buf_ok (?nm, snd nm')" using g(2) blk by (simp add: buf_ok_def)
  ultimately show ?thesis using a b by auto
qed

lemma readn_slot_skips:
  assumes "server_inv (rn_sv st)" and "i < length (files (rn_sv st))" and "0 < conn"
    and "\<not> readable conn (files (rn_sv st) ! i)"
  shows "readn_slot e thread conn i st = (Inr (), st)"
proof -
  have "\<exists>err. open_file (e_alloc e) (files (rn_sv st) ! i) conn = (Inl err, files (rn_sv st) ! i) \<and> err \<in> {ENOENT, EAGAIN}"
    using assms(3,4) by (auto simp: open_file_def readable_def locked_out_def)
  with assms(2) show ?thesis by (auto simp: readn_slot_def)
qed

text \<open>Opening, reading and closing a readable file.\<close>

lemma readn_file:
  assumes f: "file_inv f" and rd: "readable conn f" and conn: "0 < conn" and buf: "buf_ok buf"
  obtains f1 f2 b n where "open_file mem_ok f conn = (Inr (), f1)"
    "read_file mem_ok f1 conn buf = (Inr (b, n), f2)" "buf_ok b" "unat n = length (a_content (fabs f))"
    "take (unat n) (block (fst b)) = a_content (fabs f)"
    "is_open_file f \<longrightarrow> file_inv f2 \<and> existing f2 \<and> name f2 = name f \<and> fabs f2 = a_readn_op conn (fabs f)"
    "\<not> is_open_file f \<longrightarrow> (\<exists>f3. close_file mem_ok f2 conn 0 = (Inr 0, f3)
       \<and> file_inv f3 \<and> existing f3 \<and> name f3 = name f \<and> fabs f3 = a_readn_op conn (fabs f))"
proof -
  have ex: "existing f" and free: "\<not> locked_out conn (fabs f)" using rd by (simp_all add: readable_def)
  have w: "0 \<le> conn" using conn by simp
  let ?a = "(fabs f)\<lparr>a_owner := conn, a_open := True\<rparr>"
  have "a_open_op conn (fabs f) = Inr ?a" using free by (simp add: a_open_op_def)
  then obtain x f1 where o1: "open_file mem_ok f conn = (Inr x, f1)" "file_inv f1" "fabs f1 = ?a" "name f1 = name f"
      "existing f1"
    using fopen.run_ok [OF f ex w] by blast
  have "is_open_file f1 = a_open ?a" unfolding o1(3) [symmetric] by simp
  then have op: "is_open_file f1" "\<not> locked_out conn (fabs f1)"
    using o1(3) by (simp_all only: locked_out_def) simp_all
  have same: "a_content (fabs f1) = a_content (fabs f)" using o1(3) by simp
  obtain b where r: "read_file mem_ok f1 conn buf = (Inr (b, open_size f1), touch f1)" "buf_ok b"
      "take (unat (open_size f1)) (block (fst b)) = a_content (fabs f1)" "unat (open_size f1) = length (a_content (fabs f1))"
    using read_file_result [OF o1(2) op(1) w op(2) o1(5) buf] .
  show thesis
  proof (rule that [OF _ r(1,2)])
    show "open_file mem_ok f conn = (Inr (), f1)" using o1(1) by simp
    show "unat (open_size f1) = length (a_content (fabs f))" "take (unat (open_size f1)) (block (fst b)) = a_content (fabs f)"
      using r(3,4) same by simp_all
    show "is_open_file f \<longrightarrow> file_inv (touch f1) \<and> existing (touch f1) \<and> name (touch f1) = name f
        \<and> fabs (touch f1) = a_readn_op conn (fabs f)"
    proof
      assume "is_open_file f"
      then have "?a = a_readn_op conn (fabs f)" by (simp add: a_readn_op_def fabs_def)
      with o1 show "file_inv (touch f1) \<and> existing (touch f1) \<and> name (touch f1) = name f
        \<and> fabs (touch f1) = a_readn_op conn (fabs f)" by simp
    qed
    show "\<not> is_open_file f \<longrightarrow> (\<exists>f3. close_file mem_ok (touch f1) conn 0 = (Inr 0, f3)
       \<and> file_inv f3 \<and> existing f3 \<and> name f3 = name f \<and> fabs f3 = a_readn_op conn (fabs f))"
      (is "_ \<longrightarrow> ?closes")
    proof
      assume that: "\<not> is_open_file f"
      have t: "file_inv (touch f1)" "existing (touch f1)" using o1 by simp_all
      have "a_close_op conn ?a = Inr (a_readn_op conn (fabs f))"
        using that by (simp add: a_close_op_def locked_out_def a_readn_op_def fabs_def)
      then have "a_close_op conn (fabs (touch f1)) = Inr (a_readn_op conn (fabs f))" using o1(3) by simp
      then obtain d f3 where "close_file mem_ok (touch f1) conn 0 = (Inr d, f3)" "file_inv f3"
          "fabs f3 = a_readn_op conn (fabs f)" "name f3 = name f" "existing f3"
        using fclose.run_ok [OF t w] o1(4) by (metis touch_simps(2))
      with close_file_difference [OF t(1)] show ?closes by auto
    qed
  qed
qed

lemma readn_slot_reads:
  assumes e: "good_env e" and ok: "readn_ok i st" and i: "i < length (files (rn_sv st))" and conn: "0 < conn"
    and rd: "readable conn (files (rn_sv st) ! i)"
  shows "\<exists>st' f'. readn_slot e thread conn i st = (Inr (), st') \<and> readn_ok (Suc i) st'
    \<and> rn_sv st' = set_file i f' (rn_sv st) \<and> name f' = name (files (rn_sv st) ! i) \<and> existing f'
    \<and> fabs f' = a_readn_op conn (fabs (files (rn_sv st) ! i))
    \<and> rn_count st' = rn_count st + 1 \<and> mtype (rn_out st') = mtype (rn_out st)
    \<and> db_stack (mdata (rn_out st')) = db_stack (mdata (rn_out st)) @ file_fields (files (rn_sv st) ! i)"
proof -
  let ?sv = "rn_sv st" let ?f = "files (rn_sv st) ! i" let ?d = "a_content (fabs ?f)"
  have al: "e_alloc e = mem_ok" using e by (simp add: good_env_def)
  have ok': "server_inv ?sv" "buf_ok (rn_buf st)" "buf_ok (rn_name st)" "readn_room i st"
    using ok by (simp_all add: readn_ok_def)
  have f: "file_inv ?f" "existing ?f"
    using store_inv_nth [OF server_inv_store [OF ok'(1)] i] rd by (simp_all add: readable_def)
  obtain f1 b n f2 where F: "open_file mem_ok ?f conn = (Inr (), f1)"
      "read_file mem_ok f1 conn (rn_buf st) = (Inr (b, n), f2)" "buf_ok b" "unat n = length ?d"
      "take (unat n) (block (fst b)) = ?d"
      "is_open_file ?f \<longrightarrow> file_inv f2 \<and> existing f2 \<and> name f2 = name ?f \<and> fabs f2 = a_readn_op conn (fabs ?f)"
      "\<not> is_open_file ?f \<longrightarrow> (\<exists>f3. close_file mem_ok f2 conn 0 = (Inr 0, f3)
         \<and> file_inv f3 \<and> existing f3 \<and> name f3 = name ?f \<and> fabs f3 = a_readn_op conn (fabs ?f))"
    using readn_file [OF f(1) rd conn ok'(2)] .
  obtain f' where f': "file_inv f'" "existing f'" "name f' = name ?f" "fabs f' = a_readn_op conn (fabs ?f)"
      and phase: "(if \<not> is_open_file ?f then readn_close e conn i (set_file i f2 ?sv) else (Inr (), set_file i f2 ?sv))
        = (Inr (), set_file i f' ?sv)"
  proof (cases "is_open_file ?f")
    case True
    with F(6) show thesis by (intro that [of f2]) simp_all
  next
    case False
    with F(7) obtain f3 where f3: "close_file mem_ok f2 conn 0 = (Inr 0, f3)" "file_inv f3" "existing f3"
        "name f3 = name ?f" "fabs f3 = a_readn_op conn (fabs ?f)" by blast
    with i al have "readn_close e conn i (set_file i f2 ?sv) = (Inr (), set_file i f3 ?sv)"
      by (simp add: readn_close_def set_file_def)
    with False f3 show thesis by (intro that [of f3]) simp_all
  qed
  have len: "length (a_content (fabs f')) = length ?d" using f'(4) by (simp add: a_readn_op_def)
  note R = server_inv_replace [OF ok'(1) i f(2) f'(1-3) len]
  have drop_i: "drop i (files ?sv) = ?f # drop (Suc i) (files ?sv)" using i by (simp add: Cons_nth_drop_Suc)
  have un: "unat (fsize ?f) = length ?d" by (rule unat_fsize [OF f(1)])
  let ?st = "st\<lparr>rn_sv := set_file i f' ?sv, rn_buf := b\<rparr>"
  have room: "db_inv (mdata (rn_out st))"
      "length (db_stack (mdata (rn_out st))) + length ?d + used (drop (Suc i) (files ?sv))
         + 300 * (length (files ?sv) - i) + 8 < 2 ^ 62"
    using ok'(4) drop_i un by (simp_all add: readn_room_def used_def)
  then have "length (db_stack (mdata (rn_out ?st))) + length ?d + 300 < 2 ^ 62" using i by simp
  moreover have "files (rn_sv ?st) ! i = f'" using i by simp
  ultimately obtain out nm' where P: "readn_push e thread conn i (e_errno e) n ?st
      = (Inr (), ?st\<lparr>rn_out := out, rn_name := nm', rn_count := rn_count st + 1, rn_total := rn_total st + ucast n\<rparr>)"
      "buf_ok nm'" "db_inv (mdata out)" "mtype out = mtype (rn_out st)"
      "db_stack (mdata out) = db_stack (mdata (rn_out st)) @ file_fields ?f"
    using readn_push_ok [OF e, where st = ?st and i = i and n = n and d = ?d and conn = conn and thread = thread and er = "e_errno e"] f' ok'(3) room(1) F(4,5) by (auto simp: file_fields_def)
  let ?st' = "?st\<lparr>rn_out := out, rn_name := nm', rn_count := rn_count st + 1, rn_total := rn_total st + ucast n\<rparr>"
  have "readn_slot e thread conn i st = (Inr (), ?st')"
    using F(1,2) phase P(1) unfolding readn_slot_def al by (simp add: Let_def split del: if_split)
  moreover have "length (name ?f) \<le> 256" using f(1) by (simp add: file_inv_def FILE_NAME_MAX_SIZE_def)
  then have "readn_room (Suc i) ?st'"
    using room(2) i P(3,5) by (simp add: readn_room_def file_fields_def)
  ultimately show ?thesis
    using R(1) F(3) P f' by (intro exI [of _ ?st'] exI [of _ f']) (simp add: readn_ok_def)
qed

subsection \<open>All files\<close>

text \<open>The slots served from \<open>i\<close> on when \<open>m\<close> more files are wanted.\<close>

definition readn_from :: "int \<Rightarrow> nat \<Rightarrow> file_t list \<Rightarrow> nat \<Rightarrow> nat list" where
  "readn_from who m fs i = take m (filter (\<lambda>j. readable who (fs ! j)) [i..<length fs])"

text \<open>How the state after the loop relates to the one before: the slots \<open>js\<close> were served.\<close>

definition readn_done :: "int \<Rightarrow> nat list \<Rightarrow> readn_state \<Rightarrow> readn_state \<Rightarrow> bool" where
  "readn_done who js st st' \<longleftrightarrow>
     server_inv (rn_sv st') \<and> shared (rn_sv st') = shared (rn_sv st)
   \<and> length (files (rn_sv st')) = length (files (rn_sv st))
   \<and> (\<forall>j < length (files (rn_sv st)).
        name (files (rn_sv st') ! j) = name (files (rn_sv st) ! j)
      \<and> existing (files (rn_sv st') ! j) = existing (files (rn_sv st) ! j)
      \<and> fabs (files (rn_sv st') ! j)
          = (if j \<in> set js then a_readn_op who (fabs (files (rn_sv st) ! j)) else fabs (files (rn_sv st) ! j)))
   \<and> rn_count st' = rn_count st + of_nat (length js) \<and> mtype (rn_out st') = mtype (rn_out st)
   \<and> db_inv (mdata (rn_out st')) \<and> length (db_stack (mdata (rn_out st'))) + 8 < 2 ^ 62
   \<and> db_stack (mdata (rn_out st'))
       = db_stack (mdata (rn_out st)) @ concat (map (\<lambda>j. file_fields (files (rn_sv st) ! j)) js)"

lemma readn_done_stop: "readn_ok i st \<Longrightarrow> readn_done who [] st st"
  by (auto simp: readn_done_def readn_ok_def readn_room_def)

lemma readn_ok_Suc:
  assumes "readn_ok i st" and "i < length (files (rn_sv st))"
  shows "readn_ok (Suc i) st"
proof -
  have "used (drop (Suc i) (files (rn_sv st))) \<le> used (drop i (files (rn_sv st)))"
    using assms(2) by (simp add: used_def Cons_nth_drop_Suc [symmetric])
  with assms show ?thesis by (auto simp: readn_ok_def readn_room_def)
qed

lemma readn_from_step:
  assumes "i < length fs" and "0 < m"
  shows "readn_from who m fs i
    = (if readable who (fs ! i) then i # readn_from who (m - 1) fs (Suc i) else readn_from who m fs (Suc i))"
  using assms by (cases m) (simp_all add: readn_from_def upt_conv_Cons)

lemma readn_from_after:
  "length fs' = length fs \<Longrightarrow> (\<And>j. i \<le> j \<Longrightarrow> fs' ! j = fs ! j) \<Longrightarrow> readn_from who m fs' i = readn_from who m fs i"
  unfolding readn_from_def by (intro arg_cong [of _ _ "take m"] filter_cong) auto

lemma readn_from_range: "j \<in> set (readn_from who m fs i) \<Longrightarrow> i \<le> j \<and> j < length fs"
  by (auto simp: readn_from_def dest: in_set_takeD)

text \<open>The slots still to come are not affected by a slot served before.\<close>

lemma readn_done_step:
  assumes st1: "rn_sv st1 = set_file i f (rn_sv st)" "name f = name (files (rn_sv st) ! i)" "existing f"
      "existing (files (rn_sv st) ! i)" "fabs f = a_readn_op who (fabs (files (rn_sv st) ! i))"
      "rn_count st1 = rn_count st + 1" "mtype (rn_out st1) = mtype (rn_out st)"
      "db_stack (mdata (rn_out st1)) = db_stack (mdata (rn_out st)) @ file_fields (files (rn_sv st) ! i)"
    and later: "\<And>j. j \<in> set js \<Longrightarrow> i < j" and i: "i < length (files (rn_sv st))"
    and rest: "readn_done who js st1 st'"
  shows "readn_done who (i # js) st st'"
proof -
  let ?fs = "files (rn_sv st)" and ?fs1 = "files (rn_sv st1)" and ?fs' = "files (rn_sv st')"
  have nth: "?fs1 ! j = (if j = i then f else ?fs ! j)" for j using st1(1) i by simp
  have R: "server_inv (rn_sv st')" "shared (rn_sv st') = shared (rn_sv st)" "length ?fs' = length ?fs"
      "rn_count st' = rn_count st1 + of_nat (length js)" "mtype (rn_out st') = mtype (rn_out st)"
      "db_inv (mdata (rn_out st'))"
      "db_stack (mdata (rn_out st')) = db_stack (mdata (rn_out st1)) @ concat (map (\<lambda>j. file_fields (?fs1 ! j)) js)"
    using rest st1(1,7) by (simp_all add: readn_done_def)
  have room: "length (db_stack (mdata (rn_out st'))) + 8 < 2 ^ 62"
    using rest unfolding readn_done_def by blast
  have slots: "name (?fs' ! j) = name (?fs1 ! j) \<and> existing (?fs' ! j) = existing (?fs1 ! j)
      \<and> fabs (?fs' ! j) = (if j \<in> set js then a_readn_op who (fabs (?fs1 ! j)) else fabs (?fs1 ! j))"
    if "j < length ?fs" for j
    using rest that st1(1) by (simp add: readn_done_def del: owner_consts)
  have "i \<notin> set js" using later by blast
  have "name (?fs' ! j) = name (?fs ! j) \<and> existing (?fs' ! j) = existing (?fs ! j)
      \<and> fabs (?fs' ! j) = (if j \<in> set (i # js) then a_readn_op who (fabs (?fs ! j)) else fabs (?fs ! j))"
    if "j < length ?fs" for j
    using slots [OF that] nth [of j] st1(2-5) \<open>i \<notin> set js\<close> by (cases "j = i") (simp_all del: owner_consts)
  moreover have "concat (map (\<lambda>j. file_fields (?fs1 ! j)) js) = concat (map (\<lambda>j. file_fields (?fs ! j)) js)"
    using \<open>i \<notin> set js\<close> nth by (intro arg_cong [of _ _ concat] map_cong) auto
  ultimately show ?thesis
    using R st1(6,8) room unfolding readn_done_def by simp
qed

lemma readn_guard:
  assumes "c \<le> N" and "N < 2 ^ 31" and "n < 2 ^ 31" and "lim = (if n \<le> 0 then Suc N else nat n)"
  shows "(n \<le> 0 \<or> (of_nat c :: size_t) < of_int n) \<longleftrightarrow> c < lim"
proof (cases "n \<le> 0")
  case False
  then have n: "of_int n = (of_nat (nat n) :: size_t)" by simp
  have "unat (of_nat c :: size_t) = c" "unat (of_nat (nat n) :: size_t) = nat n"
    using assms(1-3) by (simp_all add: unsigned_of_nat take_bit_nat_eq_self)
  with False assms(4) show ?thesis unfolding n by (simp add: word_less_nat_alt)
qed (use assms in auto)

lemma readn_files_loop_done:
  assumes e: "good_env e" and conn: "0 < conn" and n: "n < 2 ^ 31"
  shows "readn_ok i st \<Longrightarrow> k = length (files (rn_sv st)) - i \<Longrightarrow> i \<le> length (files (rn_sv st)) \<Longrightarrow>
    rn_count st = of_nat c \<Longrightarrow> c \<le> i \<Longrightarrow>
    \<exists>st'. readn_files_loop k e thread conn n i st = (Inr (), st')
      \<and> readn_done conn (readn_from conn ((if n \<le> 0 then Suc (length (files (rn_sv st))) else nat n) - c)
            (files (rn_sv st)) i) st st'"
proof (induction k arbitrary: i st c)
  case 0
  then have "readn_from conn m (files (rn_sv st)) i = []" for m by (simp add: readn_from_def)
  with 0 readn_done_stop show ?case by simp
next
  case (Suc k)
  let ?fs = "files (rn_sv st)"
  let ?lim = "if n \<le> 0 then Suc (length ?fs) else nat n"
  have inv: "server_inv (rn_sv st)" using Suc.prems(1) by (simp add: readn_ok_def)
  then have N: "length ?fs < 2 ^ 31" by (simp add: server_inv_def counters_inv_def)
  have i: "i < length ?fs" using Suc.prems(2,3) by simp
  have g: "(n \<le> 0 \<or> rn_count st < of_int n) \<longleftrightarrow> c < ?lim"
    using readn_guard [OF _ N n refl, of c] Suc.prems(4,5) i by simp
  show ?case
  proof (cases "c < ?lim")
    case False
    with g have "readn_files_loop (Suc k) e thread conn n i st = (Inr (), st)" by simp
    moreover have "readn_from conn (?lim - c) ?fs i = []" using False by (simp add: readn_from_def)
    ultimately show ?thesis using readn_done_stop [OF Suc.prems(1)] by simp
  next
    case True
    then have lim: "0 < ?lim - c" by simp
    note js = readn_from_step [OF i lim, of conn]
    show ?thesis
    proof (cases "readable conn (?fs ! i)")
      case False
      have "readn_files_loop (Suc k) e thread conn n i st = readn_files_loop k e thread conn n (Suc i) st"
        using g True readn_slot_skips [OF inv i conn False] by simp
      moreover have "k = length ?fs - Suc i" "Suc i \<le> length ?fs" "c \<le> Suc i" using Suc.prems(2,5) i by simp_all
      note Suc.IH [OF readn_ok_Suc [OF Suc.prems(1) i] this(1,2) Suc.prems(4) this(3)]
      ultimately show ?thesis using js False by (simp split del: if_split)
    next
      case rd: True
      obtain st1 f where s: "readn_slot e thread conn i st = (Inr (), st1)" "readn_ok (Suc i) st1"
          "rn_sv st1 = set_file i f (rn_sv st)" "name f = name (?fs ! i)" "existing f"
          "fabs f = a_readn_op conn (fabs (?fs ! i))" "rn_count st1 = rn_count st + 1"
          "mtype (rn_out st1) = mtype (rn_out st)"
          "db_stack (mdata (rn_out st1)) = db_stack (mdata (rn_out st)) @ file_fields (?fs ! i)"
        using readn_slot_reads [OF e Suc.prems(1) i conn rd] by blast
      have len: "length (files (rn_sv st1)) = length ?fs" using s(3) by simp
      have same: "readn_from conn m (files (rn_sv st1)) (Suc i) = readn_from conn m ?fs (Suc i)" for m
        by (rule readn_from_after [OF len]) (use s(3) in simp)
      obtain st' where st': "readn_files_loop k e thread conn n (Suc i) st1 = (Inr (), st')"
          "readn_done conn (readn_from conn (?lim - Suc c) ?fs (Suc i)) st1 st'"
      proof -
        have "k = length (files (rn_sv st1)) - Suc i" "Suc i \<le> length (files (rn_sv st1))"
            "rn_count st1 = of_nat (Suc c)" "Suc c \<le> Suc i"
          using Suc.prems(2,4,5) len s(7) i by simp_all
        from Suc.IH [OF s(2) this] that show thesis unfolding len same by blast
      qed
      have later: "i < j" if "j \<in> set (readn_from conn (?lim - Suc c) ?fs (Suc i))" for j
        using readn_from_range [OF that] by simp
      have "existing (?fs ! i)" using rd by (simp add: readable_def)
      from readn_done_step [OF s(3-5) this s(6-9) later i st'(2)]
      have "readn_done conn (readn_from conn (?lim - c) ?fs i) st st'" using js rd by simp
      with g True s(1) st'(1) show ?thesis by auto
    qed
  qed
qed

text \<open>The number in the request: at most this many files are wanted; all of them if it is not
  positive.\<close>

definition readn_limit :: "int \<Rightarrow> file_t list \<Rightarrow> nat" where
  "readn_limit n fs = (if n \<le> 0 then Suc (length fs) else nat n)"

lemma do_readn_files_serves:
  assumes e: "good_env e" and inv: "server_inv sv" and out: "fresh out" and conn: "0 < conn"
    and rq: "pop_buf (mdata in_msg) 4 (Some (replicate 4 0)) = (Inr bs, b)"
  defines "js \<equiv> readn_from conn (readn_limit (sint (bytes_int bs)) (files sv)) (files sv) 0"
  shows "\<exists>out' sv'. do_readn_files e thread conn in_msg out ci sv = (0, out', sv') \<and> server_inv sv'
    \<and> mtype out' = MESSAGE_RNFILE_ACK OR MESSAGE_OP_SUCC
    \<and> db_stack (mdata out') = concat (map (\<lambda>j. file_fields (files sv ! j)) js) @ size_bytes (of_nat (length js))
    \<and> (\<forall>s. sabs sv' s = map_option (\<lambda>a. if s \<in> (\<lambda>j. name (files sv ! j)) ` set js
                                         then a_readn_op conn a else a) (sabs sv s))
    \<and> shared sv' = shared (set_lastop ci [] sv)"
proof -
  let ?n = "sint (bytes_int bs)"
  let ?st = "\<lparr>rn_sv = set_lastop ci [] sv, rn_out = out\<lparr>mtype := MESSAGE_RNFILE_ACK\<rparr>, rn_buf = (None, 0),
      rn_name = (None, 0), rn_count = 0, rn_total = 0\<rparr>"
  have n: "?n < 2 ^ 31" using sint_lt [of "bytes_int bs"] by simp
  have "length (files sv) < 2 ^ 31" "used (files sv) < 2 ^ 61"
    using inv by (simp_all add: server_inv_def counters_inv_def)
  then have ok: "readn_ok 0 ?st"
    using inv out by (simp add: readn_ok_def readn_room_def fresh_def buf_ok_def)
  obtain st' where st': "readn_files_loop (length (files sv)) e thread conn ?n 0 ?st = (Inr (), st')"
      "readn_done conn js ?st st'"
    using readn_files_loop_done [OF e conn n ok, of "length (files sv)" 0] by (auto simp: js_def readn_limit_def cong: if_cong)
  have D: "server_inv (rn_sv st')" "shared (rn_sv st') = shared (set_lastop ci [] sv)"
      "length (files (rn_sv st')) = length (files sv)" "rn_count st' = of_nat (length js)"
      "mtype (rn_out st') = MESSAGE_RNFILE_ACK" "db_inv (mdata (rn_out st'))"
      "db_stack (mdata (rn_out st')) = concat (map (\<lambda>j. file_fields (files sv ! j)) js)"
    using st'(2) out by (simp_all add: readn_done_def fresh_def)
  have room: "length (db_stack (mdata (rn_out st'))) + 8 < 2 ^ 62"
    using st'(2) unfolding readn_done_def by blast
  have slots: "name (files (rn_sv st') ! j) = name (files sv ! j)
      \<and> existing (files (rn_sv st') ! j) = existing (files sv ! j)
      \<and> (existing (files sv ! j) \<longrightarrow>
           fabs (files (rn_sv st') ! j) = (if j \<in> set js then a_readn_op conn (fabs (files sv ! j)) else fabs (files sv ! j)))"
    if "j < length (files sv)" for j
    using st'(2) that by (simp add: readn_done_def del: owner_consts)
  have J: "j < length (files sv) \<and> existing (files sv ! j)" if "j \<in> set js" for j
    using that by (auto simp: js_def readn_from_def readable_def dest!: in_set_takeD)
  have un: "unique_names (files sv)" "unique_names (files (rn_sv st'))"
    using server_inv_store [OF inv] server_inv_store [OF D(1)] by (simp_all add: store_inv_def)
  note abs = store_abs_slotwise [OF un D(3) slots J]
  obtain m where m: "push_msg mem_ok (rn_out st') 8 (Some (size_bytes (rn_count st'))) = (Inr (), m)"
      "mtype m = mtype (rn_out st')" "db_stack (mdata m) = db_stack (mdata (rn_out st')) @ size_bytes (rn_count st')"
    using push_msg_ok [OF D(6), of "size_bytes (rn_count st')" 8] room by auto
  have al: "e_alloc e = mem_ok" using e by (simp add: good_env_def)
  have "do_readn_files e thread conn in_msg out ci sv = (0, or_flag m MESSAGE_OP_SUCC,
      do_log thread conn none_str STRING_READN_FILE ''Success.'' (rn_total st') 0 (rn_sv st'))"
    using rq st'(1) m(1) unfolding do_readn_files_def al by (simp add: Let_def)
  then show ?thesis using D m abs by simp
qed

end
