(* ===== verification/Evict_Loop.thy ===== *)
theory Evict_Loop
  imports Worker_Write
begin

text \<open>
  The loop of \<open>do_cache_miss\<close>: its invariant (which files are gone, what the answer carries,
  which slots are untouched), what holds when it returns, that it returns when the data fits
  beside what may not be evicted and the policy makes progress, and that it never returns
  when nothing can be evicted.
\<close>

subsection \<open>The invariant of the eviction loop\<close>

text \<open>A file of the store that charges some bytes.\<close>

definition stored_file :: "server \<Rightarrow> file_t \<Rightarrow> bool" where
  "stored_file sv f \<longleftrightarrow> sabs sv (name f) = Some (fabs f) \<and> a_content (fabs f) \<noteq> []"

text \<open>A candidate among the slots is such a file.\<close>

lemma candidate_stored:
  assumes inv: "server_inv sv" and i: "i < length (files sv)" "candidate nd (files sv ! i)"
  shows "stored_file sv (files sv ! i)"
proof -
  have "unique_names (files sv)" "file_inv (files sv ! i)"
    using server_inv_store [OF inv] i(1) by (simp_all add: store_inv_def)
  moreover have "existing (files sv ! i)" "fsize (files sv ! i) \<noteq> 0" using i(2) by (simp_all add: candidate_def)
  ultimately show ?thesis
    using store_abs_nth [OF _ i(1)] unat_fsize [of "files sv ! i"] by (auto simp: stored_file_def unat_eq_0)
qed

text \<open>After evicting \<open>vs\<close>, starting from \<open>sv0\<close> and \<open>out0\<close>.\<close>

definition evict_inv :: "byte list \<Rightarrow> server \<Rightarrow> net_msg \<Rightarrow> file_t list \<Rightarrow> server \<Rightarrow> net_msg \<Rightarrow> bool" where
  "evict_inv nd sv0 out0 vs sv out \<longleftrightarrow>
     server_inv sv \<and> reply_room out sv \<and> mtype out = mtype out0
   \<and> db_stack (mdata out) = db_stack (mdata out0) @ concat (map file_fields vs)
   \<and> sabs sv = (sabs sv0) |` (- name ` set vs)
   \<and> (\<forall>f \<in> set vs. candidate nd f \<and> stored_file sv0 f)
   \<and> used (files sv) + sum_list (map (\<lambda>f. length (a_content (fabs f))) vs) = used (files sv0)
   \<and> live (files sv) + length vs = live (files sv0)
   \<and> length (files sv) = length (files sv0)
   \<and> (\<forall>i < length (files sv). \<not> candidate nd (files sv0 ! i) \<longrightarrow> unclock (files sv ! i) = unclock (files sv0 ! i))
   \<and> ro_max_storage (shared sv) = ro_max_storage (shared sv0)
   \<and> same_conns (shared sv0) (shared sv)"

lemma evict_inv_start: "server_inv sv \<Longrightarrow> reply_room out sv \<Longrightarrow> evict_inv nd sv out [] sv out"
  by (simp add: evict_inv_def restrict_map_def)

lemma evict_inv_skip:
  assumes I: "evict_inv nd sv0 out0 vs sv out" and inv: "server_inv sv'"
    and sf: "same_files (files sv') (files sv)" and sh: "shared sv' = shared sv"
  shows "evict_inv nd sv0 out0 vs sv' out"
proof -
  note eq = same_files_eq [OF sf]
  have "unclock (files sv' ! i) = unclock (files sv ! i)" if "i < length (files sv')" for i
    by (rule same_files_nth [OF sf that])
  moreover have "reply_room out sv" using I by (simp add: evict_inv_def)
  then have "reply_room out sv'" using eq by (simp add: reply_room_def)
  ultimately show ?thesis using I inv sh eq by (simp add: evict_inv_def)
qed

lemma evict_inv_out:
  assumes I: "evict_inv nd sv0 out0 vs sv out" and i: "i < length (files sv)" "candidate nd (files sv ! i)"
    and X: "expelled sv i sv'" and room: "reply_room out' sv'" and ty: "mtype out' = mtype out"
    and st: "db_stack (mdata out') = db_stack (mdata out) @ file_fields (files sv ! i)"
    and sf: "same_files (files sv') ((files sv)[i := init_file_struct])"
    and sh: "same_conns (shared sv) (shared sv')" "ro_max_storage (shared sv') = ro_max_storage (shared sv)"
  shows "evict_inv nd sv0 out0 (vs @ [files sv ! i]) sv' out'"
proof -
  have n: "length (files sv') = length (files sv)" using same_files_eq(5) [OF sf] by simp
  have "unclock (files sv' ! j) = unclock (files sv0 ! j)"
    if j: "j < length (files sv)" "\<not> candidate nd (files sv0 ! j)" for j
  proof -
    have old: "unclock (files sv ! j) = unclock (files sv0 ! j)"
      using I j by (simp add: evict_inv_def)
    then have "\<not> candidate nd (files sv ! j)" using j(2) unclock_simps(9) by metis
    then have "i \<noteq> j" using i(2) by auto
    with same_files_nth [OF sf, of j] j(1) n old show ?thesis by simp
  qed
  moreover have "((sabs sv0) |` (- name ` set vs))(name (files sv ! i) := None) =
      (sabs sv0) |` (- name ` set (vs @ [files sv ! i]))"
    by (auto simp: restrict_map_def fun_eq_iff)
  moreover have "sabs sv' = (sabs sv)(name (files sv ! i) := None)" "server_inv sv'"
      "used (files sv') + length (a_content (fabs (files sv ! i))) = used (files sv)"
      "Suc (live (files sv')) = live (files sv)"
    using X by (simp_all add: expelled_def)
  moreover have "stored_file sv0 (files sv ! i)"
  proof -
    have "server_inv sv" "sabs sv = (sabs sv0) |` (- name ` set vs)" using I by (simp_all add: evict_inv_def)
    with candidate_stored [OF _ i] show ?thesis by (auto simp: stored_file_def restrict_map_def split: if_splits)
  qed
  ultimately show ?thesis
    using I i(2) n room ty st sh same_conns_trans by (auto simp: evict_inv_def)
qed

lemma evict_inv_step:
  assumes e: "good_env e" and I: "evict_inv nd sv0 out0 vs sv out"
    and run: "cache_miss e thread nd sv out = (r, out', sv')"
  shows "(r = Inl ECANCELED \<and> (\<forall>i. \<not> picks e nd sv i) \<and> evict_inv nd sv0 out0 vs sv' out')
       \<or> (r = Inr () \<and> (\<exists>i. picks e nd sv i \<and> evict_inv nd sv0 out0 (vs @ [files sv ! i]) sv' out'))"
proof -
  have inv: "server_inv sv" "reply_room out sv" using I by (simp_all add: evict_inv_def)
  from cache_miss_spec [OF e inv run] show ?thesis
  proof (elim disjE exE conjE)
    assume "\<forall>i. \<not> picks e nd sv i" "r = Inl ECANCELED" "out' = out" "server_inv sv'"
      "same_files (files sv') (files sv)" "shared sv' = shared sv"
    with evict_inv_skip [OF I] show ?thesis by simp
  next
    fix i
    assume c: "picks e nd sv i" "r = Inr ()" "expelled sv i sv'" "reply_room out' sv'" "mtype out' = mtype out"
      "db_stack (mdata out') = db_stack (mdata out) @ file_fields (files sv ! i)"
      "same_files (files sv') ((files sv)[i := init_file_struct])"
      "same_conns (shared sv) (shared sv')" "ro_max_storage (shared sv') = ro_max_storage (shared sv)"
    then have "i < length (files sv) \<and> candidate nd (files sv ! i)" using configured.chosen by blast
    with evict_inv_out [OF I] c show ?thesis by blast
  qed
qed

text \<open>A partial-correctness rule for the loop: an invariant and what it gives at the exit.\<close>

lemma evict_loop_rule:
  assumes run: "evict_loop e thread nd n count out sv = Some res" and start: "I count out sv"
    and step: "\<And>count out sv r out' sv'. I count out sv \<Longrightarrow>
        ro_max_storage (shared sv) < current_storage (shared sv) + n \<Longrightarrow>
        cache_miss e thread nd sv out = (r, out', sv') \<Longrightarrow>
        (r = Inr () \<and> I (count + 1) out' sv') \<or> (r = Inl ECANCELED \<and> I count out' sv')"
    and exit: "\<And>count out sv. I count out sv \<Longrightarrow>
        \<not> ro_max_storage (shared sv) < current_storage (shared sv) + n \<Longrightarrow> Q (Inr count, out, sv)"
  shows "Q res"
proof -
  have "(e', thread', nd', n') = (e, thread, nd, n) \<longrightarrow> I count out sv \<longrightarrow> Q res"
    if "evict_loop e' thread' nd' n' count out sv = Some res" for e' thread' nd' n'
    using that
  proof (rule evict_loop.raw_induct [where P = "\<lambda>e' thread' nd' n' count out sv res.
      (e', thread', nd', n') = (e, thread, nd, n) \<longrightarrow> I count out sv \<longrightarrow> Q res", rotated], intro impI)
    fix loop e' thread' nd' n' count out sv res
    assume IH: "\<And>e' thread' nd' n' count out sv res. loop e' thread' nd' n' count out sv = Some res \<Longrightarrow>
          (e', thread', nd', n') = (e, thread, nd, n) \<longrightarrow> I count out sv \<longrightarrow> Q res"
      and body: "(if ro_max_storage (shared sv) < current_storage (shared sv) + n'
          then case cache_miss e' thread' nd' sv out of (r, out, sv) \<Rightarrow>
            (case r of Inr _ \<Rightarrow> loop e' thread' nd' n' (count + 1) out sv
             | Inl err \<Rightarrow> if err \<noteq> ECANCELED then Some (Inl err, out, sv)
                 else loop e' thread' nd' n' count out sv)
          else Some (Inr count, out, sv)) = Some res"
      and eq: "(e', thread', nd', n') = (e, thread, nd, n)" and I: "I count out sv"
    show "Q res"
    proof (cases "ro_max_storage (shared sv) < current_storage (shared sv) + n")
      case False
      with body exit [OF I] eq show ?thesis by simp
    next
      case True
      obtain r out1 sv1 where cm: "cache_miss e thread nd sv out = (r, out1, sv1)"
        by (cases "cache_miss e thread nd sv out")
      from step [OF I True cm] show ?thesis
        using body True cm eq IH by (elim disjE conjE) simp_all
    qed
  qed
  with run start show ?thesis by blast
qed

subsection \<open>When the loop returns, the data fits\<close>

definition loop_done :: "server \<Rightarrow> net_msg \<Rightarrow> byte list \<Rightarrow> size_t \<Rightarrow> (errno + size_t) \<times> net_msg \<times> server \<Rightarrow> bool" where
  "loop_done sv0 out0 nd n res \<longleftrightarrow>
     (\<exists>vs out sv. res = (Inr (of_nat (length vs)), out, sv) \<and> evict_inv nd sv0 out0 vs sv out
        \<and> \<not> ro_max_storage (shared sv) < current_storage (shared sv) + n)"

lemma evict_loop_result:
  assumes e: "good_env e" and run: "evict_loop e thread nd n (of_nat (length vs)) out sv = Some res"
    and I: "evict_inv nd sv0 out0 vs sv out"
  shows "loop_done sv0 out0 nd n res"
  using run
proof (rule evict_loop_rule)
  show "\<exists>ws. of_nat (length vs) = (of_nat (length ws) :: size_t) \<and> evict_inv nd sv0 out0 ws sv out"
    using I by blast
next
  fix count out sv r out' sv'
  assume "\<exists>ws. count = of_nat (length ws) \<and> evict_inv nd sv0 out0 ws sv out"
  then obtain ws where ws: "count = of_nat (length ws)" "evict_inv nd sv0 out0 ws sv out" by blast
  have grow: "count + 1 = of_nat (length (ws @ [f]))" for f :: file_t using ws(1) by (simp add: add.commute)
  assume "cache_miss e thread nd sv out = (r, out', sv')"
  from evict_inv_step [OF e ws(2) this] ws(1) grow
  show "(r = Inr () \<and> (\<exists>ws. count + 1 = of_nat (length ws) \<and> evict_inv nd sv0 out0 ws sv' out'))
      \<or> (r = Inl ECANCELED \<and> (\<exists>ws. count = of_nat (length ws) \<and> evict_inv nd sv0 out0 ws sv' out'))"
    by blast
qed (auto simp: loop_done_def)

text \<open>Nothing to evict and no room: the loop never returns, whatever the policy.\<close>

lemma evict_loop_stuck:
  assumes e: "good_env e" and inv: "server_inv sv" "reply_room out sv"
    and none: "\<forall>f \<in> set (files sv). \<not> candidate nd f"
    and full: "ro_max_storage (shared sv) < current_storage (shared sv) + n"
  shows "evict_loop e thread nd n count out sv = None"
proof -
  let ?I = "\<lambda>(count :: size_t) out' sv'. server_inv sv' \<and> out' = out \<and> same_files (files sv') (files sv)
              \<and> shared sv' = shared sv"
  have False if "evict_loop e thread nd n count out sv = Some res" for res
    using that
  proof (rule evict_loop_rule [where I = ?I])
    fix count out' sv1 r out2 sv2
    assume I: "?I count out' sv1" and cm: "cache_miss e thread nd sv1 out' = (r, out2, sv2)"
    have "map (candidate nd) (map unclock (files sv1)) = map (candidate nd) (map unclock (files sv))"
      using I by (simp add: same_files_def)
    then have "map (candidate nd) (files sv1) = map (candidate nd) (files sv)" by (simp add: comp_def)
    moreover have "i < length (files sv1) \<and> candidate nd (files sv1 ! i)" if "picks e nd sv1 i" for i
      using configured.chosen that by blast
    ultimately have "\<not> picks e nd sv1 i" for i
      using none by (metis length_map nth_map nth_mem)
    moreover have "reply_room out' sv1"
      using I inv(2) same_files_eq(3,4) by (auto simp: reply_room_def)
    moreover have "server_inv sv1" using I by simp
    ultimately have "r = Inl ECANCELED" "out2 = out'" "server_inv sv2" "shared sv2 = shared sv1"
        "same_files (files sv2) (files sv1)"
      using cache_miss_spec [OF e _ _ cm] by blast+
    moreover from this(5) have "same_files (files sv2) (files sv)"
      using I by (blast intro: same_files_trans)
    ultimately show "(r = Inr () \<and> ?I (count + 1) out2 sv2) \<or> (r = Inl ECANCELED \<and> ?I count out2 sv2)"
      using I by simp
  qed (use inv full in auto)
  then show ?thesis by (cases "evict_loop e thread nd n count out sv") auto
qed

subsection \<open>When the loop returns\<close>

text \<open>The bytes the policy may not free, and progress: from \<open>sv\<close>, at most \<open>k\<close> rounds find
  nothing to evict as long as there is a candidate. FIFO waits until the clock has passed the
  creation times, the second-chance clock needs one round to clear its bits, and LFU sees
  every candidate whose frequency is below \<open>INT_MAX\<close>.\<close>

definition kept :: "byte list \<Rightarrow> file_t list \<Rightarrow> nat" where
  "kept nd fs = sum_list (map (\<lambda>f. if candidate nd f then 0 else unat (fsize f)) fs)"

definition ready :: "env \<Rightarrow> byte list \<Rightarrow> nat \<Rightarrow> server \<Rightarrow> bool" where
  "ready e nd k sv \<longleftrightarrow>
     (\<forall>f \<in> set (files sv). candidate nd f \<longrightarrow>
        (let algo = ro_cache_miss_algorithm (shared sv) in
         if algo = ALGO_LFU then sint (lfu_frequency f) < INT_MAX
         else if algo = ALGO_LRU then k = 0 \<longrightarrow> lru_clock f \<noteq> 1
         else \<forall>t \<ge> ticks sv + k. fifo_creation_time f < e_clock e t))"

lemma kept_same: "same_files fs fs' \<Longrightarrow> kept nd fs = kept nd fs'"
proof -
  assume "same_files fs fs'"
  then have "kept nd (map unclock fs) = kept nd (map unclock fs')" by (simp add: same_files_def)
  then show ?thesis by (simp add: kept_def comp_def cong: if_cong)
qed

lemma kept_out: "i < length fs \<Longrightarrow> candidate nd (fs ! i) \<Longrightarrow> kept nd (fs[i := init_file_struct]) = kept nd fs"
  using sum_list_slot [of i fs "\<lambda>f. if candidate nd f then 0 else unat (fsize f)" init_file_struct]
  by (simp add: kept_def candidate_def)

lemma kept_less: "kept nd fs < used fs \<Longrightarrow> \<exists>f \<in> set fs. candidate nd f"
proof (rule ccontr)
  assume "kept nd fs < used fs" and "\<not> (\<exists>f \<in> set fs. candidate nd f)"
  moreover from this(2) have "kept nd fs = used fs"
    unfolding kept_def used_def by (intro arg_cong [of _ _ sum_list] map_cong) auto
  ultimately show False by simp
qed

lemma least_any:
  assumes "f \<in> set fs" and "candidate nd f" and "key f < bound"
  shows "\<exists>i. least key bound nd fs i"
proof -
  let ?S = "{i. i < length fs \<and> candidate nd (fs ! i)}"
  have S: "finite ?S" "?S \<noteq> {}" using assms(1,2) by (auto simp: in_set_conv_nth)
  then have "Min ((\<lambda>i. key (fs ! i)) ` ?S) \<in> (\<lambda>i. key (fs ! i)) ` ?S" by (intro Min_in) auto
  then obtain i where i: "i \<in> ?S" "key (fs ! i) = Min ((\<lambda>i. key (fs ! i)) ` ?S)" by auto
  have le: "key (fs ! i) \<le> key (fs ! j)" if "j \<in> ?S" for j
    unfolding i(2) using S(1) that by (intro Min_le) auto
  obtain j where "j < length fs" "fs ! j = f" using assms(1) unfolding in_set_conv_nth by blast
  then have "key (fs ! i) < bound" using le [of j] assms(2,3) by auto
  then have "least key bound nd fs i" using i(1) le by (auto simp: least_def)
  then show ?thesis ..
qed

lemma least_exists:
  "f \<in> set fs \<Longrightarrow> candidate nd f \<Longrightarrow> \<forall>f \<in> set fs. candidate nd f \<longrightarrow> key f < bound \<Longrightarrow> \<exists>i. least key bound nd fs i"
  using least_any by blast

lemma on_clock_exists:
  assumes "f \<in> set fs" and "candidate nd f" and "\<forall>f \<in> set fs. candidate nd f \<longrightarrow> lru_clock f \<noteq> 1"
    and pos: "pos < length fs"
  shows "\<exists>i. on_clock nd fs pos i"
proof -
  let ?slot = "clock_slot (length fs) pos"
  let ?P = "\<lambda>k. k < length fs \<and> candidate nd (fs ! ?slot k)"
  obtain i where i: "i < length fs" "fs ! i = f" using assms(1) by (auto simp: in_set_conv_nth)
  obtain k0 where "k0 < length fs" "i = ?slot k0" using clock_slot_onto [OF pos i(1)] .
  then have "?P k0" using i(2) assms(2) by simp
  then obtain k where k: "?P k" and before: "\<And>k'. k' < k \<Longrightarrow> \<not> ?P k'"
    using exists_least_iff [of ?P] by blast
  have "?slot k < length fs" using pos by (intro clock_slot_lt) linarith
  then have "fs ! ?slot k \<in> set fs" by simp
  then have "lru_clock (fs ! ?slot k) \<noteq> 1" using k assms(3) by blast
  moreover have "\<not> candidate nd (fs ! ?slot k')" if "k' < k" for k'
    using before [OF that] that k by simp
  ultimately have "on_clock nd fs pos (?slot k)"
    using k unfolding on_clock_def by (intro exI [of _ k]) (simp add: Let_def)
  then show ?thesis ..
qed

lemma ready_picks:
  assumes "ready e nd 0 sv" and "server_inv sv" and "f \<in> set (files sv)" and "candidate nd f"
  shows "\<exists>i. picks e nd sv i"
proof -
  have pos: "lru_clock_pos (shared sv) < length (files sv)"
    using assms(2) by (simp add: server_inv_def counters_inv_def)
  let ?algo = "ro_cache_miss_algorithm (shared sv)"
  consider (LFU) "?algo = ALGO_LFU" | (LRU) "?algo \<noteq> ALGO_LFU" "?algo = ALGO_LRU"
    | (FIFO) "?algo \<noteq> ALGO_LFU" "?algo \<noteq> ALGO_LRU" by blast
  then show ?thesis
  proof cases
    case LFU
    with assms(1) least_exists [OF assms(3,4), of "\<lambda>f. sint (lfu_frequency f)" INT_MAX] show ?thesis
      by (simp add: ready_def picks_def Let_def)
  next
    case LRU
    with assms(1) on_clock_exists [OF assms(3,4) _ pos] show ?thesis
      by (simp add: ready_def picks_def Let_def)
  next
    case FIFO
    with assms(1) least_exists [OF assms(3,4), of fifo_creation_time "e_clock e (ticks sv)"] show ?thesis
      by (simp add: ready_def picks_def Let_def)
  qed
qed

text \<open>How one round changes the state a policy looks at.\<close>

lemma delete_evicted_frame:
  assumes "delete_evicted e thread i sv b m = (r, sv')"
  shows "ticks sv' = ticks sv"
    and "ro_cache_miss_algorithm (shared sv') = ro_cache_miss_algorithm (shared sv)"
  using assms by (auto simp: delete_evicted_def Let_def split: sum.splits prod.splits if_splits)

lemma LRU_loop_ticks: "LRU_loop m nd pos sv = (r, sv') \<Longrightarrow> ticks sv' = ticks sv"
  by (induction m arbitrary: pos sv) (auto split: sum.splits prod.splits bool.splits)

lemma LRU_loop_shared: "LRU_loop m nd pos sv = (r, sv') \<Longrightarrow> shared sv' = shared sv"
  by (induction m arbitrary: pos sv) (auto split: sum.splits prod.splits bool.splits)

lemma evict_LRU_clears:
  assumes inv: "server_inv sv" and none: "\<forall>i. \<not> on_clock nd (files sv) (lru_clock_pos (shared sv)) i"
    and run: "evict_LRU e thread nd sv b m = (r, sv')"
  shows "\<forall>f \<in> set (files sv'). candidate nd f \<longrightarrow> lru_clock f = 0"
proof (intro ballI impI)
  fix f
  assume f: "f \<in> set (files sv')" "candidate nd f"
  let ?n = "length (files sv)" and ?pos = "lru_clock_pos (shared sv)"
  have pos: "?pos < ?n" using inv by (simp add: server_inv_def counters_inv_def)
  obtain r1 sv1 where loop: "LRU_loop ?n nd ?pos sv = (r1, sv1)" by (cases "LRU_loop ?n nd ?pos sv")
  have L: "same_files (files sv1) (files sv)" "turn nd ?n ?pos (files sv) r1 (files sv1)"
    using LRU_loop_spec [OF pos le_refl loop] by blast+
  have "r1 \<noteq> Inr (Some i)" for i
    using none L(2) turn_on_clock by blast
  then have r1: "r1 = Inr None" using L(2) by (cases r1) (auto simp: turn_def)
  then have "sv' = sv1" using run loop by (simp add: evict_LRU_def)
  with f(1) obtain i where i: "i < length (files sv1)" "f = files sv1 ! i" by (auto simp: in_set_conv_nth)
  have "unclock f = unclock (files sv ! i)" using same_files_nth [OF L(1) i(1)] i(2) by simp
  then have c: "candidate nd (files sv ! i)" using f(2) by (metis unclock_simps(9))
  obtain k where "k < ?n" "i = clock_slot ?n ?pos k"
    using clock_slot_onto [OF pos] i(1) same_files_eq(5) [OF L(1)] by metis
  with c L(2) r1 i(2) show "lru_clock f = 0" by (simp add: turn_def Let_def)
qed

lemma evict_LRU_frame:
  assumes "evict_LRU e thread nd sv b m = (r, sv')"
  shows "ro_cache_miss_algorithm (shared sv') = ro_cache_miss_algorithm (shared sv)" and "ticks sv \<le> ticks sv'"
proof -
  obtain r1 sv1 where loop: "LRU_loop (length (files sv)) nd (lru_clock_pos (shared sv)) sv = (r1, sv1)"
    by (cases "LRU_loop (length (files sv)) nd (lru_clock_pos (shared sv)) sv")
  note L = LRU_loop_ticks [OF loop] LRU_loop_shared [OF loop]
  have "ro_cache_miss_algorithm (shared sv') = ro_cache_miss_algorithm (shared sv) \<and> ticks sv \<le> ticks sv'"
  proof (cases "\<exists>i. r1 = Inr (Some i)")
    case False
    with assms loop L show ?thesis by (auto simp: evict_LRU_def split: sum.splits option.splits)
  next
    case True
    then obtain i where r1: "r1 = Inr (Some i)" ..
    obtain r2 sv2 where d: "delete_evicted e thread i sv1 b m = (r2, sv2)"
      by (cases "delete_evicted e thread i sv1 b m")
    from delete_evicted_frame [OF d] L assms loop r1 d show ?thesis
      by (auto simp: evict_LRU_def split: sum.splits)
  qed
  then show "ro_cache_miss_algorithm (shared sv') = ro_cache_miss_algorithm (shared sv)" "ticks sv \<le> ticks sv'"
    by blast+
qed

lemma evict_frame:
  assumes "evict e thread nd sv b m = (r, sv')"
  shows "ro_cache_miss_algorithm (shared sv') = ro_cache_miss_algorithm (shared sv)" and "ticks sv \<le> ticks sv'"
    and "ro_cache_miss_algorithm (shared sv) \<noteq> ALGO_LFU \<Longrightarrow> ro_cache_miss_algorithm (shared sv) \<noteq> ALGO_LRU \<Longrightarrow>
         Suc (ticks sv) \<le> ticks sv'"
  using assms evict_LRU_frame [of e thread nd sv b m r sv'] delete_evicted_frame
  by (auto simp: evict_def evict_FIFO_def evict_LFU_def Let_def FIFO_loop_eq LFU_loop_eq
      split: prod.splits if_splits)

definition stems :: "byte list \<Rightarrow> file_t list \<Rightarrow> file_t list \<Rightarrow> bool" where
  "stems nd fs fs' \<longleftrightarrow> (\<forall>f \<in> set fs'. candidate nd f \<longrightarrow> (\<exists>g \<in> set fs. candidate nd g \<and> unclock f = unclock g))"

lemma stems_same: "same_files fs' fs \<Longrightarrow> stems nd fs fs'"
proof -
  assume sf: "same_files fs' fs"
  have "\<exists>g \<in> set fs. candidate nd g \<and> unclock f = unclock g" if f: "f \<in> set fs'" "candidate nd f" for f
  proof -
    obtain i where i: "i < length fs'" "f = fs' ! i"
      using f(1) unfolding in_set_conv_nth by blast
    then have u: "unclock f = unclock (fs ! i)" using same_files_nth [OF sf] by simp
    then have "candidate nd (fs ! i)" using f(2) by (metis unclock_simps(9))
    moreover have "fs ! i \<in> set fs" using i(1) same_files_eq(5) [OF sf] by simp
    ultimately show ?thesis using u by blast
  qed
  then show ?thesis by (simp add: stems_def)
qed

lemma stems_out: "same_files fs' (fs[i := init_file_struct]) \<Longrightarrow> stems nd fs fs'"
proof -
  assume "same_files fs' (fs[i := init_file_struct])"
  then have "stems nd (fs[i := init_file_struct]) fs'" by (rule stems_same)
  moreover have "\<not> candidate nd init_file_struct" by (simp add: candidate_def)
  ultimately show ?thesis
    unfolding stems_def by (metis insertE set_update_subset_insert subsetD)
qed

lemma ready_later:
  assumes r: "ready e nd j sv" and st: "stems nd (files sv) (files sv')"
    and al: "ro_cache_miss_algorithm (shared sv') = ro_cache_miss_algorithm (shared sv)"
    and tk: "ro_cache_miss_algorithm (shared sv) \<noteq> ALGO_LFU \<Longrightarrow> ro_cache_miss_algorithm (shared sv) \<noteq> ALGO_LRU \<Longrightarrow>
         ticks sv + j \<le> ticks sv' + j'"
    and ck: "j' = 0 \<Longrightarrow> ro_cache_miss_algorithm (shared sv) = ALGO_LRU \<Longrightarrow>
         \<forall>f \<in> set (files sv'). candidate nd f \<longrightarrow> lru_clock f = 0"
  shows "ready e nd j' sv'"
  unfolding ready_def
proof (intro ballI impI)
  fix f
  assume f: "f \<in> set (files sv')" "candidate nd f"
  then obtain g where g: "g \<in> set (files sv)" "candidate nd g" "unclock f = unclock g"
    using st by (auto simp: stems_def)
  have k: "lfu_frequency f = lfu_frequency g" "fifo_creation_time f = fifo_creation_time g"
    using arg_cong [OF g(3), of lfu_frequency] arg_cong [OF g(3), of fifo_creation_time] by simp_all
  let ?algo = "ro_cache_miss_algorithm (shared sv)"
  consider (LFU) "?algo = ALGO_LFU" | (LRU) "?algo \<noteq> ALGO_LFU" "?algo = ALGO_LRU"
    | (FIFO) "?algo \<noteq> ALGO_LFU" "?algo \<noteq> ALGO_LRU" by blast
  then show "let algo = ro_cache_miss_algorithm (shared sv') in
         if algo = ALGO_LFU then sint (lfu_frequency f) < INT_MAX
         else if algo = ALGO_LRU then j' = 0 \<longrightarrow> lru_clock f \<noteq> 1
         else \<forall>t \<ge> ticks sv' + j'. fifo_creation_time f < e_clock e t"
  proof cases
    case FIFO
    then have "\<forall>t \<ge> ticks sv + j. fifo_creation_time g < e_clock e t"
      using r g(1,2) by (simp add: ready_def Let_def)
    with FIFO al k(2) tk show ?thesis by simp
  qed (use r g k al ck f in \<open>auto simp: ready_def Let_def\<close>)
qed

lemma cache_miss_ready:
  assumes e: "good_env e" and inv: "server_inv sv" and room: "reply_room out sv"
    and run: "cache_miss e thread nd sv out = (r, out', sv')"
  shows "r = Inl ECANCELED \<Longrightarrow> ready e nd (Suc k) sv \<Longrightarrow> ready e nd k sv'"
    and "r = Inr () \<Longrightarrow> ready e nd k sv \<Longrightarrow> ready e nd (Suc k) sv'"
proof -
  let ?algo = "ro_cache_miss_algorithm (shared sv)"
  obtain r1 sv1 where ev: "evict e thread nd sv (None, 0) (None, 0) = (r1, sv1)"
    by (cases "evict e thread nd sv (None, 0) (None, 0)")
  note F = evict_frame [OF ev]
  have sv': "files sv' = files sv1 \<and> ticks sv' = ticks sv1
      \<and> ro_cache_miss_algorithm (shared sv') = ro_cache_miss_algorithm (shared sv1)"
    using run ev by (auto simp: cache_miss_def split: sum.splits prod.splits if_splits)
  {
    assume r: "r = Inl ECANCELED" and rd: "ready e nd (Suc k) sv"
    then have none: "\<forall>i. \<not> picks e nd sv i" and sf: "same_files (files sv') (files sv)"
      using cache_miss_spec [OF e inv room run] by auto
    have ck: "\<forall>f \<in> set (files sv'). candidate nd f \<longrightarrow> lru_clock f = 0" if "?algo = ALGO_LRU"
    proof -
      have "\<forall>i. \<not> on_clock nd (files sv) (lru_clock_pos (shared sv)) i"
        using none that by (simp add: picks_def ALGO_LRU_def ALGO_LFU_def)
      moreover have "evict_LRU e thread nd sv (None, 0) (None, 0) = (r1, sv1)"
        using ev that by (simp add: evict_def ALGO_LRU_def ALGO_LFU_def)
      ultimately show ?thesis using evict_LRU_clears [OF inv] sv' by metis
    qed
    show "ready e nd k sv'"
      by (rule ready_later [OF rd stems_same [OF sf]]) (use F sv' ck in auto)
  }
  {
    assume r: "r = Inr ()" and rd: "ready e nd k sv"
    then obtain i where "same_files (files sv') ((files sv)[i := init_file_struct])"
      using cache_miss_spec [OF e inv room run] by auto
    from ready_later [OF rd stems_out [OF this]] F sv' show "ready e nd (Suc k) sv'" by auto
  }
qed

lemma fits_nat:
  assumes inv: "server_inv sv" and n: "n \<le> ro_max_storage (shared sv)"
  shows "ro_max_storage (shared sv) < current_storage (shared sv) + n
     \<longleftrightarrow> unat (ro_max_storage (shared sv)) < used (files sv) + unat n"
proof -
  have b: "unat (ro_max_storage (shared sv)) < 2 ^ 61" "unat (current_storage (shared sv)) = used (files sv)"
      "used (files sv) \<le> unat (ro_max_storage (shared sv))"
    using inv by (simp_all add: server_inv_def counters_inv_def)
  have "unat n \<le> unat (ro_max_storage (shared sv))" using n by (simp add: word_le_nat_alt)
  then have "unat (current_storage (shared sv) + n) = used (files sv) + unat n"
    using b by (simp add: unat_word_ariths)
  then show ?thesis by (simp add: word_less_nat_alt)
qed

text \<open>One round of a loop that must go on: fewer bytes are stored, or fewer rounds can be idle.\<close>

definition loop_pre :: "env \<Rightarrow> byte list \<Rightarrow> size_t \<Rightarrow> nat \<Rightarrow> net_msg \<Rightarrow> server \<Rightarrow> bool" where
  "loop_pre e nd n k out sv \<longleftrightarrow>
     server_inv sv \<and> reply_room out sv \<and> ready e nd k sv \<and> n \<le> ro_max_storage (shared sv)
   \<and> kept nd (files sv) + unat n \<le> unat (ro_max_storage (shared sv))"

lemma evict_round:
  assumes e: "good_env e" and pre: "loop_pre e nd n k out sv"
    and guard: "ro_max_storage (shared sv) < current_storage (shared sv) + n"
    and run: "cache_miss e thread nd sv out = (r, out', sv')"
  shows "(r = Inr () \<and> loop_pre e nd n (Suc k) out' sv' \<and> used (files sv') < used (files sv))
       \<or> (r = Inl ECANCELED \<and> 0 < k \<and> loop_pre e nd n (k - 1) out' sv' \<and> used (files sv') = used (files sv))"
proof -
  have inv: "server_inv sv" and room: "reply_room out sv" and rd: "ready e nd k sv"
    and n: "n \<le> ro_max_storage (shared sv)" "kept nd (files sv) + unat n \<le> unat (ro_max_storage (shared sv))"
    using pre by (simp_all add: loop_pre_def)
  from cache_miss_spec [OF e inv room run] show ?thesis
  proof (elim disjE exE conjE)
    assume none: "\<forall>i. \<not> picks e nd sv i" and r: "r = Inl ECANCELED" "out' = out" "server_inv sv'"
      and sf: "same_files (files sv') (files sv)" and sh: "shared sv' = shared sv"
    have "kept nd (files sv) < used (files sv)"
      using guard n fits_nat [OF inv n(1)] by linarith
    then obtain f where "f \<in> set (files sv)" "candidate nd f" using kept_less by blast
    then have "\<not> ready e nd 0 sv" using ready_picks [OF _ inv] none by blast
    then have k: "0 < k" using rd by (cases k) simp_all
    then have "ready e nd (Suc (k - 1)) sv" using rd by simp
    then have "ready e nd (k - 1) sv'" by (rule cache_miss_ready(1) [OF e inv room run r(1)])
    moreover have "reply_room out' sv'"
      using room r(2) same_files_eq(3,4) [OF sf] by (simp add: reply_room_def)
    ultimately show ?thesis
      using r k n sh same_files_eq(3) [OF sf] kept_same [OF sf, of nd] by (simp add: loop_pre_def)
  next
    fix i
    assume p: "picks e nd sv i" and r: "r = Inr ()" and X: "expelled sv i sv'" and room': "reply_room out' sv'"
      and sf: "same_files (files sv') ((files sv)[i := init_file_struct])"
      and mx: "ro_max_storage (shared sv') = ro_max_storage (shared sv)"
    have i: "i < length (files sv)" "candidate nd (files sv ! i)" using configured.chosen [OF p] by blast+
    have "0 < length (a_content (fabs (files sv ! i)))"
      by (rule candidate_content [OF store_inv_nth [OF server_inv_store [OF inv] i(1)] i(2)])
    then have "used (files sv') < used (files sv)" "server_inv sv'" using X unfolding expelled_def by linarith+
    moreover have "kept nd (files sv') = kept nd (files sv)"
      using kept_same [OF sf] kept_out [OF i] by simp
    ultimately show ?thesis
      using r room' mx n cache_miss_ready(2) [OF e inv room run r rd] by (simp add: loop_pre_def)
  qed
qed

lemma evict_loop_returns:
  assumes e: "good_env e" and pre: "loop_pre e nd n k out sv"
  shows "\<exists>res. evict_loop e thread nd n count out sv = Some res"
  using pre
proof (induction "(used (files sv), k)" arbitrary: sv k count out
    rule: wf_induct_rule [OF wf_lex_prod [OF wf_less_than wf_less_than]])
  case 1
  show ?case
  proof (cases "ro_max_storage (shared sv) < current_storage (shared sv) + n")
    case False
    then show ?thesis by (subst evict_loop.simps) simp
  next
    case True
    obtain r out' sv' where cm: "cache_miss e thread nd sv out = (r, out', sv')"
      by (cases "cache_miss e thread nd sv out")
    from evict_round [OF e 1(2) True cm] show ?thesis
    proof (elim disjE conjE)
      assume r: "r = Inr ()" and "loop_pre e nd n (Suc k) out' sv'" "used (files sv') < used (files sv)"
      then obtain res where "evict_loop e thread nd n (count + 1) out' sv' = Some res"
        using 1(1) [of sv' "Suc k" out' "count + 1"] by auto
      with True cm r show ?thesis by (subst evict_loop.simps) (cases res, simp)
    next
      assume r: "r = Inl ECANCELED" and "0 < k" "loop_pre e nd n (k - 1) out' sv'"
        "used (files sv') = used (files sv)"
      then obtain res where "evict_loop e thread nd n count out' sv' = Some res"
        using 1(1) [of sv' "k - 1" out' count] by auto
      with True cm r show ?thesis by (subst evict_loop.simps) (cases res, simp)
    qed
  qed
qed

subsection \<open>The policies in terms of the set of files\<close>

lemma on_clock_iff:
  assumes "pos < length fs"
  shows "(\<exists>f \<in> set fs. candidate nd f \<and> lru_clock f \<noteq> 1) \<longleftrightarrow> (\<exists>i. on_clock nd fs pos i)"
proof
  assume "\<exists>i. on_clock nd fs pos i"
  then show "\<exists>f \<in> set fs. candidate nd f \<and> lru_clock f \<noteq> 1"
    using on_clock_slot by (metis nth_mem on_clock_def)
next
  assume "\<exists>f \<in> set fs. candidate nd f \<and> lru_clock f \<noteq> 1"
  then obtain i where i: "i < length fs" "candidate nd (fs ! i)" "lru_clock (fs ! i) \<noteq> 1"
    by (auto simp: in_set_conv_nth)
  let ?P = "\<lambda>k. k < length fs \<and> candidate nd (fs ! clock_slot (length fs) pos k)
      \<and> lru_clock (fs ! clock_slot (length fs) pos k) \<noteq> 1"
  obtain k0 where "k0 < length fs" "i = clock_slot (length fs) pos k0" using clock_slot_onto [OF assms i(1)] .
  with i have "?P k0" by simp
  then obtain k where "?P k" "\<And>k'. k' < k \<Longrightarrow> \<not> ?P k'" using exists_least_iff [of ?P] by blast
  then have "on_clock nd fs pos (clock_slot (length fs) pos k)"
    unfolding on_clock_def by (intro exI [of _ k]) (auto simp: Let_def)
  then show "\<exists>i. on_clock nd fs pos i" ..
qed

definition least_effect :: "(file_t \<Rightarrow> int) \<Rightarrow> int \<Rightarrow> byte list \<Rightarrow> server \<Rightarrow> server \<Rightarrow> bool" where
  "least_effect key bound nd sv sv' \<longleftrightarrow>
     (if \<exists>f \<in> set (files sv). candidate nd f \<and> key f < bound
      then \<exists>f \<in> set (files sv). candidate nd f \<and> sabs sv' = (sabs sv)(name f := None)
         \<and> (\<forall>g \<in> set (files sv). candidate nd g \<longrightarrow> key f \<le> key g)
      else sabs sv' = sabs sv)"

lemma least_effectI:
  assumes inv: "server_inv sv"
    and pol: "(\<forall>i. \<not> least key bound nd (files sv) i) \<and> outcome sv None (r, sv')
      \<or> (\<exists>i. least key bound nd (files sv) i \<and> outcome sv (Some i) (r, sv'))"
  shows "least_effect key bound nd sv sv'"
  using pol
proof (elim disjE exE conjE)
  assume none: "\<forall>i. \<not> least key bound nd (files sv) i" and out: "outcome sv None (r, sv')"
  have eq: "(\<exists>f \<in> set (files sv). candidate nd f \<and> key f < bound) = False"
    using none least_any by blast
  show ?thesis unfolding least_effect_def eq if_False by (rule outcome_None(2) [OF inv out])
next
  fix i
  assume i: "least key bound nd (files sv) i" and out: "outcome sv (Some i) (r, sv')"
  then have c: "i < length (files sv)" "candidate nd (files sv ! i)" "key (files sv ! i) < bound"
      "\<forall>g \<in> set (files sv). candidate nd g \<longrightarrow> key (files sv ! i) \<le> key g"
    by (auto simp: least_def in_set_conv_nth)
  have "sabs sv' = (sabs sv)(name (files sv ! i) := None)"
    using outcome_Some [OF inv c(1) _ out] c(2) by (simp add: expelled_def candidate_def)
  with c show ?thesis unfolding least_effect_def by (auto intro: bexI [of _ "files sv ! i"])
qed

end
