(* ===== verification/Write_Spec.thy ===== *)
theory Write_Spec
  imports Evict_Loop
begin

text \<open>
  What writing and appending promise: the data request is read, storage is reserved and
  released so that the counters stay exact, and each handler evicts, then performs the
  abstract operation on the named file and answers with its outcome.
\<close>

subsection \<open>The request and the storage it reserves\<close>

text \<open>A write request: the data with their length, then the name.\<close>

definition write_request :: "net_msg \<Rightarrow> byte list \<Rightarrow> byte list \<Rightarrow> bool" where
  "write_request m s d \<longleftrightarrow>
     0 \<notin> set s \<and> length d < 2 ^ 61 \<and> (\<exists>rest t. carries_name m (rest @ field d) (s @ 0 # t))"

lemma write_request_name: "write_request m s d \<Longrightarrow> requests m s"
  by (auto simp: write_request_def requests_def)

lemma read_write_request:
  assumes "write_request m s d"
  obtains buf m' rest where "read_file_name e m 256 = (Inr buf, m')" "cstr buf = s" "mtype m' = mtype m"
    "db_inv (mdata m')" "db_stack (mdata m') = rest @ field d"
proof -
  from assms obtain rest t where c: "carries_name m (rest @ field d) (s @ 0 # t)" and nul: "0 \<notin> set s"
    by (auto simp: write_request_def)
  obtain m' where "read_file_name e m 256 = (Inr ((s @ 0 # t) @ drop (length (s @ 0 # t)) (e_name e)), m')"
      "mtype m' = mtype m" "db_inv (mdata m')" "db_stack (mdata m') = rest @ field d"
    using read_file_name_ok [OF c] .
  with that cstr_name_buffer [OF nul] show thesis by blast
qed

lemma get_data_ok:
  assumes e: "good_env e" and m: "db_inv (mdata m)" "db_stack (mdata m) = rest @ field d" and d: "length d < 2 ^ 61"
  obtains m' where "get_data e thread conn nm m log_op sv =
    (if unat (ro_max_storage (shared sv)) < length d
     then (Inr None, m', do_log thread conn nm log_op ''Data is too big.'' 0 0 sv)
     else (Inr (Some (d, wlen d)), m', sv))"
proof -
  have n: "unat (wlen d) = length d" using d by (simp add: unat_wlen)
  have st: "db_stack (mdata m) = (rest @ d) @ size_bytes (wlen d)" using m(2) by (simp add: field_def)
  obtain b where b: "pop_buf (mdata m) 8 (Some (size_bytes 0)) = (Inr (size_bytes (wlen d)), b)" "db_inv b"
      "db_stack b = rest @ d"
    using pop_buf_ok [OF m(1) st, of 8 "size_bytes 0"] by auto
  obtain b' where "pop_buf b (wlen d) (Some (resize_block (unat (wlen d)) [])) = (Inr d, b')"
    using pop_buf_ok [OF b(2,3), of "wlen d" "resize_block (unat (wlen d)) []"] n by auto
  with b e n that [of "m\<lparr>mdata := b\<rparr>"] that [of "m\<lparr>mdata := b'\<rparr>"] show thesis
    by (cases "unat (ro_max_storage (shared sv)) < length d")
      (simp_all add: get_data_def good_env_def mem_ok word_less_nat_alt)
qed

lemma frame_reserve [simp]:
  "files (reserve_storage n sv) = files sv" "ticks (reserve_storage n sv) = ticks sv"
  by (simp_all add: reserve_storage_def)

lemma same_table_reserve [simp]: "same_table sv (reserve_storage n sv') = same_table sv sv'"
  by (simp add: same_table_def reserve_storage_def Let_def)

lemma reserve_inv:
  assumes inv: "server_inv sv" and room: "used (files sv) + unat n \<le> unat (ro_max_storage (shared sv))"
  shows "server_inv (sub_storage n (reserve_storage n sv))"
    and "store_inv ((files sv)[i := f]) \<Longrightarrow> used ((files sv)[i := f]) = used (files sv) + unat n \<Longrightarrow>
         live ((files sv)[i := f]) = live (files sv) \<Longrightarrow> server_inv (set_file i f (reserve_storage n sv))"
proof -
  have C: "unat (ro_max_storage (shared sv)) < 2 ^ 61" "unat (current_storage (shared sv)) = used (files sv)"
      "unat (max_reached_storage (shared sv)) \<le> unat (ro_max_storage (shared sv))"
      "current_storage (shared sv) \<le> max_reached_storage (shared sv)"
    using inv by (simp_all add: server_inv_def counters_inv_def)
  have add: "unat (current_storage (shared sv) + n) = used (files sv) + unat n"
    using C room by (simp add: unat_word_ariths)
  have "sint (current_storage (shared sv) + n) = int (used (files sv) + unat n)"
      "sint (max_reached_storage (shared sv)) = int (unat (max_reached_storage (shared sv)))"
    using C room add by (simp_all add: sint_small del: of_nat_add uint_nat of_nat_unat)
  then have signed: "sint (max_reached_storage (shared sv)) \<le> sint (current_storage (shared sv) + n) \<longleftrightarrow>
      unat (max_reached_storage (shared sv)) \<le> used (files sv) + unat n"
    by (simp only: of_nat_le_iff)
  show "server_inv (sub_storage n (reserve_storage n sv))"
    using inv add room C signed
    by (auto simp: server_inv_def counters_inv_def sub_storage_def reserve_storage_def conns_inv_def conns_def
        Let_def word_le_nat_alt)
  show "server_inv (set_file i f (reserve_storage n sv))"
    if "store_inv ((files sv)[i := f])" "used ((files sv)[i := f]) = used (files sv) + unat n"
      "live ((files sv)[i := f]) = live (files sv)"
    using inv add room C that signed
    by (auto simp: server_inv_def counters_inv_def reserve_storage_def conns_inv_def conns_def
        Let_def word_le_nat_alt)
qed

lemma set_file_reserved [simp]:
  "i < length (files sv) \<Longrightarrow> set_file i (files sv ! i) (reserve_storage n sv) = reserve_storage n sv"
  using set_file_same [of i "reserve_storage n sv"] by simp

context file_operation
begin

text \<open>Reserve, run on a slot, and release on failure.\<close>

lemma reserve_run:
  assumes inv: "server_inv sv" and i: "i < length (files sv)" "existing (files sv ! i)" and who: "0 \<le> who"
    and pre: "pre (fabs (files sv ! i))"
    and room: "used (files sv) + unat n \<le> unat (ro_max_storage (shared sv))"
    and grows: "\<And>a. spec who (fabs (files sv ! i)) = Inr a \<Longrightarrow>
        length (a_content a) = length (a_content (fabs (files sv ! i))) + unat n"
  obtains (failed) err where "spec who (fabs (files sv ! i)) = Inl err"
      "run (files sv ! i) who = (Inl err, files sv ! i)" "server_inv (sub_storage n (reserve_storage n sv))"
    | (ran) a x f' where "spec who (fabs (files sv ! i)) = Inr a" "run (files sv ! i) who = (Inr x, f')"
      "server_inv (set_file i f' (reserve_storage n sv))"
      "store_abs ((files sv)[i := f']) = (sabs sv)(name (files sv ! i) \<mapsto> a)"
proof -
  have st: "store_inv (files sv)" by (rule server_inv_store [OF inv])
  show thesis
  proof (cases "spec who (fabs (files sv ! i))")
    case (Inl err)
    with failed run_err [OF store_inv_nth [OF st i(1)] i(2) who pre Inl] reserve_inv(1) [OF inv room]
    show thesis by blast
  next
    case (Inr a)
    obtain x f' where r: "run (files sv ! i) who = (Inr x, f')" "store_inv ((files sv)[i := f'])"
        "store_abs ((files sv)[i := f']) = (sabs sv)(name (files sv ! i) \<mapsto> a)"
        "used ((files sv)[i := f']) + length (a_content (fabs (files sv ! i))) = used (files sv) + length (a_content a)"
        "live ((files sv)[i := f']) = live (files sv)"
      using slot_ok [OF st i who pre Inr] by metis
    have "used ((files sv)[i := f']) = used (files sv) + unat n" using r(4) grows [OF Inr] by linarith
    with ran Inr r reserve_inv(2) [OF inv room] show thesis by blast
  qed
qed

end

subsection \<open>The handlers\<close>

text \<open>The victims as the answer carries them: their fields, then their number.\<close>

definition victims_reply :: "file_t list \<Rightarrow> byte list" where
  "victims_reply vs = concat (map file_fields vs) @ (if vs = [] then [] else size_bytes (of_nat (length vs)))"

definition miss_flag :: "file_t list \<Rightarrow> msg_t" where
  "miss_flag vs = (if vs = [] then 0 else MESSAGE_FILE_CHACEMISS)"

lemma reply_room_fresh: "server_inv sv \<Longrightarrow> fresh out \<Longrightarrow> reply_room out sv"
proof -
  assume inv: "server_inv sv" and "fresh out"
  have "live (files sv) \<le> length (files sv)" by (simp add: live_def)
  moreover have "length (files sv) < 2 ^ 31" "used (files sv) < 2 ^ 61"
    using inv by (simp_all add: server_inv_def counters_inv_def)
  ultimately show ?thesis using \<open>fresh out\<close> by (simp add: reply_room_def fresh_def)
qed

lemma do_cache_miss_result:
  assumes e: "good_env e" and inv: "server_inv sv" and out: "fresh out" and n: "n \<le> ro_max_storage (shared sv)"
    and run: "do_cache_miss e thread nd n sv out = Some (r, out', sv')"
  obtains vs mid where "r = Inr ()" "evict_inv nd sv out vs sv' mid" "mtype out' = mtype out OR miss_flag vs"
    "db_inv (mdata out')" "db_stack (mdata out') = victims_reply vs"
    "used (files sv') + unat n \<le> unat (ro_max_storage (shared sv'))"
proof -
  obtain res where loop: "evict_loop e thread nd n 0 out sv = Some res"
    and r: "(r, out', sv') = (case res of (r, out, sv) \<Rightarrow> case r of Inl err \<Rightarrow> (Inl err, out, sv)
        | Inr count \<Rightarrow> if 0 < count
            then (Inr (), snd (push_msg (e_alloc e) (or_flag out MESSAGE_FILE_CHACEMISS) 8 (Some (size_bytes count))), sv)
            else (Inr (), out, sv))"
    using run by (auto simp: do_cache_miss_def)
  have "loop_done sv out nd n res"
    using evict_loop_result [OF e, of thread nd n "[]" out sv res sv out]
      evict_inv_start [OF inv reply_room_fresh [OF inv out]] loop by simp
  then obtain vs mid sv1 where d: "res = (Inr (of_nat (length vs)), mid, sv1)" "evict_inv nd sv out vs sv1 mid"
      "\<not> ro_max_storage (shared sv1) < current_storage (shared sv1) + n"
    by (auto simp: loop_done_def)
  have I: "server_inv sv1" "reply_room mid sv1" "mtype mid = mtype out" "live (files sv1) + length vs = live (files sv)"
      "db_stack (mdata mid) = concat (map file_fields vs)" "ro_max_storage (shared sv1) = ro_max_storage (shared sv)"
    using d(2) out by (simp_all add: evict_inv_def fresh_def)
  have "live (files sv) < 2 ^ 31"
    using inv length_filter_le [of existing "files sv"] by (simp add: live_def server_inv_def counters_inv_def)
  then have cnt: "0 < (of_nat (length vs) :: size_t) \<longleftrightarrow> vs \<noteq> []"
    using I(4) by (simp add: word_less_nat_alt unsigned_of_nat take_bit_nat_eq_self)
  have fits: "used (files sv1) + unat n \<le> unat (ro_max_storage (shared sv1))"
    using d(3) fits_nat [OF I(1), of n] n I(6) by simp
  let ?m = "or_flag mid MESSAGE_FILE_CHACEMISS"
  have "db_inv (mdata ?m)" "length (db_stack (mdata ?m)) + 8 < 2 ^ 62"
    using I(2) by (simp_all add: reply_room_def)
  then obtain m' where m': "push_msg mem_ok ?m 8 (Some (size_bytes (of_nat (length vs)))) = (Inr (), m')"
      "mtype m' = mtype ?m" "db_inv (mdata m')" "db_stack (mdata m') = db_stack (mdata ?m) @ size_bytes (of_nat (length vs))"
    using push_msg_ok [of ?m "size_bytes (of_nat (length vs))" 8] by auto
  have eq: "r = Inr ()" "sv' = sv1" "out' = (if vs = [] then mid else m')"
    using r d(1) cnt m'(1) e by (auto simp: good_env_def split: if_splits)
  show thesis
    using eq d(2) I m' fits by (intro that [of vs mid]) (simp_all add: miss_flag_def victims_reply_def reply_room_def)
qed

text \<open>What a data request on one file amounts to: \<open>vs\<close> are evicted first, whether or not the
  operation itself is then refused.\<close>

definition data_request ::
    "(int \<Rightarrow> afile \<Rightarrow> errno + afile) \<Rightarrow> int \<Rightarrow> byte list \<Rightarrow> file_t list \<Rightarrow> (byte list \<Rightarrow> afile option)
       \<Rightarrow> (errno + unit) \<times> (byte list \<Rightarrow> afile option)" where
  "data_request op who s vs m = request (keep op) who s (m |` (- name ` set vs))"

primrec data_flag :: "errno + unit \<Rightarrow> msg_t" where
  "data_flag (Inr _) = MESSAGE_OP_SUCC"
| "data_flag (Inl e) =
     (if e = EPERM then MESSAGE_FILE_NOPEN else if e = ENOENT then MESSAGE_FILE_NEXISTS
      else if e = EEXIST then MESSAGE_FILE_EXISTS else MESSAGE_FILE_NLOCK)"

text \<open>The file the request is about is none of the victims.\<close>

lemma evict_inv_target:
  assumes I: "evict_inv buf sv out vs sv' mid" and i: "i < length (files sv)" "name (files sv ! i) = cstr buf"
  shows "i < length (files sv')" and "fabs (files sv' ! i) = fabs (files sv ! i)"
    and "name (files sv' ! i) = cstr buf" and "owner (files sv' ! i) = owner (files sv ! i)"
    and "cstr buf \<notin> name ` set vs"
proof -
  show n: "i < length (files sv')" using I i(1) by (simp add: evict_inv_def)
  have "\<not> candidate buf (files sv ! i)" using i(2) by (simp add: candidate_def)
  then have u: "unclock (files sv' ! i) = unclock (files sv ! i)" using I n by (simp add: evict_inv_def)
  from arg_cong [OF u, of fabs] show "fabs (files sv' ! i) = fabs (files sv ! i)" by simp
  from arg_cong [OF u, of name] i(2) show "name (files sv' ! i) = cstr buf" by simp
  from arg_cong [OF u, of owner] show "owner (files sv' ! i) = owner (files sv ! i)" by simp
  show "cstr buf \<notin> name ` set vs" using I by (auto simp: evict_inv_def candidate_def)
qed

text \<open>How the answer and the files must relate for a data request to be done as specified.\<close>

definition data_done ::
    "(int \<Rightarrow> afile \<Rightarrow> errno + afile) \<Rightarrow> msg_t \<Rightarrow> int \<Rightarrow> byte list \<Rightarrow> server \<Rightarrow> int \<times> net_msg \<times> server \<Rightarrow> bool" where
  "data_done op ack who s sv res \<longleftrightarrow>
     fst res = 0 \<and> server_inv (snd (snd res)) \<and> same_table sv (snd (snd res))
   \<and> db_inv (mdata (fst (snd res)))
   \<and> (\<exists>vs. s \<notin> name ` set vs \<and> (\<forall>f \<in> set vs. stored_file sv f) \<and> length vs \<le> length (files sv)
        \<and> (case data_request op who s vs (sabs sv) of (r, m) \<Rightarrow>
             sabs (snd (snd res)) = m
           \<and> mtype (fst (snd res)) = (ack OR miss_flag vs) OR data_flag r
           \<and> db_stack (mdata (fst (snd res))) = victims_reply vs))"

lemma data_done_missing:
  assumes "server_inv sv'" "same_table sv sv'" "sabs sv' = sabs sv" "sabs sv s = None" "fresh out" "mtype out = ack OR MESSAGE_FILE_NEXISTS"
  shows "data_done op ack who s sv (0, out, sv')"
proof -
  have "(sabs sv) |` UNIV = sabs sv" by (simp add: restrict_map_def)
  with assms show ?thesis
    unfolding data_done_def
    by (intro conjI exI [of _ "[]"])
      (simp_all add: data_request_def request_def miss_flag_def victims_reply_def fresh_def)
qed

lemma data_doneI:
  assumes "server_inv sv'" "same_table sv sv'" "s \<notin> name ` set vs" "\<forall>f \<in> set vs. stored_file sv f" "sabs sv s = Some a"
      "length vs \<le> length (files sv)"
    and "mtype out = (ack OR miss_flag vs) OR fl" "db_inv (mdata out)" "db_stack (mdata out) = victims_reply vs"
    and "case op who a of
           Inl err \<Rightarrow> sabs sv' = (sabs sv) |` (- name ` set vs) \<and> fl = data_flag (Inl err)
         | Inr a' \<Rightarrow> sabs sv' = ((sabs sv) |` (- name ` set vs))(s \<mapsto> a') \<and> fl = MESSAGE_OP_SUCC"
  shows "data_done op ack who s sv (0, out, sv')"
  unfolding data_done_def
  using assms by (intro conjI exI [of _ vs])
    (auto simp: data_request_def request_def keep_def restrict_map_def split: sum.splits)

lemma append_grows:
  "a_append_op d who a = Inr a' \<Longrightarrow> length d < 2 ^ 61 \<Longrightarrow> length (a_content a') = length (a_content a) + unat (wlen d)"
  by (auto simp: a_append_op_def unat_wlen split: if_splits)

lemma write_grows:
  "a_write_op d who a = Inr a' \<Longrightarrow> length d < 2 ^ 61 \<Longrightarrow> length (a_content a') = length (a_content a) + unat (wlen d)"
  by (auto simp: a_write_op_def unat_wlen split: if_splits)

lemma data_done_frame [simp]:
  "data_done op ack who s (set_lastop ci t sv) res = data_done op ack who s sv res"
  by (simp add: data_done_def stored_file_def)

context file_operation
begin

text \<open>From the eviction to the answer, for a slot that holds the named file.\<close>

lemma data_phase:
  assumes e: "good_env e" and inv: "server_inv sv" and out: "fresh out" "mtype out = ack"
    and n: "n \<le> ro_max_storage (shared sv)"
    and i: "i < length (files sv)" "existing (files sv ! i)" "name (files sv ! i) = cstr buf"
    and cm: "do_cache_miss e thread buf n sv out = Some (r, out1, sv1)" and who: "0 \<le> who"
    and pre: "pre (fabs (files sv ! i))"
    and grows: "\<And>a. spec who (fabs (files sv ! i)) = Inr a \<Longrightarrow>
        length (a_content a) = length (a_content (fabs (files sv ! i))) + unat n"
  obtains (failed) err where "r = Inr ()" "i < length (files sv1)" "spec who (fabs (files sv ! i)) = Inl err"
      "run (files sv1 ! i) who = (Inl err, files sv1 ! i)"
      "\<And>t b op str rd wr. data_done spec ack who (cstr buf) sv (0, or_flag out1 (data_flag (Inl err)),
         do_log t who b op str rd wr (sub_storage n (reserve_storage n sv1)))"
    | (ran) x f' where "r = Inr ()" "i < length (files sv1)" "run (files sv1 ! i) who = (Inr x, f')"
      "\<And>t b op str rd wr. data_done spec ack who (cstr buf) sv (0, or_flag out1 MESSAGE_OP_SUCC,
         do_log t who b op str rd wr (set_file i f' (reserve_storage n sv1)))"
proof -
  have st: "store_inv (files sv)" "unique_names (files sv)"
    using server_inv_store [OF inv] by (simp_all add: store_inv_def)
  have here: "sabs sv (cstr buf) = Some (fabs (files sv ! i))"
    using store_abs_nth [OF st(2) i(1,2)] i(3) by simp
  obtain vs mid where r: "r = Inr ()" and I: "evict_inv buf sv out vs sv1 mid"
      and ty: "mtype out1 = mtype out OR miss_flag vs" and db: "db_inv (mdata out1)" "db_stack (mdata out1) = victims_reply vs"
      and room: "used (files sv1) + unat n \<le> unat (ro_max_storage (shared sv1))"
    using do_cache_miss_result [OF e inv out(1) n cm] .
  note T = evict_inv_target [OF I i(1,3)]
  have "length vs \<le> live (files sv)" "live (files sv) \<le> length (files sv)"
    using I by (simp_all add: evict_inv_def live_def)
  then have J: "length vs \<le> length (files sv)" "server_inv sv1" "sabs sv1 = (sabs sv) |` (- name ` set vs)" "\<forall>f \<in> set vs. stored_file sv f" "same_table sv sv1"
    using I by (simp_all add: evict_inv_def same_tableI)
  have ex: "existing (files sv1 ! i)" using i(2) T(4) by simp
  note doneI = data_doneI [where a = "fabs (files sv ! i)" and vs = vs and s = "cstr buf"]
  show thesis
  proof (rule reserve_run [where n = n, OF J(2) T(1) ex who _ room])
    show "pre (fabs (files sv1 ! i))" using pre T(2) by simp
  next
    fix a assume "spec who (fabs (files sv1 ! i)) = Inr a"
    with grows T(2) show "length (a_content a) = length (a_content (fabs (files sv1 ! i))) + unat n" by simp
  next
    fix err
    assume F: "spec who (fabs (files sv1 ! i)) = Inl err" "run (files sv1 ! i) who = (Inl err, files sv1 ! i)"
      "server_inv (sub_storage n (reserve_storage n sv1))"
    show thesis
      using r F T J here ty db out(2) by (intro failed doneI) simp_all
  next
    fix a x f'
    assume F: "spec who (fabs (files sv1 ! i)) = Inr a" "run (files sv1 ! i) who = (Inr x, f')"
      "server_inv (set_file i f' (reserve_storage n sv1))"
      "store_abs ((files sv1)[i := f']) = (sabs sv1)(name (files sv1 ! i) \<mapsto> a)"
    show thesis
      using r F T J here ty db out(2) by (intro ran doneI) simp_all
  qed
qed

end

text \<open>The handler finds the name \<open>s\<close> and then the data \<open>d\<close>, no more than the capacity, in the
  message. A request built by a client is the usual case.\<close>

definition data_ready :: "env \<Rightarrow> net_msg \<Rightarrow> byte list \<Rightarrow> byte list \<Rightarrow> server \<Rightarrow> bool" where
  "data_ready e m s d sv \<longleftrightarrow>
     length d \<le> unat (ro_max_storage (shared sv))
   \<and> (\<exists>buf m'. read_file_name e m 256 = (Inr buf, m') \<and> cstr buf = s
        \<and> (\<forall>thread conn op sv'. ro_max_storage (shared sv') = ro_max_storage (shared sv) \<longrightarrow>
             (\<exists>m''. get_data e thread conn buf m' op sv' = (Inr (Some (d, wlen d)), m'', sv'))))"

lemma data_ready_request:
  assumes e: "good_env e" and rq: "write_request m s d" and small: "length d \<le> unat (ro_max_storage (shared sv))"
  shows "data_ready e m s d sv"
proof -
  obtain buf m' rest where rn: "read_file_name e m 256 = (Inr buf, m')" "cstr buf = s"
      and m': "db_inv (mdata m')" "db_stack (mdata m') = rest @ field d"
    using read_write_request [OF rq] .
  have dl: "length d < 2 ^ 61" using rq by (simp add: write_request_def)
  have "\<exists>m''. get_data e thread conn buf m' op sv' = (Inr (Some (d, wlen d)), m'', sv')"
    if "ro_max_storage (shared sv') = ro_max_storage (shared sv)" for thread conn op sv'
    using get_data_ok [OF e m' dl, of thread conn buf op sv'] small that by auto
  with rn small show ?thesis unfolding data_ready_def by blast
qed

text \<open>What both handlers have done before the eviction.\<close>

lemma data_prefix:
  assumes inv: "server_inv sv" and rq: "data_ready e in_msg s d sv"
  obtains (missing) buf m' where "read_file_name e in_msg 256 = (Inr buf, m')" "cstr buf = s"
      "get_file (files sv) buf = Inl ENOENT" "sabs sv s = None"
    | (found) buf m' m'' i where "read_file_name e in_msg 256 = (Inr buf, m')" "cstr buf = s"
      "get_file (files sv) buf = Inr i" "i < length (files sv)" "existing (files sv ! i)"
      "name (files sv ! i) = s" "wlen d \<le> ro_max_storage (shared sv)"
      "length (a_content (fabs (files sv ! i))) + length d < 2 ^ 63" "length d < 2 ^ 61"
      "\<And>thread conn op. get_data e thread conn buf m' op (set_lastop ci [] sv)
         = (Inr (Some (d, wlen d)), m'' thread conn op, set_lastop ci [] sv)"
proof -
  obtain buf m' where rn: "read_file_name e in_msg 256 = (Inr buf, m')" "cstr buf = s"
      and gd: "\<And>thread conn op sv'. ro_max_storage (shared sv') = ro_max_storage (shared sv) \<Longrightarrow>
          \<exists>m''. get_data e thread conn buf m' op sv' = (Inr (Some (d, wlen d)), m'', sv')"
    using rq unfolding data_ready_def by blast
  have small: "length d \<le> unat (ro_max_storage (shared sv))" using rq by (simp add: data_ready_def)
  moreover have "unat (ro_max_storage (shared sv)) < 2 ^ 61" using inv by (simp add: server_inv_def counters_inv_def)
  ultimately have dl: "length d < 2 ^ 61" by (rule le_less_trans)
  note st = server_inv_store [OF inv]
  show thesis
  proof (cases "get_file (files sv) buf")
    case (Inl err)
    with missing rn get_file_Inl [OF st Inl] show thesis by auto
  next
    case (Inr i)
    note G = get_file_Inr [OF st Inr]
    have "wlen d \<le> ro_max_storage (shared sv)" using small dl by (simp add: word_le_nat_alt unat_wlen)
    moreover have "\<exists>m''. get_data e thread conn buf m' op (set_lastop ci [] sv)
        = (Inr (Some (d, wlen d)), m'', set_lastop ci [] sv)" for thread conn op
      by (rule gd) (simp add: shared_set_lastop)
    then obtain m'' where "\<And>thread conn op. get_data e thread conn buf m' op (set_lastop ci [] sv)
        = (Inr (Some (d, wlen d)), m'' thread conn op, set_lastop ci [] sv)" by metis
    ultimately show thesis
      using found [OF rn(1,2) Inr G(1,2)] G(3) rn(2) content_capacity [OF inv G(1)] dl by simp
  qed
qed

lemma do_append_file_handles:
  assumes e: "good_env e" and inv: "server_inv sv" and rq: "data_ready e in_msg s d sv" and d: "d \<noteq> []"
    and out: "fresh out" and conn: "0 < conn"
    and run: "do_append_file e thread conn in_msg out ci sv = Some res"
  shows "data_done (a_append_op d) MESSAGE_AFILE_ACK conn s sv res"
proof (rule data_prefix [OF inv rq])
  fix buf m'
  assume "read_file_name e in_msg 256 = (Inr buf, m')" "cstr buf = s" "get_file (files sv) buf = Inl ENOENT"
    "sabs sv s = None"
  with run inv out data_done_missing show ?thesis by (auto simp: do_append_file_def Let_def fresh_def)
next
  fix buf m' m'' i
  assume P: "read_file_name e in_msg 256 = (Inr buf, m')" "cstr buf = s" "get_file (files sv) buf = Inr i"
    "i < length (files sv)" "existing (files sv ! i)" "name (files sv ! i) = s" "wlen d \<le> ro_max_storage (shared sv)"
    "length (a_content (fabs (files sv ! i))) + length d < 2 ^ 63" "length d < 2 ^ 61"
    "\<And>thread conn op. get_data e thread conn buf m' op (set_lastop ci [] sv)
         = (Inr (Some (d, wlen d)), m'' thread conn op, set_lastop ci [] sv)"
  let ?sv = "set_lastop ci [] sv" and ?out = "out\<lparr>mtype := MESSAGE_AFILE_ACK\<rparr>"
  have al: "e_alloc e = mem_ok" using e by (simp add: good_env_def)
  have A: "server_inv ?sv" "fresh ?out" "wlen d \<le> ro_max_storage (shared ?sv)" "0 \<le> conn"
    using inv out P(7) conn by (simp_all add: fresh_def shared_set_lastop)
  obtain r out1 sv1 where cm: "do_cache_miss e thread buf (wlen d) ?sv ?out = Some (r, out1, sv1)"
    using run P(1,3,10) by (auto simp: do_append_file_def Let_def)
  show ?thesis
  proof (rule fappend.data_phase [where d = d, OF e A(1,2) refl A(3) _ _ _ cm A(4)])
    fix err
    assume F: "r = Inr ()" "i < length (files sv1)" "a_append_op d conn (fabs (files ?sv ! i)) = Inl err"
      "append_file mem_ok (files sv1 ! i) conn d (wlen d) = (Inl err, files sv1 ! i)"
      and D: "\<And>t b op str rd wr. data_done (a_append_op d) (mtype ?out) conn (cstr buf) ?sv
         (0, or_flag out1 (data_flag (Inl err)), do_log t conn b op str rd wr (sub_storage (wlen d) (reserve_storage (wlen d) sv1)))"
    have "err = EAGAIN \<or> err = EPERM" using F(3) by (auto simp: a_op_defs split: if_splits)
    with D F(1,2,4) P(1-3,10) cm run al show ?thesis by (auto simp: do_append_file_def Let_def)
  next
    fix x f'
    assume F: "r = Inr ()" "i < length (files sv1)" "append_file mem_ok (files sv1 ! i) conn d (wlen d) = (Inr x, f')"
      and D: "\<And>t b op str rd wr. data_done (a_append_op d) (mtype ?out) conn (cstr buf) ?sv
         (0, or_flag out1 MESSAGE_OP_SUCC, do_log t conn b op str rd wr (set_file i f' (reserve_storage (wlen d) sv1)))"
    with P(1-3,10) cm run al show ?thesis by (auto simp: do_append_file_def Let_def)
  qed (use P d append_grows in auto)
qed

lemma strncmp_eq_cstr: "cstr a = b \<Longrightarrow> strncmp_eq n a b"
  using cstr_idem [of a] by (simp add: strncmp_eq_def)

lemma do_write_file_handles:
  assumes e: "good_env e" and inv: "server_inv sv" and rq: "data_ready e in_msg s d sv" and d: "d \<noteq> []"
    and out: "fresh out" and conn: "0 < conn"
    and last: "\<And>buf. cstr buf = s \<Longrightarrow> strncmp_eq FILE_NAME_MAX_SIZE buf (lastop_of ci sv)"
    and run: "do_write_file e thread conn in_msg out ci sv = Some res"
  shows "data_done (a_write_op d) MESSAGE_WFILE_ACK conn s sv res"
proof (rule data_prefix [OF inv rq])
  fix buf m'
  assume "read_file_name e in_msg 256 = (Inr buf, m')" "cstr buf = s" "get_file (files sv) buf = Inl ENOENT"
    "sabs sv s = None"
  with last run inv out data_done_missing show ?thesis by (auto simp: do_write_file_def Let_def fresh_def)
next
  fix buf m' m'' i
  assume P: "read_file_name e in_msg 256 = (Inr buf, m')" "cstr buf = s" "get_file (files sv) buf = Inr i"
    "i < length (files sv)" "existing (files sv ! i)" "name (files sv ! i) = s" "wlen d \<le> ro_max_storage (shared sv)"
    "length (a_content (fabs (files sv ! i))) + length d < 2 ^ 63" "length d < 2 ^ 61"
    "\<And>thread conn op. get_data e thread conn buf m' op (set_lastop ci [] sv)
         = (Inr (Some (d, wlen d)), m'' thread conn op, set_lastop ci [] sv)"
  let ?sv = "set_lastop ci [] sv" and ?out = "out\<lparr>mtype := MESSAGE_WFILE_ACK\<rparr>"
  have al: "e_alloc e = mem_ok" using e by (simp add: good_env_def)
  have A: "server_inv ?sv" "fresh ?out" "wlen d \<le> ro_max_storage (shared ?sv)" "0 \<le> conn"
    using inv out P(7) conn by (simp_all add: fresh_def shared_set_lastop)
  obtain r out1 sv1 where cm: "do_cache_miss e thread buf (wlen d) ?sv ?out = Some (r, out1, sv1)"
    using run last P(1-3,10) by (auto simp: do_write_file_def Let_def)
  show ?thesis
  proof (rule fwrite.data_phase [where d = d, OF e A(1,2) refl A(3) _ _ _ cm A(4)])
    fix err
    assume F: "r = Inr ()" "i < length (files sv1)" "a_write_op d conn (fabs (files ?sv ! i)) = Inl err"
      "write_file mem_ok (files sv1 ! i) conn d (wlen d) = (Inl err, files sv1 ! i)"
      and D: "\<And>t b op str rd wr. data_done (a_write_op d) (mtype ?out) conn (cstr buf) ?sv
         (0, or_flag out1 (data_flag (Inl err)), do_log t conn b op str rd wr (sub_storage (wlen d) (reserve_storage (wlen d) sv1)))"
    have "err = EAGAIN \<or> err = EPERM \<or> err = EEXIST" using F(3) by (auto simp: a_op_defs split: if_splits)
    with D F(1,2,4) P(1-3,10) cm run al last show ?thesis by (auto simp: do_write_file_def Let_def)
  next
    fix x f'
    assume F: "r = Inr ()" "i < length (files sv1)" "write_file mem_ok (files sv1 ! i) conn d (wlen d) = (Inr x, f')"
      and D: "\<And>t b op str rd wr. data_done (a_write_op d) (mtype ?out) conn (cstr buf) ?sv
         (0, or_flag out1 MESSAGE_OP_SUCC, do_log t conn b op str rd wr (set_file i f' (reserve_storage (wlen d) sv1)))"
    with P(1-3,10) cm run al last show ?thesis by (auto simp: do_write_file_def Let_def)
  qed (use P d write_grows in auto)
qed

text \<open>A client whose last operation did not create and lock this very file writes nothing.\<close>

lemma do_write_file_refused:
  assumes e: "good_env e" and inv: "server_inv sv" and rq: "write_request in_msg s d"
    and last: "lastop_of ci sv \<noteq> s" "0 \<notin> set (lastop_of ci sv)" "length (lastop_of ci sv) \<le> FILE_NAME_MAX_SIZE"
  shows "\<exists>sv'. do_write_file e thread conn in_msg out ci sv = Some (0, out\<lparr>mtype := MESSAGE_WFILE_ACK\<rparr>, sv')
       \<and> files sv' = files sv \<and> shared sv' = shared sv"
proof -
  obtain buf m' where rn: "read_file_name e in_msg 256 = (Inr buf, m')" "cstr buf = s"
    using read_write_request [OF rq] by blast
  have "length s < 256" using length_requests [OF write_request_name [OF rq]] .
  then have "\<not> strncmp_eq FILE_NAME_MAX_SIZE buf (lastop_of ci sv)"
    using rn(2) last cstr_id [OF last(2)] by (simp add: strncmp_eq_def FILE_NAME_MAX_SIZE_def)
  with rn(1) show ?thesis by (simp add: do_write_file_def Let_def)
qed

subsection \<open>The handlers return\<close>

text \<open>Everything but the files that may be evicted fits, and the policy makes progress.\<close>

definition can_evict :: "env \<Rightarrow> byte list \<Rightarrow> byte list \<Rightarrow> server \<Rightarrow> bool" where
  "can_evict e s d sv \<longleftrightarrow>
     kept s (files sv) + length d \<le> unat (ro_max_storage (shared sv)) \<and> (\<exists>k. ready e s k sv)"

lemma candidate_cstr: "candidate (cstr nd) f = candidate nd f"
  by (simp add: candidate_def)

lemma ready_frame: "ready e buf k (set_lastop ci t sv) = ready e (cstr buf) k sv"
proof -
  have "ro_cache_miss_algorithm (shared (set_lastop ci t sv)) = ro_cache_miss_algorithm (shared sv)"
    by (simp add: shared_set_lastop)
  then show ?thesis by (simp only: ready_def candidate_cstr frame_simps)
qed

lemma do_cache_miss_returns:
  assumes e: "good_env e" and inv: "server_inv sv" and out: "fresh out" and d: "length d < 2 ^ 61"
    and ev: "can_evict e (cstr buf) d sv"
  shows "do_cache_miss e thread buf (wlen d) (set_lastop ci [] sv) (out\<lparr>mtype := ty\<rparr>) \<noteq> None"
proof -
  let ?sv = "set_lastop ci [] sv" and ?out = "out\<lparr>mtype := ty\<rparr>"
  obtain k where "ready e (cstr buf) k sv" using ev by (auto simp: can_evict_def)
  then have "ready e buf k ?sv" by (simp only: ready_frame)
  moreover have "unat (wlen d) = length d" using d by (simp add: unat_wlen)
  then have "wlen d \<le> ro_max_storage (shared ?sv)" "kept buf (files ?sv) + unat (wlen d) \<le> unat (ro_max_storage (shared ?sv))"
    using ev by (simp_all add: can_evict_def shared_set_lastop kept_def candidate_cstr word_le_nat_alt)
  moreover have "server_inv ?sv" "fresh ?out" using inv out by (simp_all add: fresh_def)
  ultimately have "loop_pre e buf (wlen d) k ?out ?sv"
    using reply_room_fresh by (simp add: loop_pre_def)
  then obtain res where "evict_loop e thread buf (wlen d) 0 ?out ?sv = Some res"
    using evict_loop_returns [OF e] by blast
  then show ?thesis by (simp add: do_cache_miss_def)
qed

lemma capacity_small: "can_evict e s d sv \<Longrightarrow> length d \<le> unat (ro_max_storage (shared sv))"
  by (auto simp: can_evict_def)

lemma do_append_file_returns:
  assumes "good_env e" "server_inv sv" "data_ready e in_msg s d sv" "fresh out" "can_evict e s d sv"
  shows "do_append_file e thread conn in_msg out ci sv \<noteq> None"
proof (rule data_prefix [OF assms(2,3), where ci = ci])
  fix buf m' m'' i
  assume P: "read_file_name e in_msg 256 = (Inr buf, m')" "cstr buf = s" "get_file (files sv) buf = Inr i" "length d < 2 ^ 61"
    "\<And>thread conn op. get_data e thread conn buf m' op (set_lastop ci [] sv)
         = (Inr (Some (d, wlen d)), m'' thread conn op, set_lastop ci [] sv)"
  then have "do_cache_miss e thread buf (wlen d) (set_lastop ci [] sv) (out\<lparr>mtype := MESSAGE_AFILE_ACK\<rparr>) \<noteq> None"
    using do_cache_miss_returns [OF assms(1,2,4) P(4)] assms(5) P(2) by blast
  with P show ?thesis by (simp add: do_append_file_def Let_def del: not_None_eq)
qed (simp add: do_append_file_def Let_def)

lemma do_write_file_returns:
  assumes "good_env e" "server_inv sv" "data_ready e in_msg s d sv" "fresh out" "can_evict e s d sv"
  shows "do_write_file e thread conn in_msg out ci sv \<noteq> None"
proof (rule data_prefix [OF assms(2,3), where ci = ci])
  fix buf m' m'' i
  assume P: "read_file_name e in_msg 256 = (Inr buf, m')" "cstr buf = s" "get_file (files sv) buf = Inr i" "length d < 2 ^ 61"
    "\<And>thread conn op. get_data e thread conn buf m' op (set_lastop ci [] sv)
         = (Inr (Some (d, wlen d)), m'' thread conn op, set_lastop ci [] sv)"
  then have "do_cache_miss e thread buf (wlen d) (set_lastop ci [] sv) (out\<lparr>mtype := MESSAGE_WFILE_ACK\<rparr>) \<noteq> None"
    using do_cache_miss_returns [OF assms(1,2,4) P(4)] assms(5) P(2) by blast
  with P show ?thesis by (simp add: do_write_file_def Let_def del: not_None_eq)
qed (simp add: do_write_file_def Let_def)

text \<open>The eviction loop of an append that nothing can make room for.\<close>

lemma do_append_file_stuck:
  assumes e: "good_env e" and inv: "server_inv sv" and rq: "data_ready e in_msg s d sv" and out: "fresh out"
    and ex: "sabs sv s \<noteq> None"
    and none: "\<forall>f \<in> set (files sv). \<not> candidate s f"
    and full: "unat (ro_max_storage (shared sv)) < used (files sv) + length d"
  shows "do_append_file e thread conn in_msg out ci sv = None"
proof (rule data_prefix [OF inv rq, where ci = ci])
  fix buf m' m'' i
  assume P: "read_file_name e in_msg 256 = (Inr buf, m')" "cstr buf = s" "get_file (files sv) buf = Inr i"
    "wlen d \<le> ro_max_storage (shared sv)" "length d < 2 ^ 61"
    "\<And>thread conn op. get_data e thread conn buf m' op (set_lastop ci [] sv)
         = (Inr (Some (d, wlen d)), m'' thread conn op, set_lastop ci [] sv)"
  let ?sv = "set_lastop ci [] sv" and ?out = "out\<lparr>mtype := MESSAGE_AFILE_ACK\<rparr>"
  have A: "server_inv ?sv" "fresh ?out" using inv out by (simp_all add: fresh_def)
  have "unat (wlen d) = length d" using P(5) by (simp add: unat_wlen)
  then have "ro_max_storage (shared ?sv) < current_storage (shared ?sv) + wlen d"
    using fits_nat [OF inv P(4)] full by (simp add: shared_set_lastop)
  moreover have "\<forall>f \<in> set (files ?sv). \<not> candidate buf f"
    using none P(2) candidate_cstr [of buf] by auto
  ultimately have "evict_loop e thread buf (wlen d) 0 ?out ?sv = None"
    by (intro evict_loop_stuck [OF e A(1) reply_room_fresh [OF A]])
  with P show ?thesis by (simp add: do_append_file_def do_cache_miss_def Let_def)
qed (use ex in simp)

end
