(* ===== verification/Worker.thy ===== *)
theory Worker
  imports Worker_Conn Worker_Readn Write_Spec
begin

text \<open>
  A worker serves one connection (\<open>worker_do\<close> of \<open>source/worker.c\<close>): it reads one message,
  checks it, looks up the client, runs the handler of the message and writes the answer. The
  theory shows what a call can do, for every message and every behaviour of the socket, to the
  files, to the client table and to the counters.
\<close>

subsection \<open>The dispatcher\<close>

text \<open>What the kernel decides during one call: the result of \<open>accept\<close>, how the socket delivers
  the request and how it takes the answer.\<close>

record worker_io =
  io_accept :: "errno + int"
  io_in :: "rd_event list"
  io_out :: "wr_event list"

text \<open>What a call leaves: its result, the variables \<open>*conn\<close> and \<open>*newconn\<close>, the bytes it sent and
  the server.\<close>

record served =
  s_ret :: int
  s_conn :: int
  s_newconn :: int
  s_sent :: "byte list"
  s_server :: server

definition dispatch ::
    "env \<Rightarrow> int \<Rightarrow> int \<Rightarrow> net_msg \<Rightarrow> net_msg \<Rightarrow> nat \<Rightarrow> server \<Rightarrow> (int \<times> net_msg \<times> server) option" where
  "dispatch e thread conn in_msg out_msg ci sv =
     (let asks = CHECK_CLIENT_MSG_TYPE (mtype in_msg);
          run = (\<lambda>h. Some (h e thread conn in_msg out_msg ci sv))
      in if asks MESSAGE_OPEN_FILE then run do_open_file
         else if asks MESSAGE_CLOSE_FILE then run do_close_file
         else if asks MESSAGE_READ_FILE then run do_read_file
         else if asks MESSAGE_READN_FILE then run do_readn_files
         else if asks MESSAGE_WRITE_FILE then do_write_file e thread conn in_msg out_msg ci sv
         else if asks MESSAGE_APPEND_FILE then do_append_file e thread conn in_msg out_msg ci sv
         else if asks MESSAGE_LOCK_FILE then run do_lock_file
         else if asks MESSAGE_UNLOCK_FILE then run do_unlock_file
         else if asks MESSAGE_REMOVE_FILE then run do_remove_file
         else Some (0, out_msg\<lparr>mtype := MESSAGE_NULL\<rparr>,
                    do_log thread conn none_str ''Unknown Operation'' ''Nothing done.'' 0 0 sv))"

text \<open>\<open>None\<close>: the call does not return (\<open>state_mux\<close> is held for ever, or the eviction loop of a
  write does not end). What arrives on the connection is a finite list that ends with the end of
  the stream or an error: a client that stays connected and silent, for which the call waits, is
  not expressed, and no property says that a call on such a connection returns.\<close>

definition worker_do :: "env \<Rightarrow> int \<Rightarrow> worker_io \<Rightarrow> int \<Rightarrow> int \<Rightarrow> server \<Rightarrow> served option" where
  "worker_do e thread io conn newconn sv =
     (let leaves = (\<lambda>r c nc sent sv. Some \<lparr>s_ret = r, s_conn = c, s_newconn = nc, s_sent = sent, s_server = sv\<rparr>) in
      if conn = ro_acceptor_fd (shared sv)
      then (case do_acceptor e thread (io_accept io) (io_in io) (io_out io) newconn sv of
              None \<Rightarrow> None
            | Some (r, nc, sent, sv) \<Rightarrow> leaves r conn nc sent sv)
      else (case read_msg (e_alloc e) (io_in io) create_message of
              (Inl _, _, _) \<Rightarrow> leaves (-1) conn newconn [] sv
            | (Inr _, in_msg, _) \<Rightarrow>
                if \<not> is_client_message in_msg (mtype in_msg) then leaves (-1) conn newconn [] sv
                else if state_mux (shared sv) then None
                else (case get_client_lastop (shared sv) conn of
                        Inl _ \<Rightarrow> leaves (-1) conn newconn [] sv
                      | Inr ci \<Rightarrow>
                          if CHECK_CLIENT_MSG_TYPE (mtype in_msg) MESSAGE_CLOSE_CONN
                          then (case do_close_connection e thread (io_out io) conn create_message sv of
                                  (r, c, sent, sv) \<Rightarrow> leaves r c newconn sent sv)
                          else (case dispatch e thread conn in_msg create_message ci sv of
                                  None \<Rightarrow> None
                                | Some (r, out_msg, sv) \<Rightarrow>
                                    (case write_msg (io_out io) (set_checksum out_msg) of
                                       (Inl _, sent, _) \<Rightarrow> leaves (-1) conn newconn sent sv
                                     | (Inr _, sent, _) \<Rightarrow> leaves r conn newconn sent sv)))))"

end
