(* ===== verification/File_System.thy ===== *)
theory File_System
  imports Worker_Conn Worker_Readn Write_Spec
begin

text \<open>
  What the server is for its clients: a map from names to abstract files, and the steps that a
  call of a worker may make on it. The steps are a labelled relation: who acts, and which files
  are evicted. The theory proves what holds of every run: who owns what, and that nobody but
  its owner touches a locked file, evictions apart. The locale \<open>simulation\<close> carries such facts
  over to any system that implements the steps.
\<close>

subsection \<open>The steps\<close>

type_synonym fs = "byte list \<Rightarrow> afile option"

text \<open>The requests that need one file, and those that bring data for it.\<close>

inductive file_op :: "(int \<Rightarrow> afile \<Rightarrow> errno + afile option) \<Rightarrow> bool" where
  lock_op: "file_op (keep a_lock_op)"
| unlock_op: "file_op (keep a_unlock_op)"
| close_op: "file_op (keep a_close_op)"
| read_op: "file_op (keep a_read_op)"
| open_op: "file_op (open_op lk)"
| remove_op: "file_op remove_op"

inductive data_op :: "(int \<Rightarrow> afile \<Rightarrow> errno + afile) \<Rightarrow> bool" where
  write_op: "data_op (a_write_op d)"
| append_op: "data_op (a_append_op d)"

text \<open>\<open>V\<close> are the names of the evicted files.\<close>

inductive fs_step :: "int \<Rightarrow> byte list set \<Rightarrow> fs \<Rightarrow> fs \<Rightarrow> bool" where
  quiet: "fs_step who {} m m"
| one_file: "file_op op \<Longrightarrow> fs_step who {} m (snd (request op who s m))"
| create: "m s = None \<Longrightarrow> own = who \<or> own = OWNER_NULL \<Longrightarrow>
    fs_step who {} m (m(s \<mapsto> \<lparr>a_owner = own, a_open = True, a_content = []\<rparr>))"
| data: "data_op op \<Longrightarrow> s \<notin> V \<Longrightarrow> \<forall>v \<in> V. \<exists>a. m v = Some a \<and> a_content a \<noteq> [] \<Longrightarrow>
    fs_step who V m (snd (request (keep op) who s (m |` (- V))))"
| several: "\<forall>s \<in> J. \<exists>a. m s = Some a \<and> \<not> locked_out who a \<Longrightarrow>
    fs_step who {} m (\<lambda>s. map_option (\<lambda>a. if s \<in> J then a_readn_op who a else a) (m s))"
| leave: "fs_step who {} m (\<lambda>s. map_option (a_disconnect who) (m s))"

inductive_cases fs_stepE: "fs_step who V m m'"

subsection \<open>What a step may do to one file\<close>

text \<open>The file before and after. It is made, evicted, removed by its owner, or passes through the
  hands of a client that is not locked out of it.\<close>

definition file_moves :: "int \<Rightarrow> bool \<Rightarrow> afile option \<Rightarrow> afile option \<Rightarrow> bool" where
  "file_moves who evicted x y \<longleftrightarrow>
     (case x of
        None \<Rightarrow> \<not> evicted \<and> (y = None \<or> (\<exists>own. (own = who \<or> own = OWNER_NULL) \<and> y = Some \<lparr>a_owner = own, a_open = True, a_content = []\<rparr>))
      | Some a \<Rightarrow>
          if evicted then a_content a \<noteq> [] \<and> y = None
          else y = Some a
             \<or> (y = None \<and> a_owner a = who \<and> who \<noteq> OWNER_NULL)
             \<or> (\<not> locked_out who a \<and> (\<exists>b. y = Some b \<and> (a_owner b = who \<or> a_owner b = OWNER_NULL \<or> a_owner b = a_owner a)
                  \<and> (\<not> a_open b \<longrightarrow> a_open a \<longrightarrow> a_owner b = OWNER_NULL)
                  \<and> (\<not> a_open b \<longrightarrow> a_owner a = OWNER_NULL \<longrightarrow> a_owner b = OWNER_NULL))))"

lemma file_op_moves:
  "file_op op \<Longrightarrow> (case op who a of Inl err \<Rightarrow> True | Inr y \<Rightarrow> file_moves who False (Some a) y)"
  by (cases op rule: file_op.cases)
    (auto simp: file_moves_def keep_def open_op_def remove_op_def a_op_defs)

lemma data_op_moves:
  "data_op op \<Longrightarrow> (case op who a of Inl err \<Rightarrow> True | Inr b \<Rightarrow> file_moves who False (Some a) (Some b))"
  by (cases op rule: data_op.cases) (auto simp: file_moves_def a_op_defs)

lemma file_moves_refl: "file_moves who False x x"
  by (simp add: file_moves_def split: option.split)

lemma fs_step_moves: "fs_step who V m m' \<Longrightarrow> file_moves who (s \<in> V) (m s) (m' s)"
proof (induction rule: fs_step.induct)
  case (one_file op who m t)
  then show ?case
    using file_op_moves [OF one_file, of who "the (m t)"]
    by (auto simp: request_def file_moves_refl split: option.splits sum.splits)
next
  case (data op t V m who)
  show ?case
  proof (cases "s \<in> V")
    case True
    with data show ?thesis
      by (auto simp: request_def keep_def file_moves_def split: option.splits sum.splits)
  next
    case False
    then show ?thesis
      using data_op_moves [OF data(1), of who "the (m t)"] data(2)
      by (auto simp: request_def keep_def file_moves_refl restrict_map_def split: option.splits sum.splits)
  qed
next
  case (several J m who)
  then show ?case by (cases "m s") (auto simp: file_moves_def a_readn_op_def locked_out_def)
next
  case (leave who m)
  then show ?case by (cases "m s") (auto simp: file_moves_def a_disconnect_def locked_out_def)
qed (auto simp: file_moves_refl, simp_all add: file_moves_def)

text \<open>A locked file: the others either leave it as it is or evict it, and only when it has contents.\<close>

lemma fs_step_locked:
  assumes "fs_step who V m m'" and "m s = Some a" and "locked_out who a"
  shows "if s \<in> V then m' s = None \<and> a_content a \<noteq> [] else m' s = Some a"
  using fs_step_moves [OF assms(1), of s] assms(2,3)
  by (auto simp: file_moves_def locked_out_def split: if_splits)

subsection \<open>Who owns the files\<close>

text \<open>A closed file has no owner, and the owners are clients in \<open>C\<close>.\<close>

definition fs_inv :: "int set \<Rightarrow> fs \<Rightarrow> bool" where
  "fs_inv C m \<longleftrightarrow>
     (\<forall>s a. m s = Some a \<longrightarrow> (a_owner a = OWNER_NULL \<or> a_owner a \<in> C) \<and> (\<not> a_open a \<longrightarrow> a_owner a = OWNER_NULL))"

lemma fs_invD: "fs_inv C m \<Longrightarrow> m s = Some a \<Longrightarrow> a_owner a \<noteq> OWNER_NULL \<Longrightarrow> a_owner a \<in> C \<and> a_open a"
  by (auto simp: fs_inv_def)

lemma fs_inv_mono: "fs_inv C m \<Longrightarrow> C \<subseteq> D \<Longrightarrow> fs_inv D m"
  by (auto simp: fs_inv_def)

lemma fs_inv_step:
  assumes "fs_step who V m m'" and inv: "fs_inv C m" and "who \<in> C \<or> who = OWNER_NULL"
  shows "fs_inv C m'"
  unfolding fs_inv_def
proof (intro allI impI)
  fix s b
  assume b: "m' s = Some b"
  have M: "file_moves who (s \<in> V) (m s) (Some b)" using fs_step_moves [OF assms(1), of s] b by simp
  show "(a_owner b = OWNER_NULL \<or> a_owner b \<in> C) \<and> (\<not> a_open b \<longrightarrow> a_owner b = OWNER_NULL)"
  proof (cases "m s")
    case None
    with M assms(3) show ?thesis by (auto simp: file_moves_def)
  next
    case (Some a)
    with inv have a: "a_owner a = OWNER_NULL \<or> a_owner a \<in> C" "\<not> a_open a \<longrightarrow> a_owner a = OWNER_NULL"
      by (simp_all add: fs_inv_def)
    with M Some assms(3) show ?thesis by (auto simp: file_moves_def split: if_splits)
  qed
qed

text \<open>After a client has left, it owns nothing.\<close>

lemma fs_inv_leave:
  assumes inv: "fs_inv C m"
  shows "fs_inv (C - {who}) (\<lambda>s. map_option (a_disconnect who) (m s))"
  unfolding fs_inv_def
proof (intro allI impI)
  fix s b
  assume "map_option (a_disconnect who) (m s) = Some b"
  then obtain a where a: "m s = Some a" "b = a_disconnect who a" by auto
  with inv have "a_owner a = OWNER_NULL \<or> a_owner a \<in> C" "\<not> a_open a \<longrightarrow> a_owner a = OWNER_NULL"
    by (simp_all add: fs_inv_def)
  with a show "(a_owner b = OWNER_NULL \<or> a_owner b \<in> C - {who}) \<and> (\<not> a_open b \<longrightarrow> a_owner b = OWNER_NULL)"
    by (auto simp: a_disconnect_def)
qed

subsection \<open>Runs\<close>

inductive run :: "('l \<Rightarrow> 's \<Rightarrow> 's \<Rightarrow> bool) \<Rightarrow> 'l list \<Rightarrow> 's \<Rightarrow> 's \<Rightarrow> bool" for step where
  run_Nil: "run step [] s s"
| run_Cons: "step l s s' \<Longrightarrow> run step ls s' s'' \<Longrightarrow> run step (l # ls) s s''"

inductive_simps run_Nil_iff [simp]: "run step [] s s'"
inductive_simps run_Cons_iff: "run step (l # ls) s s'"

text \<open>A system whose every step is, under an invariant, a step of an abstract one. \<open>lab\<close> says which
  abstract label the step may be seen as.\<close>

locale simulation =
  fixes step :: "'l \<Rightarrow> 's \<Rightarrow> 's \<Rightarrow> bool"
    and astep :: "'a \<Rightarrow> 't \<Rightarrow> 't \<Rightarrow> bool"
    and inv :: "'s \<Rightarrow> bool" and abs :: "'s \<Rightarrow> 't" and lab :: "'l \<Rightarrow> 'a \<Rightarrow> bool"
  assumes keeps: "inv s \<Longrightarrow> step l s s' \<Longrightarrow> inv s'"
    and simulates: "inv s \<Longrightarrow> step l s s' \<Longrightarrow> \<exists>a. lab l a \<and> astep a (abs s) (abs s')"
begin

lemma run_keeps: "run step ls s s' \<Longrightarrow> inv s \<Longrightarrow> inv s'"
  by (induction rule: run.induct) (auto intro: keeps)

lemma run_simulates: "run step ls s s' \<Longrightarrow> inv s \<Longrightarrow> \<exists>as. list_all2 lab ls as \<and> run astep as (abs s) (abs s')"
proof (induction rule: run.induct)
  case (run_Nil s)
  then show ?case by (auto intro: run.run_Nil)
next
  case (run_Cons l s s' ls s'')
  then obtain a as where "lab l a" "astep a (abs s) (abs s')" "list_all2 lab ls as" "run astep as (abs s') (abs s'')"
    using simulates keeps by blast
  then show ?case by (intro exI [of _ "a # as"]) (auto intro: run.run_Cons)
qed

end

text \<open>Along a run of other clients a locked file stays as it is unless it is evicted.\<close>

lemma run_locked:
  "run (\<lambda>(who, V). fs_step who V) ls m m' \<Longrightarrow> m s = Some a \<Longrightarrow>
   (\<And>who V. (who, V) \<in> set ls \<Longrightarrow> locked_out who a) \<Longrightarrow>
   m' s = Some a \<or> (a_content a \<noteq> [] \<and> (\<exists>(who, V) \<in> set ls. s \<in> V))"
proof (induction rule: run.induct)
  case (run_Cons l m m' ls m'')
  obtain who V where l: "l = (who, V)" by (cases l)
  then have "fs_step who V m m'" "locked_out who a" using run_Cons by auto
  from fs_step_locked [OF this(1) run_Cons(4) this(2)] show ?case
  proof (cases "s \<in> V")
    case True
    with \<open>if s \<in> V then m' s = None \<and> a_content a \<noteq> [] else m' s = Some a\<close> l show ?thesis by auto
  next
    case False
    then have "m' s = Some a" using \<open>if s \<in> V then m' s = None \<and> a_content a \<noteq> [] else m' s = Some a\<close> by simp
    from run_Cons.IH [OF this] run_Cons.prems(2) show ?thesis by auto
  qed
qed simp

end
