(* ===== verification/Worker_Spec.thy ===== *)
theory Worker_Spec
  imports Worker File_System
begin

text \<open>
  Every call of a worker is one step of the file system of \<open>File_System\<close>, whatever message
  arrives: the server invariant survives, the client table changes only by accepting or closing
  a connection, and the files change only as the steps allow.
\<close>

subsection \<open>The handlers leave the table alone\<close>

lemma same_table_on_shared:
  "(\<And>ss. same_conns ss (g ss)) \<Longrightarrow> same_table sv (on_shared g sv') = same_table sv sv'"
  by (simp add: same_table_def same_conns_def)

lemma same_table_ticks [simp]: "same_table sv (sv'\<lparr>ticks := n\<rparr>) = same_table sv sv'"
  by (simp add: same_table_def)

lemma same_table_count [simp]:
  "same_table sv (on_shared (\<lambda>ss. ss\<lparr>current_files := f ss\<rparr>) sv') = same_table sv sv'"
  "same_table sv (on_shared (\<lambda>ss. ss\<lparr>current_files := f ss, max_reached_files := h ss\<rparr>) sv') = same_table sv sv'"
  by (simp_all add: same_table_on_shared same_conns_def)

lemma open_file_create_table: "open_file_create e thread fx nm conn m out ci sv = (r, out', sv') \<Longrightarrow> same_table sv sv'"
  by (auto simp: open_file_create_def Let_def split: if_splits sum.splits prod.splits)

lemma open_file_open_table: "open_file_open e thread fs nm conn m out ci sv = (r, out', sv') \<Longrightarrow> same_table sv sv'"
  by (auto simp: open_file_open_def Let_def split: if_splits sum.splits prod.splits option.splits)

lemma do_open_file_table: "do_open_file e thread conn m out ci sv = (r, out', sv') \<Longrightarrow> same_table sv sv'"
  by (auto simp: do_open_file_def Let_def split: if_splits sum.splits prod.splits
      dest!: open_file_create_table open_file_open_table)

lemma do_close_file_table: "do_close_file e thread conn m out ci sv = (r, out', sv') \<Longrightarrow> same_table sv sv'"
  by (auto simp: do_close_file_def Let_def split: if_splits sum.splits prod.splits)

lemma do_lock_file_table: "do_lock_file e thread conn m out ci sv = (r, out', sv') \<Longrightarrow> same_table sv sv'"
  by (auto simp: do_lock_file_def Let_def split: if_splits sum.splits prod.splits)

lemma do_unlock_file_table: "do_unlock_file e thread conn m out ci sv = (r, out', sv') \<Longrightarrow> same_table sv sv'"
  by (auto simp: do_unlock_file_def Let_def split: if_splits sum.splits prod.splits)

lemma do_remove_file_table: "do_remove_file e thread conn m out ci sv = (r, out', sv') \<Longrightarrow> same_table sv sv'"
  by (auto simp: do_remove_file_def Let_def split: if_splits sum.splits prod.splits)

lemma do_read_file_table: "do_read_file e thread conn m out ci sv = (r, out', sv') \<Longrightarrow> same_table sv sv'"
  by (auto simp: do_read_file_def Let_def split: if_splits sum.splits prod.splits)

subsection \<open>One call of a handler\<close>

text \<open>A call that does no more than a client may.\<close>

definition proper :: "int \<Rightarrow> server \<Rightarrow> server \<Rightarrow> bool" where
  "proper conn sv sv' \<longleftrightarrow>
     server_inv sv' \<and> same_table sv sv' \<and> (\<exists>V. fs_step conn V (sabs sv) (sabs sv'))"

text \<open>A call that, besides, evicts nothing.\<close>

definition gentle :: "int \<Rightarrow> server \<Rightarrow> server \<Rightarrow> bool" where
  "gentle conn sv sv' \<longleftrightarrow> server_inv sv' \<and> same_table sv sv' \<and> fs_step conn {} (sabs sv) (sabs sv')"

lemma gentle_proper: "gentle conn sv sv' \<Longrightarrow> proper conn sv sv'"
  by (auto simp: gentle_def proper_def)

lemma gentle_quiet: "server_inv sv' \<Longrightarrow> same_table sv sv' \<Longrightarrow> sabs sv' = sabs sv \<Longrightarrow> gentle conn sv sv'"
  unfolding gentle_def using quiet by metis

lemma proper_quiet: "server_inv sv' \<Longrightarrow> same_table sv sv' \<Longrightarrow> sabs sv' = sabs sv \<Longrightarrow> proper conn sv sv'"
  unfolding proper_def using quiet by metis

context named_handler
begin

lemma gentle_call:
  assumes "good_env e" "server_inv sv" "ok in_msg out" "0 < conn" and op: "file_op op"
    and table: "\<And>r out' sv'. h e thread conn in_msg out ci sv = (r, out', sv') \<Longrightarrow> same_table sv sv'"
    and run: "h e thread conn in_msg out ci sv = (r, out', sv')"
  shows "gentle conn sv sv'"
proof (rule any_message [OF assms(1-4), of thread ci])
  assume "h e thread conn in_msg out ci sv = (-1, out, sv)"
  with run assms(2) show ?thesis by (auto intro: gentle_quiet)
next
  fix s out1 sv1
  assume R: "h e thread conn in_msg out ci sv = (0, out1, sv1)" "server_inv sv1"
    "sabs sv1 = snd (request op conn s (sabs sv))"
  then have "sv' = sv1" using run by simp
  with R one_file [OF op] table [OF run] show ?thesis unfolding gentle_def by metis
qed

end

lemma gentle_lock: "good_env e \<Longrightarrow> server_inv sv \<Longrightarrow> 0 < conn \<Longrightarrow>
  do_lock_file e thread conn m out ci sv = (r, out', sv') \<Longrightarrow> gentle conn sv sv'"
  by (rule lock_request.gentle_call) (auto intro: lock_op do_lock_file_table)

lemma gentle_unlock: "good_env e \<Longrightarrow> server_inv sv \<Longrightarrow> 0 < conn \<Longrightarrow>
  do_unlock_file e thread conn m out ci sv = (r, out', sv') \<Longrightarrow> gentle conn sv sv'"
  by (rule unlock_request.gentle_call) (auto intro: unlock_op do_unlock_file_table)

lemma gentle_close: "good_env e \<Longrightarrow> server_inv sv \<Longrightarrow> 0 < conn \<Longrightarrow>
  do_close_file e thread conn m out ci sv = (r, out', sv') \<Longrightarrow> gentle conn sv sv'"
  by (rule close_request.gentle_call) (auto intro: close_op do_close_file_table)

lemma gentle_remove: "good_env e \<Longrightarrow> server_inv sv \<Longrightarrow> 0 < conn \<Longrightarrow>
  do_remove_file e thread conn m out ci sv = (r, out', sv') \<Longrightarrow> gentle conn sv sv'"
  by (rule remove_request.gentle_call) (auto intro: remove_op do_remove_file_table)

lemma gentle_read: "good_env e \<Longrightarrow> server_inv sv \<Longrightarrow> fresh out \<Longrightarrow> 0 < conn \<Longrightarrow>
  do_read_file e thread conn m out ci sv = (r, out', sv') \<Longrightarrow> gentle conn sv sv'"
  by (rule read_request.gentle_call) (auto intro: read_op do_read_file_table)

lemma gentle_open:
  assumes e: "good_env e" and inv: "server_inv sv" and conn: "0 < conn"
    and run: "do_open_file e thread conn m out ci sv = (r, out', sv')"
  shows "gentle conn sv sv'"
proof -
  define lk where "lk = HASFLAG (GETFLAGS (mtype m)) MESSAGE_OPEN_OLOCK"
  show ?thesis
  proof (cases "HASFLAG (GETFLAGS (mtype m)) MESSAGE_OPEN_OCREATE")
    case False
    then have "open_request lk m" by (simp add: open_request_def lk_def)
    from open_req.gentle_call [where lk = lk, OF e inv this conn file_op.open_op do_open_file_table run] show ?thesis .
  next
    case True
    show ?thesis
    proof (cases "read_file_name e m 256")
      case (Pair x m')
      show ?thesis
      proof (cases x)
        case (Inl err)
        with Pair run inv show ?thesis by (auto simp: do_open_file_def intro: gentle_quiet)
      next
        case (Inr buf)
        with Pair have nm: "names e m (cstr buf)" by (auto simp: names_def)
        note C = do_open_file_creates [OF e inv nm True lk_def [symmetric] conn, of thread out ci]
        then have inv': "server_inv sv'" using run by auto
        have "sabs sv' = sabs sv \<or> (sabs sv (cstr buf) = None \<and> sabs sv' = (sabs sv)(cstr buf \<mapsto>
            \<lparr>a_owner = (if lk then conn else OWNER_NULL), a_open = True, a_content = []\<rparr>))"
          using C run by (auto split: if_splits)
        with inv' do_open_file_table [OF run] show ?thesis
          unfolding gentle_def by (metis quiet create)
      qed
    qed
  qed
qed

lemma gentle_readn:
  assumes e: "good_env e" and inv: "server_inv sv" and out: "fresh out" and conn: "0 < conn"
    and run: "do_readn_files e thread conn m out ci sv = (r, out', sv')"
  shows "gentle conn sv sv'"
proof (cases "pop_buf (mdata m) 4 (Some (replicate 4 0))")
  case (Pair x b)
  show ?thesis
  proof (cases x)
    case (Inl err)
    with Pair run inv show ?thesis by (auto simp: do_readn_files_def Let_def intro: gentle_quiet)
  next
    case (Inr bs)
    define js where "js = readn_from conn (readn_limit (sint (bytes_int bs)) (files sv)) (files sv) 0"
    let ?J = "(\<lambda>j. name (files sv ! j)) ` set js"
    have S: "server_inv sv'" "\<And>s. sabs sv' s = map_option (\<lambda>a. if s \<in> ?J then a_readn_op conn a else a) (sabs sv s)"
        "shared sv' = shared (set_lastop ci [] sv)"
      using do_readn_files_serves [OF e inv out conn, of m bs b thread ci] Pair Inr run by (auto simp: js_def)
    have "unique_names (files sv)" using server_inv_store [OF inv] by (simp add: store_inv_def)
    then have "\<exists>a. sabs sv (name (files sv ! j)) = Some a \<and> \<not> locked_out conn a" if "j \<in> set js" for j
      using that store_abs_nth [of "files sv" j]
      by (auto simp: js_def readn_from_def readable_def dest!: in_set_takeD)
    then have "fs_step conn {} (sabs sv) (\<lambda>s. map_option (\<lambda>a. if s \<in> ?J then a_readn_op conn a else a) (sabs sv s))"
      by (intro several) blast
    moreover have "sabs sv' = (\<lambda>s. map_option (\<lambda>a. if s \<in> ?J then a_readn_op conn a else a) (sabs sv s))"
      using S(2) by (rule ext)
    moreover have "same_table sv sv'" using S(3) by (simp add: same_table_def shared_set_lastop)
    ultimately show ?thesis using S(1) unfolding gentle_def by metis
  qed
qed

subsection \<open>Requests with data\<close>

text \<open>Whatever the message holds, either the handler finds data of an admissible length, or it gives
  up before it touches anything.\<close>

lemma pop_buf_inv: "db_inv b \<Longrightarrow> pop_buf b n dst = (r, b') \<Longrightarrow> db_inv b'"
  by (auto simp: pop_buf_def db_inv_def contents_def Let_def word_le_nat_alt word_less_nat_alt unat_sub
      split: option.splits if_splits)

lemma read_file_name_inv: "db_inv (mdata m) \<Longrightarrow> read_file_name e m n = (r, m') \<Longrightarrow> db_inv (mdata m')"
  by (auto simp: read_file_name_def Let_def split: prod.splits if_splits dest: pop_buf_inv) (metis pop_buf_inv)

lemma pop_buf_exact:
  assumes inv: "db_inv b" and pop: "pop_buf b n (Some (resize_block (unat n) [])) = (Inr d, b')"
  shows "length d = unat n"
proof -
  have le: "unat n \<le> length (db_stack b)"
    using pop length_db_stack [OF inv]
    by (auto simp: pop_buf_def Let_def word_less_nat_alt split: if_splits)
  let ?k = "length (db_stack b) - unat n"
  have "db_stack b = take ?k (db_stack b) @ drop ?k (db_stack b)" "length (drop ?k (db_stack b)) = unat n"
    using le by simp_all
  from pop_buf_ok [OF inv this, of "resize_block (unat n) []"] pop le show ?thesis
    by (auto simp: resize_block_def)
qed

definition no_data :: "env \<Rightarrow> net_msg \<Rightarrow> byte list \<Rightarrow> size_t \<Rightarrow> bool" where
  "no_data e m buf cap \<longleftrightarrow>
     (\<forall>thread conn op sv. ro_max_storage (shared sv) = cap \<longrightarrow>
        (\<exists>r m' sv'. get_data e thread conn buf m op sv = (r, m', sv') \<and> (\<forall>x. r \<noteq> Inr (Some x))
           \<and> files sv' = files sv \<and> shared sv' = shared sv))"

lemma get_data_cases:
  assumes e: "good_env e" and m: "db_inv (mdata m)"
  obtains (found) d where "length d \<le> unat cap"
      "\<And>thread conn op sv. ro_max_storage (shared sv) = cap \<Longrightarrow>
         \<exists>m'. get_data e thread conn buf m op sv = (Inr (Some (d, wlen d)), m', sv)"
    | (gone) "no_data e m buf cap"
proof -
  obtain x b where b: "pop_buf (mdata m) 8 (Some (size_bytes 0)) = (x, b)"
    by (cases "pop_buf (mdata m) 8 (Some (size_bytes 0))")
  have al: "e_alloc e = mem_ok" using e by (simp add: good_env_def)
  show thesis
  proof (cases x)
    case (Inl err)
    with b gone show thesis by (simp add: no_data_def get_data_def)
  next
    case (Inr bs)
    let ?n = "bytes_size bs"
    obtain y b' where b': "pop_buf b ?n (Some (resize_block (unat ?n) [])) = (y, b')"
      by (cases "pop_buf b ?n (Some (resize_block (unat ?n) []))")
    show thesis
    proof (cases "cap < ?n")
      case True
      with b Inr gone show thesis by (simp add: no_data_def get_data_def Let_def)
    next
      case small: False
      show thesis
      proof (cases y)
        case (Inl err)
        with b Inr b' small gone al show thesis by (simp add: no_data_def get_data_def Let_def mem_ok)
      next
        case (Inr d)
        have "length d = unat ?n" using pop_buf_exact [OF pop_buf_inv [OF m b]] b' Inr by simp
        then have "wlen d = ?n" unfolding wlen_def by (metis of_nat_unat ucast_id)
        moreover have "length d \<le> unat cap"
          using \<open>length d = unat ?n\<close> small by (simp add: word_le_nat_alt not_less)
        ultimately show thesis using b \<open>x = Inr bs\<close> b' Inr small found al
          by (simp add: get_data_def Let_def mem_ok)
      qed
    qed
  qed
qed

lemma data_done_proper:
  assumes "data_op op" and "data_done op ack who s sv (r, out, sv')"
  shows "proper who sv sv'"
proof -
  obtain vs where D: "server_inv sv'" "same_table sv sv'" "s \<notin> name ` set vs" "\<forall>f \<in> set vs. stored_file sv f"
      "sabs sv' = snd (data_request op who s vs (sabs sv))"
    using assms(2) by (auto simp: data_done_def split_def)
  have "\<forall>v \<in> name ` set vs. \<exists>a. sabs sv v = Some a \<and> a_content a \<noteq> []"
    using D(4) by (auto simp: stored_file_def)
  from data [OF assms(1) D(3) this, of who] show ?thesis
    using D unfolding proper_def data_request_def by metis
qed

text \<open>Without any bytes to store nothing is evicted, and the operation on the file is refused.\<close>

lemma no_bytes:
  assumes inv: "server_inv sv"
  shows "do_cache_miss e thread buf 0 sv out = Some (Inr (), out, sv)"
    and "server_inv (sub_storage 0 (reserve_storage 0 sv))"
proof -
  have C: "unat (current_storage (shared sv)) = used (files sv)" "used (files sv) \<le> unat (ro_max_storage (shared sv))"
    using inv by (simp_all add: server_inv_def counters_inv_def)
  then have "\<not> ro_max_storage (shared sv) < current_storage (shared sv) + 0" by (simp add: word_less_nat_alt)
  then show "do_cache_miss e thread buf 0 sv out = Some (Inr (), out, sv)"
    by (simp add: do_cache_miss_def evict_loop.simps)
  show "server_inv (sub_storage 0 (reserve_storage 0 sv))"
    using reserve_inv(1) [OF inv, of 0] C by simp
qed

lemma empty_data: "write_file alloc f who d 0 = (Inl EINVAL, f)" "append_file alloc f who d 0 = (Inl EINVAL, f)"
  by (simp_all add: write_file_def append_file_def)

text \<open>The ways a request with data can go, for any message.\<close>

lemma data_message:
  assumes e: "good_env e" and inv: "server_inv sv" and m: "db_inv (mdata m)"
  obtains (rejected) err m' where "read_file_name e m 256 = (Inl err, m')"
    | (unnamed) buf m' err where "read_file_name e m 256 = (Inr buf, m')" "get_file (files sv) buf = Inl err"
    | (gone) buf m' i y m2 sv2 where "read_file_name e m 256 = (Inr buf, m')" "get_file (files sv) buf = Inr i"
        "get_data e thread conn buf m' STRING_WRITE_FILE (set_lastop ci [] sv) = (y, m2, sv2)"
        "\<forall>x. y \<noteq> Inr (Some x)" "gentle conn sv sv2"
    | (empty) buf m' i m2 where "read_file_name e m 256 = (Inr buf, m')" "get_file (files sv) buf = Inr i"
        "i < length (files sv)"
        "get_data e thread conn buf m' STRING_WRITE_FILE (set_lastop ci [] sv) = (Inr (Some ([], 0)), m2, set_lastop ci [] sv)"
        "gentle conn sv (sub_storage 0 (reserve_storage 0 (set_lastop ci [] sv)))"
    | (ready) buf m' d where "read_file_name e m 256 = (Inr buf, m')" "d \<noteq> []" "data_ready e m (cstr buf) d sv"
proof (cases "read_file_name e m 256")
  case (Pair x m')
  show thesis
  proof (cases x)
    case (Inl err)
    with Pair rejected show thesis by blast
  next
    case rn: (Inr buf)
    let ?sv = "set_lastop ci [] sv" and ?cap = "ro_max_storage (shared sv)"
    have cap: "ro_max_storage (shared ?sv) = ?cap" by (simp add: shared_set_lastop)
    show thesis
    proof (cases "get_file (files sv) buf")
      case (Inl err)
      with Pair rn unnamed show thesis by blast
    next
      case i: (Inr i)
      show thesis
      proof (rule get_data_cases [OF e read_file_name_inv [OF m Pair], of ?cap buf])
        assume "no_data e m' buf ?cap"
        then obtain y m2 sv2 where g: "get_data e thread conn buf m' STRING_WRITE_FILE ?sv = (y, m2, sv2)"
            "\<forall>x. y \<noteq> Inr (Some x)" "files sv2 = files ?sv" "shared sv2 = shared ?sv"
          using cap unfolding no_data_def by metis
        moreover have "gentle conn sv sv2"
          using g(3,4) inv
          by (intro gentle_quiet) (simp_all add: server_inv_def same_table_def shared_set_lastop)
        ultimately show thesis using gone Pair rn i by blast
      next
        fix d
        assume d: "length d \<le> unat ?cap"
          "\<And>thread conn op sv. ro_max_storage (shared sv) = ?cap \<Longrightarrow>
             \<exists>m2. get_data e thread conn buf m' op sv = (Inr (Some (d, wlen d)), m2, sv)"
        show thesis
        proof (cases "d = []")
          case False
          have "data_ready e m (cstr buf) d sv" using d Pair rn unfolding data_ready_def by blast
          with ready Pair rn False show thesis by blast
        next
          case True
          obtain m2 where "get_data e thread conn buf m' STRING_WRITE_FILE ?sv = (Inr (Some ([], 0)), m2, ?sv)"
            using d(2) [OF cap, of thread conn STRING_WRITE_FILE] True by (auto simp: wlen_def)
          moreover have "gentle conn sv (sub_storage 0 (reserve_storage 0 ?sv))"
            using no_bytes(2) [of ?sv] inv by (intro gentle_quiet) simp_all
          ultimately show thesis
            using empty Pair rn i get_file_Inr(1) [OF server_inv_store [OF inv] i] by blast
        qed
      qed
    qed
  qed
qed

lemma gentle_frame [simp]: "gentle conn sv (do_log a b c d op r w sv') = gentle conn sv sv'"
  by (simp add: gentle_def)

lemma gentle_set_lastop [simp]: "server_inv sv \<Longrightarrow> gentle conn sv (set_lastop ci s sv)"
  by (simp add: gentle_quiet)

lemma gentle_refl [simp]: "server_inv sv \<Longrightarrow> gentle conn sv sv"
  by (simp add: gentle_quiet)

lemma set_file_reserved_lastop [simp]:
  "i < length (files sv) \<Longrightarrow>
   set_file i (files sv ! i) (reserve_storage n (set_lastop ci t sv)) = reserve_storage n (set_lastop ci t sv)"
  using set_file_reserved [of i "set_lastop ci t sv" n] by simp

text \<open>Either nothing is evicted, or the request was carried out on the file that the message names.\<close>

definition for_named :: "(byte list \<Rightarrow> int \<Rightarrow> afile \<Rightarrow> errno + afile) \<Rightarrow> env \<Rightarrow> net_msg \<Rightarrow> int \<Rightarrow> server \<Rightarrow> int \<times> net_msg \<times> server \<Rightarrow> bool" where
  "for_named op e m conn sv res \<longleftrightarrow> (\<exists>s d ack. names e m s \<and> data_done (op d) ack conn s sv res)"

lemma append_outcome:
  assumes e: "good_env e" and inv: "server_inv sv" and out: "fresh out" and conn: "0 < conn" and m: "db_inv (mdata m)"
    and run: "do_append_file e thread conn m out ci sv = Some (r, out', sv')"
  shows "gentle conn sv sv' \<or> for_named a_append_op e m conn sv (r, out', sv')"
proof (rule data_message [OF e inv m, where thread = thread and conn = conn and ci = ci])
  fix buf m' d
  assume A: "read_file_name e m 256 = (Inr buf, m')" "d \<noteq> []" "data_ready e m (cstr buf) d sv"
  then have "names e m (cstr buf)" by (auto simp: names_def)
  with do_append_file_handles [OF e inv A(3,2) out conn run] show ?thesis unfolding for_named_def by blast
qed (use run inv no_bytes(1) in \<open>auto simp: do_append_file_def Let_def empty_data split: if_splits sum.splits option.splits\<close>)

lemma write_outcome:
  assumes e: "good_env e" and inv: "server_inv sv" and out: "fresh out" and conn: "0 < conn" and m: "db_inv (mdata m)"
    and run: "do_write_file e thread conn m out ci sv = Some (r, out', sv')"
  shows "gentle conn sv sv' \<or> for_named a_write_op e m conn sv (r, out', sv')"
proof (rule data_message [OF e inv m, where thread = thread and conn = conn and ci = ci])
  fix buf m' d
  assume A: "read_file_name e m 256 = (Inr buf, m')" "d \<noteq> []" "data_ready e m (cstr buf) d sv"
  show ?thesis
  proof (cases "strncmp_eq FILE_NAME_MAX_SIZE buf (lastop_of ci sv)")
    case True
    then have "strncmp_eq FILE_NAME_MAX_SIZE b (lastop_of ci sv)" if "cstr b = cstr buf" for b
      using that by (simp add: strncmp_eq_def)
    moreover have "names e m (cstr buf)" using A(1) by (auto simp: names_def)
    ultimately show ?thesis
      using do_write_file_handles [OF e inv A(3,2) out conn _ run] unfolding for_named_def by blast
  next
    case False
    with A run inv show ?thesis by (auto simp: do_write_file_def Let_def)
  qed
qed (use run inv no_bytes(1) in \<open>auto simp: do_write_file_def Let_def empty_data split: if_splits sum.splits option.splits\<close>)

lemma proper_append:
  assumes "good_env e" "server_inv sv" "fresh out" "0 < conn" "db_inv (mdata m)"
    and "do_append_file e thread conn m out ci sv = Some (r, out', sv')"
  shows "proper conn sv sv'"
  using append_outcome [OF assms] gentle_proper data_done_proper [OF append_op] by (auto simp: for_named_def)

lemma proper_write:
  assumes "good_env e" "server_inv sv" "fresh out" "0 < conn" "db_inv (mdata m)"
    and "do_write_file e thread conn m out ci sv = Some (r, out', sv')"
  shows "proper conn sv sv'"
  using write_outcome [OF assms] gentle_proper data_done_proper [OF write_op] by (auto simp: for_named_def)

text \<open>What a client that is locked out of a file does to it.\<close>

lemma gentle_locked: "gentle conn sv sv' \<Longrightarrow> sabs sv s = Some a \<Longrightarrow> locked_out conn a \<Longrightarrow> sabs sv' s = Some a"
  unfolding gentle_def using fs_step_locked [of conn "{}"] by fastforce

lemma for_named_locked:
  assumes f: "for_named op e m conn sv (r, out', sv')" and op: "\<And>d. data_op (op d)" "\<And>d. \<exists>x. op d conn a = Inl x"
    and s: "sabs sv s = Some a" "locked_out conn a"
  shows "sabs sv' s = Some a \<or> sabs sv' s = None \<and> a_content a \<noteq> [] \<and> \<not> names e m s"
proof -
  obtain t d ack where t: "names e m t" "data_done (op d) ack conn t sv (r, out', sv')"
    using f unfolding for_named_def by blast
  show ?thesis
  proof (cases "t = s")
    case True
    obtain vs where D: "s \<notin> name ` set vs" "sabs sv' = snd (data_request (op d) conn s vs (sabs sv))"
      using t(2) True by (auto simp: data_done_def split_def)
    obtain x where "op d conn a = Inl x" using op(2) by blast
    then have "sabs sv' s = Some a" using D s(1) by (simp add: data_request_def request_def keep_def)
    then show ?thesis by simp
  next
    case False
    have "\<not> names e m s" using t(1) False by (auto simp: names_def)
    moreover have "sabs sv' s = Some a \<or> sabs sv' s = None \<and> a_content a \<noteq> []"
      using data_done_proper [OF op(1) t(2)] fs_step_locked [where s = s and m = "sabs sv" and m' = "sabs sv'", OF _ s] unfolding proper_def by metis
    ultimately show ?thesis by blast
  qed
qed

subsection \<open>One call of the worker\<close>

lemma dispatch_proper:
  assumes e: "good_env e" and inv: "server_inv sv" and out: "fresh out" and conn: "0 < conn" and m: "db_inv (mdata m)"
    and run: "dispatch e thread conn m out ci sv = Some (r, out', sv')"
  shows "proper conn sv sv'"
proof -
  note G = gentle_open [OF e inv conn] gentle_close [OF e inv conn] gentle_read [OF e inv out conn]
    gentle_readn [OF e inv out conn] gentle_lock [OF e inv conn] gentle_unlock [OF e inv conn] gentle_remove [OF e inv conn]
  note P = G [THEN gentle_proper] proper_write [OF e inv out conn m] proper_append [OF e inv out conn m]
  show ?thesis
    using run inv by (auto simp: dispatch_def Let_def proper_quiet split: if_splits dest: P)
qed

text \<open>Whatever the message: a client that is locked out of a file leaves it as it is, unless a write or
  append to another file evicts it.\<close>

lemma dispatch_locked:
  assumes e: "good_env e" and inv: "server_inv sv" and out: "fresh out" and conn: "0 < conn" and m: "db_inv (mdata m)"
    and run: "dispatch e thread conn m out ci sv = Some (r, out', sv')"
    and s: "sabs sv s = Some a" "locked_out conn a"
  shows "sabs sv' s = Some a
     \<or> sabs sv' s = None \<and> a_content a \<noteq> [] \<and> \<not> names e m s
       \<and> (CHECK_CLIENT_MSG_TYPE (mtype m) MESSAGE_WRITE_FILE \<or> CHECK_CLIENT_MSG_TYPE (mtype m) MESSAGE_APPEND_FILE)"
proof -
  note G = gentle_open [OF e inv conn] gentle_close [OF e inv conn] gentle_read [OF e inv out conn]
    gentle_readn [OF e inv out conn] gentle_lock [OF e inv conn] gentle_unlock [OF e inv conn] gentle_remove [OF e inv conn]
  have refuse: "\<exists>x. a_append_op d conn a = Inl x" "\<exists>x. a_write_op d conn a = Inl x" for d
    using s(2) by (auto simp: a_op_defs)
  have W: "sabs sv' s = Some a \<or> sabs sv' s = None \<and> a_content a \<noteq> [] \<and> \<not> names e m s"
    if "do_write_file e thread conn m out ci sv = Some (r, out', sv')"
    using write_outcome [OF e inv out conn m that] gentle_locked [OF _ s] for_named_locked [where op = a_write_op, OF _ write_op refuse(2) s] by blast
  have A: "sabs sv' s = Some a \<or> sabs sv' s = None \<and> a_content a \<noteq> [] \<and> \<not> names e m s"
    if "do_append_file e thread conn m out ci sv = Some (r, out', sv')"
    using append_outcome [OF e inv out conn m that] gentle_locked [OF _ s] for_named_locked [where op = a_append_op, OF _ append_op refuse(1) s] by blast
  show ?thesis
    using run s(1) by (auto simp: dispatch_def Let_def split: if_splits dest: W A G [THEN gentle_locked, OF _ s])
qed

text \<open>A message that has arrived is well formed.\<close>

lemma readn_loop_length: "readn_loop n k acc evs = (Inr bs, evs') \<Longrightarrow> length bs \<le> length acc + k"
  by (induction n k acc evs rule: readn_loop.induct) (auto split: if_splits)

lemma read_msg_inv:
  assumes run: "read_msg alloc evs create_message = (Inr u, m, evs')"
  shows "db_inv (mdata m)"
proof -
  obtain n m1 e1 where h: "read_msghead evs create_message = (Inr n, m1, e1)" "mdata m1 = create_data_buffer"
    using run by (auto simp: read_msg_def read_msghead_def create_message_def split: sum.splits prod.splits if_splits)
  show ?thesis
  proof (cases "n = 0")
    case True
    with run h show ?thesis by (simp add: read_msg_def)
  next
    case False
    with run h(1) have body: "read_msgbody alloc e1 m1 n = (Inr u, m, evs')" by (simp add: read_msg_def)
    then obtain b bs where b: "resize_data_buffer alloc create_data_buffer n = (Inr (), b)"
        "mdata m = b\<lparr>buffer := copy_to (buffer b) bs, buf_size := n\<rparr>" "length bs = unat n"
      using h(2) by (auto simp: read_msgbody_def Let_def split: sum.splits prod.splits if_splits)
    then have "buf_cap b = n" "length (contents b) = unat n"
      using False by (auto simp: resize_data_buffer_def realloc_buf_def create_data_buffer_def contents_def resize_block_def
          Let_def split: if_splits)
    with b(2,3) show ?thesis
      by (auto simp: db_inv_def contents_def copy_to_def split: option.splits)
  qed
qed

text \<open>\<open>accept\<close> returns the lowest descriptor that is not in use; 0 is the standard input.\<close>

definition accept_ok :: "worker_io \<Rightarrow> server \<Rightarrow> bool" where
  "accept_ok io sv \<longleftrightarrow>
     (\<forall>c. io_accept io = Inr c \<longrightarrow> 0 < c \<and> c \<notin> conns (shared sv) \<and> c \<noteq> ro_acceptor_fd (shared sv))"

text \<open>What holds of the server between two calls: the counters and slots are consistent, connections are
  descriptors other than the acceptor, and the files belong to connected clients.\<close>

definition service_inv :: "server \<Rightarrow> bool" where
  "service_inv sv \<longleftrightarrow>
     server_inv sv \<and> fs_inv (conns (shared sv)) (sabs sv)
   \<and> (\<forall>c \<in> conns (shared sv). 0 < c \<and> c \<noteq> ro_acceptor_fd (shared sv))"

text \<open>How a call relates the client table before and after.\<close>

definition table_moves :: "int \<Rightarrow> served \<Rightarrow> server \<Rightarrow> bool" where
  "table_moves conn w sv \<longleftrightarrow>
     ro_acceptor_fd (shared (s_server w)) = ro_acceptor_fd (shared sv)
   \<and> ro_max_conns (shared (s_server w)) = ro_max_conns (shared sv)
   \<and> (state_mux (shared sv) \<longrightarrow> state_mux (shared (s_server w)))
   \<and> (conns (shared (s_server w)) = conns (shared sv)
      \<or> (conn = ro_acceptor_fd (shared sv) \<and> s_newconn w \<notin> conns (shared sv) \<and> 0 < s_newconn w
           \<and> s_newconn w \<noteq> conn \<and> conns (shared (s_server w)) = insert (s_newconn w) (conns (shared sv)))
      \<or> (conn \<noteq> ro_acceptor_fd (shared sv) \<and> s_conn w = -1 \<and> conns (shared (s_server w)) = conns (shared sv) - {conn}
           \<and> fs_inv (conns (shared sv) - {conn}) (sabs (s_server w))))"

lemma worker_do_acceptor:
  assumes e: "good_env e" and inv: "service_inv sv" and acc: "accept_ok io sv"
    and conn: "conn = ro_acceptor_fd (shared sv)" and run: "worker_do e thread io conn nc sv = Some w"
  shows "server_inv (s_server w) \<and> sabs (s_server w) = sabs sv \<and> table_moves conn w sv"
proof -
  have si: "server_inv sv" using inv by (simp add: service_inv_def)
  obtain r nc' sent sv' where d: "do_acceptor e thread (io_accept io) (io_in io) (io_out io) nc sv = Some (r, nc', sent, sv')"
      and w: "w = \<lparr>s_ret = r, s_conn = conn, s_newconn = nc', s_sent = sent, s_server = sv'\<rparr>"
    using run conn by (auto simp: worker_do_def Let_def split: option.splits)
  have mux: "\<not> state_mux (shared sv)" using d by (auto simp: do_acceptor_def Let_def)
  have "\<And>c. io_accept io = Inr c \<Longrightarrow> 0 \<le> c \<and> c \<notin> conns (shared sv)" using acc by (auto simp: accept_ok_def)
  note S = do_acceptor_spec [OF si this d]
  have "io_accept io = Inr nc' \<Longrightarrow> 0 < nc' \<and> nc' \<notin> conns (shared sv) \<and> nc' \<noteq> conn"
    using acc conn by (auto simp: accept_ok_def)
  with S w mux conn show ?thesis by (auto simp: table_moves_def)
qed

lemma worker_do_client:
  assumes e: "good_env e" and inv: "service_inv sv" and conn: "conn \<noteq> ro_acceptor_fd (shared sv)"
    and run: "worker_do e thread io conn nc sv = Some w"
  shows "server_inv (s_server w) \<and> (\<exists>V. fs_step conn V (sabs sv) (sabs (s_server w))) \<and> table_moves conn w sv
    \<and> (conn \<in> conns (shared sv) \<or> s_server w = sv)"
proof -
  have si: "server_inv sv" and ci: "conns_inv (shared sv)" using inv by (simp_all add: service_inv_def server_inv_def)
  have idle: ?thesis if "s_server w = sv"
    using that si quiet by (metis table_moves_def)
  obtain x m evs where rd: "read_msg (e_alloc e) (io_in io) create_message = (x, m, evs)"
    by (cases "read_msg (e_alloc e) (io_in io) create_message")
  show ?thesis
  proof (cases "x = Inr () \<and> is_client_message m (mtype m) \<and> (\<exists>ci. get_client_lastop (shared sv) conn = Inr ci)")
    case False
    then have "s_server w = sv"
      using run conn rd by (auto simp: worker_do_def Let_def split: sum.splits if_splits)
    then show ?thesis by (rule idle)
  next
    case True
    then obtain ci where T: "x = Inr ()" "is_client_message m (mtype m)" "get_client_lastop (shared sv) conn = Inr ci"
      by blast
    have mux: "\<not> state_mux (shared sv)" using run conn rd T by (auto simp: worker_do_def Let_def)
    have "conn \<in> conns (shared sv)"
      using get_client_lastop_Inr [OF ci T(3)] T(3)
      by (force simp: conns_def fds_def get_client_lastop_def in_set_conv_nth split: if_splits)
    then have c: "0 < conn" "conn \<in> conns (shared sv)" using inv by (auto simp: service_inv_def)
    show ?thesis
    proof (cases "CHECK_CLIENT_MSG_TYPE (mtype m) MESSAGE_CLOSE_CONN")
      case close: True
      obtain r c' sent sv' where d: "do_close_connection e thread (io_out io) conn create_message sv = (r, c', sent, sv')"
        by (cases "do_close_connection e thread (io_out io) conn create_message sv")
      have w: "w = \<lparr>s_ret = r, s_conn = c', s_newconn = nc, s_sent = sent, s_server = sv'\<rparr>"
        using run conn rd T mux close d by (simp add: worker_do_def Let_def)
      note S = do_close_connection_spec [OF e si c d]
      have eq: "sabs sv' = (\<lambda>s. map_option (a_disconnect conn) (sabs sv s))" using S by (intro ext) blast
      have "fs_step conn {} (sabs sv) (sabs sv')" unfolding eq by (rule leave)
      moreover have "fs_inv (conns (shared sv) - {conn}) (sabs sv')"
        unfolding eq using inv by (intro fs_inv_leave) (simp add: service_inv_def)
      ultimately show ?thesis using S w conn c by (auto simp: table_moves_def)
    next
      case other: False
      obtain r out sv' where d: "dispatch e thread conn m create_message ci sv = Some (r, out, sv')"
          and w: "s_server w = sv'"
        using run conn rd T mux other by (auto simp: worker_do_def Let_def split: option.splits sum.splits prod.splits)
      have "db_inv (mdata m)" using read_msg_inv rd T(1) by blast
      from dispatch_proper [OF e si fresh_create c(1) this d] have P: "proper conn sv sv'" .
      then have "same_table sv sv'" by (simp add: proper_def)
      with same_table_conns [OF this] have "table_moves conn w sv"
        using w by (simp add: table_moves_def same_table_def)
      with P w c show ?thesis by (auto simp: proper_def)
    qed
  qed
qed

text \<open>Any call: the invariant, the step of the file system, and the table.\<close>

lemma worker_do_serves:
  assumes e: "good_env e" and inv: "service_inv sv" and acc: "accept_ok io sv"
    and run: "worker_do e thread io conn nc sv = Some w"
  shows "service_inv (s_server w)" and "\<exists>V. fs_step conn V (sabs sv) (sabs (s_server w))"
    and "table_moves conn w sv"
proof -
  have main: "server_inv (s_server w) \<and> (\<exists>V. fs_step conn V (sabs sv) (sabs (s_server w))) \<and> table_moves conn w sv
      \<and> (conn \<in> conns (shared sv) \<or> sabs (s_server w) = sabs sv)"
  proof (cases "conn = ro_acceptor_fd (shared sv)")
    case True
    from worker_do_acceptor [OF e inv acc this run] show ?thesis using quiet by metis
  next
    case False
    from worker_do_client [OF e inv this run] show ?thesis by auto
  qed
  then show "\<exists>V. fs_step conn V (sabs sv) (sabs (s_server w))" "table_moves conn w sv" by blast+
  from main obtain V where V: "fs_step conn V (sabs sv) (sabs (s_server w))" and T: "table_moves conn w sv" by blast
  have F: "fs_inv (conns (shared sv)) (sabs (s_server w))"
  proof (cases "sabs (s_server w) = sabs sv")
    case True
    with inv show ?thesis by (simp add: service_inv_def)
  next
    case False
    with main fs_inv_step [OF V, of "conns (shared sv)"] inv show ?thesis by (auto simp: service_inv_def)
  qed
  from T have "fs_inv (conns (shared (s_server w))) (sabs (s_server w))
      \<and> (\<forall>c \<in> conns (shared (s_server w)). 0 < c \<and> c \<noteq> ro_acceptor_fd (shared (s_server w)))"
    using F inv fs_inv_mono [OF F subset_insertI]
    by (auto simp: table_moves_def service_inv_def)
  with main show "service_inv (s_server w)" by (simp add: service_inv_def)
qed

text \<open>What the main thread learns from a call that did not fail.\<close>

lemma worker_do_success:
  assumes e: "good_env e" and inv: "service_inv sv" and acc: "accept_ok io sv"
    and run: "worker_do e thread io conn (-1) sv = Some w" and ok: "s_ret w \<noteq> -1"
  defines "C \<equiv> conns (shared sv)" and "C' \<equiv> conns (shared (s_server w))"
  shows "state_mux (shared (s_server w)) = state_mux (shared sv)"
    and "conn = ro_acceptor_fd (shared sv) \<Longrightarrow> s_conn w = conn \<and>
      ((s_newconn w = -1 \<and> C' = C) \<or> (0 < s_newconn w \<and> s_newconn w \<notin> insert conn C \<and> C' = insert (s_newconn w) C))"
    and "conn \<noteq> ro_acceptor_fd (shared sv) \<Longrightarrow> s_newconn w = -1 \<and>
      ((s_conn w = conn \<and> C' = C) \<or> (s_conn w = -1 \<and> C' = C - {conn}))"
proof -
  have si: "server_inv sv" and ci: "conns_inv (shared sv)" using inv by (simp_all add: service_inv_def server_inv_def)
  have goal: "state_mux (shared (s_server w)) = state_mux (shared sv) \<and>
     (if conn = ro_acceptor_fd (shared sv)
      then s_conn w = conn \<and>
        ((s_newconn w = -1 \<and> C' = C) \<or> (0 < s_newconn w \<and> s_newconn w \<notin> insert conn C \<and> C' = insert (s_newconn w) C))
      else s_newconn w = -1 \<and> ((s_conn w = conn \<and> C' = C) \<or> (s_conn w = -1 \<and> C' = C - {conn})))"
  proof (cases "conn = ro_acceptor_fd (shared sv)")
    case True
    obtain r nc sent sv' where d: "do_acceptor e thread (io_accept io) (io_in io) (io_out io) (-1) sv = Some (r, nc, sent, sv')"
        and w: "w = \<lparr>s_ret = r, s_conn = conn, s_newconn = nc, s_sent = sent, s_server = sv'\<rparr>"
      using run True by (auto simp: worker_do_def Let_def split: option.splits)
    have r: "r = 0" using d ok w by (auto simp: do_acceptor_def Let_def split: if_splits sum.splits prod.splits)
    have acc': "io_accept io = Inr c \<Longrightarrow> 0 < c \<and> c \<notin> conns (shared sv) \<and> c \<noteq> conn" for c
      using acc True by (auto simp: accept_ok_def)
    then have "io_accept io = Inr c \<Longrightarrow> 0 \<le> c \<and> c \<notin> conns (shared sv)" for c by force
    from do_acceptor_spec [OF si this d] w r acc' True show ?thesis by (auto simp: C_def C'_def)
  next
    case False
    obtain x m evs where rd: "read_msg (e_alloc e) (io_in io) create_message = (x, m, evs)"
      by (cases "read_msg (e_alloc e) (io_in io) create_message")
    have T: "x = Inr ()" "is_client_message m (mtype m)" "\<not> state_mux (shared sv)"
      using run False rd ok by (auto simp: worker_do_def Let_def split: sum.splits if_splits)
    obtain ci where ci: "get_client_lastop (shared sv) conn = Inr ci"
      using run False rd T ok by (auto simp: worker_do_def Let_def split: sum.splits)
    have "conn \<in> conns (shared sv)"
      using get_client_lastop_Inr [OF \<open>conns_inv (shared sv)\<close> ci] ci
      by (force simp: conns_def fds_def get_client_lastop_def in_set_conv_nth split: if_splits)
    then have c: "0 < conn" "conn \<in> conns (shared sv)" using inv by (auto simp: service_inv_def)
    show ?thesis
    proof (cases "CHECK_CLIENT_MSG_TYPE (mtype m) MESSAGE_CLOSE_CONN")
      case close: True
      obtain r c' sent sv' where d: "do_close_connection e thread (io_out io) conn create_message sv = (r, c', sent, sv')"
        by (cases "do_close_connection e thread (io_out io) conn create_message sv")
      have w: "w = \<lparr>s_ret = r, s_conn = c', s_newconn = -1, s_sent = sent, s_server = sv'\<rparr>"
        using run False rd T ci close d by (simp add: worker_do_def Let_def)
      from do_close_connection_spec [OF e si c d] w ok False show ?thesis by (auto simp: C_def C'_def)
    next
      case other: False
      obtain r out sv' where d: "dispatch e thread conn m create_message ci sv = Some (r, out, sv')"
          and w: "s_server w = sv'" "s_conn w = conn" "s_newconn w = -1"
        using run False rd T ci other by (auto simp: worker_do_def Let_def split: option.splits sum.splits prod.splits)
      have "db_inv (mdata m)" using read_msg_inv rd T(1) by blast
      from dispatch_proper [OF e si fresh_create c(1) this d] have "same_table sv sv'" by (simp add: proper_def)
      with same_table_conns [OF this] w False show ?thesis by (simp add: same_table_def C_def C'_def)
    qed
  qed
  then show "state_mux (shared (s_server w)) = state_mux (shared sv)" by blast
  show "conn = ro_acceptor_fd (shared sv) \<Longrightarrow> s_conn w = conn \<and>
      ((s_newconn w = -1 \<and> C' = C) \<or> (0 < s_newconn w \<and> s_newconn w \<notin> insert conn C \<and> C' = insert (s_newconn w) C))"
    "conn \<noteq> ro_acceptor_fd (shared sv) \<Longrightarrow> s_newconn w = -1 \<and>
      ((s_conn w = conn \<and> C' = C) \<or> (s_conn w = -1 \<and> C' = C - {conn}))"
    using goal by simp_all
qed

subsection \<open>Runs of the server\<close>

text \<open>One worker after the other serves a connection, each with whatever memory, clock and network.\<close>

inductive serves :: "int \<Rightarrow> server \<Rightarrow> server \<Rightarrow> bool" where
  call: "good_env e \<Longrightarrow> accept_ok io sv \<Longrightarrow> worker_do e thread io conn nc sv = Some w \<Longrightarrow>
    serves conn sv (s_server w)"

inductive_cases servesE: "serves conn sv sv'"

interpretation service: simulation serves "\<lambda>(who, V). fs_step who V" service_inv sabs "\<lambda>c (who, V). who = c"
proof
  fix sv c sv'
  assume "service_inv sv" "serves c sv sv'"
  then show "service_inv sv'" "\<exists>a. (case a of (who, V) \<Rightarrow> who = c) \<and> (case a of (who, V) \<Rightarrow> fs_step who V) (sabs sv) (sabs sv')"
    by (auto elim!: servesE dest: worker_do_serves)
qed

text \<open>A locked file in a run of other clients.\<close>

lemma run_serves_locked:
  "run serves ls sv sv' \<Longrightarrow> service_inv sv \<Longrightarrow> sabs sv s = Some a \<Longrightarrow> (\<And>c. c \<in> set ls \<Longrightarrow> locked_out c a) \<Longrightarrow>
   sabs sv' s = Some a
   \<or> (a_content a \<noteq> [] \<and> (\<exists>ls1 c ls2 sv1 sv2. ls = ls1 @ c # ls2 \<and> run serves ls1 sv sv1 \<and> serves c sv1 sv2
        \<and> sabs sv1 s = Some a \<and> sabs sv2 s = None))"
proof (induction rule: run.induct)
  case (run_Cons c sv sv1 ls sv')
  have "service_inv sv1" using service.keeps run_Cons by blast
  obtain V where "fs_step c V (sabs sv) (sabs sv1)" using service.simulates run_Cons by force
  from fs_step_locked [OF this run_Cons.prems(2)] run_Cons.prems(3)
  consider "sabs sv1 s = None" "a_content a \<noteq> []" | "sabs sv1 s = Some a"
    by (auto split: if_splits)
  then show ?case
  proof cases
    case 1
    with run_Cons show ?thesis by (metis append_Nil run_Nil)
  next
    case 2
    from run_Cons.IH [OF \<open>service_inv sv1\<close> this] run_Cons.prems(3)
    consider "sabs sv' s = Some a" | ls1 d ls2 sv2 sv3 where "a_content a \<noteq> []" "ls = ls1 @ d # ls2"
        "run serves ls1 sv1 sv2" "serves d sv2 sv3" "sabs sv2 s = Some a" "sabs sv3 s = None"
      by (metis list.set_intros(2))
    then show ?thesis
    proof cases
      case 1
      then show ?thesis by blast
    next
      case 2
      then have "c # ls = (c # ls1) @ d # ls2" "run serves (c # ls1) sv sv2"
        using run.run_Cons [of serves, OF run_Cons.hyps(1)] by auto
      with 2 show ?thesis by blast
    qed
  qed
qed simp

subsection \<open>When a call returns\<close>

lemma do_append_file_total:
  assumes e: "good_env e" and inv: "server_inv sv" and out: "fresh out" and m: "db_inv (mdata m)"
    and room: "\<And>s d. data_ready e m s d sv \<Longrightarrow> can_evict e s d sv"
  shows "do_append_file e thread conn m out ci sv \<noteq> None"
proof (rule data_message [OF e inv m, where thread = thread and conn = conn and ci = ci])
  fix buf m' d
  assume "data_ready e m (cstr buf) d sv"
  with do_append_file_returns [OF e inv this out] room show ?thesis by blast
qed (use inv no_bytes(1) in \<open>auto simp: do_append_file_def Let_def empty_data split: sum.splits option.splits\<close>)

lemma do_write_file_total:
  assumes e: "good_env e" and inv: "server_inv sv" and out: "fresh out" and m: "db_inv (mdata m)"
    and room: "\<And>s d. data_ready e m s d sv \<Longrightarrow> can_evict e s d sv"
  shows "do_write_file e thread conn m out ci sv \<noteq> None"
proof (rule data_message [OF e inv m, where thread = thread and conn = conn and ci = ci])
  fix buf m' d
  assume "data_ready e m (cstr buf) d sv"
  with do_write_file_returns [OF e inv this out] room show ?thesis by blast
qed (use inv no_bytes(1) in \<open>auto simp: do_write_file_def Let_def empty_data split: sum.splits option.splits\<close>)

lemma dispatch_total:
  assumes "good_env e" "server_inv sv" "fresh out" "db_inv (mdata m)"
    and "CHECK_CLIENT_MSG_TYPE (mtype m) MESSAGE_WRITE_FILE \<or> CHECK_CLIENT_MSG_TYPE (mtype m) MESSAGE_APPEND_FILE \<Longrightarrow>
      \<forall>s d. data_ready e m s d sv \<longrightarrow> can_evict e s d sv"
  shows "dispatch e thread conn m out ci sv \<noteq> None"
  using assms do_append_file_total [OF assms(1-4)] do_write_file_total [OF assms(1-4)]
  by (auto simp: dispatch_def Let_def simp del: not_None_eq)

lemma worker_do_returns:
  assumes e: "good_env e" and inv: "service_inv sv" and mux: "\<not> state_mux (shared sv)"
    and room: "\<And>m evs. read_msg (e_alloc e) (io_in io) create_message = (Inr (), m, evs) \<Longrightarrow>
      CHECK_CLIENT_MSG_TYPE (mtype m) MESSAGE_WRITE_FILE \<or> CHECK_CLIENT_MSG_TYPE (mtype m) MESSAGE_APPEND_FILE \<Longrightarrow>
      \<forall>s d. data_ready e m s d sv \<longrightarrow> can_evict e s d sv"
  shows "worker_do e thread io conn nc sv \<noteq> None"
proof -
  have si: "server_inv sv" using inv by (simp add: service_inv_def)
  obtain x m evs where rd: "read_msg (e_alloc e) (io_in io) create_message = (x, m, evs)"
    by (cases "read_msg (e_alloc e) (io_in io) create_message")
  have acc: "do_acceptor e thread (io_accept io) (io_in io) (io_out io) nc sv \<noteq> None"
    using mux by (auto simp: do_acceptor_def Let_def split: sum.split prod.split)
  show ?thesis
  proof (cases x)
    case (Inl err)
    with acc rd show ?thesis by (auto simp: worker_do_def Let_def)
  next
    case (Inr u)
    then have d: "dispatch e thread conn m create_message ci sv \<noteq> None" for ci
      using dispatch_total [OF e si fresh_create read_msg_inv] rd room by auto
    show ?thesis
    proof (cases "conn = ro_acceptor_fd (shared sv) \<or> \<not> is_client_message m (mtype m)")
      case True
      with acc rd Inr show ?thesis by (auto simp: worker_do_def Let_def)
    next
      case ok: False
      show ?thesis
      proof (cases "get_client_lastop (shared sv) conn")
        case (Inl err)
        with rd \<open>x = Inr u\<close> mux ok show ?thesis by (simp add: worker_do_def Let_def)
      next
        case (Inr ci)
        obtain r out sv' where "dispatch e thread conn m create_message ci sv = Some (r, out, sv')"
          using d [of ci] by (cases "dispatch e thread conn m create_message ci sv") auto
        with rd \<open>x = Inr u\<close> Inr mux ok show ?thesis
          by (cases "do_close_connection e thread (io_out io) conn create_message sv";
              cases "write_msg (io_out io) (set_checksum out)"; cases "fst (write_msg (io_out io) (set_checksum out))")
            (simp_all add: worker_do_def Let_def)
      qed
    qed
  qed
qed

subsection \<open>After a failed accept\<close>

text \<open>Once \<open>state_mux\<close> is left locked no call has any effect.\<close>

lemma worker_do_blocked:
  "state_mux (shared sv) \<Longrightarrow> worker_do e thread io conn nc sv = Some w \<Longrightarrow>
   conn \<noteq> ro_acceptor_fd (shared sv) \<and> s_ret w = -1 \<and> s_sent w = [] \<and> s_server w = sv"
  by (auto simp: worker_do_def do_acceptor_def Let_def split: if_splits sum.splits prod.splits)

lemma run_blocked: "run serves ls sv sv' \<Longrightarrow> state_mux (shared sv) \<Longrightarrow> sv' = sv"
  by (induction rule: run.induct) (auto elim!: servesE dest: worker_do_blocked)

lemma do_acceptor_failed:
  "\<not> state_mux (shared sv) \<Longrightarrow> current_conns (shared sv) < ro_max_conns (shared sv) \<Longrightarrow> accepted = Inl err \<Longrightarrow>
   do_acceptor e thread accepted evs wevs nc sv = Some (-1, -1, [], on_shared (\<lambda>ss. ss\<lparr>state_mux := True\<rparr>) sv)"
  by (simp add: do_acceptor_def Let_def)

subsection \<open>A new connection\<close>

lemma assign_slot_find:
  "assign_slot conn cs = Some cs' \<Longrightarrow> conn \<noteq> -1 \<Longrightarrow> conn \<notin> set (fds cs) \<Longrightarrow>
   \<exists>i < length cs'. find_client k conn cs' = Some (k + i) \<and> lastop (cs' ! i) = []"
proof (induction cs arbitrary: cs' k)
  case (Cons c cs)
  show ?case
  proof (cases "fd c = -1")
    case True
    with Cons.prems(1) show ?thesis by (auto intro: exI [of _ 0])
  next
    case False
    then obtain ds where ds: "assign_slot conn cs = Some ds" "cs' = c # ds" using Cons.prems(1) by auto
    have "conn \<notin> set (fds cs)" "fd c \<noteq> conn" using Cons.prems(3) False by auto
    from Cons.IH [OF ds(1) Cons.prems(2) this(1), of "Suc k"] obtain i where
      "i < length ds" "find_client (Suc k) conn ds = Some (Suc k + i)" "lastop (ds ! i) = []" by blast
    with ds(2) \<open>fd c \<noteq> conn\<close> show ?thesis by (intro exI [of _ "Suc i"]) simp
  qed
qed simp

text \<open>A client that introduces itself while there is room is answered and finds its entry empty.\<close>

lemma do_acceptor_accepts:
  assumes inv: "server_inv sv" and mux: "\<not> state_mux (shared sv)"
    and room: "card (conns (shared sv)) < nat (ro_max_conns (shared sv))"
    and c: "0 < c" "c \<notin> conns (shared sv)"
    and rd: "read_msg (e_alloc e) evs create_message = (Inr (), m, rest)" "is_client_message m MESSAGE_OPEN_CONN"
    and w: "willing wevs"
  shows "\<exists>sv'. do_acceptor e thread (Inr c) evs wevs nc sv
       = Some (0, c, wire (set_checksum (create_message\<lparr>mtype := MESSAGE_OCONN_ACK\<rparr>)), sv')
     \<and> server_inv sv' \<and> files sv' = files sv \<and> conns (shared sv') = insert c (conns (shared sv))
     \<and> (\<exists>ci. get_client_lastop (shared sv') c = Inr ci \<and> lastop_of ci sv' = [])"
proof -
  have ci: "conns_inv (shared sv)" using inv by (simp add: server_inv_def)
  have c0: "0 \<le> c" using c by simp
  obtain ss where ss: "add_client (shared sv) c = (Inr (), ss)" "conns_inv ss" "conns ss = insert c (conns (shared sv))"
    using add_client_ok [OF ci c0 c(2) room] by blast
  obtain cs n k where upd: "ss = (shared sv)\<lparr>clients := cs, current_conns := n, max_reached_conns := k\<rparr>"
    using add_client_frame [OF ss(1)] by blast
  have as: "assign_slot c (clients (shared sv)) = Some (clients ss)"
    using ss(1) by (auto simp: add_client_def Let_def split: if_splits option.splits)
  have "c \<noteq> -1" "c \<notin> set (fds (clients (shared sv)))" using c by (simp_all add: conns_def)
  from assign_slot_find [OF as this, of 0] obtain i where
    i: "find_client 0 c (clients ss) = Some i" "lastop (clients ss ! i) = []" by auto
  let ?ack = "set_checksum (create_message\<lparr>mtype := MESSAGE_OCONN_ACK\<rparr>)"
  have "db_inv (mdata ?ack)" by (simp add: set_checksum_def create_message_def)
  then obtain evs' where wr: "write_msg wevs ?ack = (Inr (), wire ?ack, evs')"
    using write_msg_willing [OF _ w] by blast
  have "current_conns (shared sv) < ro_max_conns (shared sv)"
    using ci room by (simp add: card_conns conns_inv_def)
  then have run: "do_acceptor e thread (Inr c) evs wevs nc sv
      = Some (0, c, wire ?ack, do_log thread c none_str STRING_OPEN_CONN ''Client connected.'' 0 0 (on_shared (\<lambda>_. ss) sv))"
    using mux rd ss(1) wr by (simp add: do_acceptor_def Let_def)
  have "server_inv (on_shared (\<lambda>_. ss) sv)" by (rule table_update(1) [OF inv upd ss(2)])
  with run ss(3) i c0 show ?thesis by (simp add: get_client_lastop_def lastop_of_def)
qed

subsection \<open>Start\<close>

lemma fresh_server:
  assumes "init_shared_state alloc algo cap nfiles nconns acc = Inr ss"
    and "0 < n" and "n < 2 ^ 31" and "unat cap < 2 ^ 61" and "0 \<le> nconns"
  defines "sv \<equiv> \<lparr>files = initialize_file_structure n, shared = ss, slog = [], ticks = 0\<rparr>"
  shows "server_inv sv" and "sabs sv = Map.empty" and "conns ss = {}" and "service_inv sv"
proof -
  have C: "conns_inv ss" "conns ss = {}" using conns_inv_init [OF assms(5,1)] by simp_all
  have "ro_max_storage ss = cap" "current_storage ss = 0" "current_files ss = 0" "max_reached_storage ss = 0"
      "max_reached_files ss = 0" "lru_clock_pos ss = 0"
    using assms(1) by (auto simp: init_shared_state_def split: if_splits)
  moreover have "length (initialize_file_structure n) = n" by (simp add: initialize_file_structure_def)
  ultimately show si: "server_inv sv"
    using assms(2-4) C store_init [of n] by (simp add: sv_def server_inv_def counters_inv_def)
  show abs: "sabs sv = Map.empty" using store_init by (simp add: sv_def)
  show "conns ss = {}" by (rule C)
  show "service_inv sv" using si abs C by (simp add: service_inv_def fs_inv_def sv_def)
qed

end
