(* ===== verification/Pool.thy ===== *)
theory Pool
  imports Server_Loop Worker_Spec "HOL-Library.Multiset"
begin

text \<open>
  The worker threads (\<open>worker_routine\<close> of \<open>source/worker.c\<close>) and the main thread of
  \<open>Server_Loop\<close> together, interleaved at the accesses to the mailboxes; one call of \<open>worker_do\<close>
  is one step on the server. The theory shows that, as long as no call fails and no terminating
  signal arrives, every connection is in exactly one place, polled or in the hands of one
  worker, and what one failing call does to that.
\<close>

subsection \<open>The threads\<close>

text \<open>Where a thread stands: before or in its wait, in \<open>worker_do\<close> on a connection, between the call and
  its report (with the values of \<open>conn\<close> and \<open>newconn\<close>), or ended. \<open>did\<close> is \<open>worker_did\<close>.\<close>

datatype pc = Waiting | Calling int | Finishing int int | Gone

record thread = worker_data +
  pc :: pc
  did :: nat

text \<open>The wait of the thread is over when there is work or it has to end.\<close>

definition wake :: "thread \<Rightarrow> thread option" where
  "wake t =
     (if pc t = Waiting \<and> (do_work t = WORKER_DO \<or> w_exit t)
      then Some (if w_exit t then t\<lparr>pc := Gone\<rparr> else t\<lparr>pc := Calling (in_conn t)\<rparr>)
      else None)"

text \<open>A failed call announces its end at once, before the results are in the mailbox, and then goes on
  like any other.\<close>

definition call_returns :: "int \<Rightarrow> int \<Rightarrow> int \<Rightarrow> thread \<Rightarrow> thread" where
  "call_returns ret conn newconn t =
     (let t = (if ret = -1 then t\<lparr>do_work := WORKER_DONE\<rparr> else t)
      in t\<lparr>did := did t + 1, pc := Finishing conn newconn\<rparr>)"

definition report :: "int \<Rightarrow> int \<Rightarrow> thread \<Rightarrow> thread" where
  "report conn newconn t = t\<lparr>in_conn := conn, add_conn := newconn, do_work := WORKER_DONE, pc := Waiting\<rparr>"

subsection \<open>The system\<close>

record system =
  main :: "thread main_state"
  srv :: server

definition set_thread :: "nat \<Rightarrow> thread \<Rightarrow> system \<Rightarrow> system" where
  "set_thread i t s = s\<lparr>main := (main s)\<lparr>threads_data := (threads_data (main s))[i := t]\<rparr>\<rparr>"

datatype label = Round signal | Wake nat | Return nat int | Report nat

text \<open>\<open>poll\<close> never reports an entry whose descriptor is negative.\<close>

inductive sys_step :: "nat \<Rightarrow> label \<Rightarrow> system \<Rightarrow> system \<Rightarrow> bool" for maxc where
  round: "\<forall>i. rdy i \<longrightarrow> i < maxc + 2 \<and> poll_array (main s) ! i \<noteq> -1 \<Longrightarrow> \<not> m_exit (main s) \<Longrightarrow>
    server_round maxc (ro_acceptor_fd (shared (srv s))) sg rdy (shared (srv s)) (main s) = Some (0, ms) \<Longrightarrow>
    sys_step maxc (Round sg) s (s\<lparr>main := ms\<rparr>)"
| wake: "i < length (threads_data (main s)) \<Longrightarrow> wake (threads_data (main s) ! i) = Some t \<Longrightarrow>
    sys_step maxc (Wake i) s (set_thread i t s)"
| return: "i < length (threads_data (main s)) \<Longrightarrow> t = threads_data (main s) ! i \<Longrightarrow> pc t = Calling c \<Longrightarrow>
    good_env e \<Longrightarrow> accept_ok io (srv s) \<Longrightarrow> worker_do e (thread_id t) io c (-1) (srv s) = Some w \<Longrightarrow>
    sys_step maxc (Return i (s_ret w)) s
      ((set_thread i (call_returns (s_ret w) (s_conn w) (s_newconn w) t) s)\<lparr>srv := s_server w\<rparr>)"
| report: "i < length (threads_data (main s)) \<Longrightarrow> t = threads_data (main s) ! i \<Longrightarrow> pc t = Finishing c nc \<Longrightarrow>
    sys_step maxc (Report i) s (set_thread i (report c nc t) s)"

inductive_cases RoundE: "sys_step maxc (Round sg) s s'"
inductive_cases WakeE: "sys_step maxc (Wake i) s s'"
inductive_cases ReturnE: "sys_step maxc (Return i r) s s'"
inductive_cases ReportE: "sys_step maxc (Report i) s s'"

subsection \<open>Where the connections are\<close>

definition reported :: "int \<Rightarrow> int \<Rightarrow> int multiset" where
  "reported c nc = (if 0 < c then {#c#} else {#}) + (if 0 < nc then {#nc#} else {#})"

definition held :: "thread \<Rightarrow> int multiset" where
  "held t = (case pc t of
     Waiting \<Rightarrow> if do_work t = WORKER_DO then {#in_conn t#}
                else if do_work t = WORKER_DONE then reported (in_conn t) (add_conn t) else {#}
   | Calling c \<Rightarrow> {#c#} | Finishing c nc \<Rightarrow> reported c nc | Gone \<Rightarrow> {#})"

definition polled :: "nat \<Rightarrow> int list \<Rightarrow> int multiset" where
  "polled maxc ps = filter_mset (\<lambda>c. 0 < c) (mset (take (Suc maxc) ps))"

definition places :: "nat \<Rightarrow> system \<Rightarrow> int multiset" where
  "places maxc s = polled maxc (poll_array (main s)) + sum_list (map held (threads_data (main s)))"

text \<open>What a worker may report: the acceptor with at most one new connection, or another connection that
  is still open or not.\<close>

definition report_ok :: "int \<Rightarrow> int \<Rightarrow> int \<Rightarrow> bool" where
  "report_ok acc c nc \<longleftrightarrow>
     (c = acc \<and> (nc = -1 \<or> (0 < nc \<and> nc \<noteq> acc))) \<or> (c \<noteq> acc \<and> (c = -1 \<or> 0 < c) \<and> nc = -1)"

definition thread_ok :: "int \<Rightarrow> thread \<Rightarrow> bool" where
  "thread_ok acc t \<longleftrightarrow> \<not> w_exit t \<and>
     (case pc t of
        Waiting \<Rightarrow> (do_work t = WORKER_IDLE) \<or> (do_work t = WORKER_DO \<and> 0 < in_conn t)
                 \<or> (do_work t = WORKER_DONE \<and> report_ok acc (in_conn t) (add_conn t))
      | Calling c \<Rightarrow> do_work t = WORKER_DO \<and> 0 < c
      | Finishing c nc \<Rightarrow> do_work t = WORKER_DO \<and> report_ok acc c nc
      | Gone \<Rightarrow> False)"

definition poll_ok :: "nat \<Rightarrow> int \<Rightarrow> int list \<Rightarrow> bool" where
  "poll_ok maxc acc ps \<longleftrightarrow>
     length ps = maxc + 2 \<and> (\<forall>i < maxc. ps ! i = -1 \<or> (0 < ps ! i \<and> ps ! i \<noteq> acc)) \<and> (ps ! maxc = -1 \<or> ps ! maxc = acc)"

definition busy :: "'a worker_data_scheme list \<Rightarrow> int" where
  "busy ts = int (length (filter (\<lambda>t. do_work t \<noteq> WORKER_IDLE) ts))"

definition pool_inv :: "nat \<Rightarrow> system \<Rightarrow> bool" where
  "pool_inv maxc s \<longleftrightarrow>
     service_inv (srv s) \<and> \<not> state_mux (shared (srv s)) \<and> ro_max_conns (shared (srv s)) = int maxc
   \<and> 0 < ro_acceptor_fd (shared (srv s))
   \<and> \<not> m_exit (main s) \<and> \<not> m_sighup (main s)
   \<and> poll_ok maxc (ro_acceptor_fd (shared (srv s))) (poll_array (main s))
   \<and> (\<forall>t \<in> set (threads_data (main s)). thread_ok (ro_acceptor_fd (shared (srv s))) t)
   \<and> working_threads (main s) = busy (threads_data (main s))
   \<and> places maxc s = mset_set (insert (ro_acceptor_fd (shared (srv s))) (conns (shared (srv s))))"

subsection \<open>The poll array keeps track\<close>

lemma sum_list_put:
  fixes f :: "'a \<Rightarrow> 'b :: comm_monoid_add"
  shows "i < length xs \<Longrightarrow> sum_list (map f (xs[i := x])) + f (xs ! i) = sum_list (map f xs) + f x"
proof (induction xs arbitrary: i)
  case (Cons a xs)
  then show ?case by (cases i) (auto simp: ac_simps)
qed simp

lemma sum_list_part: "x \<in> set xs \<Longrightarrow> x \<subseteq># sum_list xs" for xs :: "'a multiset list"
  by (induction xs) (auto intro: subset_mset.order_trans mset_subset_eq_add_right)

lemma polled_put:
  assumes "i \<le> maxc" and "length ps = maxc + 2"
  shows "polled maxc (ps[i := c]) + (if 0 < ps ! i then {#ps ! i#} else {#}) = polled maxc ps + (if 0 < c then {#c#} else {#})"
proof -
  have i: "i < length (take (Suc maxc) ps)" using assms by simp
  have "mset ((take (Suc maxc) ps)[i := c]) + {#ps ! i#} = mset (take (Suc maxc) ps) + {#c#}"
    using mset_update [OF i, of c] nth_mem [OF i] assms(1) by (simp add: insert_DiffM)
  then have "filter_mset (\<lambda>c. 0 < c) (mset ((take (Suc maxc) ps)[i := c]) + {#ps ! i#})
      = filter_mset (\<lambda>c. 0 < c) (mset (take (Suc maxc) ps) + {#c#})" by simp
  then show ?thesis by (simp add: polled_def take_update_swap split: if_splits)
qed

lemma add_connection_length [simp]: "length (add_connection_to_poll k c ps) = length ps"
  by (induction k c ps rule: add_connection_to_poll.induct) auto

lemma add_connection_put:
  "i < k \<Longrightarrow> i < length ps \<Longrightarrow> ps ! i = -1 \<Longrightarrow>
   \<exists>j < k. j < length ps \<and> ps ! j = -1 \<and> add_connection_to_poll k c ps = ps[j := c]"
proof (induction k c ps arbitrary: i rule: add_connection_to_poll.induct)
  case (3 k c p ps)
  show ?case
  proof (cases "p = -1")
    case True
    then show ?thesis by (intro exI [of _ 0]) simp
  next
    case False
    with 3(2-4) obtain i' where i': "i = Suc i'" "i' < k" "i' < length ps" "ps ! i' = -1" by (cases i) auto
    from 3(1) [OF False i'(2-4)] obtain j where
      "j < k" "j < length ps" "ps ! j = -1" "add_connection_to_poll k c ps = ps[j := c]" by blast
    with False show ?thesis by (intro exI [of _ "Suc j"]) simp
  qed
qed simp_all

text \<open>A free entry exists while some of at most \<open>maxc\<close> connections is elsewhere.\<close>

lemma free_entry:
  assumes ok: "poll_ok maxc acc ps" and all: "polled maxc ps + R = mset_set (insert acc C)"
    and C: "finite C" "card C \<le> maxc" "acc \<notin> C" and c: "c \<in># R" "c \<noteq> acc"
  shows "\<exists>i < maxc. ps ! i = -1"
proof (rule ccontr)
  assume "\<not> ?thesis"
  then have full: "\<forall>i < maxc. 0 < ps ! i \<and> ps ! i \<noteq> acc" using ok by (auto simp: poll_ok_def)
  have len: "length ps = maxc + 2" using ok by (simp add: poll_ok_def)
  let ?B = "mset (take maxc ps)"
  have "set (take maxc ps) \<subseteq> {c. 0 < c \<and> c \<noteq> acc}" using full len by (fastforce simp: in_set_conv_nth)
  then have "\<forall>c \<in># ?B. 0 < c \<and> c \<noteq> acc" by auto
  then have B: "filter_mset (\<lambda>c. 0 < c) ?B = ?B" "acc \<notin># ?B" by (auto simp: filter_mset_eq_conv)
  have "take (Suc maxc) ps = take maxc ps @ [ps ! maxc]" using len by (simp add: take_Suc_conv_app_nth)
  then have "?B \<subseteq># polled maxc ps" using B by (simp add: polled_def)
  then have "?B + R \<subseteq># mset_set (insert acc C)" using all by (metis mset_subset_eq_mono_add_right_cancel)
  moreover have "{#c#} \<subseteq># R" using c(1) by simp
  ultimately have "?B + {#c#} \<subseteq># mset_set (insert acc C)"
    by (meson mset_subset_eq_mono_add_left_cancel subset_mset.order_trans)
  moreover have "mset_set (insert acc C) = mset_set C + {#acc#}" using C by simp
  ultimately have "?B + {#c#} \<subseteq># mset_set C + {#acc#}" by simp
  then have "?B + {#c#} \<subseteq># mset_set C"
    using B(2) c(2) by (metis add_mset_add_single insert_noteq_member insert_subset_eq_iff multi_member_split
        mset_subset_eq_add_left subset_eq_diff_conv diff_single_trivial union_iff)
  from size_mset_mono [OF this] have "maxc + 1 \<le> card C" using len C(1) by simp
  with C(2) show False by simp
qed

lemma poll_ok_put:
  "poll_ok maxc acc ps \<Longrightarrow> i < maxc \<Longrightarrow> c = -1 \<or> (0 < c \<and> c \<noteq> acc) \<Longrightarrow> poll_ok maxc acc (ps[i := c])"
  "poll_ok maxc acc ps \<Longrightarrow> c = -1 \<or> c = acc \<Longrightarrow> poll_ok maxc acc (ps[maxc := c])"
  by (auto simp: poll_ok_def nth_list_update)

text \<open>A connection that is given back finds an entry.\<close>

lemma add_connection_kept:
  assumes ok: "poll_ok maxc acc ps" and all: "polled maxc ps + R = mset_set (insert acc C)"
    and C: "finite C" "card C \<le> maxc" "acc \<notin> C" and c: "c \<in># R" "c \<noteq> acc" "0 < c"
  shows "poll_ok maxc acc (add_connection_to_poll maxc c ps)"
    and "polled maxc (add_connection_to_poll maxc c ps) = polled maxc ps + {#c#}"
proof -
  have len: "length ps = maxc + 2" using ok by (simp add: poll_ok_def)
  obtain i where "i < maxc" "ps ! i = -1" using free_entry [OF ok all C c(1,2)] by blast
  then obtain j where j: "j < maxc" "ps ! j = -1" "add_connection_to_poll maxc c ps = ps[j := c]"
    using add_connection_put [of i maxc ps c] len by auto
  show "poll_ok maxc acc (add_connection_to_poll maxc c ps)"
    using poll_ok_put(1) [OF ok j(1)] c j(3) by simp
  show "polled maxc (add_connection_to_poll maxc c ps) = polled maxc ps + {#c#}"
    using polled_put [of j maxc ps c] len j c(3) by simp
qed

lemma give_back_kept:
  assumes ok: "poll_ok maxc acc ps" and acc: "0 < acc" and rep: "report_ok acc c nc"
    and all: "polled maxc ps + (reported c nc + R) = mset_set (insert acc C)"
    and C: "finite C" "card C \<le> maxc" "acc \<notin> C"
  shows "poll_ok maxc acc (give_back maxc acc c nc ps)"
    and "polled maxc (give_back maxc acc c nc ps) = polled maxc ps + reported c nc"
proof -
  have len: "length ps = maxc + 2" using ok by (simp add: poll_ok_def)
  have "poll_ok maxc acc (give_back maxc acc c nc ps)
      \<and> polled maxc (give_back maxc acc c nc ps) = polled maxc ps + reported c nc"
  proof (cases "c = acc")
    case True
    let ?ps = "ps[maxc := acc]"
    have one: "count (polled maxc ps + (reported c nc + R)) acc = 1"
      unfolding all using C(1,3) by (simp add: count_mset_set)
    then have "count (polled maxc ps) acc = 0" using True acc by (simp add: reported_def split: if_splits)
    moreover have "ps ! maxc \<in> set (take (Suc maxc) ps)" using len by (auto simp: in_set_conv_nth)
    ultimately have "ps ! maxc = -1"
      using ok acc by (auto simp: poll_ok_def polled_def not_in_iff [symmetric])
    then have P: "polled maxc ?ps = polled maxc ps + {#acc#}"
      using polled_put [of maxc maxc ps acc] len acc by simp
    have ok': "poll_ok maxc acc ?ps" by (rule poll_ok_put(2) [OF ok]) simp
    show ?thesis
    proof (cases "0 < nc")
      case False
      with True P ok' acc show ?thesis by (simp add: give_back_def reported_def)
    next
      case nc: True
      then have n: "nc \<noteq> acc" using rep True by (simp add: report_ok_def)
      have "polled maxc ?ps + ({#nc#} + R) = mset_set (insert acc C)"
        using all P True acc nc by (simp add: reported_def ac_simps add_mset_commute)
      from add_connection_kept [OF ok' this C _ n nc] P True acc nc show ?thesis
        by (simp add: give_back_def reported_def)
    qed
  next
    case False
    then have nc: "nc = -1" "c = -1 \<or> 0 < c" using rep by (auto simp: report_ok_def)
    show ?thesis
    proof (cases "0 < c")
      case True
      from add_connection_kept [OF ok all C _ False True] True nc False show ?thesis
        by (simp add: give_back_def reported_def)
    next
      case no: False
      with nc False ok show ?thesis by (simp add: give_back_def reported_def)
    qed
  qed
  then show "poll_ok maxc acc (give_back maxc acc c nc ps)"
    "polled maxc (give_back maxc acc c nc ps) = polled maxc ps + reported c nc" by blast+
qed

subsection \<open>The threads keep track\<close>

lemma busy_simps [simp]:
  "busy [] = 0" "busy (t # ts) = (if do_work t = WORKER_IDLE then 0 else 1) + busy ts"
  by (simp_all add: busy_def)

lemma finish_all_kept:
  assumes acc: "0 < acc" and C: "finite C" "card C \<le> maxc" "acc \<notin> C"
  shows "poll_ok maxc acc ps \<Longrightarrow> \<forall>t \<in> set ts. thread_ok acc t \<Longrightarrow>
    polled maxc ps + sum_list (map held ts) + R = mset_set (insert acc C) \<Longrightarrow>
    finish_all maxc acc ts ps n = (ts', ps', n') \<Longrightarrow>
    poll_ok maxc acc ps' \<and> (\<forall>t \<in> set ts'. thread_ok acc t) \<and> length ts' = length ts
    \<and> polled maxc ps' + sum_list (map held ts') + R = mset_set (insert acc C) \<and> n' - busy ts' = n - busy ts"
proof (induction ts arbitrary: ps n R ts' ps' n')
  case Nil
  then show ?case by simp
next
  case (Cons t ts)
  have t: "thread_ok acc t" and ts: "\<forall>t \<in> set ts. thread_ok acc t" using Cons.prems(2) by simp_all
  show ?case
  proof (cases "do_work t = WORKER_DONE")
    case False
    obtain us qs m where r: "finish_all maxc acc ts ps n = (us, qs, m)" by (cases "finish_all maxc acc ts ps n")
    have "polled maxc ps + sum_list (map held ts) + (held t + R) = mset_set (insert acc C)"
      using Cons.prems(3) by (simp add: ac_simps)
    from Cons.IH [OF Cons.prems(1) ts this r] r False Cons.prems(4) t show ?thesis by (auto simp: ac_simps)
  next
    case True
    let ?ps = "give_back maxc acc (in_conn t) (add_conn t) ps" and ?t = "t\<lparr>do_work := WORKER_IDLE\<rparr>"
    have w: "pc t = Waiting" "report_ok acc (in_conn t) (add_conn t)" "\<not> w_exit t"
      using t True by (auto simp: thread_ok_def split: pc.splits)
    then have h: "held t = reported (in_conn t) (add_conn t)" "held ?t = {#}" "thread_ok acc ?t"
      using True by (simp_all add: held_def thread_ok_def)
    have "polled maxc ps + (reported (in_conn t) (add_conn t) + (sum_list (map held ts) + R)) = mset_set (insert acc C)"
      using Cons.prems(3) h by (simp add: ac_simps)
    note G = give_back_kept [OF Cons.prems(1) acc w(2) this C]
    obtain us qs m where r: "finish_all maxc acc ts ?ps (n - 1) = (us, qs, m)" by (cases "finish_all maxc acc ts ?ps (n - 1)")
    have "polled maxc ?ps + sum_list (map held ts) + R = mset_set (insert acc C)"
      using Cons.prems(3) h G(2) by (simp add: ac_simps)
    from Cons.IH [OF G(1) ts this r] r True Cons.prems(4) h show ?thesis by (auto simp: ac_simps)
  qed
qed

lemma thread_assign_kept:
  "thread_assign c ts = Some ts' \<Longrightarrow> \<forall>t \<in> set ts. thread_ok acc t \<Longrightarrow> 0 < c \<Longrightarrow>
   (\<forall>t \<in> set ts'. thread_ok acc t) \<and> length ts' = length ts \<and> busy ts' = busy ts + 1
   \<and> sum_list (map held ts') = sum_list (map held ts) + {#c#}"
proof (induction ts arbitrary: ts')
  case (Cons t ts)
  show ?case
  proof (cases "do_work t = WORKER_IDLE")
    case True
    then have "pc t = Waiting" "\<not> w_exit t" using Cons.prems(2) by (auto simp: thread_ok_def split: pc.splits)
    with True Cons.prems show ?thesis by (auto simp: thread_ok_def held_def)
  next
    case False
    then obtain us where "thread_assign c ts = Some us" "ts' = t # us" using Cons.prems(1) by auto
    with Cons.IH [of us] Cons.prems False show ?thesis by simp
  qed
qed simp

lemma thread_assign_None: "thread_assign c ts = None \<longleftrightarrow> busy ts = int (length ts)"
proof (induction ts)
  case (Cons t ts)
  have "busy ts \<le> int (length ts)" by (simp add: busy_def)
  with Cons show ?case by auto
qed simp

subsection \<open>The main thread\<close>

lemma find_ready_takes:
  "find_ready k rdy i ps = (c, ps') \<Longrightarrow>
   (c = -1 \<and> ps' = ps \<and> (\<forall>j. i \<le> j \<and> j < i + k \<and> rdy j \<longrightarrow> ps ! j = -1))
   \<or> (\<exists>j. i \<le> j \<and> j < i + k \<and> rdy j \<and> c = ps ! j \<and> c \<noteq> -1 \<and> ps' = ps[j := -1])"
proof (induction k rdy i ps arbitrary: c ps' rule: find_ready.induct)
  case (2 k rdy i ps)
  show ?case
  proof (cases "rdy i \<and> ps ! i \<noteq> -1")
    case True
    with 2(3) show ?thesis by (intro disjI2 exI [of _ i]) auto
  next
    case False
    then have r: "find_ready k rdy (Suc i) ps = (c, ps')" using 2(3) by (auto split: if_splits)
    have "(c = -1 \<and> ps' = ps \<and> (\<forall>j. Suc i \<le> j \<and> j < Suc i + k \<and> rdy j \<longrightarrow> ps ! j = -1))
        \<or> (\<exists>j. Suc i \<le> j \<and> j < Suc i + k \<and> rdy j \<and> c = ps ! j \<and> c \<noteq> -1 \<and> ps' = ps[j := -1])"
      using 2(1,2) r False by (cases "rdy i") auto
    then show ?thesis
    proof (elim disjE conjE exE)
      assume A: "c = -1" "ps' = ps" "\<forall>j. Suc i \<le> j \<and> j < Suc i + k \<and> rdy j \<longrightarrow> ps ! j = -1"
      have "ps ! j = -1" if "i \<le> j" "j < i + Suc k" "rdy j" for j
        using that A(3) False by (cases "j = i") auto
      with A show ?thesis by blast
    next
      fix j
      assume "Suc i \<le> j" "j < Suc i + k" "rdy j" "c = ps ! j" "c \<noteq> -1" "ps' = ps[j := -1]"
      then show ?thesis by (intro disjI2 exI [of _ j]) auto
    qed
  qed
qed simp

text \<open>Handing out the entry \<open>i\<close>.\<close>

lemma assign_kept:
  assumes inv: "pool_inv maxc s" and i: "i \<le> maxc" "poll_array (main s) ! i \<noteq> -1"
    and run: "thread_assign_work (poll_array (main s) ! i) ((main s)\<lparr>poll_array := (poll_array (main s))[i := -1]\<rparr>) = (0, ms)"
  shows "pool_inv maxc (s\<lparr>main := ms\<rparr>)"
proof -
  let ?ps = "poll_array (main s)" and ?acc = "ro_acceptor_fd (shared (srv s))"
  have P: "poll_ok maxc ?acc ?ps" "0 < ?acc" "\<forall>t \<in> set (threads_data (main s)). thread_ok ?acc t"
      "working_threads (main s) = busy (threads_data (main s))"
      "polled maxc ?ps + sum_list (map held (threads_data (main s))) = mset_set (insert ?acc (conns (shared (srv s))))"
    using inv by (simp_all add: pool_inv_def places_def)
  have len: "length ?ps = maxc + 2" using P(1) by (simp add: poll_ok_def)
  have pos: "0 < ?ps ! i"
  proof (cases "i = maxc")
    case False
    with i(1) have "i < maxc" by simp
    with P(1) i(2) show ?thesis by (auto simp: poll_ok_def)
  qed (use P(1,2) i(2) in \<open>auto simp: poll_ok_def\<close>)
  have ok: "poll_ok maxc ?acc (?ps[i := -1])" using poll_ok_put P(1) i(1) by (cases "i = maxc") simp_all
  have put: "polled maxc (?ps[i := -1]) + {#?ps ! i#} = polled maxc ?ps"
    using polled_put [OF i(1) len, of "-1"] pos by simp
  obtain ts where ts: "thread_assign (?ps ! i) (threads_data (main s)) = Some ts"
      "ms = (main s)\<lparr>poll_array := ?ps[i := -1], threads_data := ts, working_threads := working_threads (main s) + 1\<rparr>"
    using run by (auto simp: thread_assign_work_def split: option.splits)
  note K = thread_assign_kept [OF ts(1) P(3) pos]
  have "polled maxc (?ps[i := -1]) + sum_list (map held ts)
      = (polled maxc (?ps[i := -1]) + {#?ps ! i#}) + sum_list (map held (threads_data (main s)))"
    using K by (simp add: ac_simps)
  also have "\<dots> = mset_set (insert ?acc (conns (shared (srv s))))" unfolding put by (rule P(5))
  finally show ?thesis using K P(4) ok ts(2) inv by (simp add: pool_inv_def places_def)
qed

lemma round_kept:
  assumes inv: "pool_inv maxc s" and rdy: "\<forall>i. rdy i \<longrightarrow> i < maxc + 2 \<and> poll_array (main s) ! i \<noteq> -1"
    and run: "server_round maxc (ro_acceptor_fd (shared (srv s))) SIGUSR1 rdy (shared (srv s)) (main s) = Some (0, ms)"
  shows "pool_inv maxc (s\<lparr>main := ms\<rparr>)"
proof -
  let ?ps = "poll_array (main s)" and ?acc = "ro_acceptor_fd (shared (srv s))" and ?C = "conns (shared (srv s))"
  let ?rdy = "poll_call maxc rdy (main s)"
  have sub: "?rdy i \<Longrightarrow> rdy i" for i by (auto simp: poll_call_def split: if_splits)
  have mux: "\<not> state_mux (shared (srv s))" "\<not> m_sighup (main s)" using inv by (simp_all add: pool_inv_def)
  consider (signal) "thread_has_finished maxc ?acc (main s) = (0, ms)"
    | (acceptor) "?rdy maxc" "after_poll_acceptor maxc (main s) = (0, ms)"
    | (conn) "after_poll_connection maxc ?rdy (main s) = (0, ms)"
    using run mux by (auto simp: server_round_def after_poll_signal_def Let_def split: if_splits)
  then show ?thesis
  proof cases
    case signal
    obtain ts ps n where f: "finish_all maxc ?acc (threads_data (main s)) ?ps (working_threads (main s)) = (ts, ps, n)"
      by (cases "finish_all maxc ?acc (threads_data (main s)) ?ps (working_threads (main s))")
    have ms: "ms = (main s)\<lparr>threads_data := ts, poll_array := ps, working_threads := n\<rparr>"
      using signal f by (simp add: thread_has_finished_def)
    have C: "finite ?C" "card ?C \<le> maxc" "?acc \<notin> ?C"
    proof -
      have ci: "conns_inv (shared (srv s))" "ro_max_conns (shared (srv s)) = int maxc"
        using inv by (simp_all add: pool_inv_def service_inv_def server_inv_def)
      show "finite ?C" by (simp add: conns_def)
      show "card ?C \<le> maxc" using card_conns [OF ci(1)] ci by (simp add: conns_inv_def)
      show "?acc \<notin> ?C" using inv by (auto simp: pool_inv_def service_inv_def)
    qed
    have P: "poll_ok maxc ?acc ?ps" "0 < ?acc" "\<forall>t \<in> set (threads_data (main s)). thread_ok ?acc t"
        "polled maxc ?ps + sum_list (map held (threads_data (main s))) + {#} = mset_set (insert ?acc ?C)"
      using inv by (simp_all add: pool_inv_def places_def)
    from finish_all_kept [OF P(2) C P(1,3,4) f] ms inv show ?thesis
      by (simp add: pool_inv_def places_def)
  next
    case acceptor
    then have "?ps ! maxc \<noteq> -1" using sub rdy by blast
    from assign_kept [OF inv _ this] acceptor show ?thesis by (simp add: after_poll_acceptor_def Let_def)
  next
    case conn
    obtain c ps where f: "find_ready maxc ?rdy 0 ?ps = (c, ps)" by (cases "find_ready maxc ?rdy 0 ?ps")
    then have "c \<noteq> -1" using conn by (auto simp: after_poll_connection_def)
    then obtain j where j: "j < maxc" "c = ?ps ! j" "?ps ! j \<noteq> -1" "ps = ?ps[j := -1]"
      using find_ready_takes [OF f] by auto
    with conn f \<open>c \<noteq> -1\<close> assign_kept [OF inv _ j(3)] show ?thesis by (simp add: after_poll_connection_def)
  qed
qed

subsection \<open>The steps of a thread\<close>

text \<open>Replacing a thread by one in the same mailbox state.\<close>

lemma busy_put:
  assumes "i < length ts" and "do_work (ts ! i) = WORKER_IDLE \<longleftrightarrow> do_work t = WORKER_IDLE"
  shows "busy (ts[i := t]) = busy ts"
  using count_slot [OF assms(1), of "\<lambda>t. do_work t \<noteq> WORKER_IDLE" t] assms(2)
  by (simp add: busy_def split: if_splits)

lemma thread_kept:
  assumes inv: "pool_inv maxc s" and i: "i < length (threads_data (main s))"
    and t: "thread_ok (ro_acceptor_fd (shared (srv s))) t" "held t = held (threads_data (main s) ! i)"
      "do_work (threads_data (main s) ! i) = WORKER_IDLE \<longleftrightarrow> do_work t = WORKER_IDLE"
  shows "pool_inv maxc (set_thread i t s)"
proof -
  have "sum_list (map held ((threads_data (main s))[i := t])) = sum_list (map held (threads_data (main s)))"
    using sum_list_put [OF i, of held t] t(2) by simp
  then show ?thesis
    using inv t(1) busy_put [OF i t(3)] ball_slot [of "threads_data (main s)"]
    by (auto simp: pool_inv_def places_def set_thread_def dest!: set_update_subset_insert [THEN subsetD])
qed

lemma wake_kept:
  assumes inv: "pool_inv maxc s" and i: "i < length (threads_data (main s))" and w: "wake (threads_data (main s) ! i) = Some t"
  shows "pool_inv maxc (set_thread i t s)"
proof -
  let ?t = "threads_data (main s) ! i"
  have ok: "thread_ok (ro_acceptor_fd (shared (srv s))) ?t" using inv i by (simp add: pool_inv_def)
  then have "\<not> w_exit ?t" by (simp add: thread_ok_def)
  then have "pc ?t = Waiting" "do_work ?t = WORKER_DO" "t = ?t\<lparr>pc := Calling (in_conn ?t)\<rparr>"
    using w by (auto simp: wake_def split: if_splits)
  with ok show ?thesis by (intro thread_kept [OF inv i]) (auto simp: thread_ok_def held_def)
qed

lemma report_kept:
  assumes inv: "pool_inv maxc s" and i: "i < length (threads_data (main s))"
    and t: "pc (threads_data (main s) ! i) = Finishing c nc"
  shows "pool_inv maxc (set_thread i (report c nc (threads_data (main s) ! i)) s)"
proof -
  have ok: "thread_ok (ro_acceptor_fd (shared (srv s))) (threads_data (main s) ! i)" using inv i by (simp add: pool_inv_def)
  with t show ?thesis by (intro thread_kept [OF inv i]) (auto simp: thread_ok_def held_def report_def)
qed

lemma return_kept:
  assumes inv: "pool_inv maxc s" and i: "i < length (threads_data (main s))"
    and t: "pc (threads_data (main s) ! i) = Calling c"
    and e: "good_env e" and acc: "accept_ok io (srv s)"
    and run: "worker_do e thread io c (-1) (srv s) = Some w" and ok: "s_ret w \<noteq> -1"
  shows "pool_inv maxc
    ((set_thread i (call_returns (s_ret w) (s_conn w) (s_newconn w) (threads_data (main s) ! i)) s)\<lparr>srv := s_server w\<rparr>)"
proof -
  let ?ts = "threads_data (main s)" and ?acc = "ro_acceptor_fd (shared (srv s))"
  let ?C = "conns (shared (srv s))" and ?C' = "conns (shared (s_server w))"
  let ?t = "call_returns (s_ret w) (s_conn w) (s_newconn w) (?ts ! i)"
  have si: "service_inv (srv s)" using inv by (simp add: pool_inv_def)
  have tok: "thread_ok ?acc (?ts ! i)" using inv i by (simp add: pool_inv_def)
  then have tt: "do_work (?ts ! i) = WORKER_DO" "0 < c" "\<not> w_exit (?ts ! i)" "held (?ts ! i) = {#c#}"
    using t by (auto simp: thread_ok_def held_def)
  have all: "polled maxc (poll_array (main s)) + sum_list (map held ?ts) = mset_set (insert ?acc ?C)"
    using inv by (simp add: pool_inv_def places_def)
  have tf: "pc ?t = Finishing (s_conn w) (s_newconn w)" "do_work ?t = WORKER_DO" "\<not> w_exit ?t"
    using ok tt by (simp_all add: call_returns_def Let_def)
  then have "held ?t = reported (s_conn w) (s_newconn w)" by (simp only: held_def pc.case)
  then have put: "sum_list (map held (?ts[i := ?t])) + {#c#} = sum_list (map held ?ts) + reported (s_conn w) (s_newconn w)"
    using sum_list_put [OF i, of held ?t] unfolding tt(4) by simp
  have fin: "finite ?C" by (simp add: conns_def)
  have "held (?ts ! i) \<subseteq># sum_list (map held ?ts)" using i by (intro sum_list_part) simp
  then have "c \<in># mset_set (insert ?acc ?C)"
    unfolding all [symmetric] using tt(4) by (metis insert_subset_eq_iff union_iff add_mset_add_single mset_subset_eqD
        multi_member_last)
  then have c: "c = ?acc \<or> c \<in> ?C" using fin by simp
  have accC: "?acc \<notin> ?C" using si by (auto simp: service_inv_def)
  note S = worker_do_success [OF e si acc run ok]
  have T: "service_inv (s_server w)" "table_moves c w (srv s)" using worker_do_serves [OF e si acc run] by blast+
  have rep: "report_ok ?acc (s_conn w) (s_newconn w)
      \<and> mset_set (insert ?acc ?C) + reported (s_conn w) (s_newconn w) = mset_set (insert ?acc ?C') + {#c#}"
  proof (cases "c = ?acc")
    case True
    from S(2) [OF True] show ?thesis
    proof (elim conjE disjE)
      assume "s_conn w = c" "s_newconn w = -1" "?C' = ?C"
      with True tt(2) show ?thesis by (simp add: report_ok_def reported_def)
    next
      assume A: "s_conn w = c" "0 < s_newconn w" "s_newconn w \<notin> insert c ?C" "?C' = insert (s_newconn w) ?C"
      have "mset_set (insert ?acc ?C') = mset_set (insert ?acc ?C) + {#s_newconn w#}"
        using A True fin by (simp add: insert_commute [of ?acc])
      with A True tt(2) show ?thesis by (simp add: report_ok_def reported_def)
    qed
  next
    case False
    from S(3) [OF False] show ?thesis
    proof (elim conjE disjE)
      assume "s_newconn w = -1" "s_conn w = c" "?C' = ?C"
      with False tt(2) show ?thesis by (simp add: report_ok_def reported_def)
    next
      assume A: "s_newconn w = -1" "s_conn w = -1" "?C' = ?C - {c}"
      have "insert ?acc ?C = insert c (insert ?acc ?C')" using A(3) c False by auto
      then have "mset_set (insert ?acc ?C) = mset_set (insert ?acc ?C') + {#c#}"
        using A(3) fin False by simp
      with A False si tt(2) show ?thesis using inv by (simp add: report_ok_def reported_def pool_inv_def)
    qed
  qed
  have "polled maxc (poll_array (main s)) + sum_list (map held (?ts[i := ?t])) + {#c#}
      = polled maxc (poll_array (main s)) + sum_list (map held ?ts) + reported (s_conn w) (s_newconn w)"
    using put by (simp add: ac_simps)
  also have "\<dots> = mset_set (insert ?acc ?C') + {#c#}" unfolding all using rep by blast
  finally have moved: "polled maxc (poll_array (main s)) + sum_list (map held (?ts[i := ?t])) = mset_set (insert ?acc ?C')"
    by simp
  have t': "thread_ok ?acc ?t" "do_work (?ts ! i) = WORKER_IDLE \<longleftrightarrow> do_work ?t = WORKER_IDLE"
    using tt(1) tf rep by (simp_all add: thread_ok_def)
  have frame: "ro_acceptor_fd (shared (s_server w)) = ?acc" "ro_max_conns (shared (s_server w)) = ro_max_conns (shared (srv s))"
    using T(2) by (simp_all add: table_moves_def)
  show ?thesis
    using inv T(1) S(1) frame moved t'(1) busy_put [OF i t'(2)] ball_slot [of ?ts "thread_ok ?acc" ?t i]
    by (simp add: pool_inv_def places_def set_thread_def)
qed

subsection \<open>Runs without failing calls\<close>

fun normal :: "label \<Rightarrow> bool" where
  "normal (Round sg) = (sg = SIGUSR1)"
| "normal (Return i r) = (r \<noteq> -1)"
| "normal _ = True"

lemma step_kept: "sys_step maxc l s s' \<Longrightarrow> normal l \<Longrightarrow> pool_inv maxc s \<Longrightarrow> pool_inv maxc s'"
proof (induction rule: sys_step.induct)
  case (round rdy s sg ms)
  then show ?case using round_kept by simp
next
  case (wake i s t)
  then show ?case using wake_kept by blast
next
  case (return i s t c e io w)
  then show ?case using return_kept [of maxc s i c e io "thread_id t" w] by simp
next
  case (report i s t c nc)
  then show ?case using report_kept [of maxc s i c nc] by simp
qed

lemma run_kept:
  "run (sys_step maxc) ls s s' \<Longrightarrow> \<forall>l \<in> set ls. normal l \<Longrightarrow> pool_inv maxc s \<Longrightarrow> pool_inv maxc s'"
  by (induction rule: run.induct) (auto intro: step_kept)

text \<open>The system at its start: no connection, all threads idle.\<close>

definition new_thread :: "worker_data \<Rightarrow> thread" where
  "new_thread w = worker_data.extend w (thread.fields Waiting 0)"

definition started :: "nat \<Rightarrow> int \<Rightarrow> worker_data list \<Rightarrow> int list \<Rightarrow> shared_state \<Rightarrow> system" where
  "started n acc ws ps ss =
     \<lparr>main = \<lparr>poll_array = ps, threads_data = map new_thread ws, working_threads = 0, m_exit = False, m_sighup = False,
              closed = {}\<rparr>,
      srv = \<lparr>files = initialize_file_structure n, shared = ss, slog = [], ticks = 0\<rparr>\<rparr>"

lemma init_shared_fields:
  "init_shared_state alloc algo cap nfiles nconns acc = Inr ss \<Longrightarrow>
   ro_max_conns ss = nconns \<and> ro_acceptor_fd ss = acc \<and> \<not> state_mux ss"
  by (auto simp: init_shared_state_def split: if_splits)

lemma started_inv:
  assumes ss: "init_shared_state alloc algo cap nfiles (int maxc) acc = Inr ss"
    and n: "0 < n" "n < 2 ^ 31" "unat cap < 2 ^ 61" and acc: "0 < acc"
    and ps: "initialize_poll_array True acc sigfd maxc = Some ps"
    and ws: "prepare_threads True (\<lambda>_. True) raw k n = Some ws"
  shows "pool_inv maxc (started n acc ws ps ss)"
proof -
  let ?s = "started n acc ws ps ss"
  have F: "service_inv (srv ?s)" "conns ss = {}"
    using fresh_server(3,4) [OF ss n] by (simp_all add: started_def)
  have p: "ps = replicate maxc (-1) @ [acc, sigfd]" using ps by (simp add: initialize_poll_array_def)
  have w: "ws = map (\<lambda>i. \<lparr>do_work = WORKER_IDLE, w_exit = False, in_conn = -1, add_conn = -1, thread_id = int i\<rparr>) [0..<k]"
    using ws n(1) by (simp add: prepare_threads_def init_worker_data_def)
  have T: "thread_ok acc t \<and> held t = {#} \<and> do_work t = WORKER_IDLE" if "t \<in> set (threads_data (main ?s))" for t
    using that unfolding w started_def new_thread_def
    by (auto simp: thread_ok_def held_def worker_data.extend_def thread.fields_def)
  have "sum_list (map held ts) = {#}" if "\<forall>t \<in> set ts. held t = {#}" for ts using that by (induction ts) simp_all
  then have "sum_list (map held (threads_data (main ?s))) = {#}" using T by blast
  moreover have "busy (threads_data (main ?s)) = 0" using T by (simp add: busy_def)
  moreover have "filter_mset (\<lambda>c. 0 < c) (mset (replicate k (-1 :: int))) = {#}" for k by (induction k) simp_all
  then have "polled maxc ps = {#acc#}" "poll_ok maxc acc ps"
    using acc by (simp_all add: p polled_def poll_ok_def nth_append)
  moreover have "thread_ok acc t" if "t \<in> set (threads_data (main ?s))" for t using T [OF that] by blast
  ultimately show ?thesis
    using F init_shared_fields [OF ss] acc unfolding pool_inv_def places_def
    by (simp add: started_def)
qed

text \<open>Two threads never hold the same connection.\<close>

lemma held_twice:
  assumes ij: "i < length ts" "j < length ts" "i \<noteq> j"
  shows "held (ts ! i) + held (ts ! j) \<subseteq># sum_list (map held ts)"
proof -
  let ?x = "(ts ! i)\<lparr>pc := Gone\<rparr>"
  have "sum_list (map held (ts[i := ?x])) + held (ts ! i) = sum_list (map held ts)"
    using sum_list_put [OF ij(1), of held ?x] by (simp add: held_def)
  moreover have "held (ts ! j) \<subseteq># sum_list (map held (ts[i := ?x]))"
  proof (rule sum_list_part)
    have "ts[i := ?x] ! j \<in> set (ts[i := ?x])" using ij by (intro nth_mem) simp
    then show "held (ts ! j) \<in> set (map held (ts[i := ?x]))" using ij by simp
  qed
  ultimately show ?thesis by (metis add.commute mset_subset_eq_mono_add_left_cancel)
qed

lemma calling_apart:
  assumes inv: "pool_inv maxc s" and ij: "i < length (threads_data (main s))" "j < length (threads_data (main s))" "i \<noteq> j"
    and c: "pc (threads_data (main s) ! i) = Calling c" "pc (threads_data (main s) ! j) = Calling d"
  shows "c \<noteq> d"
proof
  assume "c = d"
  let ?acc = "ro_acceptor_fd (shared (srv s))" and ?C = "conns (shared (srv s))"
  have "{#c#} + {#c#} \<subseteq># sum_list (map held (threads_data (main s)))"
    using held_twice [OF ij] c \<open>c = d\<close> by (simp add: held_def)
  then have "{#c#} + {#c#} \<subseteq># places maxc s"
    unfolding places_def using mset_subset_eq_add_right subset_mset.order_trans by blast
  moreover have "places maxc s = mset_set (insert ?acc ?C)" using inv by (simp add: pool_inv_def)
  ultimately have "{#c#} + {#c#} \<subseteq># mset_set (insert ?acc ?C)" by simp
  then have "2 \<le> count (mset_set (insert ?acc ?C)) c" using mset_subset_eq_count [of "{#c#} + {#c#}" _ c] by fastforce
  then show False by (simp add: count_mset_set' split: if_splits)
qed

text \<open>Whenever \<open>poll\<close> reports something, the round succeeds: there is an idle thread for it.\<close>

lemma round_succeeds:
  assumes inv: "pool_inv maxc s" and rdy: "\<forall>i. rdy i \<longrightarrow> i < maxc + 2 \<and> poll_array (main s) ! i \<noteq> -1"
    and some: "poll_call maxc rdy (main s) i"
  shows "\<exists>ms. server_round maxc (ro_acceptor_fd (shared (srv s))) SIGUSR1 rdy (shared (srv s)) (main s) = Some (0, ms)"
proof -
  let ?rdy = "poll_call maxc rdy (main s)" and ?ts = "threads_data (main s)"
  have mux: "\<not> state_mux (shared (srv s))" "\<not> m_sighup (main s)" "working_threads (main s) = busy ?ts"
    using inv by (simp_all add: pool_inv_def)
  show ?thesis
  proof (cases "?rdy (maxc + 1)")
    case True
    then show ?thesis
      using mux by (simp add: server_round_def after_poll_signal_def thread_has_finished_def Let_def split: prod.split)
  next
    case no: False
    have idle: "busy ?ts \<noteq> int (length ?ts)" and all: "?rdy = rdy"
      using some no mux(3) by (auto simp: poll_call_def split: if_splits)
    then have assigns: "\<exists>ms. thread_assign_work c ms0 = (0, ms)" if "threads_data ms0 = ?ts" for c ms0
      using thread_assign_None [of c ?ts] that by (auto simp: thread_assign_work_def split: option.split)
    show ?thesis
    proof (cases "rdy maxc")
      case True
      with no all mux assigns show ?thesis by (simp add: server_round_def after_poll_acceptor_def Let_def)
    next
      case False
      have i: "i < maxc" "rdy i" "poll_array (main s) ! i \<noteq> -1"
        using some rdy all no False by (auto simp: less_Suc_eq numeral_2_eq_2)
      obtain c ps where f: "find_ready maxc rdy 0 (poll_array (main s)) = (c, ps)"
        by (cases "find_ready maxc rdy 0 (poll_array (main s))")
      then have "c \<noteq> -1" using find_ready_takes [OF f] i by auto
      with f no all mux assigns False show ?thesis
        by (simp add: server_round_def after_poll_connection_def Let_def)
    qed
  qed
qed

end
