(* ===== verification/Client_Api.thy ===== *)
theory Client_Api
  imports Worker_Generics
begin

text \<open>
  The library that client programs link against (\<open>source/client_api.c\<close>): it keeps the
  descriptor of the connection and two byte counters in static variables, turns each call into
  one message, waits for the answer and maps its flags to \<open>errno\<close>. Files that the server
  expels or returns are stored in a directory of the client. This theory holds the operations;
  \<open>Client_Spec\<close> runs them against the server.
\<close>

subsection \<open>State and environment\<close>

text \<open>The static variables, and what the process sees of the outside: the two directions of its
  socket, the bytes it has sent, its file system and the number of \<open>nanosleep\<close> calls.\<close>

record client =
  api_conn :: int
  byte_read :: uint32
  byte_write :: uint32
  c_in :: "rd_event list"
  c_out :: "wr_event list"
  c_sent :: "byte list"
  c_disk :: "byte list \<Rightarrow> byte list option"
  c_naps :: nat

text \<open>What the C library and the kernel decide: the allocator, the results of \<open>socket\<close>, of
  each \<open>connect\<close>, of each \<open>nanosleep\<close>, of \<open>close\<close> and of opening a path, and the \<open>errno\<close>
  that earlier calls left behind.\<close>

record client_env =
  ce_alloc :: allocator
  ce_socket :: "errno + int"
  ce_connect :: "nat \<Rightarrow> errno option"
  ce_nap :: "nat \<Rightarrow> errno option"
  ce_close :: "errno option"
  ce_fopen :: "byte list \<Rightarrow> errno option"
  ce_errno :: errno

definition FILE_PATH_MAX :: nat where "FILE_PATH_MAX = FILE_NAME_MAX_SIZE"
definition UNIX_PATH_MAX :: nat where "UNIX_PATH_MAX = 108"
definition O_CREATE :: uint32 where "O_CREATE = 1"
definition O_LOCK :: uint32 where "O_LOCK = 2"

text \<open>A \<open>const char*\<close> argument is the memory it points to, which may go on after the NUL.\<close>

definition strlen :: "byte list \<Rightarrow> size_t" where
  "strlen p = wlen (cstr p)"

definition FILENAME_VALID :: "byte list \<Rightarrow> errno + size_t" where
  "FILENAME_VALID p = (let len = strlen p + 1 in if of_nat FILE_PATH_MAX < len then Inl ENAMETOOLONG else Inr len)"

definition SOCKNAME_VALID :: "byte list \<Rightarrow> errno + size_t" where
  "SOCKNAME_VALID p = (let len = strlen p + 1 in if of_nat UNIX_PATH_MAX < len then Inl ENAMETOOLONG else Inr len)"

definition clear_byte_read_write :: "client \<Rightarrow> client" where
  "clear_byte_read_write c = c\<lparr>byte_read := 0, byte_write := 0\<rparr>"

definition get_bytes_read_write :: "bool \<Rightarrow> bool \<Rightarrow> client \<Rightarrow> errno + uint32 \<times> uint32" where
  "get_bytes_read_write read_ptr write_ptr c =
     (if \<not> read_ptr \<or> \<not> write_ptr then Inl EINVAL else Inr (byte_read c, byte_write c))"

text \<open>The macro \<open>CLOSE\<close>.\<close>

definition CLOSE :: "client \<Rightarrow> client" where
  "CLOSE c = c\<lparr>api_conn := -1\<rparr>"

text \<open>\<open>SEND_RECEIVE_TO_SOCKET\<close>: on any failure the connection is closed.\<close>

definition send_receive :: "client_env \<Rightarrow> net_msg \<Rightarrow> client \<Rightarrow> (errno + net_msg) \<times> client" where
  "send_receive E m c =
     (case write_msg (c_out c) m of (w, sent, outs) \<Rightarrow>
       (let c = c\<lparr>c_out := outs, c_sent := c_sent c @ sent\<rparr> in
        case w of
          Inl e \<Rightarrow> (Inl e, CLOSE c)
        | Inr _ \<Rightarrow>
            (case read_msg (ce_alloc E) (c_in c) create_message of (r, m', ins) \<Rightarrow>
              (let c = c\<lparr>c_in := ins\<rparr> in
               case r of Inl e \<Rightarrow> (Inl e, CLOSE c) | Inr _ \<Rightarrow> (Inr m', c)))))"

text \<open>\<open>push_buf\<close> with its result ignored.\<close>

definition msg_push :: "client_env \<Rightarrow> size_t \<Rightarrow> byte list \<Rightarrow> net_msg \<Rightarrow> net_msg" where
  "msg_push E n d m = snd (push_msg (ce_alloc E) m n (Some d))"

definition BUILD_EMPTY_MESSAGE :: "msg_t \<Rightarrow> net_msg" where
  "BUILD_EMPTY_MESSAGE ty = create_message\<lparr>mtype := ty\<rparr>"

text \<open>The message about one file: its name and the length of the name.\<close>

definition name_message :: "client_env \<Rightarrow> msg_t \<Rightarrow> size_t \<Rightarrow> byte list \<Rightarrow> net_msg" where
  "name_message E ty len p = set_checksum (msg_push E 8 (size_bytes len) (msg_push E len p (BUILD_EMPTY_MESSAGE ty)))"

text \<open>The common part of the calls about one file, up to the answer. \<open>len++\<close> follows
  \<open>FILENAME_VALID\<close>, which has counted the NUL already.\<close>

definition ask :: "client_env \<Rightarrow> msg_t \<Rightarrow> byte list \<Rightarrow> client \<Rightarrow> (errno + net_msg) \<times> client" where
  "ask E ty pathname c =
     (let c = clear_byte_read_write c in
      if api_conn c < 0 then (Inl ENOTCONN, c)
      else (case FILENAME_VALID pathname of
              Inl e \<Rightarrow> (Inl e, c)
            | Inr len \<Rightarrow> send_receive E (name_message E ty (len + 1) pathname) c))"

subsection \<open>Open and close the connection\<close>

text \<open>\<open>None\<close>: the loop does not end. \<open>wait\<close> and the times are nanoseconds; the wait of a
  \<open>nanosleep\<close> is \<open>msec\<close> milliseconds.\<close>

partial_function (option) connect_loop ::
    "client_env \<Rightarrow> int \<Rightarrow> int \<Rightarrow> int \<Rightarrow> nat \<Rightarrow> client \<Rightarrow> ((errno + unit) \<times> client) option" where
  "connect_loop E msec abs_time tot_time k c =
     (case ce_connect E k of
        None \<Rightarrow> Some (Inr (), c)
      | Some err \<Rightarrow>
          if err = ENOENT \<or> err = ECONNREFUSED
          then if abs_time < tot_time then Some (Inl ETIMEDOUT, CLOSE c)
               else if msec < 0 then Some (Inl EINVAL, CLOSE (c\<lparr>c_naps := Suc (c_naps c)\<rparr>))
               else (case ce_nap E (c_naps c) of
                       Some e \<Rightarrow> Some (Inl e, CLOSE (c\<lparr>c_naps := Suc (c_naps c)\<rparr>))
                     | None \<Rightarrow> connect_loop E msec abs_time (tot_time + msec * 1000000) (Suc k)
                                 (c\<lparr>c_naps := Suc (c_naps c)\<rparr>))
          else Some (Inl err, CLOSE c))"

text \<open>The name is copied to \<open>sun_path\<close>, an array of \<open>UNIX_PATH_MAX\<close> bytes, by a \<open>strncpy\<close> that writes one byte
  more than \<open>SOCKNAME_VALID\<close> has counted: with the longest name it accepts the copy ends outside the
  array, which is undefined (\<open>None\<close>).\<close>

definition openConnection ::
    "client_env \<Rightarrow> byte list \<Rightarrow> int \<Rightarrow> int \<Rightarrow> int \<Rightarrow> client \<Rightarrow> ((errno + unit) \<times> client) option" where
  "openConnection E sockname msec tv_sec tv_nsec c =
     (let c = clear_byte_read_write c in
      if 0 \<le> api_conn c then Some (Inl EISCONN, c)
      else (case SOCKNAME_VALID sockname of
              Inl e \<Rightarrow> Some (Inl e, c)
            | Inr len \<Rightarrow>
                (case ce_socket E of
                   Inl e \<Rightarrow> Some (Inl e, CLOSE c)
                 | Inr s \<Rightarrow>
                     if of_nat UNIX_PATH_MAX < len + 1 then None else
                     (case connect_loop E msec (tv_sec * 1000000000 + tv_nsec) 0 0 (c\<lparr>api_conn := s\<rparr>) of
                        None \<Rightarrow> None
                      | Some (Inl e, c) \<Rightarrow> Some (Inl e, c)
                      | Some (Inr _, c) \<Rightarrow>
                          (case send_receive E (set_checksum (BUILD_EMPTY_MESSAGE MESSAGE_OPEN_CONN)) c of
                             (Inl e, c) \<Rightarrow> Some (Inl e, c)
                           | (Inr msg, c) \<Rightarrow>
                               if is_server_message msg MESSAGE_OCONN_ACK then Some (Inr (), c)
                               else Some (Inl ENETRESET, CLOSE c))))))"

text \<open>\<open>closeConnection\<close> returns what \<open>close\<close> returns and leaves the variable \<open>conn\<close> (here \<open>api_conn\<close>) as it is.\<close>

definition closeConnection :: "client_env \<Rightarrow> client \<Rightarrow> (errno + unit) \<times> client" where
  "closeConnection E c =
     (let c = clear_byte_read_write c in
      if api_conn c < 0 then (Inl ENOTCONN, c)
      else (case send_receive E (set_checksum (BUILD_EMPTY_MESSAGE MESSAGE_CLOSE_CONN)) c of
              (Inl e, c) \<Rightarrow> (Inl e, c)
            | (Inr msg, c) \<Rightarrow> (case ce_close E of Some e \<Rightarrow> (Inl e, c) | None \<Rightarrow> (Inr (), c))))"

subsection \<open>Calls about one file\<close>

definition openFile :: "client_env \<Rightarrow> byte list \<Rightarrow> uint32 \<Rightarrow> client \<Rightarrow> (errno + unit) \<times> client" where
  "openFile E pathname flags c =
     (let flg = (if flags AND O_CREATE \<noteq> 0 then MESSAGE_OPEN_OCREATE else 0);
          flg = (if flags AND O_LOCK \<noteq> 0 then flg OR MESSAGE_OPEN_OLOCK else flg)
      in case ask E (MESSAGE_OPEN_FILE OR flg) pathname c of
           (Inl e, c) \<Rightarrow> (Inl e, c)
         | (Inr msg, c) \<Rightarrow>
             (let check = is_server_message msg MESSAGE_OFILE_ACK; msg = destroy_message msg;
                  has = HASFLAG (GETFLAGS (mtype msg))
              in if \<not> check then (Inl EBADMSG, c)
                 else if has MESSAGE_OP_SUCC then (Inr (), c)
                 else if has MESSAGE_FILE_NOWN then (Inl EPERM, c)
                 else if has MESSAGE_FILE_EXISTS then (Inl EEXIST, c)
                 else if has MESSAGE_FILE_NEXISTS then (Inl ENOENT, c)
                 else if has MESSAGE_FILE_ERRMAXFILES then (Inl ENFILE, c)
                 else (Inl EBADMSG, c)))"

definition closeFile :: "client_env \<Rightarrow> byte list \<Rightarrow> client \<Rightarrow> (errno + unit) \<times> client" where
  "closeFile E pathname c =
     (case ask E MESSAGE_CLOSE_FILE pathname c of
        (Inl e, c) \<Rightarrow> (Inl e, c)
      | (Inr msg, c) \<Rightarrow>
          (let check = is_server_message msg MESSAGE_CFILE_ACK; msg = destroy_message msg;
               has = HASFLAG (GETFLAGS (mtype msg))
           in if \<not> check then (Inl EBADMSG, c)
              else if has MESSAGE_OP_SUCC then (Inr (), c)
              else if has MESSAGE_FILE_NOWN then (Inl EPERM, c)
              else if has MESSAGE_FILE_NEXISTS then (Inl ENOENT, c)
              else (Inl EBADMSG, c)))"

definition unlockFile :: "client_env \<Rightarrow> byte list \<Rightarrow> client \<Rightarrow> (errno + unit) \<times> client" where
  "unlockFile E pathname c =
     (case ask E MESSAGE_UNLOCK_FILE pathname c of
        (Inl e, c) \<Rightarrow> (Inl e, c)
      | (Inr msg, c) \<Rightarrow>
          (let check = is_server_message msg MESSAGE_ULFILE_ACK; msg = destroy_message msg;
               has = HASFLAG (GETFLAGS (mtype msg))
           in if \<not> check then (Inl EBADMSG, c)
              else if has MESSAGE_OP_SUCC then (Inr (), c)
              else if has MESSAGE_FILE_NOWN then (Inl EPERM, c)
              else if has MESSAGE_FILE_NEXISTS \<or> has MESSAGE_FILE_NOPEN then (Inl ENOENT, c)
              else (Inl EBADMSG, c)))"

definition removeFile :: "client_env \<Rightarrow> byte list \<Rightarrow> client \<Rightarrow> (errno + unit) \<times> client" where
  "removeFile E pathname c =
     (case ask E MESSAGE_REMOVE_FILE pathname c of
        (Inl e, c) \<Rightarrow> (Inl e, c)
      | (Inr msg, c) \<Rightarrow>
          (let check = is_server_message msg MESSAGE_RMFILE_ACK; msg = destroy_message msg;
               has = HASFLAG (GETFLAGS (mtype msg))
           in if \<not> check then (Inl EBADMSG, c)
              else if has MESSAGE_OP_SUCC then (Inr (), c)
              else if has MESSAGE_FILE_NOWN \<or> has MESSAGE_FILE_NLOCK then (Inl EPERM, c)
              else if has MESSAGE_FILE_NEXISTS \<or> has MESSAGE_FILE_NOPEN then (Inl ENOENT, c)
              else (Inl EBADMSG, c)))"

text \<open>The out-parameters of \<open>readFile\<close> are the block \<open>*buf\<close> of \<open>*size\<close> bytes.\<close>

definition readFile :: "client_env \<Rightarrow> byte list \<Rightarrow> client \<Rightarrow> (errno + byte list) \<times> client" where
  "readFile E pathname c =
     (case ask E MESSAGE_READ_FILE pathname c of
        (Inl e, c) \<Rightarrow> (Inl e, c)
      | (Inr msg, c) \<Rightarrow>
          (let has = HASFLAG (GETFLAGS (mtype msg)) in
           if \<not> is_server_message msg MESSAGE_RFILE_ACK then (Inl EBADMSG, c)
           else if has MESSAGE_OP_SUCC
           then (case pop_buf (mdata msg) 8 (Some (replicate 8 0)) of
                   (Inl e, _) \<Rightarrow> (Inl e, c)
                 | (Inr bs, b) \<Rightarrow>
                     (let size = bytes_size bs in
                      if \<not> ce_alloc E size then (Inl ENOMEM, c)
                      else (case pop_buf b size (Some (resize_block (unat size) [])) of
                              (Inl e, _) \<Rightarrow> (Inl e, c)
                            | (Inr d, _) \<Rightarrow> (Inr d, c\<lparr>byte_read := byte_read c + ucast size\<rparr>))))
           else if has MESSAGE_FILE_NOWN \<or> has MESSAGE_FILE_NOPEN then (Inl EPERM, c)
           else if has MESSAGE_FILE_NEXISTS then (Inl ENOENT, c)
           else (Inl EBADMSG, c)))"

subsection \<open>Lock: ask until the lock is granted\<close>

text \<open>How much the socket can still deliver. Every answer that is read makes it smaller, so the
  loop ends at the latest when the input does.\<close>

definition rd_left :: "rd_event list \<Rightarrow> nat" where
  "rd_left evs = sum_list (map (\<lambda>e. case e of Data xs \<Rightarrow> Suc (length xs) | RdErr _ \<Rightarrow> 1) evs)"

lemma rd_left_simps [simp]:
  "rd_left [] = 0" "rd_left (Data xs # evs) = Suc (length xs + rd_left evs)" "rd_left (RdErr e # evs) = Suc (rd_left evs)"
  by (simp_all add: rd_left_def)

lemma readn_loop_left:
  "readn_loop n k acc evs = (r, evs') \<Longrightarrow> rd_left evs' \<le> rd_left evs
     \<and> (\<forall>bs. r = Inr bs \<longrightarrow> length bs + rd_left evs' \<le> length acc + rd_left evs)"
proof (induction n k acc evs rule: readn_loop.induct)
  case (3 n k acc xs evs)
  consider "k = 0" | "k \<noteq> 0" "xs = []" | "k \<noteq> 0" "xs \<noteq> []" "k < length xs" | "k \<noteq> 0" "xs \<noteq> []" "\<not> k < length xs"
    by blast
  then show ?case
  proof cases
    case 4
    with "3.prems" have r: "readn_loop n (k - length xs) (acc @ xs) evs = (r, evs')" by simp
    from "3.IH" [OF 4 r] show ?thesis by auto
  qed (use "3.prems" in auto)
qed (auto split: if_splits)

lemma readn_left:
  "readn evs n = (r, evs') \<Longrightarrow> rd_left evs' \<le> rd_left evs"
  "readn evs n = (Inr bs, evs') \<Longrightarrow> length bs + rd_left evs' \<le> rd_left evs"
  using readn_loop_left [of n n "[]" evs] by (force simp: readn_def)+

lemma read_msgbody_left: "read_msgbody alloc evs m n = (r, m', evs') \<Longrightarrow> rd_left evs' \<le> rd_left evs"
  using readn_left(1) [of evs "unat n"]
  by (auto simp: read_msgbody_def Let_def split: sum.splits prod.splits if_splits)

lemma read_msg_left:
  assumes run: "read_msg alloc evs create_message = (Inr u, m, evs')"
  shows "rd_left evs' < rd_left evs"
proof -
  obtain n m1 e1 where h: "read_msghead evs create_message = (Inr n, m1, e1)"
    using run by (auto simp: read_msg_def split: sum.splits prod.splits)
  then obtain bs where "readn evs header_size = (Inr bs, e1)" "length bs = header_size"
    by (auto simp: read_msghead_def split: sum.splits prod.splits if_splits)
  from readn_left(2) [OF this(1)] this(2) have "rd_left e1 < rd_left evs" by (simp add: header_size_def)
  moreover have "rd_left evs' \<le> rd_left e1"
    using run h read_msgbody_left by (auto simp: read_msg_def split: if_splits)
  ultimately show ?thesis by simp
qed

lemma send_receive_left: "send_receive E m c = (Inr a, c') \<Longrightarrow> rd_left (c_in c') < rd_left (c_in c)"
  by (auto simp: send_receive_def Let_def split: sum.splits prod.splits dest: read_msg_left)

function lock_loop :: "client_env \<Rightarrow> net_msg \<Rightarrow> client \<Rightarrow> (errno + unit) \<times> client" where
  "lock_loop E msg c =
     (case send_receive E msg c of
        (Inl e, c') \<Rightarrow> (Inl e, c')
      | (Inr srv, c') \<Rightarrow>
          (let has = HASFLAG (GETFLAGS (mtype srv)) in
           if \<not> is_server_message srv MESSAGE_LFILE_ACK then (Inl EBADMSG, c')
           else if has MESSAGE_OP_SUCC then (Inr (), c')
           else if has MESSAGE_FILE_NEXISTS \<or> has MESSAGE_FILE_NOPEN then (Inl ENOENT, c')
           else if has MESSAGE_FILE_NOWN
           then (case ce_nap E (c_naps c') of
                   Some e \<Rightarrow> (Inl e, c'\<lparr>c_naps := Suc (c_naps c')\<rparr>)
                 | None \<Rightarrow> lock_loop E msg (c'\<lparr>c_naps := Suc (c_naps c')\<rparr>))
           else (Inl EBADMSG, c')))"
  by pat_completeness auto

termination lock_loop
  by (relation "measure (\<lambda>(E, msg, c). rd_left (c_in c))") (auto dest: send_receive_left [OF sym])

declare lock_loop.simps [simp del]

definition lockFile :: "client_env \<Rightarrow> byte list \<Rightarrow> client \<Rightarrow> (errno + unit) \<times> client" where
  "lockFile E pathname c =
     (let c = clear_byte_read_write c in
      if api_conn c < 0 then (Inl ENOTCONN, c)
      else (case FILENAME_VALID pathname of
              Inl e \<Rightarrow> (Inl e, c)
            | Inr len \<Rightarrow> lock_loop E (name_message E MESSAGE_LOCK_FILE (len + 1) pathname) c))"

subsection \<open>Files that come back\<close>

text \<open>\<open>fopen(path, "wb")\<close>, \<open>fwrite\<close> and \<open>fclose\<close>: the file holds the written bytes.\<close>

definition write_buf_to_file ::
    "client_env \<Rightarrow> byte list \<Rightarrow> byte list \<Rightarrow> size_t \<Rightarrow> byte list \<Rightarrow> client \<Rightarrow> (errno + unit) \<times> client" where
  "write_buf_to_file E filename buf filesize dirname c =
     (let path = cstr dirname @ cstr filename in
      if \<not> ce_alloc E (strlen filename + strlen dirname + 1) then (Inl ENOMEM, c)
      else (case ce_fopen E path of
              Some e \<Rightarrow> (Inl e, c)
            | None \<Rightarrow> (Inr (), c\<lparr>c_disk := (c_disk c)(path \<mapsto> take (unat filesize) buf)\<rparr>)))"

text \<open>A field is popped into a block that is reallocated when it is too small. The block is NULL
  until then, and \<open>pop_buf\<close> refuses a NULL destination.\<close>

definition pop_field ::
    "client_env \<Rightarrow> databuf \<Rightarrow> byte list option \<times> size_t \<Rightarrow> (errno + size_t \<times> byte list \<times> size_t) \<times> databuf" where
  "pop_field E b dst =
     (case pop_buf b 8 (Some (replicate 8 0)) of
        (Inl e, b) \<Rightarrow> (Inl e, b)
      | (Inr bs, b) \<Rightarrow>
          (let len = bytes_size bs in
           if snd dst < len \<and> \<not> ce_alloc E len then (Inl ENOMEM, b)
           else
             (let dst = (if snd dst < len then (Some (resize_block (unat len) (block (fst dst))), len) else dst)
              in case pop_buf b len (fst dst) of
                   (Inl e, b) \<Rightarrow> (Inl e, b)
                 | (Inr d, b) \<Rightarrow> (Inr (len, d, snd dst), b))))"

fun save_loop ::
    "nat \<Rightarrow> client_env \<Rightarrow> byte list \<Rightarrow> databuf \<Rightarrow> byte list option \<times> size_t \<Rightarrow> byte list option \<times> size_t \<Rightarrow> client
       \<Rightarrow> (errno + unit) \<times> client" where
  "save_loop 0 E dirname b nm buf c = (Inr (), c)"
| "save_loop (Suc n) E dirname b nm buf c =
     (case pop_field E b nm of
        (Inl e, _) \<Rightarrow> (Inl e, c)
      | (Inr (_, nm, name_len), b) \<Rightarrow>
          (case pop_field E b buf of
             (Inl e, _) \<Rightarrow> (Inl e, c)
           | (Inr (len, buf, buf_len), b) \<Rightarrow>
               (case write_buf_to_file E nm buf len dirname (c\<lparr>byte_read := byte_read c + ucast len\<rparr>) of
                  (Inl e, c) \<Rightarrow> (Inl e, c)
                | (Inr _, c) \<Rightarrow> save_loop n E dirname b (Some nm, name_len) (Some buf, buf_len) c)))"

definition save_cached_files :: "client_env \<Rightarrow> net_msg \<Rightarrow> byte list \<Rightarrow> client \<Rightarrow> (errno + int) \<times> client" where
  "save_cached_files E msg dirname c =
     (case pop_buf (mdata msg) 8 (Some (replicate 8 0)) of
        (Inl e, _) \<Rightarrow> (Inl e, c)
      | (Inr bs, b) \<Rightarrow>
          (case save_loop (unat (bytes_size bs)) E dirname b (None, 0) (None, 0) c of
             (Inl e, c) \<Rightarrow> (Inl e, c)
           | (Inr _, c) \<Rightarrow> (let ret = sint (ucast (bytes_size bs) :: uint32) in
                            if ret = -1 then (Inl (ce_errno E), c) else (Inr ret, c))))"

definition readNFiles :: "client_env \<Rightarrow> uint32 \<Rightarrow> byte list option \<Rightarrow> client \<Rightarrow> (errno + int) \<times> client" where
  "readNFiles E n dirname c =
     (let c = clear_byte_read_write c in
      if api_conn c < 0 then (Inl ENOTCONN, c)
      else
        (let n = (if sint n < 0 then 0 else n) in
         case send_receive E (set_checksum (msg_push E 4 (int_bytes n) (BUILD_EMPTY_MESSAGE MESSAGE_READN_FILE))) c of
           (Inl e, c) \<Rightarrow> (Inl e, c)
         | (Inr msg, c) \<Rightarrow>
             if \<not> is_server_message msg MESSAGE_RNFILE_ACK then (Inl EBADMSG, c)
             else if \<not> HASFLAG (GETFLAGS (mtype msg)) MESSAGE_OP_SUCC then (Inl EBADMSG, c)
             else (case dirname of None \<Rightarrow> (Inr 0, c) | Some dir \<Rightarrow> save_cached_files E msg dir c)))"

subsection \<open>Write and append\<close>

text \<open>What both do with the answer; a write also reports \<open>EEXIST\<close>.\<close>

definition data_message :: "client_env \<Rightarrow> msg_t \<Rightarrow> size_t \<Rightarrow> byte list \<Rightarrow> size_t \<Rightarrow> byte list \<Rightarrow> net_msg" where
  "data_message E ty sz buf len pathname =
     set_checksum (msg_push E 8 (size_bytes len) (msg_push E len pathname
       (msg_push E 8 (size_bytes sz) (msg_push E sz buf (BUILD_EMPTY_MESSAGE ty)))))"

definition keep_expelled ::
    "client_env \<Rightarrow> net_msg \<Rightarrow> byte list option \<Rightarrow> client \<Rightarrow> (errno + unit) \<times> client" where
  "keep_expelled E msg dirname c =
     (if HASFLAG (GETFLAGS (mtype msg)) MESSAGE_FILE_CHACEMISS \<and> dirname \<noteq> None
      then (case save_cached_files E msg (the dirname) c of (Inl e, c) \<Rightarrow> (Inl e, c) | (Inr _, c) \<Rightarrow> (Inr (), c))
      else (Inr (), c))"

definition dir_valid :: "byte list option \<Rightarrow> errno + unit" where
  "dir_valid dirname =
     (case dirname of None \<Rightarrow> Inr () | Some dir \<Rightarrow> (case FILENAME_VALID dir of Inl e \<Rightarrow> Inl e | Inr _ \<Rightarrow> Inr ()))"

text \<open>\<open>open\<close>, \<open>fstat\<close>, \<open>readn\<close> and \<open>close\<close> of the local file to send: a regular file delivers
  the bytes it has.\<close>

definition writeFile :: "client_env \<Rightarrow> byte list \<Rightarrow> byte list option \<Rightarrow> client \<Rightarrow> (errno + unit) \<times> client" where
  "writeFile E pathname dirname c =
     (let c = clear_byte_read_write c in
      if api_conn c < 0 then (Inl ENOTCONN, c)
      else (case dir_valid dirname of Inl e \<Rightarrow> (Inl e, c) | Inr _ \<Rightarrow>
        (case FILENAME_VALID pathname of Inl e \<Rightarrow> (Inl e, c) | Inr len \<Rightarrow>
          (case (case ce_fopen E (cstr pathname) of Some e \<Rightarrow> Inl e | None \<Rightarrow>
                   (case c_disk c (cstr pathname) of None \<Rightarrow> Inl ENOENT | Some d \<Rightarrow> Inr d)) of
             Inl e \<Rightarrow> (Inl e, c)
           | Inr d \<Rightarrow>
               (let file_size = wlen d in
                if \<not> ce_alloc E file_size then (Inl ENOMEM, c)
                else
                  (let c = c\<lparr>byte_write := byte_write c + ucast file_size\<rparr> in
                   case send_receive E (data_message E MESSAGE_WRITE_FILE file_size d len pathname) c of
                     (Inl e, c) \<Rightarrow> (Inl e, c)
                   | (Inr msg, c) \<Rightarrow>
                       (let has = HASFLAG (GETFLAGS (mtype msg)) in
                        if \<not> is_server_message msg MESSAGE_WFILE_ACK then (Inl EBADMSG, c)
                        else if has MESSAGE_OP_SUCC then keep_expelled E msg dirname c
                        else if has MESSAGE_FILE_NLOCK then (Inl EPERM, c)
                        else if has MESSAGE_FILE_EXISTS then (Inl EEXIST, c)
                        else if has MESSAGE_FILE_NEXISTS \<or> has MESSAGE_FILE_NOPEN then (Inl ENOENT, c)
                        else (Inl EBADMSG, c))))))))"

definition appendToFile ::
    "client_env \<Rightarrow> byte list \<Rightarrow> byte list \<Rightarrow> size_t \<Rightarrow> byte list option \<Rightarrow> client \<Rightarrow> (errno + unit) \<times> client" where
  "appendToFile E pathname buf sz dirname c =
     (let c = clear_byte_read_write c in
      if api_conn c < 0 then (Inl ENOTCONN, c)
      else (case dir_valid dirname of Inl e \<Rightarrow> (Inl e, c) | Inr _ \<Rightarrow>
        (case FILENAME_VALID pathname of Inl e \<Rightarrow> (Inl e, c) | Inr len \<Rightarrow>
          (let c = c\<lparr>byte_write := byte_write c + ucast sz\<rparr> in
           case send_receive E (data_message E MESSAGE_APPEND_FILE sz buf (len + 1) pathname) c of
             (Inl e, c) \<Rightarrow> (Inl e, c)
           | (Inr msg, c) \<Rightarrow>
               (let has = HASFLAG (GETFLAGS (mtype msg)) in
                if \<not> is_server_message msg MESSAGE_AFILE_ACK then (Inl EBADMSG, c)
                else if has MESSAGE_OP_SUCC then keep_expelled E msg dirname c
                else if has MESSAGE_FILE_NLOCK then (Inl EPERM, c)
                else if has MESSAGE_FILE_NEXISTS \<or> has MESSAGE_FILE_NOPEN then (Inl ENOENT, c)
                else (Inl EBADMSG, c))))))"

end
