(* ===== verification/Client_Spec.thy ===== *)
theory Client_Spec
  imports Client_Api Worker_Spec
begin

text \<open>
  The client library and the server together. A call of \<open>Client_Api\<close> and a call of a worker are
  connected by the socket: what the one sends arrives at the other, cut up in any way. The
  locale \<open>file_call\<close> extends the promise of a request handler to the call that asks for it;
  its lemma says that the result of the call and the files of the server are those of the
  abstract request.
\<close>

subsection \<open>Messages of the client\<close>

definition client_ready :: "client_env \<Rightarrow> client \<Rightarrow> bool" where
  "client_ready E c \<longleftrightarrow> ce_alloc E = mem_ok \<and> 0 \<le> api_conn c \<and> willing (c_out c)"

text \<open>The argument \<open>p\<close> is the C string \<open>s\<close>, and the byte after its NUL may be read.\<close>

definition path :: "byte list \<Rightarrow> byte list \<Rightarrow> bool" where
  "path p s \<longleftrightarrow> 0 \<notin> set s \<and> length s \<le> 254 \<and> (\<exists>b t. p = s @ 0 # b # t)"

lemma path_strlen:
  assumes "path p s"
  obtains b where "strlen p = of_nat (length s)" "take (length s + 2) p = s @ [0, b]" "cstr p = s"
proof -
  from assms obtain b t where p: "p = s @ 0 # b # t" "0 \<notin> set s" by (auto simp: path_def)
  then have "cstr p = s" by (simp add: cstr_append_nul)
  with p that show thesis by (simp add: strlen_def wlen_def)
qed

lemma small_unat: "n < 2 ^ 62 \<Longrightarrow> unat (of_nat n :: size_t) = n"
  by (simp add: unat_of_nat)

lemma path_valid:
  assumes "path p s"
  shows "FILENAME_VALID p = Inr (of_nat (length s) + 1)" and "unat (of_nat (length s) + 1 + 1 :: size_t) = length s + 2"
proof -
  have s: "length s \<le> 254" using assms by (simp add: path_def)
  have eq: "of_nat (length s) + 1 = (of_nat (Suc (length s)) :: size_t)"
    "of_nat (length s) + 1 + 1 = (of_nat (length s + 2) :: size_t)" by simp_all
  show "unat (of_nat (length s) + 1 + 1 :: size_t) = length s + 2"
    unfolding eq(2) using s by (intro small_unat) simp
  have "unat (of_nat (Suc (length s)) :: size_t) = Suc (length s)" using s by (intro small_unat) simp
  then have "\<not> (256 :: size_t) < of_nat (length s) + 1" using s unfolding eq(1) by (simp add: word_less_nat_alt)
  moreover obtain "strlen p = of_nat (length s)" using path_strlen [OF assms] by metis
  ultimately show "FILENAME_VALID p = Inr (of_nat (length s) + 1)"
    by (simp add: FILENAME_VALID_def FILE_PATH_MAX_def)
qed

text \<open>A message ready to be sent: consistent, with a checksum that fits.\<close>

definition sendable :: "net_msg \<Rightarrow> bool" where
  "sendable m \<longleftrightarrow> db_inv (mdata m) \<and> check_checksum m"

lemma set_checksum_simps [simp]: "mtype (set_checksum m) = mtype m" "mdata (set_checksum m) = mdata m"
  by (simp_all add: set_checksum_def)

lemma sendable_set_checksum [simp]: "sendable (set_checksum m) = db_inv (mdata m)"
  by (simp add: sendable_def check_set_checksum)

lemma build_empty [simp]:
  "mtype (BUILD_EMPTY_MESSAGE ty) = ty" "db_inv (mdata (BUILD_EMPTY_MESSAGE ty))" "db_stack (mdata (BUILD_EMPTY_MESSAGE ty)) = []"
  by (simp_all add: BUILD_EMPTY_MESSAGE_def create_message_def)

lemma msg_push_ok:
  assumes E: "ce_alloc E = mem_ok" and m: "db_inv (mdata m)" and d: "take (unat n) p = d" "length d = unat n"
    and fits: "length (db_stack (mdata m)) + length d < 2 ^ 62"
  shows "mtype (msg_push E n p m) = mtype m" and "db_inv (mdata (msg_push E n p m))"
    and "db_stack (mdata (msg_push E n p m)) = db_stack (mdata m) @ d"
proof -
  obtain m' where m': "push_msg mem_ok m n (Some d) = (Inr (), m')" "mtype m' = mtype m" "db_inv (mdata m')"
      "db_stack (mdata m') = db_stack (mdata m) @ d"
    using push_msg_ok [OF m d(2) fits] .
  moreover have "push_msg mem_ok m n (Some p) = push_msg mem_ok m n (Some d)"
    using d(1) by (intro push_msg_block) simp_all
  ultimately have "msg_push E n p m = m'" using E by (simp add: msg_push_def)
  with m' show "mtype (msg_push E n p m) = mtype m" "db_inv (mdata (msg_push E n p m))"
    "db_stack (mdata (msg_push E n p m)) = db_stack (mdata m) @ d" by simp_all
qed

text \<open>Pushing a block and its length pushes a field.\<close>

lemma msg_push_field:
  assumes E: "ce_alloc E = mem_ok" and m: "db_inv (mdata m)" and d: "take (unat n) p = d" "length d = unat n"
    and fits: "length (db_stack (mdata m)) + length d + 8 < 2 ^ 62"
  defines "m' \<equiv> msg_push E 8 (size_bytes n) (msg_push E n p m)"
  shows "mtype m' = mtype m" and "db_inv (mdata m')" and "db_stack (mdata m') = db_stack (mdata m) @ field d"
proof -
  have n: "n = wlen d" using wlen_unat [OF d(2) [symmetric]] by simp
  have f: "length (db_stack (mdata m)) + length d < 2 ^ 62" using fits by simp
  note P = msg_push_ok [OF E m d f]
  have g: "take (unat (8 :: size_t)) (size_bytes n) = size_bytes n" "length (size_bytes n) = unat (8 :: size_t)" by simp_all
  have h: "length (db_stack (mdata (msg_push E n p m))) + length (size_bytes n) < 2 ^ 62" using fits P(3) by simp
  note Q = msg_push_ok [OF E P(2) g h]
  show "mtype m' = mtype m" "db_inv (mdata m')" "db_stack (mdata m') = db_stack (mdata m) @ field d"
    unfolding m'_def using P Q n by (simp_all add: field_def)
qed

lemma name_message_ok:
  assumes E: "ce_alloc E = mem_ok" and p: "path p s"
    fixes ty :: msg_t
  defines "m \<equiv> name_message E ty (of_nat (length s) + 1 + 1) p"
  shows "sendable m" and "mtype m = ty" and "requests m s"
proof -
  obtain b where b: "take (length s + 2) p = s @ [0, b]" using path_strlen [OF p] by metis
  let ?n = "of_nat (length s) + 1 + 1 :: size_t"
  have s: "length s \<le> 254" "0 \<notin> set s" using p by (simp_all add: path_def)
  have d: "take (unat ?n) p = s @ [0, b]" "length (s @ [0, b]) = unat ?n" using b path_valid(2) [OF p] by simp_all
  have "length (db_stack (mdata (BUILD_EMPTY_MESSAGE ty))) + length (s @ [0, b]) + 8 < 2 ^ 62" using s by simp
  note F = msg_push_field [OF E build_empty(2) d this]
  then show "sendable m" "mtype m = ty" by (simp_all add: m_def name_message_def)
  have "carries_name m [] (s @ 0 # [b])"
    using F s by (simp add: carries_name_def m_def name_message_def)
  with s(2) show "requests m s" unfolding requests_def by blast
qed

subsection \<open>One exchange\<close>

text \<open>What the reader of a message has.\<close>

definition arrives :: "net_msg \<Rightarrow> net_msg \<Rightarrow> bool" where
  "arrives m m' \<longleftrightarrow> mtype m' = mtype m \<and> sendable m' \<and> db_stack (mdata m') = db_stack (mdata m)"

lemma arrives_wire:
  assumes m: "sendable m" and ch: "chunks (wire m @ rest) evs"
  obtains m' evs' where "read_msg mem_ok evs create_message = (Inr (), m', evs')" "chunks rest evs'" "arrives m m'"
proof -
  have inv: "db_inv (mdata m)" using m by (simp add: sendable_def)
  from read_msg_wire [OF inv ch] obtain m' evs' where r: "read_msg mem_ok evs create_message = (Inr (), m', evs')"
      "chunks rest evs'" "mtype m' = mtype m" "checksum m' = checksum m" "db_inv (mdata m')"
      "db_stack (mdata m') = db_stack (mdata m)" by blast
  with m check_checksum_transfer [OF inv r(5,6,4)] show thesis
    by (intro that [OF r(1,2)]) (simp add: arrives_def sendable_def)
qed

lemma arrives_requests: "arrives m m' \<Longrightarrow> requests m s \<Longrightarrow> requests m' s"
  by (auto simp: arrives_def sendable_def requests_def carries_name_def)

lemma send_receive_ok:
  assumes c: "client_ready E c" and m: "sendable m" "sendable out" and ch: "chunks (wire out @ rest) (c_in c)"
  obtains m' c' where "send_receive E m c = (Inr m', c')" "arrives out m'" "c_sent c' = c_sent c @ wire m"
    "chunks rest (c_in c')" "api_conn c' = api_conn c" "byte_read c' = byte_read c" "byte_write c' = byte_write c"
    "c_disk c' = c_disk c" "c_naps c' = c_naps c"
proof -
  have "db_inv (mdata m)" "willing (c_out c)" using c m by (simp_all add: client_ready_def sendable_def)
  then obtain outs where w: "write_msg (c_out c) m = (Inr (), wire m, outs)" using write_msg_willing by blast
  obtain m' ins where r: "read_msg mem_ok (c_in c) create_message = (Inr (), m', ins)" "chunks rest ins" "arrives out m'"
    using arrives_wire [OF m(2) ch] .
  have "ce_alloc E = mem_ok" using c by (simp add: client_ready_def)
  with w r that show thesis by (simp add: send_receive_def)
qed

text \<open>The bytes a call sends do not depend on the answer.\<close>

lemma send_receive_sent:
  assumes c: "client_ready E c" and m: "sendable m"
  shows "c_sent (snd (send_receive E m c)) = c_sent c @ wire m"
proof -
  have "db_inv (mdata m)" "willing (c_out c)" using c m by (simp_all add: client_ready_def sendable_def)
  then obtain outs where "write_msg (c_out c) m = (Inr (), wire m, outs)" using write_msg_willing by blast
  then show ?thesis by (simp add: send_receive_def CLOSE_def Let_def split: prod.splits sum.splits)
qed

text \<open>The request of a connected client, at the worker.\<close>

definition serving :: "env \<Rightarrow> int \<Rightarrow> worker_io \<Rightarrow> server \<Rightarrow> bool" where
  "serving e k io sv \<longleftrightarrow>
     good_env e \<and> service_inv sv \<and> k \<in> conns (shared sv) \<and> \<not> state_mux (shared sv) \<and> willing (io_out io)"

lemma serving_facts:
  assumes "serving e k io sv"
  obtains ci where "0 < k" "k \<noteq> ro_acceptor_fd (shared sv)" "get_client_lastop (shared sv) k = Inr ci"
    "server_inv sv" "good_env e"
proof -
  have inv: "service_inv sv" "k \<in> conns (shared sv)" using assms by (simp_all add: serving_def)
  then have "conns_inv (shared sv)" "0 < k" "k \<noteq> ro_acceptor_fd (shared sv)" "server_inv sv"
    by (simp_all add: service_inv_def server_inv_def)
  moreover obtain ci where "get_client_lastop (shared sv) k = Inr ci"
    using get_client_lastop_member [OF \<open>conns_inv (shared sv)\<close>] inv(2) by blast
  ultimately show thesis using assms that by (auto simp: serving_def)
qed

text \<open>A request other than a disconnection reaches its handler, and the answer goes back whole.\<close>

lemma worker_answers:
  assumes srv: "serving e k io sv" and m: "sendable m" "ISCLIENT (mtype m)"
      "\<not> CHECK_CLIENT_MSG_TYPE (mtype m) MESSAGE_CLOSE_CONN"
    and ch: "chunks (wire m @ rest) (io_in io)" and run: "worker_do e thread io k nc sv = Some w"
  obtains m' ci r out sv' where "arrives m m'" "dispatch e thread k m' create_message ci sv = Some (r, out, sv')"
    "s_server w = sv'" "s_conn w = k" "db_inv (mdata out) \<longrightarrow> s_ret w = r \<and> s_sent w = wire (set_checksum out)"
    "get_client_lastop (shared sv) k = Inr ci"
proof -
  obtain ci where ci: "k \<noteq> ro_acceptor_fd (shared sv)" "get_client_lastop (shared sv) k = Inr ci" "good_env e"
    using serving_facts [OF srv] .
  obtain m' ins where r: "read_msg mem_ok (io_in io) create_message = (Inr (), m', ins)" and a: "arrives m m'"
    using arrives_wire [OF m(1) ch] .
  have al: "e_alloc e = mem_ok" and mux: "\<not> state_mux (shared sv)" and w: "willing (io_out io)"
    using srv by (simp_all add: serving_def good_env_def)
  have ty: "mtype m' = mtype m" "check_checksum m'" using a by (simp_all add: arrives_def sendable_def)
  then have icm: "is_client_message m' (mtype m')"
    using m(2) by (simp add: is_client_message_def CHECK_CLIENT_MSG_TYPE_def)
  obtain q out sv' where d: "dispatch e thread k m' create_message ci sv = Some (q, out, sv')"
    using run r al icm ci mux m(3) ty by (auto simp: worker_do_def Let_def split: option.splits)
  have s: "s_server w = sv' \<and> s_conn w = k"
    using run r al icm ci mux m(3) ty d by (auto simp: worker_do_def Let_def split: sum.splits prod.splits)
  have sent: "s_ret w = q \<and> s_sent w = wire (set_checksum out)" if "db_inv (mdata out)"
  proof -
    have "db_inv (mdata (set_checksum out))" using that by simp
    from write_msg_willing [OF this w] obtain outs where
      "write_msg (io_out io) (set_checksum out) = (Inr (), wire (set_checksum out), outs)" ..
    then show ?thesis
      using run r al icm ci mux m(3) ty d by (auto simp: worker_do_def Let_def)
  qed
  then have "db_inv (mdata out) \<longrightarrow> s_ret w = q \<and> s_sent w = wire (set_checksum out)" by blast
  with that [OF a d] s ci(2) show thesis by blast
qed

text \<open>A call and the worker that serves it, joined by the socket.\<close>

definition connected ::
    "(client \<Rightarrow> 'r \<times> client) \<Rightarrow> client \<Rightarrow> env \<Rightarrow> int \<Rightarrow> worker_io \<Rightarrow> int \<Rightarrow> server \<Rightarrow> served \<Rightarrow> bool" where
  "connected call c e thread io k sv w \<longleftrightarrow>
     (\<exists>sent. c_sent (snd (call c)) = c_sent c @ sent \<and> chunks sent (io_in io))
   \<and> worker_do e thread io k (-1) sv = Some w \<and> chunks (s_sent w) (c_in c)"

lemma client_ready_clear [simp]:
  "client_ready E (clear_byte_read_write c) = client_ready E c"
  "api_conn (clear_byte_read_write c) = api_conn c" "c_sent (clear_byte_read_write c) = c_sent c"
  "c_in (clear_byte_read_write c) = c_in c" "c_disk (clear_byte_read_write c) = c_disk c"
  "byte_read (clear_byte_read_write c) = 0" "byte_write (clear_byte_read_write c) = 0"
  by (simp_all add: client_ready_def clear_byte_read_write_def)

lemma ask_sends:
  assumes c: "client_ready E c" and p: "path p s"
  shows "ask E ty p c = send_receive E (name_message E ty (of_nat (length s) + 1 + 1) p) (clear_byte_read_write c)"
proof -
  have "\<not> api_conn c < 0" using c by (simp add: client_ready_def)
  then show ?thesis by (simp add: ask_def path_valid(1) [OF p])
qed

text \<open>From the message of a call to the answer it gets, around the handler that serves it.\<close>

lemma exchanged:
  assumes c: "client_ready E c" and m: "sendable m" "ISCLIENT (mtype m)" "\<not> CHECK_CLIENT_MSG_TYPE (mtype m) MESSAGE_CLOSE_CONN"
    and same: "c_sent (snd (call c)) = c_sent (snd (send_receive E m c0))"
    and c0: "client_ready E c0" "c_sent c0 = c_sent c" "c_in c0 = c_in c"
    and srv: "serving e k io sv" and con: "connected call c e thread io k sv w"
  obtains m' ci r out sv' where "arrives m m'" "dispatch e thread k m' create_message ci sv = Some (r, out, sv')"
    "s_server w = sv'" "s_conn w = k"
    "db_inv (mdata out) \<longrightarrow> s_ret w = r \<and> (\<exists>m2 c2. send_receive E m c0 = (Inr m2, c2) \<and> arrives (set_checksum out) m2
       \<and> c_disk c2 = c_disk c0 \<and> byte_read c2 = byte_read c0)"
    "get_client_lastop (shared sv) k = Inr ci"
proof -
  have "c_sent (snd (call c)) = c_sent c @ wire m"
    using same c0(2) send_receive_sent [OF c0(1) m(1)] by simp
  then have ch: "chunks (wire m @ []) (io_in io)"
    and run: "worker_do e thread io k (-1) sv = Some w" and answer: "chunks (s_sent w) (c_in c)"
    using con by (auto simp: connected_def)
  obtain m' ci r out sv' where W: "arrives m m'" "dispatch e thread k m' create_message ci sv = Some (r, out, sv')"
      "s_server w = sv'" "s_conn w = k" "db_inv (mdata out) \<longrightarrow> s_ret w = r \<and> s_sent w = wire (set_checksum out)"
      "get_client_lastop (shared sv) k = Inr ci"
    using worker_answers [OF srv m ch run] .
  have "\<exists>m2 c2. send_receive E m c0 = (Inr m2, c2) \<and> arrives (set_checksum out) m2
      \<and> c_disk c2 = c_disk c0 \<and> byte_read c2 = byte_read c0" if "db_inv (mdata out)"
  proof -
    have "chunks (wire (set_checksum out) @ []) (c_in c0)" "sendable (set_checksum out)"
      using answer W(5) that c0(3) by simp_all
    from send_receive_ok [OF c0(1) m(1) this(2) this(1)] show ?thesis by metis
  qed
  with W that [OF W(1-4)] show thesis by blast
qed

lemma asked:
  assumes c: "client_ready E c" and p: "path p s"
    and ty: "ISCLIENT ty" "\<not> CHECK_CLIENT_MSG_TYPE ty MESSAGE_CLOSE_CONN"
    and same: "c_sent (snd (call c)) = c_sent (snd (ask E ty p c))"
    and srv: "serving e k io sv" and con: "connected call c e thread io k sv w"
  obtains m' ci r out sv' where "names e m' s" "mtype m' = ty"
    "dispatch e thread k m' create_message ci sv = Some (r, out, sv')" "s_server w = sv'" "s_conn w = k"
    "db_inv (mdata out) \<longrightarrow> s_ret w = r \<and> (\<exists>m2 c2. ask E ty p c = (Inr m2, c2) \<and> arrives (set_checksum out) m2
       \<and> byte_read c2 = 0)"
proof -
  let ?m = "name_message E ty (of_nat (length s) + 1 + 1) p" and ?c = "clear_byte_read_write c"
  have al: "ce_alloc E = mem_ok" using c by (simp add: client_ready_def)
  note M = name_message_ok [OF al p, of ty]
  note A = ask_sends [OF c p, of ty]
  have c0: "client_ready E ?c" "c_sent ?c = c_sent c" "c_in ?c = c_in c" using c by simp_all
  have ty': "ISCLIENT (mtype ?m)" "\<not> CHECK_CLIENT_MSG_TYPE (mtype ?m) MESSAGE_CLOSE_CONN" using ty M(2) by simp_all
  have same': "c_sent (snd (call c)) = c_sent (snd (send_receive E ?m ?c))" using same A by simp
  obtain m' ci r out sv' where W: "arrives ?m m'" "dispatch e thread k m' create_message ci sv = Some (r, out, sv')"
      "s_server w = sv'" "s_conn w = k"
      "db_inv (mdata out) \<longrightarrow> s_ret w = r \<and> (\<exists>m2 c2. send_receive E ?m ?c = (Inr m2, c2)
         \<and> arrives (set_checksum out) m2 \<and> c_disk c2 = c_disk ?c \<and> byte_read c2 = byte_read ?c)"
      "get_client_lastop (shared sv) k = Inr ci"
    using exchanged [OF c M(1) ty' same' c0 srv con] .
  have "names e m' s" by (rule requests_names [OF arrives_requests [OF W(1) M(3)]])
  moreover have "mtype m' = ty" using W(1) M(2) by (simp add: arrives_def)
  ultimately show thesis using W(2-5) A that by fastforce
qed

subsection \<open>Calls about one file\<close>

text \<open>The answers of these handlers carry no data.\<close>

lemma mdata_or_flag [simp]: "mdata (or_flag m fl) = mdata m"
  by (simp add: or_flag_def)

lemma open_file_create_data: "open_file_create e thread fx nm k m out ci sv = (r, out', sv') \<Longrightarrow> mdata out' = mdata out"
  by (auto simp: open_file_create_def Let_def split: if_splits sum.splits prod.splits)

lemma open_file_open_data: "open_file_open e thread fs nm k m out ci sv = (r, out', sv') \<Longrightarrow> mdata out' = mdata out"
  by (auto simp: open_file_open_def Let_def split: if_splits sum.splits prod.splits option.splits)

lemma no_data_answers:
  "do_open_file e thread k m out ci sv = (r, out', sv') \<Longrightarrow> mdata out' = mdata out"
  "do_close_file e thread k m out ci sv = (r, out', sv') \<Longrightarrow> mdata out' = mdata out"
  "do_lock_file e thread k m out ci sv = (r, out', sv') \<Longrightarrow> mdata out' = mdata out"
  "do_unlock_file e thread k m out ci sv = (r, out', sv') \<Longrightarrow> mdata out' = mdata out"
  "do_remove_file e thread k m out ci sv = (r, out', sv') \<Longrightarrow> mdata out' = mdata out"
  by (auto simp: do_open_file_def do_close_file_def do_lock_file_def do_unlock_file_def do_remove_file_def Let_def
      split: if_splits sum.splits prod.splits dest!: open_file_create_data open_file_open_data)

locale file_call = named_handler h ack flag op ok
  for h :: handler and ack :: msg_t and flag :: "errno + unit \<Rightarrow> msg_t"
    and op :: "int \<Rightarrow> afile \<Rightarrow> errno + afile option" and ok :: "net_msg \<Rightarrow> net_msg \<Rightarrow> bool" +
  fixes call :: "client_env \<Rightarrow> byte list \<Rightarrow> client \<Rightarrow> (errno + unit) \<times> client"
    and ty :: msg_t
    and err :: "errno \<Rightarrow> errno"
  assumes is_request: "ISCLIENT ty" "\<not> CHECK_CLIENT_MSG_TYPE ty MESSAGE_CLOSE_CONN"
    and ok_request: "mtype m = ty \<Longrightarrow> ok m create_message"
    and dispatched: "mtype m = ty \<Longrightarrow>
      dispatch e thread k m create_message ci sv = Some (h e thread k m create_message ci sv)"
    and no_data: "h e thread k m out ci sv = (r, out', sv') \<Longrightarrow> mdata out' = mdata out"
    and only_asks: "snd (call E p c) = snd (ask E ty p c)"
    and result: "ask E ty p c = (Inr m, c') \<Longrightarrow> check_checksum m \<Longrightarrow> mtype m = ack OR flag q \<Longrightarrow>
      fst (call E p c) = (case q of Inr _ \<Rightarrow> Inr () | Inl x \<Rightarrow> Inl (err x))"
begin

lemma served:
  assumes c: "client_ready E c" and p: "path p s" and srv: "serving e k io sv"
    and con: "connected (call E p) c e thread io k sv w"
  shows "case request op k s (sabs sv) of (r, m) \<Rightarrow>
           fst (call E p c) = (case r of Inr _ \<Rightarrow> Inr () | Inl x \<Rightarrow> Inl (err x))
         \<and> sabs (s_server w) = m \<and> s_ret w = 0 \<and> s_conn w = k"
proof -
  have same: "c_sent (snd (call E p c)) = c_sent (snd (ask E ty p c))" by (simp add: only_asks)
  obtain m' ci r out sv' where W: "names e m' s" "mtype m' = ty"
      "dispatch e thread k m' create_message ci sv = Some (r, out, sv')" "s_server w = sv'" "s_conn w = k"
      "db_inv (mdata out) \<longrightarrow> s_ret w = r \<and> (\<exists>m2 c2. ask E ty p c = (Inr m2, c2) \<and> arrives (set_checksum out) m2
         \<and> byte_read c2 = 0)"
    using asked [OF c p is_request same srv con] .
  have H: "h e thread k m' create_message ci sv = (r, out, sv')" using dispatched W(2,3) by simp
  from no_data [OF this] have "db_inv (mdata out)" by (simp add: create_message_def)
  with W(6) obtain m2 c2 where A: "s_ret w = r" "ask E ty p c = (Inr m2, c2)" "arrives (set_checksum out) m2" by blast
  obtain cj where F: "0 < k" "k \<noteq> ro_acceptor_fd (shared sv)" "get_client_lastop (shared sv) k = Inr cj"
      "server_inv sv" "good_env e" using serving_facts [OF srv] .
  obtain q fs where q: "request op k s (sabs sv) = (q, fs)" by (cases "request op k s (sabs sv)")
  have R: "r = 0" "mtype out = ack OR flag q" "sabs sv' = fs"
    using handles [OF F(5,4) W(1) ok_request [OF W(2)] F(1), of thread ci] H q by auto
  from result [OF A(2), of q] A(3) R(2) have "fst (call E p c) = (case q of Inr _ \<Rightarrow> Inr () | Inl x \<Rightarrow> Inl (err x))"
    by (simp add: arrives_def sendable_def)
  with q R W(4,5) A(1) show ?thesis by simp
qed

end

text \<open>The calls that are served by one request, the abstract operation each stands for, and the
  \<open>errno\<close> the caller sees when the server refuses.\<close>

datatype file_request = Open bool | Close | Unlock | Remove

fun api_call :: "file_request \<Rightarrow> client_env \<Rightarrow> byte list \<Rightarrow> client \<Rightarrow> (errno + unit) \<times> client" where
  "api_call (Open lk) E p c = openFile E p (if lk then O_LOCK else 0) c"
| "api_call Close E p c = closeFile E p c"
| "api_call Unlock E p c = unlockFile E p c"
| "api_call Remove E p c = removeFile E p c"

fun api_op :: "file_request \<Rightarrow> int \<Rightarrow> afile \<Rightarrow> errno + afile option" where
  "api_op (Open lk) = open_op lk"
| "api_op Close = keep a_close_op"
| "api_op Unlock = keep a_unlock_op"
| "api_op Remove = remove_op"

fun api_errno :: "file_request \<Rightarrow> errno \<Rightarrow> errno" where
  "api_errno Unlock err = (if err = ENOENT \<or> err = EPERM then ENOENT else EPERM)"
| "api_errno Remove err = (if err = ENOENT then ENOENT else EPERM)"
| "api_errno _ err = (if err = ENOENT then ENOENT else if err = EPERM then EBADMSG else EPERM)"

lemmas msg_defs = msg_check_defs msg_field_defs msg_req_defs msg_ack_defs msg_flag_defs

lemma mtype_destroy [simp]: "mtype (destroy_message m) = mtype m"
  by (simp add: destroy_message_def)

lemma open_type:
  "openFile E p (if lk then O_LOCK else 0) c =
     (case ask E (MESSAGE_OPEN_FILE OR (if lk then MESSAGE_OPEN_OLOCK else 0)) p c of
        (Inl e, c) \<Rightarrow> (Inl e, c)
      | (Inr msg, c) \<Rightarrow>
          (let check = is_server_message msg MESSAGE_OFILE_ACK; msg = destroy_message msg;
               has = HASFLAG (GETFLAGS (mtype msg))
           in if \<not> check then (Inl EBADMSG, c)
              else if has MESSAGE_OP_SUCC then (Inr (), c)
              else if has MESSAGE_FILE_NOWN then (Inl EPERM, c)
              else if has MESSAGE_FILE_EXISTS then (Inl EEXIST, c)
              else if has MESSAGE_FILE_NEXISTS then (Inl ENOENT, c)
              else if has MESSAGE_FILE_ERRMAXFILES then (Inl ENFILE, c)
              else (Inl EBADMSG, c)))"
  by (simp add: openFile_def O_LOCK_def O_CREATE_def)

interpretation close_call: file_call do_close_file MESSAGE_CFILE_ACK std_flag "keep a_close_op" "\<lambda>_ _. True"
    closeFile MESSAGE_CLOSE_FILE "api_errno Close"
proof unfold_locales
  show "ISCLIENT MESSAGE_CLOSE_FILE" "\<not> CHECK_CLIENT_MSG_TYPE MESSAGE_CLOSE_FILE MESSAGE_CLOSE_CONN"
    by (simp_all add: msg_defs)
next
  fix m :: net_msg and e thread k ci sv assume "mtype m = MESSAGE_CLOSE_FILE"
  then show "dispatch e thread k m create_message ci sv = Some (do_close_file e thread k m create_message ci sv)"
    by (simp add: dispatch_def msg_defs)
next
  fix E p c and m :: net_msg and c' and r :: "errno + unit"
  assume "ask E MESSAGE_CLOSE_FILE p c = (Inr m, c')" "check_checksum m" "mtype m = MESSAGE_CFILE_ACK OR std_flag r"
  then show "fst (closeFile E p c) = (case r of Inr _ \<Rightarrow> Inr () | Inl x \<Rightarrow> Inl (api_errno Close x))"
    by (cases r) (simp_all add: closeFile_def is_server_message_def msg_defs)
qed (auto simp: closeFile_def Let_def no_data_answers split: sum.splits prod.splits)

interpretation unlock_call: file_call do_unlock_file MESSAGE_ULFILE_ACK std_flag "keep a_unlock_op" "\<lambda>_ _. True"
    unlockFile MESSAGE_UNLOCK_FILE "api_errno Unlock"
proof unfold_locales
  show "ISCLIENT MESSAGE_UNLOCK_FILE" "\<not> CHECK_CLIENT_MSG_TYPE MESSAGE_UNLOCK_FILE MESSAGE_CLOSE_CONN"
    by (simp_all add: msg_defs)
next
  fix m :: net_msg and e thread k ci sv assume "mtype m = MESSAGE_UNLOCK_FILE"
  then show "dispatch e thread k m create_message ci sv = Some (do_unlock_file e thread k m create_message ci sv)"
    by (simp add: dispatch_def msg_defs)
next
  fix E p c and m :: net_msg and c' and r :: "errno + unit"
  assume "ask E MESSAGE_UNLOCK_FILE p c = (Inr m, c')" "check_checksum m" "mtype m = MESSAGE_ULFILE_ACK OR std_flag r"
  then show "fst (unlockFile E p c) = (case r of Inr _ \<Rightarrow> Inr () | Inl x \<Rightarrow> Inl (api_errno Unlock x))"
    by (cases r) (simp_all add: unlockFile_def is_server_message_def msg_defs)
qed (auto simp: unlockFile_def Let_def no_data_answers split: sum.splits prod.splits)

interpretation remove_call: file_call do_remove_file MESSAGE_RMFILE_ACK remove_flag remove_op "\<lambda>_ _. True"
    removeFile MESSAGE_REMOVE_FILE "api_errno Remove"
proof unfold_locales
  show "ISCLIENT MESSAGE_REMOVE_FILE" "\<not> CHECK_CLIENT_MSG_TYPE MESSAGE_REMOVE_FILE MESSAGE_CLOSE_CONN"
    by (simp_all add: msg_defs)
next
  fix m :: net_msg and e thread k ci sv assume "mtype m = MESSAGE_REMOVE_FILE"
  then show "dispatch e thread k m create_message ci sv = Some (do_remove_file e thread k m create_message ci sv)"
    by (simp add: dispatch_def msg_defs)
next
  fix E p c and m :: net_msg and c' and r :: "errno + unit"
  assume "ask E MESSAGE_REMOVE_FILE p c = (Inr m, c')" "check_checksum m" "mtype m = MESSAGE_RMFILE_ACK OR remove_flag r"
  then show "fst (removeFile E p c) = (case r of Inr _ \<Rightarrow> Inr () | Inl x \<Rightarrow> Inl (api_errno Remove x))"
    by (cases r) (simp_all add: removeFile_def is_server_message_def msg_defs)
qed (auto simp: removeFile_def Let_def no_data_answers split: sum.splits prod.splits)

abbreviation open_ty :: "bool \<Rightarrow> msg_t" where
  "open_ty lk \<equiv> MESSAGE_OPEN_FILE OR (if lk then MESSAGE_OPEN_OLOCK else 0)"

interpretation open_call: file_call do_open_file MESSAGE_OFILE_ACK std_flag "open_op lk" "\<lambda>m _. open_request lk m"
    "\<lambda>E p. openFile E p (if lk then O_LOCK else 0)" "open_ty lk" "api_errno (Open lk)" for lk
proof unfold_locales
  show "ISCLIENT (open_ty lk)" "\<not> CHECK_CLIENT_MSG_TYPE (open_ty lk) MESSAGE_CLOSE_CONN"
    by (cases lk; simp add: msg_defs)+
next
  fix m :: net_msg and e thread k ci sv assume m: "mtype m = open_ty lk"
  then show "dispatch e thread k m create_message ci sv = Some (do_open_file e thread k m create_message ci sv)"
    by (cases lk) (simp_all add: dispatch_def msg_defs)
  from m show "open_request lk m" by (cases lk) (simp_all add: open_request_def msg_defs)
next
  fix E p c and m :: net_msg and c' and r :: "errno + unit"
  assume "ask E (open_ty lk) p c = (Inr m, c')" "check_checksum m" "mtype m = MESSAGE_OFILE_ACK OR std_flag r"
  then show "fst (openFile E p (if lk then O_LOCK else 0) c)
      = (case r of Inr _ \<Rightarrow> Inr () | Inl x \<Rightarrow> Inl (api_errno (Open lk) x))"
    unfolding open_type by (cases r) (simp_all add: is_server_message_def msg_defs)
next
  fix E p c show "snd (openFile E p (if lk then O_LOCK else 0) c) = snd (ask E (open_ty lk) p c)"
    unfolding open_type by (auto simp: Let_def split: sum.splits prod.splits)
qed (rule no_data_answers)

text \<open>All of them, by the name of the call.\<close>

lemma api_call_served:
  assumes "client_ready E c" "path p s" "serving e k io sv" "connected (api_call q E p) c e thread io k sv w"
  shows "case request (api_op q) k s (sabs sv) of (r, m) \<Rightarrow>
           fst (api_call q E p c) = (case r of Inr _ \<Rightarrow> Inr () | Inl x \<Rightarrow> Inl (api_errno q x))
         \<and> sabs (s_server w) = m \<and> s_ret w = 0 \<and> s_conn w = k"
proof (cases q)
  case (Open lk)
  with assms(4) have "connected (openFile E p (if lk then O_LOCK else 0)) c e thread io k sv w"
    by (simp add: connected_def)
  from open_call.served [OF assms(1-3) this] show ?thesis unfolding Open api_call.simps api_op.simps .
next
  case Close
  with assms(4) have "connected (closeFile E p) c e thread io k sv w" by (simp add: connected_def)
  from close_call.served [OF assms(1-3) this] show ?thesis unfolding Close api_call.simps api_op.simps .
next
  case Unlock
  with assms(4) have "connected (unlockFile E p) c e thread io k sv w" by (simp add: connected_def)
  from unlock_call.served [OF assms(1-3) this] show ?thesis unfolding Unlock api_call.simps api_op.simps .
next
  case Remove
  with assms(4) have "connected (removeFile E p) c e thread io k sv w" by (simp add: connected_def)
  from remove_call.served [OF assms(1-3) this] show ?thesis unfolding Remove api_call.simps api_op.simps .
qed

subsection \<open>Reading a file\<close>

text \<open>A field at the end of a message is popped as its length and its bytes.\<close>

lemma pop_number:
  assumes "db_inv b" "db_stack b = t @ size_bytes n"
  obtains b' where "pop_buf b 8 (Some (replicate 8 0)) = (Inr (size_bytes n), b')" "db_inv b'" "db_stack b' = t"
  using pop_buf_ok [OF assms, of 8 "replicate 8 0"] by auto

lemma pop_block:
  assumes "db_inv b" "db_stack b = t @ d" "length d < 2 ^ 62"
  obtains b' where "pop_buf b (wlen d) (Some dst) = (Inr (d @ drop (length d) dst), b')" "db_inv b'" "db_stack b' = t"
proof -
  have "length d = unat (wlen d)" using assms(3) by (simp add: unat_wlen)
  from pop_buf_ok [OF assms(1,2) this, of dst] that show thesis by blast
qed

lemma readFile_served:
  assumes c: "client_ready E c" and p: "path p s" and srv: "serving e k io sv"
    and con: "connected (readFile E p) c e thread io k sv w"
  shows "case request (keep a_read_op) k s (sabs sv) of (r, m) \<Rightarrow>
           fst (readFile E p c)
             = (case r of Inr _ \<Rightarrow> Inr (a_content (the (sabs sv s))) | Inl x \<Rightarrow> Inl (if x = ENOENT then ENOENT else EPERM))
         \<and> sabs (s_server w) = m \<and> s_ret w = 0 \<and> s_conn w = k"
proof -
  have ty: "ISCLIENT MESSAGE_READ_FILE" "\<not> CHECK_CLIENT_MSG_TYPE MESSAGE_READ_FILE MESSAGE_CLOSE_CONN"
    by (simp_all add: msg_defs)
  have same: "c_sent (snd (readFile E p c)) = c_sent (snd (ask E MESSAGE_READ_FILE p c))"
    by (auto simp: readFile_def Let_def split: sum.splits prod.splits)
  obtain m' ci r out sv' where W: "names e m' s" "mtype m' = MESSAGE_READ_FILE"
      "dispatch e thread k m' create_message ci sv = Some (r, out, sv')" "s_server w = sv'" "s_conn w = k"
      "db_inv (mdata out) \<longrightarrow> s_ret w = r \<and> (\<exists>m2 c2. ask E MESSAGE_READ_FILE p c = (Inr m2, c2)
         \<and> arrives (set_checksum out) m2 \<and> byte_read c2 = 0)"
    using asked [OF c p ty same srv con] .
  have H: "do_read_file e thread k m' create_message ci sv = (r, out, sv')"
    using W(2,3) by (simp add: dispatch_def msg_defs)
  obtain cj where F: "0 < k" "k \<noteq> ro_acceptor_fd (shared sv)" "get_client_lastop (shared sv) k = Inr cj"
      "server_inv sv" "good_env e" using serving_facts [OF srv] .
  obtain q fs where q: "request (keep a_read_op) k s (sabs sv) = (q, fs)"
    by (cases "request (keep a_read_op) k s (sabs sv)")
  let ?d = "a_content (the (sabs sv s))"
  have R: "r = 0" "mtype out = MESSAGE_RFILE_ACK OR std_flag q" "sabs sv' = fs" "db_inv (mdata out)"
      "db_stack (mdata out) = (if q = Inr () then field ?d else [])"
    using do_read_file_replies [OF F(5,4) W(1) fresh_create F(1), of thread ci] H q by auto
  with W(6) obtain m2 c2 where A: "s_ret w = r" "ask E MESSAGE_READ_FILE p c = (Inr m2, c2)" "arrives (set_checksum out) m2"
    by blast
  have m2: "mtype m2 = MESSAGE_RFILE_ACK OR std_flag q" "check_checksum m2" "db_inv (mdata m2)"
      "db_stack (mdata m2) = (if q = Inr () then field ?d else [])"
    using A(3) R by (simp_all add: arrives_def sendable_def)
  have "fst (readFile E p c) = (case q of Inr _ \<Rightarrow> Inr ?d | Inl x \<Rightarrow> Inl (if x = ENOENT then ENOENT else EPERM))"
  proof (cases q)
    case (Inl x)
    with A(2) m2(1,2) show ?thesis by (simp add: readFile_def is_server_message_def msg_defs)
  next
    case (Inr u)
    then obtain a where a: "sabs sv s = Some a"
      using q by (auto simp: request_def split: option.splits)
    then have "length (a_content a) < 2 ^ 61"
      using content_capacity [OF F(4)] by (auto simp: store_abs_def find_Some_iff)
    then have "length ?d < 2 ^ 61" using a by simp
    then have dl: "length ?d < 2 ^ 62" by simp
    have st: "db_stack (mdata m2) = ?d @ size_bytes (wlen ?d)" using m2(4) Inr by (simp add: field_def)
    obtain b where b: "pop_buf (mdata m2) 8 (Some (replicate 8 0)) = (Inr (size_bytes (wlen ?d)), b)" "db_inv b"
        "db_stack b = [] @ ?d"
      using pop_number [OF m2(3) st] by auto
    obtain b' where "pop_buf b (wlen ?d) (Some (resize_block (unat (wlen ?d)) [])) =
        (Inr (?d @ drop (length ?d) (resize_block (unat (wlen ?d)) [])), b')"
      using pop_block [OF b(2,3) dl] by metis
    moreover have "drop (length ?d) (resize_block (unat (wlen ?d)) []) = []"
      using dl by (simp add: unat_wlen)
    moreover have "ce_alloc E = mem_ok" using c by (simp add: client_ready_def)
    moreover have "HASFLAG (GETFLAGS (mtype m2)) MESSAGE_OP_SUCC" "is_server_message m2 MESSAGE_RFILE_ACK"
      using m2(1,2) Inr by (simp_all add: is_server_message_def msg_defs)
    ultimately show ?thesis using A(2) b(1) Inr by (simp add: readFile_def Let_def mem_ok)
  qed
  with q R W(4,5) A(1) show ?thesis by simp
qed

subsection \<open>Waiting for a lock\<close>

lemma write_msg_willing_after:
  assumes "db_inv (mdata m)" "willing evs" "write_msg evs m = (Inr u, sent, evs')"
  shows "willing evs'"
proof -
  have w: "writen evs ptr = (r, out, e1) \<Longrightarrow> willing evs \<Longrightarrow> willing e1" for evs ptr r out e1
    using writen_willing [of evs ptr] by auto
  from assms(2,3) show ?thesis
    by (auto simp: write_msg_def write_msghead_def write_msgbody_def dest!: w split: sum.splits prod.splits if_splits bool.splits)
qed

lemma send_receive_ready: "client_ready E c \<Longrightarrow> sendable m \<Longrightarrow> send_receive E m c = (Inr a, c') \<Longrightarrow> client_ready E c'"
  by (auto simp: send_receive_def Let_def client_ready_def sendable_def split: sum.splits prod.splits
      dest: write_msg_willing_after)

text \<open>While another client holds the lock the call waits and asks again; it returns with the lock.\<close>

lemma lock_loop_retries:
  assumes m: "sendable m" and busy: "sendable busy" "mtype busy = MESSAGE_LFILE_ACK OR MESSAGE_FILE_NOWN"
    and granted: "sendable granted" "mtype granted = MESSAGE_LFILE_ACK OR MESSAGE_OP_SUCC"
    and nap: "\<And>k. ce_nap E k = None"
  shows "client_ready E c \<Longrightarrow> chunks (concat (replicate n (wire busy)) @ wire granted) (c_in c) \<Longrightarrow>
    \<exists>c'. lock_loop E m c = (Inr (), c') \<and> c_sent c' = c_sent c @ concat (replicate (Suc n) (wire m))
      \<and> c_naps c' = c_naps c + n"
proof (induction n arbitrary: c)
  case 0
  then have "chunks (wire granted @ []) (c_in c)" by simp
  from send_receive_ok [OF 0(1) m granted(1) this] obtain a c' where
    X: "send_receive E m c = (Inr a, c')" "arrives granted a" "c_sent c' = c_sent c @ wire m" "c_naps c' = c_naps c" by metis
  then have "mtype a = MESSAGE_LFILE_ACK OR MESSAGE_OP_SUCC" "check_checksum a"
    using granted(2) by (simp_all add: arrives_def sendable_def)
  with X show ?case by (simp add: lock_loop.simps [of E m c] is_server_message_def msg_defs)
next
  case (Suc n)
  then have "chunks (wire busy @ (concat (replicate n (wire busy)) @ wire granted)) (c_in c)" by simp
  from send_receive_ok [OF Suc.prems(1) m busy(1) this] obtain a c' where
    X: "send_receive E m c = (Inr a, c')" "arrives busy a" "c_sent c' = c_sent c @ wire m"
      "chunks (concat (replicate n (wire busy)) @ wire granted) (c_in c')" "c_naps c' = c_naps c" by metis
  let ?c = "c'\<lparr>c_naps := Suc (c_naps c')\<rparr>"
  have "client_ready E ?c" using send_receive_ready [OF Suc.prems(1) m X(1)] by (simp add: client_ready_def)
  from Suc.IH [OF this] X(4) obtain c2 where "lock_loop E m ?c = (Inr (), c2)"
      "c_sent c2 = c_sent c' @ concat (replicate (Suc n) (wire m))" "c_naps c2 = Suc (c_naps c') + n" by auto
  moreover have "mtype a = MESSAGE_LFILE_ACK OR MESSAGE_FILE_NOWN" "check_checksum a"
    using busy(2) X(2) by (simp_all add: arrives_def sendable_def)
  ultimately show ?case
    using X nap by (simp add: lock_loop.simps [of E m c] is_server_message_def msg_defs)
qed

end
