(* ===== verification/Client_Data.thy ===== *)
theory Client_Data
  imports Client_Spec
begin

text \<open>
  Calls that send data, and the files that come back. When a write or an append makes the server
  expel files, the answer carries them and the client stores them in its directory: for a call
  that succeeds nothing is lost. A call that is refused after the eviction loses them, because
  the client saves them only on success.
\<close>

subsection \<open>Files that the server expels\<close>

definition flat_name :: "byte list \<Rightarrow> byte list" where
  "flat_name s = map (\<lambda>b. if b = 47 then 95 else b) s"

text \<open>Where the client stores the files \<open>vs\<close>, and what. The answer is read from its end: the first
  file is written last.\<close>

definition saved :: "byte list \<Rightarrow> file_t list \<Rightarrow> (byte list \<times> byte list) list" where
  "saved dir vs = map (\<lambda>f. (cstr dir @ flat_name (name f), a_content (fabs f))) vs"

text \<open>Of several files with one flattened name the first is the one that stays.\<close>

lemma saved_first:
  "i < length vs \<Longrightarrow> \<forall>j < i. flat_name (name (vs ! j)) \<noteq> flat_name (name (vs ! i)) \<Longrightarrow>
   map_of (saved dir vs) (cstr dir @ flat_name (name (vs ! i))) = Some (a_content (fabs (vs ! i)))"
proof (induction vs arbitrary: i)
  case (Cons f vs)
  show ?case
  proof (cases i)
    case 0
    then show ?thesis by (simp add: saved_def)
  next
    case (Suc k)
    have "\<forall>j < k. flat_name (name (vs ! j)) \<noteq> flat_name (name (vs ! k))" using Cons.prems(2) Suc by force
    moreover have "flat_name (name f) \<noteq> flat_name (name (vs ! k))" using Cons.prems(2) Suc by force
    ultimately show ?thesis using Cons.IH [of k] Cons.prems(1) Suc by (simp add: saved_def)
  qed
qed simp

text \<open>A name as the server stores it.\<close>

definition stored_name :: "byte list \<Rightarrow> bool" where
  "stored_name s \<longleftrightarrow> length s \<le> FILE_NAME_MAX_SIZE \<and> 0 \<notin> set s"

lemma flat_name_field:
  assumes "stored_name (name f)"
  shows "convert_slashes_to_underscores (name f @ [0]) = flat_name (name f) @ [0]" and "0 \<notin> set (flat_name (name f))"
    and "length (flat_name (name f)) \<le> 256"
proof -
  have f: "length (name f) \<le> FILE_NAME_MAX_SIZE" "0 \<notin> set (name f)" using assms by (simp_all add: stored_name_def)
  from slashes_cstr [OF f, of "[]"] show "convert_slashes_to_underscores (name f @ [0]) = flat_name (name f) @ [0]"
    by (simp add: convert_slashes_to_underscores_def flat_name_def)
  show "0 \<notin> set (flat_name (name f))" using f(2) by (auto simp: flat_name_def)
  show "length (flat_name (name f)) \<le> 256" using f(1) by (simp add: flat_name_def FILE_NAME_MAX_SIZE_def)
qed

text \<open>The buffer of a field that is not empty is never NULL.\<close>

lemma pop_field_ok:
  assumes al: "ce_alloc E = mem_ok" and b: "db_inv b" "db_stack b = t @ field d" and d: "d \<noteq> []" "length d < 2 ^ 62"
    and dst: "buf_ok dst"
  obtains r n b' where "pop_field E b dst = (Inr (wlen d, d @ r, n), b')" "db_inv b'" "db_stack b' = t"
    "buf_ok (Some (d @ r), n)"
proof -
  let ?n = "wlen d"
  have n: "unat ?n = length d" using d(2) by (simp add: unat_wlen)
  have "db_stack b = (t @ d) @ size_bytes ?n" using b(2) by (simp add: field_def)
  then obtain b1 where b1: "pop_buf b 8 (Some (replicate 8 0)) = (Inr (size_bytes ?n), b1)" "db_inv b1" "db_stack b1 = t @ d"
    using pop_number [OF b(1)] by metis
  define x where "x = (if snd dst < ?n then (Some (resize_block (unat ?n) (block (fst dst))), ?n) else dst)"
  have "buf_ok x" using dst by (simp add: x_def buf_ok_def)
  have le: "length d \<le> unat (snd x)" using n by (auto simp: x_def word_less_nat_alt)
  have "0 < length d" using d(1) by simp
  with \<open>buf_ok x\<close> le have "0 < length (block (fst x))" unfolding buf_ok_def by linarith
  then obtain ys where ys: "fst x = Some ys" by (cases "fst x") simp_all
  obtain b2 where b2: "pop_buf b1 ?n (Some ys) = (Inr (d @ drop (length d) ys), b2)" "db_inv b2" "db_stack b2 = t"
    using pop_block [OF b1(2,3) d(2)] .
  have "pop_field E b dst = (Inr (?n, d @ drop (length d) ys, snd x), b2)"
    using b1(1) b2(1) ys al by (simp add: pop_field_def Let_def mem_ok flip: x_def)
  moreover have "buf_ok (Some (d @ drop (length d) ys), snd x)"
    using \<open>buf_ok x\<close> le ys by (simp add: buf_ok_def)
  ultimately show thesis using that b2(2,3) by blast
qed

lemma save_loop_saves:
  assumes al: "ce_alloc E = mem_ok" "ce_fopen E = (\<lambda>_. None)"
  shows "db_inv b \<Longrightarrow> db_stack b = t @ concat (map file_fields vs) \<Longrightarrow>
    (\<forall>f \<in> set vs. stored_name (name f) \<and> a_content (fabs f) \<noteq> [] \<and> length (a_content (fabs f)) < 2 ^ 62) \<Longrightarrow>
    buf_ok nm \<Longrightarrow> buf_ok buf \<Longrightarrow>
    \<exists>c'. save_loop (length vs) E dir b nm buf c = (Inr (), c') \<and> c_disk c' = c_disk c ++ map_of (saved dir vs)"
proof (induction vs arbitrary: b nm buf c rule: rev_induct)
  case Nil
  then show ?case by (simp add: saved_def)
next
  case (snoc f vs)
  let ?d = "a_content (fabs f)" and ?s = "flat_name (name f)"
  have f: "stored_name (name f)" "?d \<noteq> []" "length ?d < 2 ^ 62" using snoc.prems(3) by simp_all
  note S = flat_name_field [OF f(1)]
  have "file_fields f = field ?d @ field (?s @ [0])" using S(1) by (simp add: file_fields_def)
  then have st: "db_stack b = ((t @ concat (map file_fields vs)) @ field ?d) @ field (?s @ [0])"
    using snoc.prems(2) by simp
  have sl: "?s @ [0] \<noteq> []" "length (?s @ [0]) < 2 ^ 62" using S(3) by simp_all
  obtain r n b1 where p1: "pop_field E b nm = (Inr (wlen (?s @ [0]), (?s @ [0]) @ r, n), b1)" "db_inv b1"
      "db_stack b1 = (t @ concat (map file_fields vs)) @ field ?d" "buf_ok (Some ((?s @ [0]) @ r), n)"
    using pop_field_ok [OF al(1) snoc.prems(1) st sl snoc.prems(4)] .
  obtain r' n' b2 where p2: "pop_field E b1 buf = (Inr (wlen ?d, ?d @ r', n'), b2)" "db_inv b2"
      "db_stack b2 = t @ concat (map file_fields vs)" "buf_ok (Some (?d @ r'), n')"
    using pop_field_ok [OF al(1) p1(2,3) f(2,3) snoc.prems(5)] .
  let ?c = "c\<lparr>byte_read := byte_read c + ucast (wlen ?d)\<rparr>"
  let ?c' = "?c\<lparr>c_disk := (c_disk c)(cstr dir @ ?s \<mapsto> ?d)\<rparr>"
  have "cstr ((?s @ [0]) @ r) = ?s" using S(2) by (simp add: cstr_append_nul)
  then have w: "write_buf_to_file E ((?s @ [0]) @ r) (?d @ r') (wlen ?d) dir ?c = (Inr (), ?c')"
    using al f(3) by (simp add: write_buf_to_file_def Let_def mem_ok unat_wlen)
  have "\<forall>f \<in> set vs. stored_name (name f) \<and> a_content (fabs f) \<noteq> [] \<and> length (a_content (fabs f)) < 2 ^ 62"
    using snoc.prems(3) by simp
  from snoc.IH [OF p2(2,3) this p1(4) p2(4), of ?c'] obtain c' where
    "save_loop (length vs) E dir b2 (Some ((?s @ [0]) @ r), n) (Some (?d @ r'), n') ?c' = (Inr (), c')"
    "c_disk c' = c_disk ?c' ++ map_of (saved dir vs)" by blast
  then show ?case using p1(1) p2(1) w by (simp add: saved_def map_add_upd_left)
qed

lemma save_cached_files_ok:
  assumes al: "ce_alloc E = mem_ok" "ce_fopen E = (\<lambda>_. None)" and m: "db_inv (mdata m)"
      "db_stack (mdata m) = concat (map file_fields vs) @ size_bytes (of_nat (length vs))"
    and vs: "\<forall>f \<in> set vs. stored_name (name f) \<and> a_content (fabs f) \<noteq> [] \<and> length (a_content (fabs f)) < 2 ^ 62"
    and n: "length vs < 2 ^ 31"
  obtains c' where "save_cached_files E m dir c = (Inr (int (length vs)), c')"
    "c_disk c' = c_disk c ++ map_of (saved dir vs)"
proof -
  let ?n = "of_nat (length vs) :: size_t"
  obtain b where b: "pop_buf (mdata m) 8 (Some (replicate 8 0)) = (Inr (size_bytes ?n), b)" "db_inv b"
      "db_stack b = [] @ concat (map file_fields vs)"
    using pop_number [OF m] by auto
  have n64: "unat ?n = length vs" using n by (intro small_unat) simp
  have "ucast ?n = (of_nat (unat ?n) :: uint32)" by simp
  then have "ucast ?n = (of_nat (length vs) :: uint32)" unfolding n64 .
  moreover have "sint (of_nat (length vs) :: uint32) = int (length vs)"
    using n by (simp add: signed_of_nat signed_take_bit_int_eq_self)
  ultimately have ret: "sint (ucast ?n :: uint32) = int (length vs)" by simp
  have nul: "buf_ok (None, 0)" by (simp add: buf_ok_def)
  obtain c' where "save_loop (length vs) E dir b (None, 0) (None, 0) c = (Inr (), c')"
      "c_disk c' = c_disk c ++ map_of (saved dir vs)"
    using save_loop_saves [OF al b(2,3) vs nul nul] by blast
  with b(1) n64 ret show thesis by (intro that [of c']) (simp_all add: save_cached_files_def Let_def)
qed

lemma write_buf_to_file_sent: "write_buf_to_file E nm buf n dir c = (r, c') \<Longrightarrow> c_sent c' = c_sent c"
  by (auto simp: write_buf_to_file_def Let_def split: if_splits option.splits)

lemma save_loop_sent: "save_loop n E dir b nm buf c = (r, c') \<Longrightarrow> c_sent c' = c_sent c"
proof (induction n arbitrary: b nm buf c)
  case (Suc n)
  obtain x b1 where x: "pop_field E b nm = (x, b1)" by (cases "pop_field E b nm")
  show ?case
  proof (cases x)
    case (Inl e)
    with Suc.prems x show ?thesis by simp
  next
    case x': (Inr y)
    obtain l1 nm1 k1 where y: "y = (l1, nm1, k1)" by (cases y)
    obtain z b2 where z: "pop_field E b1 buf = (z, b2)" by (cases "pop_field E b1 buf")
    show ?thesis
    proof (cases z)
      case (Inl e)
      with Suc.prems x x' y z show ?thesis by simp
    next
      case (Inr u)
      obtain l2 d2 k2 where u: "u = (l2, d2, k2)" by (cases u)
      obtain v c1 where w: "write_buf_to_file E nm1 d2 l2 dir (c\<lparr>byte_read := byte_read c + ucast l2\<rparr>) = (v, c1)"
        by (cases "write_buf_to_file E nm1 d2 l2 dir (c\<lparr>byte_read := byte_read c + ucast l2\<rparr>)")
      from write_buf_to_file_sent [OF w] have "c_sent c1 = c_sent c" by simp
      with Suc x x' y z Inr u w show ?thesis by (cases v) auto
    qed
  qed
qed simp

lemma save_cached_files_sent: "save_cached_files E m dir c = (r, c') \<Longrightarrow> c_sent c' = c_sent c"
  by (auto simp: save_cached_files_def Let_def split: sum.splits prod.splits if_splits dest: save_loop_sent)

lemma keep_expelled_sent [simp]: "c_sent (snd (keep_expelled E m dir c)) = c_sent c"
  using save_cached_files_sent [of E m "the dir" c]
  by (auto simp: keep_expelled_def split: sum.splits prod.splits)

subsection \<open>Sending data\<close>

lemma data_message_ok:
  fixes ty :: msg_t
  assumes E: "ce_alloc E = mem_ok" and d: "take (unat sz) buf = d" "length d = unat sz" "length d < 2 ^ 61"
    and p: "take (unat len) p = s @ 0 # t" "length (s @ 0 # t) = unat len" "length (s @ 0 # t) \<le> 256" "0 \<notin> set s"
  shows "sendable (data_message E ty sz buf len p)" and "mtype (data_message E ty sz buf len p) = ty"
    and "write_request (data_message E ty sz buf len p) s d"
proof -
  have fd: "length (db_stack (mdata (BUILD_EMPTY_MESSAGE ty))) + length d + 8 < 2 ^ 62" using d(3) by simp
  note F = msg_push_field [OF E build_empty(2) d(1,2) fd]
  let ?m1 = "msg_push E 8 (size_bytes sz) (msg_push E sz buf (BUILD_EMPTY_MESSAGE ty))"
  have fp: "length (db_stack (mdata ?m1)) + length (s @ 0 # t) + 8 < 2 ^ 62" using F(3) d(3) p(3) by simp
  note G = msg_push_field [OF E F(2) p(1,2) fp]
  show "sendable (data_message E ty sz buf len p)" "mtype (data_message E ty sz buf len p) = ty"
    using F G by (simp_all add: data_message_def)
  have "carries_name (data_message E ty sz buf len p) ([] @ field d) (s @ 0 # t)"
    using F G p(3) by (simp add: carries_name_def data_message_def)
  with p(4) d(3) show "write_request (data_message E ty sz buf len p) s d" unfolding write_request_def by blast
qed

lemma arrives_write_request: "arrives m m' \<Longrightarrow> write_request m s d \<Longrightarrow> write_request m' s d"
  by (auto simp: arrives_def sendable_def write_request_def carries_name_def)

text \<open>What the caller sees when a write or an append is refused.\<close>

definition data_errno :: "errno \<Rightarrow> errno" where
  "data_errno err = (if err = EEXIST then EEXIST else if err = EPERM \<or> err = ENOENT then ENOENT else EPERM)"

text \<open>A request with data is done: the server evicts \<open>vs\<close> and runs the operation on the file; a
  caller that succeeds finds the evicted files in its directory.\<close>

definition data_served ::
    "(int \<Rightarrow> afile \<Rightarrow> errno + afile) \<Rightarrow> int \<Rightarrow> byte list \<Rightarrow> byte list \<Rightarrow> client \<Rightarrow> server
       \<Rightarrow> (errno + unit) \<times> client \<Rightarrow> served \<Rightarrow> bool" where
  "data_served op k s dir c sv res w \<longleftrightarrow>
     (\<exists>vs. (\<forall>f \<in> set vs. stored_file sv f) \<and> s \<notin> name ` set vs
        \<and> (case data_request op k s vs (sabs sv) of (r, m) \<Rightarrow>
             sabs (s_server w) = m
           \<and> fst res = (case r of Inr _ \<Rightarrow> Inr () | Inl x \<Rightarrow> Inl (data_errno x))
           \<and> c_disk (snd res) = (case r of Inr _ \<Rightarrow> c_disk c ++ map_of (saved dir vs) | Inl _ \<Rightarrow> c_disk c)))"

lemma stored_file_facts:
  assumes inv: "server_inv sv" and f: "stored_file sv f"
  shows "stored_name (name f)" and "a_content (fabs f) \<noteq> []" and "length (a_content (fabs f)) < 2 ^ 62"
proof -
  obtain g where g: "find (\<lambda>g. existing g \<and> name g = name f) (files sv) = Some g" "fabs g = fabs f"
    using f by (auto simp: stored_file_def store_abs_def)
  then obtain i where i: "i < length (files sv)" "g = files sv ! i" "name g = name f"
    by (auto simp: find_Some_iff)
  with store_inv_nth [OF server_inv_store [OF inv] i(1)] show "stored_name (name f)"
    by (simp add: file_inv_def stored_name_def)
  have "length (a_content (fabs g)) < 2 ^ 61" using content_capacity [OF inv i(1)] i(2) by simp
  then show "length (a_content (fabs f)) < 2 ^ 62" using g(2) by simp
  show "a_content (fabs f) \<noteq> []" using f by (simp add: stored_file_def)
qed

lemma data_answer:
  assumes al: "ce_alloc E = mem_ok" "ce_fopen E = (\<lambda>_. None)" and inv: "server_inv sv"
    and D: "data_done op ack k s sv (r, out, sv')" and A: "arrives (set_checksum out) m2"
    and ack: "ack = MESSAGE_WFILE_ACK \<or> ack = MESSAGE_AFILE_ACK"
  obtains vs q fs where "\<forall>f \<in> set vs. stored_file sv f" "s \<notin> name ` set vs"
    "data_request op k s vs (sabs sv) = (q, fs)" "sabs sv' = fs" "check_checksum m2"
    "mtype m2 = (ack OR miss_flag vs) OR data_flag q"
    "\<forall>c. \<exists>c'. keep_expelled E m2 (Some dir) c = (Inr (), c') \<and> c_disk c' = c_disk c ++ map_of (saved dir vs)"
proof -
  from D obtain vs where vs: "s \<notin> name ` set vs" "\<forall>f \<in> set vs. stored_file sv f" "length vs \<le> length (files sv)"
    and R: "case data_request op k s vs (sabs sv) of (r, m) \<Rightarrow> sabs sv' = m
        \<and> mtype out = (ack OR miss_flag vs) OR data_flag r \<and> db_stack (mdata out) = victims_reply vs"
    unfolding data_done_def by auto
  obtain q fs where q: "data_request op k s vs (sabs sv) = (q, fs)" by (cases "data_request op k s vs (sabs sv)")
  have m2: "mtype m2 = (ack OR miss_flag vs) OR data_flag q" "check_checksum m2" "db_inv (mdata m2)"
      "db_stack (mdata m2) = victims_reply vs"
    using A R q by (simp_all add: arrives_def sendable_def)
  have miss: "HASFLAG (GETFLAGS (mtype m2)) MESSAGE_FILE_CHACEMISS \<longleftrightarrow> vs \<noteq> []"
    using ack by (cases q) (auto simp: m2(1) miss_flag_def msg_defs)
  have "length (files sv) < 2 ^ 31" using inv by (simp add: server_inv_def counters_inv_def)
  then have n: "length vs < 2 ^ 31" using vs(3) by linarith
  have ok: "\<forall>f \<in> set vs. stored_name (name f) \<and> a_content (fabs f) \<noteq> [] \<and> length (a_content (fabs f)) < 2 ^ 62"
    using vs(2) stored_file_facts [OF inv] by blast
  have "\<exists>c'. keep_expelled E m2 (Some dir) c = (Inr (), c') \<and> c_disk c' = c_disk c ++ map_of (saved dir vs)" for c
  proof (cases "vs = []")
    case True
    with miss show ?thesis by (simp add: keep_expelled_def saved_def)
  next
    case False
    then have "db_stack (mdata m2) = concat (map file_fields vs) @ size_bytes (of_nat (length vs))"
      using m2(4) by (simp add: victims_reply_def)
    from save_cached_files_ok [OF al m2(3) this ok n, of dir c] obtain c' where
      "save_cached_files E m2 dir c = (Inr (int (length vs)), c')" "c_disk c' = c_disk c ++ map_of (saved dir vs)" .
    with miss False show ?thesis by (simp add: keep_expelled_def)
  qed
  with that vs R q m2 show thesis by auto
qed

text \<open>Both calls send their message, and \<open>rest\<close> is what they do with the answer.\<close>

lemma data_call_served:
  assumes c: "client_ready E c" "ce_fopen E = (\<lambda>_. None)" and srv: "serving e k io sv"
    and con: "connected call c e thread io k sv w"
    and call: "call c = (case send_receive E m c0 of (Inl e, c) \<Rightarrow> (Inl e, c) | (Inr msg, c) \<Rightarrow> rest msg c)"
    and sent: "\<And>msg c. c_sent (snd (rest msg c)) = c_sent c"
    and m: "sendable m" "ISCLIENT (mtype m)" "\<not> CHECK_CLIENT_MSG_TYPE (mtype m) MESSAGE_CLOSE_CONN"
    and c0: "client_ready E c0" "c_sent c0 = c_sent c" "c_in c0 = c_in c" "c_disk c0 = c_disk c"
    and D: "\<And>m' ci res. arrives m m' \<Longrightarrow> get_client_lastop (shared sv) k = Inr ci \<Longrightarrow>
        dispatch e thread k m' create_message ci sv = Some res \<Longrightarrow> data_done op ack k s sv res"
    and ack: "ack = MESSAGE_WFILE_ACK \<or> ack = MESSAGE_AFILE_ACK"
    and rest: "\<And>msg c vs q fs. check_checksum msg \<Longrightarrow> mtype msg = (ack OR miss_flag vs) OR data_flag q \<Longrightarrow>
        data_request op k s vs (sabs sv) = (q, fs) \<Longrightarrow>
        rest msg c = (case q of Inr _ \<Rightarrow> keep_expelled E msg (Some dir) c | Inl x \<Rightarrow> (Inl (data_errno x), c))"
  shows "data_served op k s dir c sv (call c) w"
proof -
  have al: "ce_alloc E = mem_ok" using c(1) by (simp add: client_ready_def)
  have inv: "server_inv sv" by (rule serving_facts [OF srv])
  have same: "c_sent (snd (call c)) = c_sent (snd (send_receive E m c0))"
    unfolding call by (auto simp: sent split: sum.splits prod.splits)
  obtain m' ci r out sv' where W: "arrives m m'" "dispatch e thread k m' create_message ci sv = Some (r, out, sv')"
      "s_server w = sv'" "s_conn w = k"
      "db_inv (mdata out) \<longrightarrow> s_ret w = r \<and> (\<exists>m2 c2. send_receive E m c0 = (Inr m2, c2) \<and> arrives (set_checksum out) m2
         \<and> c_disk c2 = c_disk c0 \<and> byte_read c2 = byte_read c0)"
      "get_client_lastop (shared sv) k = Inr ci"
    using exchanged [OF c(1) m same c0(1-3) srv con] .
  from D [OF W(1,6,2)] have D': "data_done op ack k s sv (r, out, sv')" .
  then have "db_inv (mdata out)" by (simp add: data_done_def)
  with W(5) c0(4) obtain m2 c2 where A: "send_receive E m c0 = (Inr m2, c2)" "arrives (set_checksum out) m2"
      "c_disk c2 = c_disk c" by auto
  obtain vs q fs where V: "\<forall>f \<in> set vs. stored_file sv f" "s \<notin> name ` set vs"
      "data_request op k s vs (sabs sv) = (q, fs)" "sabs sv' = fs" "check_checksum m2"
      "mtype m2 = (ack OR miss_flag vs) OR data_flag q"
      "\<forall>c. \<exists>c'. keep_expelled E m2 (Some dir) c = (Inr (), c') \<and> c_disk c' = c_disk c ++ map_of (saved dir vs)"
    using data_answer [OF al c(2) inv D' A(2) ack, of dir] by blast
  obtain c' where c': "keep_expelled E m2 (Some dir) c2 = (Inr (), c')" "c_disk c' = c_disk c ++ map_of (saved dir vs)"
    using V(7) A(3) by metis
  have "call c = (case q of Inr _ \<Rightarrow> (Inr (), c') | Inl x \<Rightarrow> (Inl (data_errno x), c2))"
    using call A(1) rest [OF V(5,6,3)] c'(1) by (cases q) simp_all
  with V(1-4) W(3) A(3) c'(2) show ?thesis
    unfolding data_served_def by (intro exI [of _ vs]) (cases q; simp)
qed

definition append_rest :: "client_env \<Rightarrow> byte list \<Rightarrow> net_msg \<Rightarrow> client \<Rightarrow> (errno + unit) \<times> client" where
  "append_rest E dir = (\<lambda>msg c.
     (let has = HASFLAG (GETFLAGS (mtype msg)) in
      if \<not> is_server_message msg MESSAGE_AFILE_ACK then (Inl EBADMSG, c)
      else if has MESSAGE_OP_SUCC then keep_expelled E msg (Some dir) c
      else if has MESSAGE_FILE_NLOCK then (Inl EPERM, c)
      else if has MESSAGE_FILE_NEXISTS \<or> has MESSAGE_FILE_NOPEN then (Inl ENOENT, c)
      else (Inl EBADMSG, c)))"

lemma appendToFile_call:
  assumes "client_ready E c" and p: "path p s" and dir: "FILENAME_VALID dir = Inr x"
  shows "appendToFile E p buf sz (Some dir) c =
      (case send_receive E (data_message E MESSAGE_APPEND_FILE sz buf (of_nat (length s) + 1 + 1) p)
             ((clear_byte_read_write c)\<lparr>byte_write := 0 + ucast sz\<rparr>) of
         (Inl e, c) \<Rightarrow> (Inl e, c) | (Inr msg, c) \<Rightarrow> append_rest E dir msg c)"
  unfolding append_rest_def
  using assms(1) by (simp add: appendToFile_def dir_valid_def dir path_valid(1) [OF p] client_ready_def)

lemma append_rest_sent [simp]: "c_sent (snd (append_rest E dir msg c)) = c_sent c"
  by (simp add: append_rest_def Let_def)

lemma appendToFile_sent:
  assumes c: "client_ready E c" "path p s" "FILENAME_VALID dir = Inr x"
    and m: "sendable (data_message E MESSAGE_APPEND_FILE sz buf (of_nat (length s) + 1 + 1) p)"
  shows "c_sent (snd (appendToFile E p buf sz (Some dir) c))
    = c_sent c @ wire (data_message E MESSAGE_APPEND_FILE sz buf (of_nat (length s) + 1 + 1) p)"
proof -
  have "client_ready E ((clear_byte_read_write c)\<lparr>byte_write := 0 + ucast sz\<rparr>)"
    using c(1) by (simp add: client_ready_def clear_byte_read_write_def)
  from send_receive_sent [OF this m] show ?thesis
    unfolding appendToFile_call [OF c]
    by (auto simp: clear_byte_read_write_def split: sum.splits prod.splits)
qed

lemma appendToFile_served:
  assumes c: "client_ready E c" "ce_fopen E = (\<lambda>_. None)" and p: "path p s" and dir: "FILENAME_VALID dir = Inr x"
    and d: "take (unat sz) buf = d" "length d = unat sz" "d \<noteq> []" and small: "sz \<le> ro_max_storage (shared sv)"
    and srv: "serving e k io sv" and con: "connected (appendToFile E p buf sz (Some dir)) c e thread io k sv w"
  shows "data_served (a_append_op d) k s dir c sv (appendToFile E p buf sz (Some dir) c) w"
proof -
  have al: "ce_alloc E = mem_ok" using c(1) by (simp add: client_ready_def)
  obtain cj where F: "0 < k" "k \<noteq> ro_acceptor_fd (shared sv)" "get_client_lastop (shared sv) k = Inr cj"
      "server_inv sv" "good_env e" using serving_facts [OF srv] .
  let ?len = "of_nat (length s) + 1 + 1 :: size_t"
  obtain b where b: "take (length s + 2) p = s @ [0, b]" using path_strlen [OF p] by metis
  have s: "length s \<le> 254" "0 \<notin> set s" using p by (simp_all add: path_def)
  have small': "length d \<le> unat (ro_max_storage (shared sv))" using small d(2) by (simp add: word_le_nat_alt)
  then have dl: "length d < 2 ^ 61" using F(4) by (simp add: server_inv_def counters_inv_def)
  have tk: "take (unat ?len) p = s @ 0 # [b]" "length (s @ 0 # [b]) = unat ?len" "length (s @ 0 # [b]) \<le> 256"
    using b path_valid(2) [OF p] s(1) by simp_all
  note M = data_message_ok [OF al d(1,2) dl tk s(2), of MESSAGE_APPEND_FILE]
  show ?thesis
  proof (rule data_call_served [OF c srv con, where ack = MESSAGE_AFILE_ACK])
    show "appendToFile E p buf sz (Some dir) c =
      (case send_receive E (data_message E MESSAGE_APPEND_FILE sz buf ?len p)
             ((clear_byte_read_write c)\<lparr>byte_write := 0 + ucast sz\<rparr>) of
         (Inl e, c) \<Rightarrow> (Inl e, c) | (Inr msg, c) \<Rightarrow> append_rest E dir msg c)"
      by (rule appendToFile_call [OF c(1) p dir])
  next
    fix m' ci res
    assume A: "arrives (data_message E MESSAGE_APPEND_FILE sz buf ?len p) m'"
      and run: "dispatch e thread k m' create_message ci sv = Some res"
    have "mtype m' = MESSAGE_APPEND_FILE" using A M(2) by (simp add: arrives_def)
    then have "do_append_file e thread k m' create_message ci sv = Some res"
      using run by (simp add: dispatch_def msg_defs)
    with do_append_file_handles [OF F(5,4) data_ready_request [OF F(5) arrives_write_request [OF A M(3)] small'] d(3)
        fresh_create F(1)] show "data_done (a_append_op d) MESSAGE_AFILE_ACK k s sv res" .
  next
    fix msg :: net_msg and c vs q fs
    assume A: "check_checksum msg" "mtype msg = (MESSAGE_AFILE_ACK OR miss_flag vs) OR data_flag q"
      "data_request (a_append_op d) k s vs (sabs sv) = (q, fs)"
    then have "q \<noteq> Inl EEXIST"
      by (auto simp: data_request_def request_def keep_def a_append_op_def split: option.splits if_splits)
    with A(1,2) show "append_rest E dir msg c
        = (case q of Inr _ \<Rightarrow> keep_expelled E msg (Some dir) c | Inl x \<Rightarrow> (Inl (data_errno x), c))"
      by (cases q; cases "vs = []")
        (auto simp: append_rest_def is_server_message_def data_errno_def miss_flag_def msg_defs)
  qed (use c(1) M in \<open>simp_all add: msg_defs Let_def client_ready_def clear_byte_read_write_def\<close>)
qed

lemma writeFile_served:
  assumes c: "client_ready E c" "ce_fopen E = (\<lambda>_. None)" and p: "path p s" and dir: "FILENAME_VALID dir = Inr x"
    and d: "c_disk c s = Some d" "d \<noteq> []" "length d \<le> unat (ro_max_storage (shared sv))"
    and last: "\<And>ci. get_client_lastop (shared sv) k = Inr ci \<Longrightarrow> lastop_of ci sv = s"
    and srv: "serving e k io sv" and con: "connected (writeFile E p (Some dir)) c e thread io k sv w"
  shows "data_served (a_write_op d) k s dir c sv (writeFile E p (Some dir) c) w"
proof -
  have al: "ce_alloc E = mem_ok" using c(1) by (simp add: client_ready_def)
  obtain cj where F: "0 < k" "k \<noteq> ro_acceptor_fd (shared sv)" "get_client_lastop (shared sv) k = Inr cj"
      "server_inv sv" "good_env e" using serving_facts [OF srv] .
  let ?len = "of_nat (length s) + 1 :: size_t"
  obtain b where b: "take (length s + 2) p = s @ [0, b]" and str: "cstr p = s" using path_strlen [OF p] by metis
  have s: "length s \<le> 254" "0 \<notin> set s" using p by (simp_all add: path_def)
  have dl: "length d < 2 ^ 61" using d(3) F(4) by (simp add: server_inv_def counters_inv_def)
  then have n: "unat (wlen d) = length d" by (simp add: unat_wlen)
  have td: "take (unat (wlen d)) d = d" "length d = unat (wlen d)" using n by simp_all
  have len: "unat ?len = Suc (length s)" using s(1) small_unat [of "Suc (length s)"] by (simp add: add.commute)
  have "take (Suc (length s)) p = s @ [0]" using arg_cong [OF b, of "take (Suc (length s))"] by simp
  then have tk: "take (unat ?len) p = s @ 0 # []" "length (s @ 0 # []) = unat ?len" "length (s @ 0 # []) \<le> 256"
    using len s(1) by simp_all
  note M = data_message_ok [OF al td dl tk s(2), of MESSAGE_WRITE_FILE]
  show ?thesis
  proof (rule data_call_served [OF c srv con, where ack = MESSAGE_WFILE_ACK])
    show "writeFile E p (Some dir) c =
      (case send_receive E (data_message E MESSAGE_WRITE_FILE (wlen d) d ?len p)
             ((clear_byte_read_write c)\<lparr>byte_write := 0 + ucast (wlen d)\<rparr>) of
         (Inl e, c) \<Rightarrow> (Inl e, c)
       | (Inr msg, c) \<Rightarrow>
           (\<lambda>msg c. let has = HASFLAG (GETFLAGS (mtype msg)) in
            if \<not> is_server_message msg MESSAGE_WFILE_ACK then (Inl EBADMSG, c)
            else if has MESSAGE_OP_SUCC then keep_expelled E msg (Some dir) c
            else if has MESSAGE_FILE_NLOCK then (Inl EPERM, c)
            else if has MESSAGE_FILE_EXISTS then (Inl EEXIST, c)
            else if has MESSAGE_FILE_NEXISTS \<or> has MESSAGE_FILE_NOPEN then (Inl ENOENT, c)
            else (Inl EBADMSG, c)) msg c)"
      using c d(1) al str
      by (simp add: writeFile_def dir_valid_def dir path_valid(1) [OF p] client_ready_def mem_ok Let_def)
  next
    fix m' ci res
    assume A: "arrives (data_message E MESSAGE_WRITE_FILE (wlen d) d ?len p) m'"
      and ci: "get_client_lastop (shared sv) k = Inr ci" and run: "dispatch e thread k m' create_message ci sv = Some res"
    have "mtype m' = MESSAGE_WRITE_FILE" using A M(2) by (simp add: arrives_def)
    then have w: "do_write_file e thread k m' create_message ci sv = Some res"
      using run by (simp add: dispatch_def msg_defs)
    have "strncmp_eq FILE_NAME_MAX_SIZE buf (lastop_of ci sv)" if "cstr buf = s" for buf
      using strncmp_eq_cstr [OF that] last [OF ci] by simp
    with do_write_file_handles [OF F(5,4) data_ready_request [OF F(5) arrives_write_request [OF A M(3)] d(3)] d(2)
        fresh_create F(1) _ w] show "data_done (a_write_op d) MESSAGE_WFILE_ACK k s sv res" by blast
  next
    fix msg :: net_msg and c vs q fs
    assume "check_checksum msg" "mtype msg = (MESSAGE_WFILE_ACK OR miss_flag vs) OR data_flag q"
    then show "(let has = HASFLAG (GETFLAGS (mtype msg)) in
            if \<not> is_server_message msg MESSAGE_WFILE_ACK then (Inl EBADMSG, c)
            else if has MESSAGE_OP_SUCC then keep_expelled E msg (Some dir) c
            else if has MESSAGE_FILE_NLOCK then (Inl EPERM, c)
            else if has MESSAGE_FILE_EXISTS then (Inl EEXIST, c)
            else if has MESSAGE_FILE_NEXISTS \<or> has MESSAGE_FILE_NOPEN then (Inl ENOENT, c)
            else (Inl EBADMSG, c))
        = (case q of Inr _ \<Rightarrow> keep_expelled E msg (Some dir) c | Inl x \<Rightarrow> (Inl (data_errno x), c))"
      by (cases q; cases "vs = []")
        (auto simp: is_server_message_def data_errno_def miss_flag_def msg_defs)
  qed (use c(1) M in \<open>simp_all add: msg_defs Let_def client_ready_def clear_byte_read_write_def\<close>)
qed

end
