(* ===== verification/Examples.thy ===== *)
theory Examples
  imports Pool Client_Data
begin

text \<open>
  A small concrete server, environment and requests, at which the properties of the root
  theory are instantiated: four slots, a capacity of ten bytes, and two stored files,
  \<open>a\<close> (two bytes, open and locked by connection 5) and \<open>b\<close> (three bytes, closed).
\<close>

definition ex_env :: env where
  "ex_env = \<lparr>e_alloc = mem_ok, e_clock = (\<lambda>t. int t + 100), e_name = replicate 256 0, e_size = 0, e_errno = ENOENT\<rparr>"

definition ex_file_a :: file_t where
  "ex_file_a = \<lparr>owner = 5, name = [97], data_size = 2, data = Some [1, 2], open_size = 2, open_data = Some [1, 2],
                new_size = 0, fifo_creation_time = 10, lfu_frequency = 3, lru_clock = 1\<rparr>"

definition ex_file_b :: file_t where
  "ex_file_b = \<lparr>owner = 0, name = [98], data_size = 3, data = Some [7, 8, 9], open_size = -1, open_data = None,
                new_size = 0, fifo_creation_time = 20, lfu_frequency = 2, lru_clock = 0\<rparr>"

definition ex_shared :: "int \<Rightarrow> uint64 \<Rightarrow> shared_state" where
  "ex_shared algo cap =
     \<lparr>ro_cache_miss_algorithm = algo, ro_max_storage = cap, ro_max_files = 4, ro_max_conns = 2, ro_acceptor_fd = 3,
      state_mux = False, clients = [\<lparr>fd = 5, lastop = [97]\<rparr>, \<lparr>fd = -1, lastop = []\<rparr>],
      current_storage = 5, current_files = 2, current_conns = 1, max_reached_storage = 5, max_reached_files = 2,
      max_reached_conns = 1, cache_miss_execs = 0, lru_clock_pos = 0\<rparr>"

definition ex_server :: "int \<Rightarrow> uint64 \<Rightarrow> server" where
  "ex_server algo cap =
     \<lparr>files = [ex_file_a, ex_file_b, init_file_struct, init_file_struct], shared = ex_shared algo cap,
      slog = [], ticks = 0\<rparr>"

text \<open>A message that carries the given fields, with the given flags.\<close>

definition ex_msg :: "msg_t \<Rightarrow> byte list \<Rightarrow> net_msg" where
  "ex_msg ty bs = \<lparr>mtype = ty, mdata = \<lparr>buffer = Some bs, buf_size = wlen bs, buf_cap = wlen bs\<rparr>, checksum = 0\<rparr>"

lemma ex_env_good [simp]: "good_env ex_env"
  by (simp add: good_env_def ex_env_def FILE_NAME_MAX_SIZE_def)

lemma ex_msg_simps [simp]: "mtype (ex_msg ty bs) = ty"
  by (simp add: ex_msg_def)

lemma ex_msg_data: "length bs < 2 ^ 62 \<Longrightarrow> db_inv (mdata (ex_msg ty bs)) \<and> db_stack (mdata (ex_msg ty bs)) = bs"
  by (simp add: ex_msg_def db_inv_def db_stack_def contents_def unat_wlen)

lemma ex_requests: "0 \<notin> set s \<Longrightarrow> length s < 256 \<Longrightarrow> requests (ex_msg ty (field (s @ [0]))) s"
  using ex_msg_data [of "field (s @ [0])" ty]
  by (auto simp: requests_def carries_name_def intro!: exI [of _ "[]"])

lemma ex_write_request:
  "0 \<notin> set s \<Longrightarrow> length s < 256 \<Longrightarrow> length d < 2 ^ 60 \<Longrightarrow>
   write_request (ex_msg ty (field d @ field (s @ [0]))) s d"
  using ex_msg_data [of "field d @ field (s @ [0])" ty]
  by (auto simp: write_request_def carries_name_def intro!: exI [of _ "[]"])

lemma ex_files_inv: "file_inv ex_file_a" "file_inv ex_file_b"
  by (simp_all add: file_inv_def ex_file_a_def ex_file_b_def is_open_file_def FILE_NAME_MAX_SIZE_def)

lemma ex_unique: "unique_names [ex_file_a, ex_file_b, init_file_struct, init_file_struct]"
  by (simp add: unique_names_def ex_file_a_def ex_file_b_def init_file_struct_def nth_Cons' less_Suc_eq
      numeral_2_eq_2 numeral_3_eq_3)

lemma ex_server_inv:
  assumes "5 \<le> cap" and "unat cap < 2 ^ 61"
  shows "server_inv (ex_server algo cap)"
proof -
  have "store_inv (files (ex_server algo cap))"
    using ex_files_inv ex_unique file_inv_init by (simp add: store_inv_def ex_server_def)
  moreover have "used (files (ex_server algo cap)) = 5" "live (files (ex_server algo cap)) = 2"
    by (simp_all add: used_def live_def ex_server_def fsize_def ex_file_a_def ex_file_b_def init_file_struct_def)
  moreover have "5 \<le> unat cap" using assms(1) by (simp add: word_le_nat_alt)
  ultimately show ?thesis
    using assms
    by (simp add: server_inv_def counters_inv_def conns_inv_def conns_def fds_def ex_server_def ex_shared_def)
qed

lemma ex_sabs:
  "sabs (ex_server algo cap) [97] = Some \<lparr>a_owner = 5, a_open = True, a_content = [1, 2]\<rparr>"
  "sabs (ex_server algo cap) [98] = Some \<lparr>a_owner = 0, a_open = False, a_content = [7, 8, 9]\<rparr>"
  "sabs (ex_server algo cap) [99] = None"
  by (simp_all add: store_abs_def ex_server_def ex_file_a_def ex_file_b_def init_file_struct_def fabs_def is_open_file_def)

text \<open>The same server without \<open>b\<close>: nothing can be evicted for an append to \<open>a\<close>.\<close>

definition ex_single :: "uint64 \<Rightarrow> server" where
  "ex_single cap =
     \<lparr>files = [ex_file_a, init_file_struct],
      shared = (ex_shared 0 cap)\<lparr>ro_max_files := 2, current_storage := 2, current_files := 1\<rparr>, slog = [], ticks = 0\<rparr>"

lemma ex_single_inv:
  assumes "5 \<le> cap" and "unat cap < 2 ^ 61"
  shows "server_inv (ex_single cap)"
proof -
  have "unique_names [ex_file_a, init_file_struct]"
    by (simp add: unique_names_def ex_file_a_def init_file_struct_def nth_Cons' less_Suc_eq)
  then have "store_inv (files (ex_single cap))"
    using ex_files_inv file_inv_init by (simp add: store_inv_def ex_single_def)
  moreover have "used (files (ex_single cap)) = 2" "live (files (ex_single cap)) = 1"
    by (simp_all add: used_def live_def ex_single_def fsize_def ex_file_a_def init_file_struct_def)
  moreover have "5 \<le> unat cap" using assms(1) by (simp add: word_le_nat_alt)
  ultimately show ?thesis
    using assms
    by (simp add: server_inv_def counters_inv_def conns_inv_def conns_def fds_def ex_single_def ex_shared_def)
qed

lemma ex_can_evict:
  assumes "length d \<le> 3"
  shows "can_evict ex_env [97] d (ex_server 1 5)"
  using assms
  by (auto simp: can_evict_def kept_def ready_def ex_server_def ex_shared_def candidate_def cstr_def fsize_def
      ex_file_a_def ex_file_b_def init_file_struct_def ALGO_LRU_def ALGO_LFU_def intro!: exI [of _ 1])

text \<open>The open flags: 2 is \<open>O_CREATE\<close> and 4 is \<open>O_LOCK\<close> in these requests.\<close>

lemma ex_flags:
  "HASFLAG (GETFLAGS 6) MESSAGE_OPEN_OCREATE" "HASFLAG (GETFLAGS 6) MESSAGE_OPEN_OLOCK"
  "\<not> HASFLAG (GETFLAGS 4) MESSAGE_OPEN_OCREATE" "HASFLAG (GETFLAGS 4) MESSAGE_OPEN_OLOCK"
  by (simp_all add: msg_check_defs msg_field_defs msg_flag_defs)

lemma ex_free: "\<not> no_slot (files (ex_server algo cap))"
  by (simp add: no_slot_def ex_server_def)

lemma ex_clients: "length (clients (shared (ex_server algo cap))) = 2"
  by (simp add: ex_server_def ex_shared_def)

lemma ex_bex:
  "(\<exists>f \<in> set (files (ex_server algo cap)). P f) \<longleftrightarrow> P ex_file_a \<or> P ex_file_b \<or> P init_file_struct"
  "(\<forall>f \<in> set (files (ex_server algo cap)). P f) \<longleftrightarrow> P ex_file_a \<and> P ex_file_b \<and> P init_file_struct"
  by (auto simp: ex_server_def)

lemma ex_candidate:
  "candidate [97] ex_file_a = False" "candidate [97] ex_file_b = True"
  "candidate [98] ex_file_a = True" "candidate [98] ex_file_b = False"
  "candidate [99] ex_file_a = True" "candidate [99] ex_file_b = True" "candidate nd init_file_struct = False"
  by (simp_all add: candidate_def cstr_def fsize_def ex_file_a_def ex_file_b_def init_file_struct_def)

lemma ex_keys:
  "fifo_creation_time ex_file_a = 10" "fifo_creation_time ex_file_b = 20" "e_clock ex_env (ticks (ex_server algo cap)) = 100"
  "sint (lfu_frequency ex_file_a) = 3" "sint (lfu_frequency ex_file_b) = 2"
  "lru_clock ex_file_a = 1" "lru_clock ex_file_b = 0" "name ex_file_a = [97]" "name ex_file_b = [98]"
  by (simp_all add: ex_file_a_def ex_file_b_def ex_env_def ex_server_def)

lemma ex_clock: "lru_clock_pos (shared (ex_server algo cap)) = 0"
  by (simp add: ex_server_def ex_shared_def)

lemmas ex_simps = ex_bex ex_candidate ex_keys

text \<open>A request as it arrives on the socket, in one piece, and an \<open>accept\<close> that returns 8.\<close>

definition ex_io :: "msg_t \<Rightarrow> byte list \<Rightarrow> worker_io" where
  "ex_io ty bs = \<lparr>io_accept = Inr 8, io_in = [Data (wire (set_checksum (ex_msg ty bs)))], io_out = []\<rparr>"

text \<open>The server with a second client, 7.\<close>

definition ex_two :: "int \<Rightarrow> uint64 \<Rightarrow> server" where
  "ex_two algo cap = (ex_server algo cap)\<lparr>shared := (ex_shared algo cap)
     \<lparr>clients := [\<lparr>fd = 5, lastop = [97]\<rparr>, \<lparr>fd = 7, lastop = []\<rparr>], current_conns := 2, max_reached_conns := 2\<rparr>\<rparr>"

lemma ex_conns:
  "conns (shared (ex_server algo cap)) = {5}" "ro_acceptor_fd (shared (ex_server algo cap)) = 3"
  "conns (shared (ex_two algo cap)) = {5, 7}" "ro_acceptor_fd (shared (ex_two algo cap)) = 3"
  "\<not> state_mux (shared (ex_server algo cap))"
  by (auto simp: conns_def fds_def ex_server_def ex_two_def ex_shared_def)

lemma ex_owned:
  "sabs (ex_server algo cap) s = Some a \<Longrightarrow>
   (a_owner a = OWNER_NULL \<or> a_owner a = 5) \<and> (\<not> a_open a \<longrightarrow> a_owner a = OWNER_NULL)"
  by (auto simp: store_abs_def ex_server_def ex_file_a_def ex_file_b_def init_file_struct_def fabs_def is_open_file_def
      split: if_splits)

lemma ex_sabs_two: "sabs (ex_two algo cap) = sabs (ex_server algo cap)"
  by (simp add: ex_two_def)

lemma ex_service_inv:
  assumes "5 \<le> cap" and "unat cap < 2 ^ 61"
  shows "service_inv (ex_server algo cap)" and "service_inv (ex_two algo cap)"
proof -
  have inv: "server_inv (ex_server algo cap)" by (rule ex_server_inv [OF assms])
  then have "server_inv (ex_two algo cap)"
    by (simp add: ex_two_def server_inv_def counters_inv_def conns_inv_def conns_def ex_server_def ex_shared_def fds_def)
  with inv show "service_inv (ex_server algo cap)" "service_inv (ex_two algo cap)"
    using ex_owned [of algo cap] by (auto simp: service_inv_def ex_conns fs_inv_def ex_sabs_two)
qed

lemma ex_accept_ok: "accept_ok (ex_io ty bs) (ex_server algo cap)" "accept_ok (ex_io ty bs) (ex_two algo cap)"
  by (simp_all add: accept_ok_def ex_io_def ex_conns)

lemma map_option_SomeE: "map_option f x = Some y \<Longrightarrow> (\<And>w. x = Some w \<Longrightarrow> f w = y \<Longrightarrow> thesis) \<Longrightarrow> thesis"
  by (cases x) auto

subsection \<open>Two worker threads\<close>

text \<open>A main thread with two workers over the server above, and the steps around a call that fails
  because the peer has gone.\<close>

definition ex_thread :: "int \<Rightarrow> int \<Rightarrow> pc \<Rightarrow> nat \<Rightarrow> int \<Rightarrow> thread" where
  "ex_thread w c p n i = \<lparr>do_work = w, w_exit = False, in_conn = c, add_conn = -1, thread_id = i, pc = p, did = n\<rparr>"

definition ex_sys :: "thread \<Rightarrow> thread \<Rightarrow> int list \<Rightarrow> int \<Rightarrow> system" where
  "ex_sys t u ps n = \<lparr>main = \<lparr>poll_array = ps, threads_data = [t, u], working_threads = n, m_exit = False,
     m_sighup = False, closed = {}\<rparr>, srv = ex_server 0 10\<rparr>"

lemma ex_round:
  assumes "(case server_round 2 3 SIGUSR1 (\<lambda>i. i = k) (shared (ex_server 0 10)) (main (ex_sys t u ps n)) of
     Some (r, ms) \<Rightarrow> r = 0 \<and> ms = main (ex_sys t' u' ps' n') | None \<Rightarrow> False)" and "k < 4" and "ps ! k \<noteq> -1"
  shows "sys_step 2 (Round SIGUSR1) (ex_sys t u ps n) (ex_sys t' u' ps' n')"
proof -
  have "sys_step 2 (Round SIGUSR1) (ex_sys t u ps n) ((ex_sys t u ps n)\<lparr>main := main (ex_sys t' u' ps' n')\<rparr>)"
    using assms by (intro sys_step.round [where rdy = "\<lambda>i. i = k"]) (auto simp: ex_sys_def ex_conns split: option.splits)
  then show ?thesis by (simp add: ex_sys_def)
qed

lemmas ex_round_simps = server_round_def poll_call_def after_poll_signal_def thread_has_finished_def after_poll_acceptor_def
  after_poll_connection_def thread_assign_work_def give_back_def ex_sys_def ex_thread_def Let_def

lemma ex_take:
  "sys_step 2 (Round SIGUSR1) (ex_sys (ex_thread 0 c Waiting d 0) (ex_thread 0 (-1) Waiting 0 1) [5, p, 3, 4] n)
     (ex_sys (ex_thread 1 5 Waiting d 0) (ex_thread 0 (-1) Waiting 0 1) [-1, p, 3, 4] (n + 1))"
  if "n < 2"
  by (rule ex_round [where k = 0]) (use that in \<open>simp_all add: ex_round_simps ex_conns numeral_2_eq_2\<close>)

lemma ex_take_second:
  "sys_step 2 (Round SIGUSR1) (ex_sys (ex_thread 1 5 (Calling 5) 1 0) (ex_thread 0 (-1) Waiting 0 1) [-1, 5, 3, 4] 0)
     (ex_sys (ex_thread 1 5 (Calling 5) 1 0) (ex_thread 1 5 Waiting 0 1) [-1, -1, 3, 4] 1)"
  by (rule ex_round [where k = 1]) (simp_all add: ex_round_simps ex_conns numeral_2_eq_2)

lemma ex_wake:
  "sys_step 2 (Wake 0) (ex_sys (ex_thread 1 5 Waiting d 0) u ps n) (ex_sys (ex_thread 1 5 (Calling 5) d 0) u ps n)"
  "sys_step 2 (Wake 1) (ex_sys t (ex_thread 1 5 Waiting d 1) ps n) (ex_sys t (ex_thread 1 5 (Calling 5) d 1) ps n)"
  using sys_step.wake [of 0 "ex_sys (ex_thread 1 5 Waiting d 0) u ps n" "ex_thread 1 5 (Calling 5) d 0" 2]
    sys_step.wake [of 1 "ex_sys t (ex_thread 1 5 Waiting d 1) ps n" "ex_thread 1 5 (Calling 5) d 1" 2]
  by (simp_all add: ex_sys_def ex_thread_def wake_def set_thread_def)

lemma ex_fails: "sys_step 2 (Return 0 (-1)) (ex_sys (ex_thread 1 5 (Calling 5) 0 0) u ps n) (ex_sys (ex_thread 2 5 (Finishing 5 (-1)) 1 0) u ps n)"
proof -
  let ?io = "(ex_io 0 [])\<lparr>io_in := []\<rparr>" and ?w = "\<lparr>s_ret = -1, s_conn = 5, s_newconn = -1, s_sent = [], s_server = ex_server 0 10\<rparr>"
  let ?s = "ex_sys (ex_thread 1 5 (Calling 5) 0 0) u ps n"
  have "worker_do ex_env 0 ?io 5 (-1) (ex_server 0 10) = Some ?w"
    by (simp add: worker_do_def ex_conns read_msg_def read_msghead_def readn_def header_size_def Let_def)
  then have "sys_step 2 (Return 0 (s_ret ?w)) ?s
      ((set_thread 0 (call_returns (s_ret ?w) (s_conn ?w) (s_newconn ?w) (ex_thread 1 5 (Calling 5) 0 0)) ?s)\<lparr>srv := s_server ?w\<rparr>)"
    by (intro sys_step.return [where c = 5 and e = ex_env and io = ?io]) (simp_all add: ex_sys_def ex_thread_def accept_ok_def ex_io_def ex_conns)
  then show ?thesis by (simp add: ex_sys_def ex_thread_def set_thread_def call_returns_def)
qed

lemma ex_early: "sys_step 2 (Round SIGUSR1) (ex_sys (ex_thread 2 5 (Finishing 5 (-1)) 1 0) (ex_thread 0 (-1) Waiting 0 1) [-1, -1, 3, 4] 1)
   (ex_sys (ex_thread 0 5 (Finishing 5 (-1)) 1 0) (ex_thread 0 (-1) Waiting 0 1) [5, -1, 3, 4] 0)"
  by (rule ex_round [where k = 3]) (simp_all add: ex_round_simps ex_conns numeral_2_eq_2 numeral_3_eq_3)

lemma ex_report: "sys_step 2 (Report 0) (ex_sys (ex_thread 0 5 (Finishing 5 (-1)) 1 0) u ps n) (ex_sys (ex_thread 2 5 Waiting 1 0) u ps n)"
  using sys_step.report [of 0 "ex_sys (ex_thread 0 5 (Finishing 5 (-1)) 1 0) u ps n" "ex_thread 0 5 (Finishing 5 (-1)) 1 0" 5 "-1" 2]
  by (simp add: ex_sys_def ex_thread_def report_def set_thread_def)

lemma ex_again: "sys_step 2 (Round SIGUSR1) (ex_sys (ex_thread 2 5 Waiting 1 0) (ex_thread 0 (-1) Waiting 0 1) [5, -1, 3, 4] 0)
   (ex_sys (ex_thread 0 5 Waiting 1 0) (ex_thread 0 (-1) Waiting 0 1) [5, 5, 3, 4] (-1))"
  by (rule ex_round [where k = 3]) (simp_all add: ex_round_simps ex_conns numeral_2_eq_2 numeral_3_eq_3)

lemma ex_pool_inv:
  "pool_inv 2 (ex_sys (ex_thread 0 (-1) Waiting 0 0) (ex_thread 0 (-1) Waiting 0 1) [5, -1, 3, 4] 0)"
proof -
  have "poll_ok 2 3 [5, -1, 3, 4]" by (auto simp: poll_ok_def nth_Cons' numeral_2_eq_2 less_Suc_eq)
  moreover have "mset_set {3, 5 :: int} = {#5, 3#}" by simp
  moreover have "ro_max_conns (shared (ex_server 0 10)) = 2" by (simp add: ex_server_def ex_shared_def)
  ultimately show ?thesis
    using ex_service_inv(1) [of 10 0]
    by (simp add: pool_inv_def ex_sys_def ex_thread_def ex_conns places_def polled_def held_def thread_ok_def)
qed

subsection \<open>A client\<close>

text \<open>A client connected through its descriptor 9, which the worker knows as 5. It holds a local
  file \<open>a\<close>, and one answer arrives on its socket.\<close>

definition ex_cenv :: client_env where
  "ex_cenv = \<lparr>ce_alloc = mem_ok, ce_socket = Inr 9, ce_connect = (\<lambda>_. None), ce_nap = (\<lambda>_. None), ce_close = None,
     ce_fopen = (\<lambda>_. None), ce_errno = EIO\<rparr>"

definition ex_client :: "byte list \<Rightarrow> client" where
  "ex_client answer = \<lparr>api_conn = 9, byte_read = 0, byte_write = 0, c_in = (if answer = [] then [] else [Data answer]), c_out = [], c_sent = [],
     c_disk = [[97] \<mapsto> [4, 5, 6]], c_naps = 0\<rparr>"

text \<open>What a call sends does not depend on the answer, so it can be computed without one.\<close>

definition ex_talk :: "(client \<Rightarrow> 'r \<times> client) \<Rightarrow> worker_io" where
  "ex_talk call = \<lparr>io_accept = Inr 8, io_in = [Data (c_sent (snd (call (ex_client []))))], io_out = []\<rparr>"

lemma ex_client_ready: "client_ready ex_cenv (ex_client bs)"
  by (simp add: client_ready_def ex_cenv_def ex_client_def willing_def)

lemma ex_serving: "5 \<le> cap \<Longrightarrow> unat cap < 2 ^ 61 \<Longrightarrow> serving ex_env 5 (ex_talk call) (ex_server algo cap)"
  using ex_service_inv(1) [of cap algo] by (simp add: serving_def ex_conns ex_talk_def willing_def)

lemma ex_path: "path [97, 0, 0] [97]"
  by (simp add: path_def)

text \<open>A call whose message is \<open>m\<close> finds a worker that answers.\<close>

lemma ex_talks:
  assumes m: "sendable m" and sent: "\<And>bs. c_sent (snd (f (ex_client bs))) = wire m"
    and cap: "5 \<le> cap" "unat cap < 2 ^ 61"
    and fits: "\<And>m' s d. arrives m m' \<Longrightarrow>
      CHECK_CLIENT_MSG_TYPE (mtype m') MESSAGE_WRITE_FILE \<or> CHECK_CLIENT_MSG_TYPE (mtype m') MESSAGE_APPEND_FILE \<Longrightarrow>
      data_ready ex_env m' s d (ex_server algo cap) \<Longrightarrow> can_evict ex_env s d (ex_server algo cap)"
  shows "\<exists>w. connected f (ex_client (s_sent w)) ex_env 1 (ex_talk f) 5 (ex_server algo cap) w"
proof -
  have ne: "wire m \<noteq> []" by (simp add: wire_def header_bytes_def int_bytes_def numeral_eq_Suc)
  have io: "io_in (ex_talk f) = [Data (wire m)]" by (simp add: ex_talk_def sent)
  then have ch: "chunks (wire m @ []) (io_in (ex_talk f))" using ne by (simp add: chunks_Cons)
  obtain m' evs where r: "read_msg mem_ok (io_in (ex_talk f)) create_message = (Inr (), m', evs)" "arrives m m'"
    using arrives_wire [OF m ch] by metis
  have al: "e_alloc ex_env = mem_ok" using ex_env_good by (simp add: good_env_def)
  have "worker_do ex_env 1 (ex_talk f) 5 (-1) (ex_server algo cap) \<noteq> None"
  proof (rule worker_do_returns [OF ex_env_good ex_service_inv(1) [OF cap] ex_conns(5)])
    fix a b
    assume "read_msg (e_alloc ex_env) (io_in (ex_talk f)) create_message = (Inr (), a, b)"
      and "CHECK_CLIENT_MSG_TYPE (mtype a) MESSAGE_WRITE_FILE \<or> CHECK_CLIENT_MSG_TYPE (mtype a) MESSAGE_APPEND_FILE"
    with r fits al show "\<forall>s d. data_ready ex_env a s d (ex_server algo cap) \<longrightarrow> can_evict ex_env s d (ex_server algo cap)" by simp
  qed
  then obtain w where w: "worker_do ex_env 1 (ex_talk f) 5 (-1) (ex_server algo cap) = Some w" by blast
  have "chunks (s_sent w) (c_in (ex_client (s_sent w)))" by (simp add: ex_client_def chunks_Cons)
  moreover have "c_sent (ex_client (s_sent w)) = []" by (simp add: ex_client_def)
  ultimately have "connected f (ex_client (s_sent w)) ex_env 1 (ex_talk f) 5 (ex_server algo cap) w"
    using w sent ch by (simp add: connected_def)
  then show ?thesis by blast
qed

lemma ex_asks:
  assumes ask: "\<And>c. c_sent (snd (f c)) = c_sent (snd (ask ex_cenv ty [97, 0, 0] c))"
    and ty: "\<not> CHECK_CLIENT_MSG_TYPE ty MESSAGE_WRITE_FILE" "\<not> CHECK_CLIENT_MSG_TYPE ty MESSAGE_APPEND_FILE"
    and cap: "5 \<le> cap" "unat cap < 2 ^ 61"
  shows "\<exists>w. connected f (ex_client (s_sent w)) ex_env 1 (ex_talk f) 5 (ex_server algo cap) w"
proof -
  have al: "ce_alloc ex_cenv = mem_ok" by (simp add: ex_cenv_def)
  note M = name_message_ok [OF al ex_path, of ty]
  have sent: "c_sent (snd (f (ex_client bs))) = wire (name_message ex_cenv ty (of_nat (length [97 :: byte]) + 1 + 1) [97, 0, 0])" for bs
    using ask ask_sends [OF ex_client_ready ex_path, of ty bs]
      send_receive_sent [OF _ M(1), of ex_cenv "clear_byte_read_write (ex_client bs)"] ex_client_ready [of bs]
    by (simp add: ex_client_def)
  show ?thesis
    by (rule ex_talks [where f = f, OF M(1) sent cap]) (use ty M(2) in \<open>simp add: arrives_def\<close>)
qed

lemma ex_close_read_talk:
  "\<exists>w. connected (api_call Close ex_cenv [97, 0, 0]) (ex_client (s_sent w)) ex_env 1
     (ex_talk (api_call Close ex_cenv [97, 0, 0])) 5 (ex_server 0 10) w"
  "\<exists>w. connected (readFile ex_cenv [97, 0, 0]) (ex_client (s_sent w)) ex_env 1
     (ex_talk (readFile ex_cenv [97, 0, 0])) 5 (ex_server 0 10) w"
  by (rule ex_asks [of _ MESSAGE_CLOSE_FILE]; auto simp: closeFile_def Let_def msg_defs split: sum.splits prod.splits)
    (rule ex_asks [of _ MESSAGE_READ_FILE]; auto simp: readFile_def Let_def msg_defs split: sum.splits prod.splits)

lemma data_ready_unique:
  assumes a: "data_ready e m s d sv" and b: "data_ready e m s' d' sv"
  shows "s' = s \<and> d' = d"
proof -
  from a obtain buf m1 where n: "read_file_name e m 256 = (Inr buf, m1)" "cstr buf = s"
    and g: "\<exists>m''. get_data e 0 0 buf m1 [] sv = (Inr (Some (d, wlen d)), m'', sv)"
    by (auto simp only: data_ready_def)
  from b n(1) have s: "cstr buf = s'" and g': "\<exists>m''. get_data e 0 0 buf m1 [] sv = (Inr (Some (d', wlen d')), m'', sv)"
    unfolding data_ready_def by (metis Pair_inject sum.inject(2))+
  from g g' have "d' = d" by auto
  with n(2) s show ?thesis by simp
qed

text \<open>An append of three bytes to \<open>a\<close> where the capacity is five: \<open>b\<close> must go.\<close>

lemma ex_append_talk:
  defines "f \<equiv> appendToFile ex_cenv [97, 0, 0] [8, 8, 8] 3 (Some [100, 47, 0])"
  shows "\<exists>w. connected f (ex_client (s_sent w)) ex_env 1 (ex_talk f) 5 (ex_server 1 5) w"
proof -
  let ?m = "data_message ex_cenv MESSAGE_APPEND_FILE 3 [8, 8, 8] 3 [97, 0, 0]"
  have al: "ce_alloc ex_cenv = mem_ok" by (simp add: ex_cenv_def)
  have M: "sendable ?m" "mtype ?m = MESSAGE_APPEND_FILE" "write_request ?m [97] [8, 8, 8]"
    using data_message_ok [OF al, of 3 "[8, 8, 8]" "[8, 8, 8]" 3 "[97, 0, 0]" "[97]" "[0]" MESSAGE_APPEND_FILE] by simp_all
  have dir: "FILENAME_VALID [100, 47, 0] = Inr 3"
    by (simp add: FILENAME_VALID_def strlen_def FILE_PATH_MAX_def cstr_Cons wlen_def)
  have sent: "c_sent (snd (f (ex_client bs))) = wire ?m" for bs
    using appendToFile_sent [OF ex_client_ready ex_path dir, of 3 "[8, 8, 8]" bs] M(1)
    by (simp add: f_def ex_client_def)
  have cap: "5 \<le> (5 :: 64 word)" "unat (5 :: 64 word) < 2 ^ 61" by simp_all
  show ?thesis
  proof (rule ex_talks [where f = f, OF M(1) sent cap])
    fix m' s d
    assume a: "arrives ?m m'" and r: "data_ready ex_env m' s d (ex_server 1 5)"
    have "data_ready ex_env m' [97] [8, 8, 8] (ex_server 1 5)"
      by (rule data_ready_request [OF ex_env_good arrives_write_request [OF a M(3)]]) (simp add: ex_server_def ex_shared_def)
    then have "s = [97] \<and> d = [8, 8, 8]" using r by (rule data_ready_unique)
    then show "can_evict ex_env s d (ex_server 1 5)" using ex_can_evict [of "[8, 8, 8]"] by simp
  qed
qed

end
