(* ===== verification/C_String.thy ===== *)
theory C_String
  imports Prelude
begin

text \<open>
  What the parsers of the client and of the server use of the C library: tokens
  (\<open>strtok_r\<close>), numbers (\<open>strtol\<close> with base 0), bounded copies (\<open>strncpy\<close>), lines
  (\<open>getline\<close>), decimal output (\<open>%d\<close>) and command line options (\<open>getopt\<close>), as glibc
  implements them. A string argument is the list of its bytes before the NUL.
\<close>

definition chars :: "string \<Rightarrow> byte list" where
  "chars s = map of_char s"

subsection \<open>Copies\<close>

text \<open>The first \<open>n\<close> bytes at \<open>dst\<close> become the string at \<open>src\<close>, cut or padded with NUL.\<close>

definition strncpy :: "byte list \<Rightarrow> byte list \<Rightarrow> nat \<Rightarrow> byte list" where
  "strncpy dst src n = resize_block n (cstr src) @ drop n dst"

lemma length_strncpy: "n \<le> length dst \<Longrightarrow> length (strncpy dst src n) = length dst"
  by (simp add: strncpy_def)

lemma cstr_resize_block: "0 \<notin> set s \<Longrightarrow> length s < n \<Longrightarrow> cstr (resize_block n s @ r) = s"
  by (cases "n - length s") (simp_all add: resize_block_def cstr_append_nul)

lemma cstr_strncpy: "length (cstr src) < n \<Longrightarrow> cstr (strncpy dst src n) = cstr src"
  unfolding strncpy_def by (rule cstr_resize_block [OF cstr_no_nul])

subsection \<open>Tokens\<close>

text \<open>The token, and the string that \<open>saveptr\<close> points to afterwards.\<close>

definition strtok_r :: "byte list \<Rightarrow> byte list \<Rightarrow> byte list option \<times> byte list" where
  "strtok_r delim s =
     (let s = dropWhile (\<lambda>b. b \<in> set delim) s in
      if s = [] then (None, [])
      else (Some (takeWhile (\<lambda>b. b \<notin> set delim) s), drop 1 (dropWhile (\<lambda>b. b \<notin> set delim) s)))"

lemma strtok_r_Nil [simp]: "strtok_r delim [] = (None, [])"
  by (simp add: strtok_r_def)

lemma strtok_r_last: "t \<noteq> [] \<Longrightarrow> set t \<inter> set delim = {} \<Longrightarrow> strtok_r delim t = (Some t, [])"
proof -
  assume t: "t \<noteq> []" "set t \<inter> set delim = {}"
  then have "hd t \<notin> set delim" by (auto simp: disjoint_iff)
  then have "dropWhile (\<lambda>b. b \<in> set delim) t = t" using t(1) by (cases t) simp_all
  moreover have "takeWhile (\<lambda>b. b \<notin> set delim) t = t" using t(2) by (auto simp: takeWhile_eq_all_conv)
  moreover have "dropWhile (\<lambda>b. b \<notin> set delim) t = []" using t(2) by (auto simp: dropWhile_eq_Nil_conv)
  then have "length (dropWhile (\<lambda>b. b \<notin> set delim) t) \<le> Suc 0" by (simp only: list.size)
  ultimately show ?thesis using t(1) by (simp add: strtok_r_def)
qed

lemma strtok_r_sep:
  assumes "t \<noteq> []" and "set t \<inter> set delim = {}" and "d \<in> set delim"
  shows "strtok_r delim (t @ d # r) = (Some t, r)"
proof -
  from assms(1) obtain a t' where t: "t = a # t'" by (cases t) auto
  have "takeWhile (\<lambda>b. b \<notin> set delim) (t @ d # r) = t" "dropWhile (\<lambda>b. b \<notin> set delim) (t @ d # r) = d # r"
    using assms(2,3) by (auto simp: disjoint_iff takeWhile_append dropWhile_append)
  moreover have "dropWhile (\<lambda>b. b \<in> set delim) (t @ d # r) = t @ d # r" using assms(2) by (simp add: t)
  ultimately show ?thesis by (simp add: strtok_r_def t)
qed

lemma strtok_r_shorter: "strtok_r delim s = (Some t, r) \<Longrightarrow> length r < length s"
proof -
  assume a: "strtok_r delim s = (Some t, r)"
  let ?s = "dropWhile (\<lambda>b. b \<in> set delim) s"
  have s: "?s \<noteq> []" and r: "r = drop 1 (dropWhile (\<lambda>b. b \<notin> set delim) ?s)"
    using a by (auto simp: strtok_r_def Let_def split: if_splits)
  have "length (dropWhile (\<lambda>b. b \<notin> set delim) ?s) \<le> length ?s" by (rule length_dropWhile_le)
  moreover have "length ?s \<le> length s" by (rule length_dropWhile_le)
  moreover have "0 < length ?s" using s by simp
  ultimately show ?thesis unfolding r length_drop by linarith
qed

lemma strtok_r_token: "strtok_r delim s = (Some t, r) \<Longrightarrow> t \<noteq> [] \<and> set t \<inter> set delim = {} \<and> set t \<subseteq> set s \<and> set r \<subseteq> set s"
proof -
  assume a: "strtok_r delim s = (Some t, r)"
  let ?s = "dropWhile (\<lambda>b. b \<in> set delim) s"
  have s: "?s \<noteq> []" and t: "t = takeWhile (\<lambda>b. b \<notin> set delim) ?s" and r: "r = drop 1 (dropWhile (\<lambda>b. b \<notin> set delim) ?s)"
    using a by (auto simp: strtok_r_def Let_def split: if_splits)
  from s have "hd ?s \<notin> set delim" using hd_dropWhile by blast
  with s have "t \<noteq> []" unfolding t by (cases ?s) auto
  moreover have "set t \<inter> set delim = {}" unfolding t by (auto dest: set_takeWhileD)
  moreover have "set t \<subseteq> set s" unfolding t by (auto dest!: set_takeWhileD set_dropWhileD)
  moreover have "set r \<subseteq> set s" unfolding r by (auto dest!: in_set_dropD set_dropWhileD)
  ultimately show ?thesis by blast
qed

subsection \<open>Numbers\<close>

definition isspace :: "byte \<Rightarrow> bool" where
  "isspace b \<longleftrightarrow> b = 32 \<or> 9 \<le> b \<and> b \<le> 13"

definition digit :: "byte \<Rightarrow> nat" where
  "digit b = (if 48 \<le> b \<and> b \<le> 57 then unat b - 48 else if 97 \<le> b \<and> b \<le> 122 then unat b - 87
              else if 65 \<le> b \<and> b \<le> 90 then unat b - 55 else 36)"

fun digits :: "nat \<Rightarrow> nat \<Rightarrow> byte list \<Rightarrow> nat" where
  "digits base acc [] = acc"
| "digits base acc (b # bs) = (if digit b < base then digits base (acc * base + digit b) bs else acc)"

definition magnitude :: "byte list \<Rightarrow> nat" where
  "magnitude s = (if take 1 s = [48] then (if take 1 (drop 1 s) \<in> {[120], [88]} then digits 16 0 (drop 2 s) else digits 8 0 s)
                  else digits 10 0 s)"

text \<open>\<open>strtol\<close> with base 0: leading blanks, a sign, \<open>0x\<close> or \<open>0\<close> for the base, digits; saturated.\<close>

definition strtol :: "byte list \<Rightarrow> int" where
  "strtol s =
     (let s = dropWhile isspace s in
      if take 1 s = [45] then max (- (2 ^ 63)) (- int (magnitude (drop 1 s)))
      else min (2 ^ 63 - 1) (int (magnitude (if take 1 s = [43] then drop 1 s else s))))"

text \<open>What \<open>%d\<close> and \<open>%ld\<close> print.\<close>

fun dec_nat :: "nat \<Rightarrow> byte list" where
  "dec_nat n = (if n < 10 then [of_nat (48 + n)] else dec_nat (n div 10) @ [of_nat (48 + n mod 10)])"

declare dec_nat.simps [simp del]

definition dec_int :: "int \<Rightarrow> byte list" where
  "dec_int i = (if i < 0 then 45 # dec_nat (nat (- i)) else dec_nat (nat i))"

lemma decimal_digit:
  assumes "n < 10"
  shows "digit (of_nat (48 + n)) = n" and "(of_nat (48 + n) :: byte) \<noteq> 48 \<longleftrightarrow> n \<noteq> 0"
    and "\<not> isspace (of_nat (48 + n))" and "(of_nat (48 + n) :: byte) \<notin> {0, 9, 10, 32, 35, 43, 45, 61}"
proof -
  have "n \<in> {0, 1, 2, 3, 4, 5, 6, 7, 8, 9}" using assms by auto
  then show "digit (of_nat (48 + n)) = n" "(of_nat (48 + n) :: byte) \<noteq> 48 \<longleftrightarrow> n \<noteq> 0"
    "\<not> isspace (of_nat (48 + n))" "(of_nat (48 + n) :: byte) \<notin> {0, 9, 10, 32, 35, 43, 45, 61}"
    by (auto simp: digit_def isspace_def)
qed

lemma digits_append: "(\<forall>b \<in> set xs. digit b < base) \<Longrightarrow> digits base acc (xs @ ys) = digits base (digits base acc xs) ys"
  by (induction base acc xs rule: digits.induct) simp_all

definition plain_digit :: "byte \<Rightarrow> bool" where
  "plain_digit b \<longleftrightarrow> digit b < 10 \<and> b \<notin> {0, 9, 10, 32, 35, 43, 45, 61} \<and> \<not> isspace b"

lemma plain_decimal: "n < 10 \<Longrightarrow> plain_digit (of_nat (48 + n))"
  unfolding plain_digit_def using decimal_digit(1,3,4) by metis

lemma dec_nat_step: "\<not> n < 10 \<Longrightarrow> dec_nat n = dec_nat (n div 10) @ [of_nat (48 + n mod 10)]"
  by (subst dec_nat.simps) (simp only: if_False simp_thms)

lemma dec_nat_one: "n < 10 \<Longrightarrow> dec_nat n = [of_nat (48 + n)]"
  by (subst dec_nat.simps) (simp only: if_True simp_thms)

lemma dec_nat_digits: "\<forall>b \<in> set (dec_nat n). plain_digit b"
proof (induction n rule: dec_nat.induct)
  case (1 n)
  show ?case
  proof (cases "n < 10")
    case True
    then show ?thesis using plain_decimal [OF True] by (simp only: dec_nat_one list.set) blast
  next
    case False
    have "plain_digit (of_nat (48 + n mod 10))" by (rule plain_decimal) simp
    then show ?thesis using 1 [OF False] by (simp only: dec_nat_step [OF False] set_append list.set) blast
  qed
qed

lemma digits_dec_nat: "digits 10 0 (dec_nat n) = n"
proof (induction n rule: dec_nat.induct)
  case (1 n)
  show ?case
  proof (cases "n < 10")
    case True
    then show ?thesis using decimal_digit(1) [OF True] by (subst dec_nat.simps) simp
  next
    case False
    have "\<forall>b \<in> set (dec_nat (n div 10)). digit b < 10" using dec_nat_digits by (auto simp: plain_digit_def)
    then have "digits 10 0 (dec_nat n) = digits 10 (digits 10 0 (dec_nat (n div 10))) [of_nat (48 + n mod 10)]"
      unfolding dec_nat_step [OF False] by (rule digits_append)
    also have "\<dots> = n" using decimal_digit(1) [of "n mod 10"] 1 [OF False] by (simp del: of_nat_add)
    finally show ?thesis .
  qed
qed

lemma dec_nat_head: "\<exists>b r. dec_nat n = b # r \<and> (b = 48 \<longrightarrow> n = 0)"
proof (induction n rule: dec_nat.induct)
  case (1 n)
  show ?case
  proof (cases "n < 10")
    case True
    then show ?thesis using decimal_digit(2) [OF True] by (subst dec_nat.simps) auto
  next
    case False
    then obtain b r where "dec_nat (n div 10) = b # r" "b = 48 \<longrightarrow> n div 10 = 0" using 1 by blast
    then show ?thesis using False by (subst dec_nat.simps) auto
  qed
qed

lemma dec_nat_0: "dec_nat 0 = [48]"
  by (simp add: dec_nat.simps)

lemma strtol_dec_nat:
  assumes "n < 2 ^ 63"
  shows "strtol (dec_nat n) = int n"
proof -
  obtain b r where d: "dec_nat n = b # r" "b = 48 \<longrightarrow> n = 0" using dec_nat_head by blast
  have b: "\<not> isspace b" "b \<noteq> 45" "b \<noteq> 43" using dec_nat_digits [of n] by (auto simp: d(1) plain_digit_def)
  have "magnitude (b # r) = n"
  proof (cases "n = 0")
    case True
    then have "b = 48" "r = []" using d(1) by (simp_all add: dec_nat_0)
    then show ?thesis using True by (simp add: magnitude_def digit_def)
  next
    case False
    then have "magnitude (b # r) = digits 10 0 (dec_nat n)" using d by (simp add: magnitude_def)
    then show ?thesis by (simp add: digits_dec_nat)
  qed
  moreover have "int n < 2 ^ 63" using assms by (metis of_nat_less_iff of_nat_numeral of_nat_power)
  ultimately show ?thesis using b by (simp add: strtol_def d(1))
qed

lemma length_dec_nat: "n < 10 ^ k \<Longrightarrow> 0 < k \<Longrightarrow> length (dec_nat n) \<le> k"
proof (induction k arbitrary: n)
  case (Suc k)
  show ?case
  proof (cases "n < 10")
    case False
    then have "0 < k" using Suc.prems by (cases k) auto
    moreover have "n div 10 < 10 ^ k" using Suc.prems by (simp add: less_mult_imp_div_less mult.commute)
    ultimately show ?thesis using Suc.IH [of "n div 10"] False by (subst dec_nat.simps) simp
  qed (simp add: dec_nat.simps)
qed simp

subsection \<open>Lines\<close>

text \<open>The lines \<open>getline\<close> delivers one after the other, each with its newline.\<close>

fun getlines :: "byte list \<Rightarrow> byte list list" where
  "getlines [] = []"
| "getlines (b # bs) =
     (if b = 10 then [10] # getlines bs else (case getlines bs of [] \<Rightarrow> [[b]] | l # ls \<Rightarrow> (b # l) # ls))"

lemma getlines_line: "10 \<notin> set l \<Longrightarrow> getlines (l @ 10 # r) = (l @ [10]) # getlines r"
  by (induction l) auto

lemma concat_getlines: "concat (getlines s) = s"
  by (induction s) (auto split: list.split)

subsection \<open>Command line options\<close>

datatype opt_kind = NoArg | Needs | Optional

text \<open>The pairs of option and \<open>optarg\<close> that \<open>getopt\<close> returns until -1: \<open>cs\<close> is the rest of the
  element being scanned. An option that is not known comes as \<open>?\<close>, a missing argument as \<open>:\<close>;
  when the option string starts with \<open>-\<close> (\<open>in_order\<close>) a plain argument comes as 1, otherwise it is
  passed over.\<close>

function getopt :: "bool \<Rightarrow> (byte \<Rightarrow> opt_kind option) \<Rightarrow> byte list \<Rightarrow> byte list list \<Rightarrow> (byte \<times> byte list option) list" where
  "getopt in_order kind [] [] = []"
| "getopt in_order kind [] (a # as) =
     (if a = [45, 45] then []
      else if take 1 a = [45] \<and> drop 1 a \<noteq> [] then getopt in_order kind (drop 1 a) as
      else if in_order then (1, Some a) # getopt in_order kind [] as
      else getopt in_order kind [] as)"
| "getopt in_order kind (c # cs) as =
     (case kind c of
        None \<Rightarrow> (63, None) # getopt in_order kind cs as
      | Some NoArg \<Rightarrow> (c, None) # getopt in_order kind cs as
      | Some Optional \<Rightarrow> (c, if cs = [] then None else Some cs) # getopt in_order kind [] as
      | Some Needs \<Rightarrow>
          (if cs \<noteq> [] then (c, Some cs) # getopt in_order kind [] as
           else (case as of [] \<Rightarrow> [(58, None)] | a # as \<Rightarrow> (c, Some a) # getopt in_order kind [] as)))"
  by pat_completeness auto

termination
  by (relation "measure (\<lambda>(_, _, cs, as). length cs + sum_list (map (\<lambda>a. Suc (length a)) as))") auto

end
