(* ===== verification/Client_Requests.thy ===== *)
theory Client_Requests
  imports C_String
begin

text \<open>
  The requests of the client program (\<open>source/request.c\<close>), the command line they come from and
  the open, create and close requests that are put around them (\<open>source/client/client_parser.c\<close>).
  The last part states the order a list of requests has to keep, and that the client keeps it.
\<close>

subsection \<open>Requests\<close>

definition REQUEST_NULL :: int where "REQUEST_NULL = 0"
definition REQUEST_READ :: int where "REQUEST_READ = 10"
definition REQUEST_READN :: int where "REQUEST_READN = 11"
definition REQUEST_WRITE :: int where "REQUEST_WRITE = 20"
definition REQUEST_WRITE_DIR :: int where "REQUEST_WRITE_DIR = 21"
definition REQUEST_APPEND :: int where "REQUEST_APPEND = 30"
definition REQUEST_LOCK :: int where "REQUEST_LOCK = 50"
definition REQUEST_UNLOCK :: int where "REQUEST_UNLOCK = 51"
definition REQUEST_REMOVE :: int where "REQUEST_REMOVE = 66"
definition REQUEST_OPEN :: int where "REQUEST_OPEN = 100"
definition REQUEST_OPEN_LOCK :: int where "REQUEST_OPEN_LOCK = 200"
definition REQUEST_CREATE_LOCK :: int where "REQUEST_CREATE_LOCK = 300"
definition REQUEST_CLOSE :: int where "REQUEST_CLOSE = 666"

lemmas request_types = REQUEST_NULL_def REQUEST_READ_def REQUEST_READN_def REQUEST_WRITE_def REQUEST_WRITE_DIR_def
  REQUEST_APPEND_def REQUEST_LOCK_def REQUEST_UNLOCK_def REQUEST_REMOVE_def REQUEST_OPEN_def REQUEST_OPEN_LOCK_def
  REQUEST_CREATE_LOCK_def REQUEST_CLOSE_def

record req =
  rq_type :: int
  rq_n :: int
  stringdata :: "byte list option"
  stringdata_len :: nat
  rq_dir :: "byte list option"
  dir_len :: nat

text \<open>The growing array: \<open>curr_reqs\<close> is the length of the list, \<open>reqs_size\<close> the room it has.\<close>

record req_array =
  reqs :: "req list"
  reqs_size :: nat

definition init_request :: req where
  "init_request = \<lparr>rq_type = REQUEST_NULL, rq_n = 0, stringdata = None, stringdata_len = 0, rq_dir = None, dir_len = 0\<rparr>"

definition no_reqs :: req_array where
  "no_reqs = \<lparr>reqs = [], reqs_size = 0\<rparr>"

text \<open>A \<open>req_t\<close> has 40 bytes. When the array cannot grow everything in it is lost.\<close>

definition add_request :: "allocator \<Rightarrow> req \<Rightarrow> req_array \<Rightarrow> (errno + unit) \<times> req_array" where
  "add_request al newreq arr =
     (if reqs_size arr \<le> length (reqs arr) then
        if al (of_nat (40 * (reqs_size arr + 10)))
        then (Inr (), \<lparr>reqs = reqs arr @ [newreq], reqs_size = reqs_size arr + 10\<rparr>)
        else (Inl ENOMEM, no_reqs)
      else (Inr (), arr\<lparr>reqs := reqs arr @ [newreq]\<rparr>))"

lemma add_request_ok: "\<exists>n. add_request mem_ok r arr = (Inr (), \<lparr>reqs = reqs arr @ [r], reqs_size = n\<rparr>)"
  by (cases arr) (simp add: add_request_def mem_ok)

text \<open>The C string a request is about; requests without one are never compared.\<close>

definition str :: "req \<Rightarrow> byte list" where
  "str r = cstr (block (stringdata r))"

subsection \<open>The command line\<close>

text \<open>What \<open>parse_args\<close> fills in. A value \<open>None\<close> is undefined behaviour: a NULL token used as a
  string, or a read before the start of an empty one.\<close>

record parsed =
  socket_name :: "byte list option"
  do_print :: int
  time_between_reqs :: int
  p_reqs :: req_array

definition to_int :: "int \<Rightarrow> int" where
  "to_int n = sint (word_of_int n :: uint32)"

definition cmd_to_request :: "allocator \<Rightarrow> int \<Rightarrow> byte list option \<Rightarrow> req_array \<Rightarrow> ((errno + unit) \<times> req_array) option" where
  "cmd_to_request al ty optarg arr =
     (let r = init_request\<lparr>rq_type := ty\<rparr>; a = block optarg in
      if ty = REQUEST_READN then
        (if optarg = None then Some (add_request al r arr)
         else (case fst (strtok_r (chars '' '') (snd (strtok_r (chars ''='') a))) of
                 None \<Rightarrow> None
               | Some token \<Rightarrow> Some (add_request al (r\<lparr>rq_n := to_int (strtol token)\<rparr>) arr)))
      else if ty = REQUEST_WRITE_DIR then
        (case strtok_r (chars '','') a of
           (None, _) \<Rightarrow> None
         | (Some token, save) \<Rightarrow>
             if \<not> al (of_nat (length token + 1)) then Some (Inl ENOMEM, arr)
             else (let n = (case fst (strtok_r (chars '' '') (snd (strtok_r (chars ''='') save))) of
                              None \<Rightarrow> 0 | Some t \<Rightarrow> to_int (strtol t)) in
                   Some (add_request al (r\<lparr>stringdata := Some (token @ [0]), stringdata_len := length token + 1, rq_n := n\<rparr>) arr)))
      else if \<not> al (of_nat (length a + 1)) then Some (Inl ENOMEM, arr)
      else Some (add_request al (r\<lparr>stringdata := Some (a @ [0]), stringdata_len := length a + 1\<rparr>) arr))"

text \<open>The directory of \<open>-d\<close> and \<open>-D\<close>, with a slash at its end. The caller has checked that there
  is a last request.\<close>

definition write_dir_to_last_request :: "allocator \<Rightarrow> byte list \<Rightarrow> req_array \<Rightarrow> ((errno + unit) \<times> req_array) option" where
  "write_dir_to_last_request al optarg arr =
     (if optarg = [] then None
      else (let d = (if last optarg = 47 then optarg @ [0] else optarg @ [47, 0]); i = length (reqs arr) - 1 in
            Some (if al (of_nat (length d))
                  then (Inr (), arr\<lparr>reqs := (reqs arr)[i := (reqs arr ! i)\<lparr>rq_dir := Some d, dir_len := length d\<rparr>]\<rparr>)
                  else (Inl ENOMEM, arr\<lparr>reqs := (reqs arr)[i := (reqs arr ! i)\<lparr>rq_dir := None, dir_len := length d\<rparr>]\<rparr>))))"

text \<open>The options, by the character codes of \<open>-:hf:w:W:a:D:r:R::d:t:l:u:c:p\<close>.\<close>

definition client_option :: "byte \<Rightarrow> opt_kind option" where
  "client_option c =
     (if c \<in> set (chars ''hp'') then Some NoArg else if c = 82 then Some Optional
      else if c \<in> set (chars ''fwWaDrdtluc'') then Some Needs else None)"

definition request_of_option :: "byte \<Rightarrow> int option" where
  "request_of_option c =
     (if c = 119 then Some REQUEST_WRITE_DIR else if c = 87 then Some REQUEST_WRITE else if c = 97 then Some REQUEST_APPEND
      else if c = 114 then Some REQUEST_READ else if c = 82 then Some REQUEST_READN else if c = 108 then Some REQUEST_LOCK
      else if c = 117 then Some REQUEST_UNLOCK else if c = 99 then Some REQUEST_REMOVE else None)"

text \<open>\<open>prec\<close> is the option before. The result is 1 for the help, -1 for an error, 0 otherwise.\<close>

fun parse_opts :: "allocator \<Rightarrow> byte \<Rightarrow> (byte \<times> byte list option) list \<Rightarrow> parsed \<Rightarrow> (int \<times> parsed) option" where
  "parse_opts al prec [] p = Some (0, p)"
| "parse_opts al prec ((c, optarg) # opts) p =
     (case request_of_option c of
        Some ty \<Rightarrow>
          (case cmd_to_request al ty optarg (p_reqs p) of
             None \<Rightarrow> None
           | Some (Inl e, arr) \<Rightarrow> Some (-1, p\<lparr>p_reqs := arr\<rparr>)
           | Some (Inr _, arr) \<Rightarrow> parse_opts al c opts (p\<lparr>p_reqs := arr\<rparr>))
      | None \<Rightarrow>
          if c = 104 then Some (1, p)
          else if c = 102 then
            (if socket_name p \<noteq> None then Some (-1, p) else parse_opts al c opts (p\<lparr>socket_name := optarg\<rparr>))
          else if c = 112 then
            (if do_print p = 1 then Some (-1, p) else parse_opts al c opts (p\<lparr>do_print := 1\<rparr>))
          else if c = 116 then
            (let t = to_int (strtol (block optarg)); p = p\<lparr>time_between_reqs := t\<rparr> in
             if t < 0 then Some (-1, p) else parse_opts al c opts p)
          else if c = 68 \<and> prec \<in> {119, 87, 97} \<or> c = 100 \<and> prec \<in> {114, 82} then
            (case write_dir_to_last_request al (block optarg) (p_reqs p) of
               None \<Rightarrow> None
             | Some (Inl e, arr) \<Rightarrow> Some (-1, p\<lparr>p_reqs := arr\<rparr>)
             | Some (Inr _, arr) \<Rightarrow> parse_opts al c opts (p\<lparr>p_reqs := arr\<rparr>))
          else Some (-1, p))"

definition parse_args :: "allocator \<Rightarrow> byte list list \<Rightarrow> parsed \<Rightarrow> (int \<times> parsed) option" where
  "parse_args al argv p = parse_opts al 0 (getopt True client_option [] (drop 1 argv)) p"

subsection \<open>Open, create and close requests\<close>

text \<open>The result of a step that may fail, and the next step.\<close>

definition andthen :: "(errno + unit) \<times> 's \<Rightarrow> ('s \<Rightarrow> (errno + unit) \<times> 's) \<Rightarrow> (errno + unit) \<times> 's" where
  "andthen r f = (case r of (Inl e, s) \<Rightarrow> (Inl e, s) | (Inr _, s) \<Rightarrow> f s)"

text \<open>The loop from the last request to the first: 1 when the last of them that matters removes the
  file, -1 when it opens it, 0 when there is none.\<close>

fun last_state :: "byte list \<Rightarrow> req list \<Rightarrow> int" where
  "last_state s [] = 0"
| "last_state s (r # rs) =
     (let ins = (if rq_type r = REQUEST_REMOVE \<and> str r = s then 1 else 0);
          ins = (if (rq_type r = REQUEST_OPEN \<or> rq_type r = REQUEST_OPEN_LOCK \<or> rq_type r = REQUEST_CREATE_LOCK) \<and> str r = s
                 then -1 else ins) in
      if ins = 0 then last_state s rs else ins)"

definition add_for :: "allocator \<Rightarrow> int \<Rightarrow> req \<Rightarrow> req_array \<Rightarrow> (errno + unit) \<times> req_array" where
  "add_for al ty r out =
     (if al (of_nat (stringdata_len r))
      then add_request al (init_request\<lparr>rq_type := ty, stringdata_len := stringdata_len r,
             stringdata := Some (resize_block (stringdata_len r) (str r))\<rparr>) out
      else (Inl ENOMEM, out))"

definition insert_open :: "allocator \<Rightarrow> req \<Rightarrow> req_array \<Rightarrow> (errno + unit) \<times> req_array" where
  "insert_open al r out =
     (if rq_type r \<in> {REQUEST_READ, REQUEST_LOCK, REQUEST_UNLOCK, REQUEST_APPEND} \<and> last_state (str r) (rev (reqs out)) \<noteq> -1
      then add_for al REQUEST_OPEN r out else (Inr (), out))"

definition insert_create :: "allocator \<Rightarrow> req \<Rightarrow> req_array \<Rightarrow> (errno + unit) \<times> req_array" where
  "insert_create al r out =
     (if rq_type r = REQUEST_WRITE then add_for al REQUEST_CREATE_LOCK r out
      else if rq_type r = REQUEST_REMOVE then add_for al REQUEST_OPEN_LOCK r out else (Inr (), out))"

definition insert_close :: "allocator \<Rightarrow> req \<Rightarrow> req list \<Rightarrow> req_array \<Rightarrow> (errno + unit) \<times> req_array" where
  "insert_close al r later out =
     (if rq_type r \<in> {REQUEST_READ, REQUEST_LOCK, REQUEST_UNLOCK, REQUEST_WRITE, REQUEST_APPEND}
       \<and> \<not> (\<exists>q \<in> set later. stringdata q \<noteq> None \<and> str q = str r) \<and> last_state (str r) (rev (reqs out)) = -1
      then add_for al REQUEST_CLOSE r out else (Inr (), out))"

fun open_create_loop :: "allocator \<Rightarrow> req list \<Rightarrow> req_array \<Rightarrow> (errno + unit) \<times> req_array" where
  "open_create_loop al [] out = (Inr (), out)"
| "open_create_loop al (r # later) out =
     andthen (insert_open al r out) (\<lambda>out. andthen (insert_create al r out) (\<lambda>out.
     andthen (add_request al r out) (\<lambda>out. andthen (insert_close al r later out) (open_create_loop al later))))"

definition add_open_create_requests :: "allocator \<Rightarrow> req_array \<Rightarrow> (errno + unit) \<times> req_array" where
  "add_open_create_requests al arr =
     (case open_create_loop al (reqs arr) no_reqs of
        (Inl e, _) \<Rightarrow> (Inl e, arr)
      | (Inr _, out) \<Rightarrow> (Inr (), out))"

subsection \<open>A well formed session\<close>

text \<open>What the server asks of a client: a file is used while it is open, it is written right after
  it was created and locked, it is removed right after it was locked, and only an open file is
  closed. The state is the request before and the names that are open.\<close>

definition session_step :: "req option \<times> byte list set \<Rightarrow> req \<Rightarrow> (req option \<times> byte list set) option" where
  "session_step st r =
     (let (prev, S) = st; s = str r;
          after = (\<lambda>ty. \<exists>p. prev = Some p \<and> rq_type p = ty \<and> str p = s) in
      if rq_type r \<in> {REQUEST_OPEN, REQUEST_OPEN_LOCK, REQUEST_CREATE_LOCK} then Some (Some r, insert s S)
      else if rq_type r = REQUEST_CLOSE then (if s \<in> S then Some (Some r, S - {s}) else None)
      else if rq_type r = REQUEST_REMOVE then (if s \<in> S \<and> after REQUEST_OPEN_LOCK then Some (Some r, S - {s}) else None)
      else if rq_type r = REQUEST_WRITE then (if s \<in> S \<and> after REQUEST_CREATE_LOCK then Some (Some r, S) else None)
      else if rq_type r \<in> {REQUEST_READ, REQUEST_LOCK, REQUEST_UNLOCK, REQUEST_APPEND} then
        (if s \<in> S then Some (Some r, S) else None)
      else Some (Some r, S))"

fun session :: "req option \<times> byte list set \<Rightarrow> req list \<Rightarrow> (req option \<times> byte list set) option" where
  "session st [] = Some st"
| "session st (r # rs) = Option.bind (session_step st r) (\<lambda>st. session st rs)"

lemma session_append: "session st (xs @ ys) = Option.bind (session st xs) (\<lambda>st. session st ys)"
proof (induction xs arbitrary: st)
  case (Cons x xs)
  then show ?case by (cases "session_step st x") simp_all
qed simp

text \<open>The requests a user can make, once directories are expanded.\<close>

definition user_req :: "req \<Rightarrow> bool" where
  "user_req r \<longleftrightarrow>
     rq_type r = REQUEST_READN \<and> stringdata r = None
   \<or> rq_type r \<in> {REQUEST_READ, REQUEST_WRITE, REQUEST_APPEND, REQUEST_LOCK, REQUEST_UNLOCK, REQUEST_REMOVE}
     \<and> (\<exists>p. stringdata r = Some p) \<and> length (str r) < stringdata_len r"

definition names_of :: "req list \<Rightarrow> byte list set" where
  "names_of rs = str ` {r \<in> set rs. stringdata r \<noteq> None}"

lemma names_of_Cons [simp]: "names_of (r # rs) = (if stringdata r = None then {} else {str r}) \<union> names_of rs"
  by (auto simp: names_of_def)

lemma names_of_Nil [simp]: "names_of [] = {}"
  by (simp add: names_of_def)

lemma last_state_skip: "str r \<noteq> s \<Longrightarrow> last_state s (r # rs) = last_state s rs"
  by simp

lemma last_state_skip_all: "\<forall>r \<in> set new. str r \<noteq> s \<Longrightarrow> last_state s (new @ rs) = last_state s rs"
  by (induction new) simp_all

text \<open>What the loop keeps: the requests so far are a session; of the names still to come exactly
  those are open that the backward scan finds open, and no others are.\<close>

definition plan_inv :: "req list \<Rightarrow> req list \<Rightarrow> req option \<Rightarrow> byte list set \<Rightarrow> bool" where
  "plan_inv later out prev S \<longleftrightarrow>
     session (None, {}) out = Some (prev, S) \<and> S \<subseteq> names_of later
   \<and> (\<forall>s \<in> names_of later. s \<in> S \<longleftrightarrow> last_state s (rev out) = -1)"

text \<open>The requests put for one request of the user, as a list.\<close>

definition made_for :: "int \<Rightarrow> req \<Rightarrow> req" where
  "made_for ty r = init_request\<lparr>rq_type := ty, stringdata_len := stringdata_len r,
     stringdata := Some (resize_block (stringdata_len r) (str r))\<rparr>"

lemma made_for_simps [simp]: "rq_type (made_for ty r) = ty" "stringdata (made_for ty r) \<noteq> None"
  by (simp_all add: made_for_def)

lemma str_made_for: "length (str r) < stringdata_len r \<Longrightarrow> str (made_for ty r) = str r"
  using cstr_resize_block [OF cstr_no_nul, of "block (stringdata r)" "stringdata_len r" "[]"]
  by (simp add: str_def made_for_def)

lemma add_for_ok: "\<exists>n. add_for mem_ok ty r out = (Inr (), \<lparr>reqs = reqs out @ [made_for ty r], reqs_size = n\<rparr>)"
  using add_request_ok by (simp add: add_for_def mem_ok made_for_def)

definition opens :: "req \<Rightarrow> req list \<Rightarrow> req list" where
  "opens r out = (if rq_type r \<in> {REQUEST_READ, REQUEST_LOCK, REQUEST_UNLOCK, REQUEST_APPEND} \<and> last_state (str r) (rev out) \<noteq> -1
     then [made_for REQUEST_OPEN r] else if rq_type r = REQUEST_WRITE then [made_for REQUEST_CREATE_LOCK r]
     else if rq_type r = REQUEST_REMOVE then [made_for REQUEST_OPEN_LOCK r] else [])"

definition closes :: "req \<Rightarrow> req list \<Rightarrow> req list \<Rightarrow> req list" where
  "closes r later out = (if rq_type r \<in> {REQUEST_READ, REQUEST_LOCK, REQUEST_UNLOCK, REQUEST_WRITE, REQUEST_APPEND}
     \<and> str r \<notin> names_of later \<and> last_state (str r) (rev out) = -1 then [made_for REQUEST_CLOSE r] else [])"

fun plan :: "req list \<Rightarrow> req list \<Rightarrow> req list" where
  "plan [] out = out"
| "plan (r # later) out = (let out = out @ opens r out @ [r] in plan later (out @ closes r later out))"

lemma open_create_loop_plan: "\<exists>n. open_create_loop mem_ok rs out = (Inr (), \<lparr>reqs = plan rs (reqs out), reqs_size = n\<rparr>)"
proof (induction rs arbitrary: out)
  case Nil
  show ?case by (cases out) simp
next
  case (Cons r later)
  let ?o1 = "reqs out @ opens r (reqs out)"
  obtain n1 where 1: "andthen (insert_open mem_ok r out) (insert_create mem_ok r) = (Inr (), \<lparr>reqs = ?o1, reqs_size = n1\<rparr>)"
  proof -
    have "\<exists>n. andthen (insert_open mem_ok r out) (insert_create mem_ok r) = (Inr (), \<lparr>reqs = ?o1, reqs_size = n\<rparr>)"
      using add_for_ok [of REQUEST_OPEN r out] add_for_ok [of REQUEST_CREATE_LOCK r out] add_for_ok [of REQUEST_OPEN_LOCK r out]
      by (cases out) (auto simp: andthen_def insert_open_def insert_create_def opens_def request_types)
    then show thesis using that by blast
  qed
  let ?o2 = "?o1 @ [r]"
  obtain n2 where 2: "add_request mem_ok r \<lparr>reqs = ?o1, reqs_size = n1\<rparr> = (Inr (), \<lparr>reqs = ?o2, reqs_size = n2\<rparr>)"
    using add_request_ok [of r "\<lparr>reqs = ?o1, reqs_size = n1\<rparr>"] by auto
  have cl: "(\<exists>q \<in> set later. stringdata q \<noteq> None \<and> str q = str r) \<longleftrightarrow> str r \<in> names_of later"
    unfolding names_of_def by (auto simp: image_iff)
  have "\<exists>n. insert_close mem_ok r later \<lparr>reqs = ?o2, reqs_size = n2\<rparr> = (Inr (), \<lparr>reqs = ?o2 @ closes r later ?o2, reqs_size = n\<rparr>)"
    using add_for_ok [of REQUEST_CLOSE r "\<lparr>reqs = ?o2, reqs_size = n2\<rparr>"]
    unfolding insert_close_def closes_def cl by simp
  then obtain n3 where 3: "insert_close mem_ok r later \<lparr>reqs = ?o2, reqs_size = n2\<rparr> = (Inr (), \<lparr>reqs = ?o2 @ closes r later ?o2, reqs_size = n3\<rparr>)"
    by blast
  have assoc: "andthen (andthen a f) g = andthen a (\<lambda>x. andthen (f x) g)" for a :: "(errno + unit) \<times> req_array" and f g
    by (simp add: andthen_def split: prod.split sum.split)
  have "open_create_loop mem_ok (r # later) out = andthen (andthen (insert_open mem_ok r out) (insert_create mem_ok r))
      (\<lambda>out. andthen (add_request mem_ok r out) (\<lambda>out. andthen (insert_close mem_ok r later out) (open_create_loop mem_ok later)))"
    by (simp add: assoc)
  also have "\<dots> = open_create_loop mem_ok later \<lparr>reqs = ?o2 @ closes r later ?o2, reqs_size = n3\<rparr>"
    unfolding 1 by (simp only: andthen_def prod.case sum.case 2 3)
  finally show ?case using Cons.IH [of "\<lparr>reqs = ?o2 @ closes r later ?o2, reqs_size = n3\<rparr>"]
    by (simp add: Let_def)
qed

lemma plan_inv_extend:
  assumes inv: "plan_inv (r # later) out prev S" and r: "stringdata r \<noteq> None"
    and run: "session (Some p, insert (str r) S) new2 = Some (prev', S')" "session (prev, S) new1 = Some (Some p, insert (str r) S)"
    and new: "\<forall>q \<in> set (new1 @ new2). str q = str r" and S: "S' - {str r} = S - {str r}"
    and last: "str r \<in> S' \<Longrightarrow> str r \<in> names_of later"
      "str r \<in> names_of later \<Longrightarrow> str r \<in> S' \<longleftrightarrow> last_state (str r) (rev (out @ new1 @ new2)) = -1"
  shows "plan_inv later (out @ new1 @ new2) prev' S'"
proof -
  have other: "last_state t (rev (out @ new1 @ new2)) = last_state t (rev out)" if "t \<noteq> str r" for t
    using last_state_skip_all [of "rev (new1 @ new2)" t "rev out"] new that by auto
  have "session (None, {}) (out @ new1 @ new2) = Some (prev', S')"
    using inv run by (simp add: plan_inv_def session_append)
  moreover have "S' \<subseteq> names_of later" using inv r S last(1) by (auto simp: plan_inv_def)
  moreover have "t \<in> S' \<longleftrightarrow> last_state t (rev (out @ new1 @ new2)) = -1" if t: "t \<in> names_of later" for t
  proof (cases "t = str r")
    case True
    then show ?thesis using last(2) t by simp
  next
    case False
    then have "t \<in> S' \<longleftrightarrow> t \<in> S" using S by blast
    then show ?thesis using other [OF False] inv r t by (simp add: plan_inv_def)
  qed
  ultimately show ?thesis by (simp add: plan_inv_def)
qed

lemma insert_minus: "insert a S - {a} = S - {a}"
  by blast

text \<open>After a request that leaves its file open.\<close>

lemma use_closed:
  assumes inv: "plan_inv (r # later) out prev S" and st: "stringdata r \<noteq> None" and m: "\<And>ty. str (made_for ty r) = str r"
    and run: "session (prev, S) (opens r out @ [r]) = Some (Some r, insert (str r) S)"
    and last: "last_state (str r) (rev (out @ opens r out @ [r])) = -1"
    and ty: "rq_type r \<in> {REQUEST_READ, REQUEST_LOCK, REQUEST_UNLOCK, REQUEST_WRITE, REQUEST_APPEND}"
  shows "\<exists>prev' S'. plan_inv later (let out = out @ opens r out @ [r] in out @ closes r later out) prev' S'"
proof -
  have new: "\<forall>q \<in> set (opens r out @ [r]). str q = str r" using m by (auto simp: opens_def)
  show ?thesis
  proof (cases "str r \<in> names_of later")
    case True
    then have "closes r later (out @ opens r out @ [r]) = []" by (simp add: closes_def)
    moreover have "plan_inv later (out @ (opens r out @ [r]) @ []) (Some r) (insert (str r) S)"
      by (rule plan_inv_extend [OF inv st _ run]) (use new True last in \<open>simp_all only: session.simps append_Nil2 insert_minus insertI1 simp_thms\<close>)
    ultimately show ?thesis by (auto simp: Let_def)
  next
    case False
    let ?c = "made_for REQUEST_CLOSE r"
    have "closes r later (out @ opens r out @ [r]) = [?c]" using False last ty by (simp add: closes_def)
    moreover have "session (Some r, insert (str r) S) [?c] = Some (Some ?c, S - {str r})"
      using m [of REQUEST_CLOSE] by (simp add: session_step_def request_types)
    then have "plan_inv later (out @ (opens r out @ [r]) @ [?c]) (Some ?c) (S - {str r})"
    proof (rule plan_inv_extend [OF inv st _ run])
      show "\<forall>q \<in> set ((opens r out @ [r]) @ [?c]). str q = str r"
        unfolding set_append ball_Un using new [unfolded set_append ball_Un] m by simp
    qed (use False in simp_all)
    ultimately show ?thesis by (auto simp: Let_def)
  qed
qed

lemma plan_step:
  assumes inv: "plan_inv (r # later) out prev S" and r: "user_req r"
  shows "\<exists>prev' S'. plan_inv later (let out = out @ opens r out @ [r] in out @ closes r later out) prev' S'"
proof -
  let ?s = "str r"
  consider (readn) "rq_type r = REQUEST_READN" "stringdata r = None"
    | (usage) "rq_type r \<in> {REQUEST_READ, REQUEST_LOCK, REQUEST_UNLOCK, REQUEST_APPEND}"
    | (wr) "rq_type r = REQUEST_WRITE" | (remove) "rq_type r = REQUEST_REMOVE"
    using r by (auto simp: user_req_def)
  then show ?thesis
  proof cases
    case readn
    then have "opens r out = []" "closes r later (out @ [r]) = []" by (simp_all add: opens_def closes_def request_types)
    moreover have "session_step (prev, S) r = Some (Some r, S)" using readn(1) by (simp add: session_step_def request_types)
    moreover have "last_state t (rev (out @ [r])) = last_state t (rev out)" for t using readn(1) by (simp add: request_types)
    ultimately have "plan_inv later (out @ [r]) (Some r) S"
      using inv readn(2) by (simp add: plan_inv_def session_append)
    then show ?thesis using \<open>opens r out = []\<close> \<open>closes r later (out @ [r]) = []\<close> by (auto simp: Let_def)
  next
    case remove
    have st: "stringdata r \<noteq> None" and m: "str (made_for REQUEST_OPEN_LOCK r) = ?s"
      using r remove by (auto simp: user_req_def request_types intro!: str_made_for)
    have o: "opens r out = [made_for REQUEST_OPEN_LOCK r]" "closes r later (out @ opens r out @ [r]) = []"
      using remove by (simp_all add: opens_def closes_def request_types)
    have "plan_inv later (out @ [made_for REQUEST_OPEN_LOCK r] @ [r]) (Some r) (S - {?s})"
    proof (rule plan_inv_extend [OF inv st, where p = "made_for REQUEST_OPEN_LOCK r"])
      show "session (Some (made_for REQUEST_OPEN_LOCK r), insert ?s S) [r] = Some (Some r, S - {?s})"
        using remove m by (auto simp: session_step_def request_types)
      show "session (prev, S) [made_for REQUEST_OPEN_LOCK r] = Some (Some (made_for REQUEST_OPEN_LOCK r), insert ?s S)"
        using m by (simp add: session_step_def)
    qed (use m remove in \<open>auto simp: request_types\<close>)
    then show ?thesis using o by (auto simp: Let_def)
  next
    case usage
    have st: "stringdata r \<noteq> None" and m: "str (made_for ty r) = ?s" for ty
      using r usage by (auto simp: user_req_def request_types intro!: str_made_for)
    let ?new1 = "opens r out @ [r]"
    have old: "?s \<in> S \<longleftrightarrow> last_state ?s (rev out) = -1" using inv st by (auto simp: plan_inv_def)
    have o: "opens r out = (if ?s \<in> S then [] else [made_for REQUEST_OPEN r])" using usage old by (auto simp: opens_def request_types)
    have run: "session (prev, S) ?new1 = Some (Some r, insert ?s S)"
      using usage m [of REQUEST_OPEN] by (auto simp: o session_step_def request_types insert_absorb)
    have last: "last_state ?s (rev (out @ ?new1)) = -1" using usage m [of REQUEST_OPEN] old by (auto simp: o request_types)
    show ?thesis by (rule use_closed [OF inv st m run last]) (use usage in \<open>auto simp: request_types\<close>)
  next
    case wr
    have st: "stringdata r \<noteq> None" and m: "str (made_for ty r) = ?s" for ty
      using r wr by (auto simp: user_req_def request_types intro!: str_made_for)
    have o: "opens r out = [made_for REQUEST_CREATE_LOCK r]" using wr by (simp add: opens_def request_types)
    have run: "session (prev, S) (opens r out @ [r]) = Some (Some r, insert ?s S)"
      using wr m [of REQUEST_CREATE_LOCK] by (simp add: o session_step_def request_types)
    have last: "last_state ?s (rev (out @ opens r out @ [r])) = -1"
      using wr m [of REQUEST_CREATE_LOCK] by (simp add: o request_types)
    show ?thesis by (rule use_closed [OF inv st m run last]) (use wr in \<open>auto simp: request_types\<close>)
  qed
qed

lemma plan_session:
  "(\<forall>r \<in> set rs. user_req r) \<Longrightarrow> plan_inv rs out prev S \<Longrightarrow> \<exists>prev'. session (None, {}) (plan rs out) = Some (prev', {})"
proof (induction rs arbitrary: out prev S)
  case Nil
  then show ?case by (auto simp: plan_inv_def)
next
  case (Cons r rs)
  then obtain prev' S' where "plan_inv rs (let out = out @ opens r out @ [r] in out @ closes r rs out) prev' S'"
    using plan_step [of r rs out prev S] by auto
  then show ?case using Cons.IH Cons.prems(1) by (simp add: Let_def)
qed

definition added :: "req \<Rightarrow> bool" where
  "added r \<longleftrightarrow> rq_type r \<in> {REQUEST_OPEN, REQUEST_OPEN_LOCK, REQUEST_CREATE_LOCK, REQUEST_CLOSE}"

lemma plan_keeps_order:
  "(\<forall>r \<in> set rs. user_req r) \<Longrightarrow> filter (\<lambda>r. \<not> added r) (plan rs out) = filter (\<lambda>r. \<not> added r) out @ rs"
proof (induction rs arbitrary: out)
  case (Cons r rs)
  have "\<not> added r" using Cons.prems by (auto simp: user_req_def added_def request_types)
  moreover have "filter (\<lambda>r. \<not> added r) (opens r out) = []" "filter (\<lambda>r. \<not> added r) (closes r rs out') = []" for out'
    by (simp_all add: opens_def closes_def added_def)
  ultimately show ?case using Cons by (simp add: Let_def)
qed simp

text \<open>Whatever the user asks for.\<close>

lemma requests_ordered:
  assumes "\<forall>r \<in> set (reqs arr). user_req r"
  shows "\<exists>out. add_open_create_requests mem_ok arr = (Inr (), out)
    \<and> (\<exists>last. session (None, {}) (reqs out) = Some (last, {}))
    \<and> filter (\<lambda>r. \<not> added r) (reqs out) = reqs arr"
proof -
  obtain n where n: "open_create_loop mem_ok (reqs arr) no_reqs = (Inr (), \<lparr>reqs = plan (reqs arr) [], reqs_size = n\<rparr>)"
    using open_create_loop_plan [of "reqs arr" no_reqs] by (auto simp: no_reqs_def)
  have "last_state s [] \<noteq> -1" for s by simp
  then have "plan_inv (reqs arr) [] None {}" by (simp add: plan_inv_def)
  then show ?thesis using plan_session [OF assms] plan_keeps_order [OF assms, of "[]"] n
    by (simp add: add_open_create_requests_def)
qed

end
