(* ===== verification/Client_Expand.thy ===== *)
theory Client_Expand
  imports Client_Requests
begin

text \<open>
  From the options of the user to single requests (\<open>source/client/client_parser_2.c\<close>): lists of
  files are split at their commas, names are made absolute, and a directory becomes one request
  for each of its files. The results of the functions are not looked at by their caller, so a
  failure only cuts the expansion short. The directories are read through \<open>opendir\<close>, a map from
  paths to entries; \<open>cwd\<close> is the current directory with its final slash.
\<close>

subsection \<open>Lists of files\<close>

text \<open>A directory that goes with a request is copied for each of its parts.\<close>

definition copy_dir :: "nat \<Rightarrow> byte list option \<Rightarrow> byte list option" where
  "copy_dir len dir = (if len = 0 then None else Some (resize_block len (cstr (block dir))))"

definition absolute :: "byte list \<Rightarrow> byte list \<Rightarrow> byte list" where
  "absolute cwd token = (if take 1 token = [47] then token else cwd @ token)"

definition part_of :: "req \<Rightarrow> byte list \<Rightarrow> byte list \<Rightarrow> req" where
  "part_of r cwd token = init_request\<lparr>rq_type := rq_type r, stringdata := Some (absolute cwd token @ [0]),
     stringdata_len := length (absolute cwd token) + 1, rq_dir := copy_dir (dir_len r) (rq_dir r), dir_len := dir_len r\<rparr>"

function split_loop :: "allocator \<Rightarrow> req \<Rightarrow> byte list \<Rightarrow> byte list \<Rightarrow> req_array \<Rightarrow> req_array" where
  "split_loop al r cwd s arr =
     (case strtok_r (chars '','') s of
        (None, _) \<Rightarrow> arr
      | (Some token, save) \<Rightarrow>
          let q = part_of r cwd token in
          if \<not> al (of_nat (stringdata_len q)) \<or> dir_len r \<noteq> 0 \<and> \<not> al (of_nat (dir_len r)) then arr
          else split_loop al r cwd save (snd (add_request al q arr)))"
  by pat_completeness auto

termination
  by (relation "measure (\<lambda>(_, _, _, s, _). length s)") (auto dest: strtok_r_shorter [OF sym])

declare split_loop.simps [simp del]

definition split_and_fix_request_files :: "allocator \<Rightarrow> req \<Rightarrow> byte list \<Rightarrow> req_array \<Rightarrow> req_array" where
  "split_and_fix_request_files al r cwd arr = split_loop al r cwd (str r) arr"

subsection \<open>Directories\<close>

datatype dtype = DT_REG | DT_DIR | DT_OTHER

type_synonym dirent = "byte list \<times> dtype"

text \<open>The path that is opened, and the bytes that are put before the names: an absolute path
  that already ends in a slash is copied without its NUL, so what \<open>malloc\<close> left behind it
  (\<open>junk\<close>, up to the next NUL) is part of the string that \<open>opendir\<close> gets.\<close>

definition dir_path :: "byte list \<Rightarrow> byte list \<Rightarrow> byte list" where
  "dir_path cwd dirname = (let p = absolute cwd dirname in if last p = 47 then p else p @ [47])"

definition dir_arg :: "byte list \<Rightarrow> byte list \<Rightarrow> byte list \<Rightarrow> byte list" where
  "dir_arg junk cwd dirname =
     (if take 1 dirname = [47] \<and> last dirname = 47 then dirname @ junk else dir_path cwd dirname)"

definition file_req :: "nat \<Rightarrow> byte list option \<Rightarrow> byte list \<Rightarrow> byte list \<Rightarrow> req" where
  "file_req dlen dir abspath name = init_request\<lparr>rq_type := REQUEST_WRITE, stringdata := Some (abspath @ name @ [0]),
     stringdata_len := length abspath + length name + 1, rq_dir := copy_dir dlen dir, dir_len := dlen\<rparr>"

text \<open>The arguments that the recursion hands down unchanged, with the allocator and \<open>opendir\<close>.\<close>

record dir_args =
  x_alloc :: allocator
  x_opendir :: "byte list \<Rightarrow> dirent list option"
  x_junk :: "byte list"
  x_max :: int
  x_retdir :: "byte list option"
  x_retdir_size :: nat

definition one_file :: "dir_args \<Rightarrow> byte list \<Rightarrow> byte list \<Rightarrow> req" where
  "one_file X abspath name = file_req (x_retdir_size X) (x_retdir X) abspath name"

definition one_file_mem :: "dir_args \<Rightarrow> req \<Rightarrow> bool" where
  "one_file_mem X q \<longleftrightarrow> x_alloc X (of_nat (stringdata_len q)) \<and> (x_retdir_size X \<noteq> 0 \<longrightarrow> x_alloc X (of_nat (x_retdir_size X)))"

definition open_dir :: "dir_args \<Rightarrow> byte list \<Rightarrow> byte list \<Rightarrow> dirent list option" where
  "open_dir X cwd dirname =
     (if x_alloc X (of_nat (length (dir_path cwd dirname) + 1)) then x_opendir X (dir_arg (x_junk X) cwd dirname) else None)"

text \<open>The loop over the entries of one directory, with the recursive call for a subdirectory in
  place. It ends when the directories do; the result is the count and the requests.\<close>

partial_function (option) dir_loop ::
    "dir_args \<Rightarrow> byte list \<Rightarrow> dirent list \<Rightarrow> int \<Rightarrow> req_array \<Rightarrow> (int \<times> req_array) option" where
  "dir_loop X abspath entries count arr =
     (case entries of
        [] \<Rightarrow> Some (count, arr)
      | e # rest \<Rightarrow>
          if \<not> (x_max X = 0 \<or> count < x_max X) then Some (count, arr)
          else if snd e = DT_REG then
            (if one_file_mem X (one_file X abspath (fst e))
             then dir_loop X abspath rest (count + 1) (snd (add_request (x_alloc X) (one_file X abspath (fst e)) arr))
             else Some (count, arr))
          else if snd e = DT_DIR \<and> fst e \<noteq> [46] \<and> fst e \<noteq> [46, 46] then
            (case open_dir X abspath (fst e) of
               None \<Rightarrow> dir_loop X abspath rest count arr
             | Some sub \<Rightarrow>
                 Option.bind (dir_loop X (dir_path abspath (fst e)) sub count arr)
                   (\<lambda>st. dir_loop X abspath rest (fst st) (snd st)))
          else dir_loop X abspath rest count arr)"

definition expand_dir_to_files :: "dir_args \<Rightarrow> byte list \<Rightarrow> byte list \<Rightarrow> req_array \<Rightarrow> (int \<times> req_array) option" where
  "expand_dir_to_files X dirname cwd arr =
     (case open_dir X cwd dirname of
        None \<Rightarrow> Some (0, arr)
      | Some entries \<Rightarrow> dir_loop X (dir_path cwd dirname) entries 0 arr)"

fun expand_loop ::
    "allocator \<Rightarrow> (byte list \<Rightarrow> dirent list option) \<Rightarrow> byte list \<Rightarrow> byte list \<Rightarrow> req list \<Rightarrow> req_array \<Rightarrow> req_array option" where
  "expand_loop al opendir junk cwd [] arr = Some arr"
| "expand_loop al opendir junk cwd (r # rs) arr =
     (if rq_type r = REQUEST_WRITE_DIR then
        Option.bind (expand_dir_to_files \<lparr>x_alloc = al, x_opendir = opendir, x_junk = junk, x_max = rq_n r,
            x_retdir = rq_dir r, x_retdir_size = dir_len r\<rparr> (str r) cwd arr)
          (\<lambda>st. expand_loop al opendir junk cwd rs (snd st))
      else if rq_type r = REQUEST_READN then expand_loop al opendir junk cwd rs (snd (add_request al r arr))
      else expand_loop al opendir junk cwd rs (split_and_fix_request_files al r cwd arr))"

definition expand_requests ::
    "allocator \<Rightarrow> (byte list \<Rightarrow> dirent list option) \<Rightarrow> byte list \<Rightarrow> byte list \<Rightarrow> req_array \<Rightarrow> req_array option" where
  "expand_requests al opendir junk cwd arr = expand_loop al opendir junk cwd (reqs arr) no_reqs"

subsection \<open>Splitting at commas\<close>

text \<open>The reference: cut at every comma, and forget the empty parts.\<close>

fun commas :: "byte list \<Rightarrow> byte list list" where
  "commas [] = [[]]"
| "commas (b # bs) = (if b = 44 then [] # commas bs else (case commas bs of [] \<Rightarrow> [[b]] | w # ws \<Rightarrow> (b # w) # ws))"

definition parts :: "byte list \<Rightarrow> byte list list" where
  "parts s = filter (\<lambda>w. w \<noteq> []) (commas s)"

lemma comma_char: "chars '','' = [44]"
  by code_simp

lemma commas_not_Nil [simp]: "commas s \<noteq> []"
  by (induction s) (auto split: list.split)

lemma commas_word: "44 \<notin> set w \<Longrightarrow> commas (w @ 44 # s) = w # commas s"
  by (induction w) auto

lemma commas_last: "44 \<notin> set w \<Longrightarrow> commas w = [w]"
  by (induction w) auto

lemma parts_skip: "parts (dropWhile (\<lambda>b. b = 44) s) = parts s"
  by (induction s) (auto simp: parts_def)

lemma parts_split:
  "44 \<notin> set w \<Longrightarrow> w \<noteq> [] \<Longrightarrow> r = [] \<or> hd r = 44 \<Longrightarrow> parts (w @ r) = w # parts (drop 1 r)"
  by (cases r) (auto simp: parts_def commas_last commas_word)

lemma parts_tok:
  "parts s = (case strtok_r [44] s of (None, _) \<Rightarrow> [] | (Some w, r) \<Rightarrow> w # parts r)"
proof -
  let ?s = "dropWhile (\<lambda>b. b = 44) s"
  let ?w = "takeWhile (\<lambda>b. b \<noteq> 44) ?s" and ?r = "dropWhile (\<lambda>b. b \<noteq> 44) ?s"
  show ?thesis
  proof (cases "?s = []")
    case True
    then have "parts s = []" using parts_skip [of s] by (simp only:) (simp add: parts_def)
    then show ?thesis using True by (simp add: strtok_r_def)
  next
    case False
    then have "hd ?s \<noteq> 44" using hd_dropWhile by blast
    then have w: "?w \<noteq> []" "44 \<notin> set ?w" using False by (cases ?s; auto dest: set_takeWhileD)+
    have tok: "strtok_r [44] s = (Some ?w, drop 1 ?r)" using False by (simp add: strtok_r_def Let_def)
    have "?r = [] \<or> hd ?r = 44" using hd_dropWhile [of "\<lambda>b. b \<noteq> 44" ?s] by blast
    from parts_split [OF w(2,1) this] have "parts ?s = ?w # parts (drop 1 ?r)" unfolding takeWhile_dropWhile_id .
    then show ?thesis unfolding parts_skip tok by simp
  qed
qed

lemma split_loop_parts:
  "reqs (split_loop mem_ok r cwd s arr) = reqs arr @ map (part_of r cwd) (parts s)"
proof (induction "length s" arbitrary: s arr rule: less_induct)
  case less
  show ?case
  proof (cases "strtok_r [44] s")
    case (Pair t save)
    show ?thesis
    proof (cases t)
      case None
      then show ?thesis using parts_tok [of s] Pair by (simp add: split_loop.simps comma_char)
    next
      case (Some w)
      obtain n where "add_request mem_ok (part_of r cwd w) arr = (Inr (), \<lparr>reqs = reqs arr @ [part_of r cwd w], reqs_size = n\<rparr>)"
        using add_request_ok by blast
      then show ?thesis using parts_tok [of s] Pair Some less [of save] strtok_r_shorter [of "[44]" s w save]
        by (simp add: split_loop.simps [of _ _ _ s] comma_char mem_ok)
    qed
  qed
qed

subsection \<open>Walking a tree\<close>

text \<open>A directory as the tree it is. The names of its entries are not empty and contain no slash.\<close>

datatype node = File "byte list" | Dir "byte list" "node list" | Special "byte list"

fun entry :: "node \<Rightarrow> dirent" where
  "entry (File n) = (n, DT_REG)"
| "entry (Dir n _) = (n, DT_DIR)"
| "entry (Special n) = (n, DT_OTHER)"

definition dots :: "byte list \<Rightarrow> bool" where
  "dots n \<longleftrightarrow> n = [46] \<or> n = [46, 46]"

text \<open>The files below a directory, in the order of the walk, each with the path of its directory.\<close>

fun files_below :: "byte list \<Rightarrow> node \<Rightarrow> (byte list \<times> byte list) list" where
  "files_below p (File n) = [(p, n)]"
| "files_below p (Dir n kids) = (if dots n then [] else concat (map (files_below (p @ n @ [47])) kids))"
| "files_below p (Special n) = []"

text \<open>\<open>opendir\<close> shows this tree at the path \<open>p\<close>.\<close>

fun mounted :: "(byte list \<Rightarrow> dirent list option) \<Rightarrow> byte list \<Rightarrow> node \<Rightarrow> bool" where
  "mounted opendir p (File n) \<longleftrightarrow> n \<noteq> [] \<and> 47 \<notin> set n"
| "mounted opendir p (Dir n kids) \<longleftrightarrow> n \<noteq> [] \<and> 47 \<notin> set n \<and>
     (dots n \<or> opendir (p @ n @ [47]) = Some (map entry kids) \<and> (\<forall>k \<in> set kids. mounted opendir (p @ n @ [47]) k))"
| "mounted opendir p (Special n) \<longleftrightarrow> True"

definition up_to :: "int \<Rightarrow> int \<Rightarrow> 'a list \<Rightarrow> 'a list" where
  "up_to mx count xs = (if mx = 0 then xs else take (nat (mx - count)) xs)"

lemma up_to_Nil [simp]: "up_to mx count [] = []"
  by (simp add: up_to_def)

lemma up_to_append: "up_to mx count (xs @ ys) = up_to mx count xs @ up_to mx (count + int (length (up_to mx count xs))) ys"
proof (cases "mx = 0 \<or> nat (mx - count) \<le> length xs")
  case True
  then show ?thesis by (auto simp: up_to_def)
next
  case False
  then have "nat (mx - count) - length xs = nat (mx - (count + int (length xs)))" by linarith
  then show ?thesis using False by (simp add: up_to_def)
qed

lemma up_to_stop: "\<not> (mx = 0 \<or> count < mx) \<Longrightarrow> up_to mx count xs = []"
  by (simp add: up_to_def)

lemma open_dir_name:
  assumes "47 \<notin> set n" and "n \<noteq> []" and "x_alloc X = mem_ok"
  shows "open_dir X p n = x_opendir X (p @ n @ [47])" and "dir_path p n = p @ n @ [47]"
proof -
  have a: "absolute p n = p @ n" "take 1 n \<noteq> [47]" using assms(1,2) by (cases n; simp add: absolute_def)+
  moreover have "last (p @ n) \<noteq> 47" using assms(1,2) by (metis last_appendR last_in_set)
  ultimately show d: "dir_path p n = p @ n @ [47]" by (simp add: dir_path_def Let_def)
  show "open_dir X p n = x_opendir X (p @ n @ [47])" using a(2) assms(3) d by (simp add: open_dir_def dir_arg_def mem_ok)
qed

definition walked :: "dir_args \<Rightarrow> byte list \<Rightarrow> node list \<Rightarrow> int \<Rightarrow> (byte list \<times> byte list) list" where
  "walked X p nodes count = up_to (x_max X) count (concat (map (files_below p) nodes))"

definition walk_result :: "dir_args \<Rightarrow> byte list \<Rightarrow> node list \<Rightarrow> int \<Rightarrow> req_array \<Rightarrow> int \<times> req_array \<Rightarrow> bool" where
  "walk_result X p nodes count arr st \<longleftrightarrow>
     fst st = count + int (length (walked X p nodes count))
   \<and> reqs (snd st) = reqs arr @ map (\<lambda>f. one_file X (fst f) (snd f)) (walked X p nodes count)"

lemma walk_result_Cons:
  assumes "walk_result X p [k] count arr st" and "walk_result X p ks (fst st) (snd st) st'"
  shows "walk_result X p (k # ks) count arr st'"
proof -
  have "walked X p (k # ks) count = walked X p [k] count @ walked X p ks (fst st)"
    using assms(1) by (simp add: walked_def walk_result_def up_to_append)
  then show ?thesis using assms by (simp add: walk_result_def)
qed

lemma dir_loop_walks:
  assumes mem: "x_alloc X = mem_ok"
  shows "\<forall>k \<in> set nodes. mounted (x_opendir X) p k \<Longrightarrow>
    \<exists>st. dir_loop X p (map entry nodes) count arr = Some st \<and> walk_result X p nodes count arr st"
proof (induction "size_list size nodes" arbitrary: nodes p count arr rule: less_induct)
  case less
  show ?case
  proof (cases nodes)
    case Nil
    then show ?thesis by (simp add: dir_loop.simps walk_result_def walked_def)
  next
    case (Cons k ks)
    have IH: "\<exists>st. dir_loop X p (map entry ks) count arr = Some st \<and> walk_result X p ks count arr st" for count arr
      using less.hyps [of ks p] less.prems Cons by simp
    note step = dir_loop.simps [of X p "map entry nodes" count arr]
    show ?thesis
    proof (cases "x_max X = 0 \<or> count < x_max X")
      case False
      then show ?thesis using step Cons by (simp add: walk_result_def walked_def up_to_stop)
    next
      case go: True
      show ?thesis
      proof (cases k)
        case (File n)
        let ?q = "one_file X p n"
        obtain sz where q: "add_request mem_ok ?q arr = (Inr (), \<lparr>reqs = reqs arr @ [?q], reqs_size = sz\<rparr>)"
          using add_request_ok by blast
        have "walk_result X p [k] count arr (count + 1, \<lparr>reqs = reqs arr @ [?q], reqs_size = sz\<rparr>)"
          using go by (auto simp: File walk_result_def walked_def up_to_def)
        moreover obtain st where "dir_loop X p (map entry ks) (count + 1) \<lparr>reqs = reqs arr @ [?q], reqs_size = sz\<rparr> = Some st"
            "walk_result X p ks (count + 1) \<lparr>reqs = reqs arr @ [?q], reqs_size = sz\<rparr> st"
          using IH by blast
        moreover from this(1) have "dir_loop X p (map entry nodes) count arr = Some st"
          using step go q by (simp add: Cons File mem one_file_mem_def mem_ok)
        ultimately show ?thesis unfolding Cons by (metis walk_result_Cons fst_conv snd_conv)
      next
        case (Special n)
        then have "walked X p (k # ks) count = walked X p ks count" by (simp add: walked_def)
        moreover have "dir_loop X p (map entry nodes) count arr = dir_loop X p (map entry ks) count arr"
          using step go by (simp add: Cons Special)
        ultimately show ?thesis using IH [of count arr] by (simp add: Cons walk_result_def)
      next
        case (Dir n kids)
        have m: "mounted (x_opendir X) p (Dir n kids)" using less.prems by (simp add: Cons Dir)
        show ?thesis
        proof (cases "dots n")
          case True
          then have "walked X p (k # ks) count = walked X p ks count" by (simp add: walked_def Dir)
          moreover have "dir_loop X p (map entry nodes) count arr = dir_loop X p (map entry ks) count arr"
            using step go True by (auto simp: Cons Dir dots_def)
          ultimately show ?thesis using IH [of count arr] by (simp add: Cons walk_result_def)
        next
          case False
          then have k: "\<forall>q \<in> set kids. mounted (x_opendir X) (p @ n @ [47]) q"
            and o: "open_dir X p n = Some (map entry kids)" "dir_path p n = p @ n @ [47]"
            using m open_dir_name [of n X p] mem by auto
          have "size_list size kids < size_list size nodes" by (simp add: Cons Dir)
          from less.hyps [OF this k] obtain st where st: "dir_loop X (p @ n @ [47]) (map entry kids) count arr = Some st"
              "walk_result X (p @ n @ [47]) kids count arr st" by blast
          obtain st' where st': "dir_loop X p (map entry ks) (fst st) (snd st) = Some st'" "walk_result X p ks (fst st) (snd st) st'"
            using IH by blast
          have "walk_result X p [k] count arr st" using st(2) False by (simp add: walk_result_def walked_def Dir)
          moreover have "dir_loop X p (map entry nodes) count arr = Some st'"
            using step go False st(1) st'(1) by (simp add: Cons Dir dots_def o)
          ultimately show ?thesis unfolding Cons using walk_result_Cons st'(2) by blast
        qed
      qed
    qed
  qed
qed

text \<open>Expanding a directory: the first files of the tree, in the order of the walk, and no more than
  asked for; nothing when it cannot be opened.\<close>

lemma directory_expanded:
  assumes mem: "x_alloc X = mem_ok"
    and tree: "case x_opendir X (dir_arg (x_junk X) cwd d) of
           None \<Rightarrow> nodes = []
         | Some entries \<Rightarrow> entries = map entry nodes \<and> (\<forall>k \<in> set nodes. mounted (x_opendir X) (dir_path cwd d) k)"
  shows "\<exists>st. expand_dir_to_files X d cwd arr = Some st \<and> walk_result X (dir_path cwd d) nodes 0 arr st"
proof -
  have o: "open_dir X cwd d = x_opendir X (dir_arg (x_junk X) cwd d)" using mem by (simp add: open_dir_def mem_ok)
  show ?thesis
  proof (cases "open_dir X cwd d")
    case None
    then show ?thesis using tree by (simp add: o expand_dir_to_files_def walk_result_def walked_def)
  next
    case (Some entries)
    then show ?thesis using dir_loop_walks [OF mem, of nodes] tree by (simp add: o expand_dir_to_files_def)
  qed
qed

subsection \<open>What the expansion yields\<close>

text \<open>The requests the parser makes.\<close>

definition parsed_req :: "req \<Rightarrow> bool" where
  "parsed_req r \<longleftrightarrow>
     rq_type r = REQUEST_READN \<and> stringdata r = None
   \<or> rq_type r \<in> {REQUEST_READ, REQUEST_WRITE, REQUEST_WRITE_DIR, REQUEST_APPEND, REQUEST_LOCK, REQUEST_UNLOCK, REQUEST_REMOVE}"

lemma request_of_option_types:
  "request_of_option c = Some ty \<Longrightarrow>
   ty \<in> {REQUEST_READN, REQUEST_READ, REQUEST_WRITE, REQUEST_WRITE_DIR, REQUEST_APPEND, REQUEST_LOCK, REQUEST_UNLOCK, REQUEST_REMOVE}"
  by (auto simp: request_of_option_def split: if_splits)

lemma add_request_reqs: "reqs (snd (add_request al r arr)) \<in> {[], reqs arr @ [r]}"
  by (auto simp: add_request_def no_reqs_def)

lemma add_request_all: "(\<forall>q \<in> set (reqs arr). P q) \<Longrightarrow> P r \<Longrightarrow> \<forall>q \<in> set (reqs (snd (add_request al r arr))). P q"
  using add_request_reqs [of al r arr] by auto

lemma made_request:
  "rq_type q = ty \<Longrightarrow> (ty = REQUEST_READN \<longrightarrow> stringdata q = None) \<Longrightarrow>
   \<exists>q'. add_request al q arr = add_request al q' arr \<and> rq_type q' = ty \<and> (ty = REQUEST_READN \<longrightarrow> stringdata q' = None)"
  by blast

lemma cmd_to_request_result:
  assumes "cmd_to_request al ty optarg arr = Some out"
  shows "out = (Inl ENOMEM, arr) \<or>
    (\<exists>q. out = add_request al q arr \<and> rq_type q = ty \<and> (ty = REQUEST_READN \<longrightarrow> stringdata q = None))"
proof -
  have out: "out = the (cmd_to_request al ty optarg arr)" "cmd_to_request al ty optarg arr \<noteq> None" using assms by simp_all
  show ?thesis
    using out(2) unfolding out(1) cmd_to_request_def Let_def init_request_def
    by (auto intro!: made_request split: if_splits option.splits prod.splits)
qed

lemma cmd_to_request_parsed:
  assumes "cmd_to_request al ty optarg arr = Some (x, arr')" and "request_of_option c = Some ty"
    and "\<forall>r \<in> set (reqs arr). parsed_req r"
  shows "\<forall>r \<in> set (reqs arr'). parsed_req r"
proof -
  from cmd_to_request_result [OF assms(1)]
  consider "arr' = arr"
    | q where "(x, arr') = add_request al q arr" "rq_type q = ty" "ty = REQUEST_READN \<longrightarrow> stringdata q = None" by blast
  then show ?thesis
  proof cases
    case 1
    then show ?thesis using assms(3) by simp
  next
    case 2
    then have "arr' = snd (add_request al q arr)" by (metis snd_conv)
    moreover have "parsed_req q" using 2 request_of_option_types [OF assms(2)] by (auto simp: parsed_req_def)
    ultimately show ?thesis using add_request_all [OF assms(3)] by simp
  qed
qed

lemma write_dir_parsed:
  assumes "write_dir_to_last_request al optarg arr = Some (x, arr')" and "\<forall>r \<in> set (reqs arr). parsed_req r"
  shows "\<forall>r \<in> set (reqs arr'). parsed_req r"
proof (cases "reqs arr = []")
  case True
  then show ?thesis using assms(1) by (auto simp: write_dir_to_last_request_def Let_def split: if_splits)
next
  case False
  let ?i = "length (reqs arr) - 1"
  have "parsed_req (reqs arr ! ?i)" using assms(2) False by simp
  then have "parsed_req ((reqs arr ! ?i)\<lparr>rq_dir := d, dir_len := n\<rparr>)" for d n by (simp add: parsed_req_def)
  then have "\<forall>r \<in> set ((reqs arr)[?i := (reqs arr ! ?i)\<lparr>rq_dir := d, dir_len := n\<rparr>]). parsed_req r" for d n
    using assms(2) by (intro ball_slot)
  moreover obtain d n where "reqs arr' = (reqs arr)[?i := (reqs arr ! ?i)\<lparr>rq_dir := d, dir_len := n\<rparr>]"
    using assms(1) by (auto simp: write_dir_to_last_request_def Let_def split: if_splits)
  ultimately show ?thesis by simp
qed

lemma parse_opts_parsed:
  "parse_opts al prec opts p = Some (n, p') \<Longrightarrow> \<forall>r \<in> set (reqs (p_reqs p)). parsed_req r \<Longrightarrow>
   \<forall>r \<in> set (reqs (p_reqs p')). parsed_req r"
proof (induction opts arbitrary: prec p)
  case (Cons o1 opts)
  obtain c optarg where o1: "o1 = (c, optarg)" by (cases o1)
  show ?case
  proof (cases "request_of_option c")
    case (Some ty)
    then obtain x arr where a: "cmd_to_request al ty optarg (p_reqs p) = Some (x, arr)"
      using Cons.prems(1) by (auto simp: o1 split: option.splits)
    note ok = cmd_to_request_parsed [OF a Some Cons.prems(2)]
    show ?thesis
    proof (cases x)
      case (Inl e)
      then show ?thesis using Cons.prems(1) ok Some a by (auto simp: o1)
    next
      case (Inr u)
      then have "parse_opts al c opts (p\<lparr>p_reqs := arr\<rparr>) = Some (n, p')" using Cons.prems(1) Some a by (simp add: o1)
      then show ?thesis using Cons.IH ok by simp
    qed
  next
    case None
    show ?thesis
    proof (cases "c \<noteq> 104 \<and> c \<noteq> 102 \<and> c \<noteq> 112 \<and> c \<noteq> 116 \<and> (c = 68 \<and> prec \<in> {119, 87, 97} \<or> c = 100 \<and> prec \<in> {114, 82})")
      case True
      then obtain x arr where a: "write_dir_to_last_request al (block optarg) (p_reqs p) = Some (x, arr)"
        using Cons.prems(1) None by (auto simp: o1 split: option.splits)
      note ok = write_dir_parsed [OF a Cons.prems(2)]
      show ?thesis
      proof (cases x)
        case (Inl e)
        then show ?thesis using Cons.prems(1) ok None a True by (auto simp: o1)
      next
        case (Inr u)
        then have "parse_opts al c opts (p\<lparr>p_reqs := arr\<rparr>) = Some (n, p')" using Cons.prems(1) None a True by (auto simp: o1)
        then show ?thesis using Cons.IH ok by simp
      qed
    next
      case False
      then have "p_reqs p' = p_reqs p \<or> (\<exists>q. p_reqs q = p_reqs p \<and> parse_opts al c opts q = Some (n, p'))"
        using Cons.prems(1) None by (auto simp: o1 Let_def split: if_splits)
      then show ?thesis using Cons.IH Cons.prems(2) by metis
    qed
  qed
qed simp

lemma cstr_nul_end: "cstr (xs @ [0]) = cstr xs"
  unfolding cstr_def by (induction xs) auto

lemma user_part: "parsed_req r \<Longrightarrow> rq_type r \<noteq> REQUEST_WRITE_DIR \<Longrightarrow> rq_type r \<noteq> REQUEST_READN \<Longrightarrow> user_req (part_of r cwd w)"
  using length_cstr_le [of "absolute cwd w"]
  by (auto simp: parsed_req_def user_req_def part_of_def init_request_def str_def cstr_nul_end)

lemma user_file: "user_req (file_req dlen dir p n)"
proof -
  have "length (cstr ((p @ n) @ [0])) \<le> length (p @ n)" unfolding cstr_nul_end by (rule length_cstr_le)
  then show ?thesis by (simp add: user_req_def file_req_def init_request_def str_def)
qed

lemma split_loop_user:
  "parsed_req r \<Longrightarrow> rq_type r \<noteq> REQUEST_WRITE_DIR \<Longrightarrow> rq_type r \<noteq> REQUEST_READN \<Longrightarrow> \<forall>q \<in> set (reqs arr). user_req q \<Longrightarrow>
   \<forall>q \<in> set (reqs (split_loop al r cwd s arr)). user_req q"
proof (induction al r cwd s arr rule: split_loop.induct)
  case (1 al r cwd s arr)
  show ?case
  proof (cases "fst (strtok_r (chars '','') s)")
    case None
    then show ?thesis using 1 by (subst split_loop.simps) (simp add: split_def)
  next
    case (Some w)
    then obtain save where t: "strtok_r (chars '','') s = (Some w, save)" by (cases "strtok_r (chars '','') s") auto
    show ?thesis
    proof (cases "\<not> al (of_nat (stringdata_len (part_of r cwd w))) \<or> dir_len r \<noteq> 0 \<and> \<not> al (of_nat (dir_len r))")
      case True
      then show ?thesis using 1 by (subst split_loop.simps) (simp add: t Let_def)
    next
      case False
      have "\<forall>q \<in> set (reqs (snd (add_request al (part_of r cwd w) arr))). user_req q"
        using add_request_all [OF "1.prems"(4) user_part [OF "1.prems"(1-3)]] .
      from "1.IH" [OF t [symmetric] refl refl False "1.prems"(1-3) this] False
      show ?thesis by (subst split_loop.simps) (auto simp add: t Let_def)
    qed
  qed
qed

definition stays_user :: "req_array \<Rightarrow> int \<times> req_array \<Rightarrow> bool" where
  "stays_user arr st \<longleftrightarrow> (\<forall>r \<in> set (reqs arr). user_req r) \<longrightarrow> (\<forall>r \<in> set (reqs (snd st)). user_req r)"

lemma dir_loop_user:
  assumes "dir_loop X p entries count arr = Some st"
  shows "stays_user arr st"
proof (rule dir_loop.raw_induct [OF _ assms, of "\<lambda>X p entries count arr st. stays_user arr st"])
  fix loop X p entries count arr st
  assume IH: "\<And>X p entries count arr st. loop X p entries count arr = Some st \<Longrightarrow> stays_user arr st"
    and body: "(case entries of [] \<Rightarrow> Some (count, arr)
      | e # rest \<Rightarrow>
          if \<not> (x_max X = 0 \<or> count < x_max X) then Some (count, arr)
          else if snd e = DT_REG then
            (if one_file_mem X (one_file X p (fst e))
             then loop X p rest (count + 1) (snd (add_request (x_alloc X) (one_file X p (fst e)) arr))
             else Some (count, arr))
          else if snd e = DT_DIR \<and> fst e \<noteq> [46] \<and> fst e \<noteq> [46, 46] then
            (case open_dir X p (fst e) of
               None \<Rightarrow> loop X p rest count arr
             | Some sub \<Rightarrow> Option.bind (loop X (dir_path p (fst e)) sub count arr) (\<lambda>st. loop X p rest (fst st) (snd st)))
          else loop X p rest count arr) = Some st"
  show "stays_user arr st"
    unfolding stays_user_def
  proof
    assume ok: "\<forall>r \<in> set (reqs arr). user_req r"
    have add: "\<forall>r \<in> set (reqs (snd (add_request (x_alloc X) (one_file X p n) arr))). user_req r" for n
      using add_request_all [OF ok user_file] by (simp add: one_file_def)
    have step: "\<forall>r \<in> set (reqs (snd b)). user_req r" if "loop X q es c a = Some b" "\<forall>r \<in> set (reqs a). user_req r" for q es c a b
      using IH [OF that(1)] that(2) by (simp add: stays_user_def)
    show "\<forall>r \<in> set (reqs (snd st)). user_req r"
    proof (cases entries)
      case Nil
      then show ?thesis using body ok by auto
    next
      case (Cons e rest)
      note P = body [unfolded Cons list.case]
      consider (stop) "\<not> (x_max X = 0 \<or> count < x_max X)"
        | (reg) "x_max X = 0 \<or> count < x_max X" "snd e = DT_REG"
        | (dir) "x_max X = 0 \<or> count < x_max X" "snd e = DT_DIR \<and> fst e \<noteq> [46] \<and> fst e \<noteq> [46, 46]"
        | (other) "x_max X = 0 \<or> count < x_max X" "snd e \<noteq> DT_REG" "\<not> (snd e = DT_DIR \<and> fst e \<noteq> [46] \<and> fst e \<noteq> [46, 46])" by auto
      then show ?thesis
      proof cases
        case stop
        then show ?thesis using P ok by auto
      next
        case reg
        show ?thesis
        proof (cases "one_file_mem X (one_file X p (fst e))")
          case True
          then have "loop X p rest (count + 1) (snd (add_request (x_alloc X) (one_file X p (fst e)) arr)) = Some st"
            using P reg by auto
          then show ?thesis by (rule step [OF _ add])
        next
          case False
          then show ?thesis using P reg ok by auto
        qed
      next
        case other
        then have "loop X p rest count arr = Some st" using P by auto
        then show ?thesis by (rule step [OF _ ok])
      next
        case dir
        show ?thesis
        proof (cases "open_dir X p (fst e)")
          case None
          then have "loop X p rest count arr = Some st" using P dir by auto
          then show ?thesis by (rule step [OF _ ok])
        next
          case (Some sub)
          then obtain b where b: "loop X (dir_path p (fst e)) sub count arr = Some b" "loop X p rest (fst b) (snd b) = Some st"
            using P dir by (auto simp: bind_eq_Some_conv)
          show ?thesis by (rule step [OF b(2) step [OF b(1) ok]])
        qed
      qed
    qed
  qed
qed

lemma expand_loop_user:
  "\<forall>r \<in> set rs. parsed_req r \<Longrightarrow> \<forall>q \<in> set (reqs arr). user_req q \<Longrightarrow> expand_loop al opendir junk cwd rs arr = Some arr' \<Longrightarrow>
   \<forall>q \<in> set (reqs arr'). user_req q"
proof (induction rs arbitrary: arr)
  case (Cons r rs)
  have r: "parsed_req r" and rs: "\<forall>r \<in> set rs. parsed_req r" using Cons.prems(1) by simp_all
  note IH = Cons.IH [OF rs]
  consider (dir) "rq_type r = REQUEST_WRITE_DIR" | (readn) "rq_type r = REQUEST_READN" "rq_type r \<noteq> REQUEST_WRITE_DIR"
    | (part) "rq_type r \<noteq> REQUEST_WRITE_DIR" "rq_type r \<noteq> REQUEST_READN" by blast
  then show ?case
  proof cases
    case dir
    let ?X = "\<lparr>x_alloc = al, x_opendir = opendir, x_junk = junk, x_max = rq_n r, x_retdir = rq_dir r, x_retdir_size = dir_len r\<rparr>"
    obtain st where st: "expand_dir_to_files ?X (str r) cwd arr = Some st" "expand_loop al opendir junk cwd rs (snd st) = Some arr'"
      using Cons.prems(3) dir by (auto simp: bind_eq_Some_conv)
    have "\<forall>q \<in> set (reqs (snd st)). user_req q"
      using st(1) Cons.prems(2) dir_loop_user by (auto simp: expand_dir_to_files_def stays_user_def split: option.splits)
    then show ?thesis using IH st(2) by blast
  next
    case readn
    have "user_req r" using r readn by (auto simp: parsed_req_def user_req_def request_types)
    have "expand_loop al opendir junk cwd rs (snd (add_request al r arr)) = Some arr'"
      using Cons.prems(3) unfolding expand_loop.simps if_not_P [OF readn(2)] if_P [OF readn(1)] .
    then show ?thesis by (rule IH [OF add_request_all [OF Cons.prems(2) \<open>user_req r\<close>]])
  next
    case part
    have "expand_loop al opendir junk cwd rs (split_and_fix_request_files al r cwd arr) = Some arr'"
      using Cons.prems(3) unfolding expand_loop.simps if_not_P [OF part(1)] if_not_P [OF part(2)] .
    then show ?thesis unfolding split_and_fix_request_files_def by (rule IH [OF split_loop_user [OF r part Cons.prems(2)]])
  qed
qed simp

text \<open>Whatever the command line and the directories hold.\<close>

lemma expanded_user:
  assumes "parse_args al argv p0 = Some (n, p)" and "reqs (p_reqs p0) = []"
    and "expand_requests al opendir junk cwd (p_reqs p) = Some arr"
  shows "\<forall>r \<in> set (reqs arr). user_req r"
proof -
  have "\<forall>r \<in> set (reqs (p_reqs p)). parsed_req r"
    using parse_opts_parsed [OF assms(1) [unfolded parse_args_def]] assms(2) by simp
  then show ?thesis using expand_loop_user [OF _ _ assms(3) [unfolded expand_requests_def]] by (simp add: no_reqs_def)
qed

end
