(* ===== verification/Log.thy ===== *)
theory Log
  imports C_String Worker_Generics
begin

text \<open>
  The log of the server (\<open>source/log.c\<close>) and the text of its lines
  (\<open>source/worker/worker_generics.c\<close>). The file system is a map from paths to contents;
  opening a path and the local time are parameters. A call on a log whose mutex is held does
  not return: its value is \<open>None\<close>. The entries that \<open>do_log\<close> collects in a server are turned
  into the text of the file here.
\<close>

subsection \<open>The log file\<close>

record log_t =
  filename :: "byte list"
  mux :: bool

type_synonym disk = "byte list \<Rightarrow> byte list option"

text \<open>The local time as \<open>localtime_r\<close> gives it: year, month, day, hour, minute, second, each
  already corrected by the offset the code adds.\<close>

type_synonym tm = "nat list"

definition pad :: "nat \<Rightarrow> nat \<Rightarrow> byte list" where
  "pad k n = replicate (k - length (dec_nat n)) 48 @ dec_nat n"

text \<open>\<open>[%04d/%02d/%02d-%02d:%02d:%02d]\<close>.\<close>

fun stamp :: "tm \<Rightarrow> byte list" where
  "stamp [year, mon, day, hour, mi, sec] =
     chars ''['' @ pad 4 year @ chars ''/'' @ pad 2 mon @ chars ''/'' @ pad 2 day @ chars ''-'' @ pad 2 hour @ chars '':'' @
     pad 2 mi @ chars '':'' @ pad 2 sec @ chars '']''"
| "stamp _ = []"

definition init_log_file_struct :: "byte list option \<Rightarrow> log_t \<Rightarrow> errno + log_t" where
  "init_log_file_struct logname raw =
     (case logname of
        None \<Rightarrow> Inl EINVAL
      | Some nm \<Rightarrow>
          (let len = length (cstr nm) in
           if FILE_NAME_MAX_SIZE \<le> len then Inl EINVAL
           else Inr (raw\<lparr>filename := strncpy (filename raw) nm (len + 1), mux := False\<rparr>)))"

definition destroy_log_file_struct :: "log_t \<Rightarrow> log_t" where
  "destroy_log_file_struct log = log\<lparr>filename := 0 # drop 1 (filename log)\<rparr>"

text \<open>Both operations return with the mutex held when \<open>fopen\<close> fails.\<close>

definition reset_log :: "(byte list \<Rightarrow> errno option) \<Rightarrow> tm \<Rightarrow> log_t \<Rightarrow> disk \<Rightarrow> ((errno + unit) \<times> log_t \<times> disk) option" where
  "reset_log fopen now log dk =
     (if mux log then None
      else (let path = cstr (filename log) in
            case fopen path of
              Some e \<Rightarrow> Some (Inl e, log\<lparr>mux := True\<rparr>, dk)
            | None \<Rightarrow> Some (Inr (), log, dk(path \<mapsto> stamp now @ [9] @ chars ''Opening log file.'' @ [10]))))"

definition print_line_to_log_file ::
    "(byte list \<Rightarrow> errno option) \<Rightarrow> tm \<Rightarrow> byte list option \<Rightarrow> log_t \<Rightarrow> disk \<Rightarrow> ((errno + unit) \<times> log_t \<times> disk) option" where
  "print_line_to_log_file fopen now line log dk =
     (case line of
        None \<Rightarrow> Some (Inl EINVAL, log, dk)
      | Some text \<Rightarrow>
          if mux log then None
          else (let path = cstr (filename log) in
                case fopen path of
                  Some e \<Rightarrow> Some (Inl e, log\<lparr>mux := True\<rparr>, dk)
                | None \<Rightarrow> Some (Inr (), log, dk(path \<mapsto>
                    (case dk path of None \<Rightarrow> [] | Some old \<Rightarrow> old) @ stamp now @ [9] @ cstr text @ [10]))))"

subsection \<open>The text of the lines\<close>

definition MESSAGE_MAX_SIZE :: nat where "MESSAGE_MAX_SIZE = FILE_NAME_MAX_SIZE"

text \<open>\<open>snprintf\<close> keeps the first bytes and a NUL.\<close>

definition snprintf :: "nat \<Rightarrow> byte list \<Rightarrow> byte list" where
  "snprintf n s = take (n - 1) s @ [0]"

definition log_text :: "log_entry \<Rightarrow> byte list" where
  "log_text x =
     chars ''Thread:'' @ dec_int (l_thread x) @ [9] @ chars ''Read:'' @ dec_int (sint (l_read x)) @ [9] @
     chars ''Write:'' @ dec_int (sint (l_write x)) @ [9] @
     chars ''Client-Op:['' @ dec_int (l_client x) @ chars ''-'' @ chars (l_operation x) @ chars '']'' @ [9] @
     chars ''Outcome:'' @ chars (l_outcome x) @ [9] @ chars ''File:'' @ l_file x"

text \<open>The second half of \<open>do_log\<close>: the result of printing is not looked at.\<close>

definition log_entry_out ::
    "(byte list \<Rightarrow> errno option) \<Rightarrow> tm \<Rightarrow> log_entry \<Rightarrow> log_t \<times> disk \<Rightarrow> (log_t \<times> disk) option" where
  "log_entry_out fopen now x s =
     map_option snd (print_line_to_log_file fopen now (Some (snprintf MESSAGE_MAX_SIZE (log_text x))) (fst s) (snd s))"

text \<open>The counters are converted to \<open>int\<close> on the way.\<close>

definition do_log_main ::
    "(byte list \<Rightarrow> errno option) \<Rightarrow> tm \<Rightarrow> uint32 \<Rightarrow> uint32 \<Rightarrow> uint32 \<Rightarrow> uint32 \<Rightarrow> log_t \<times> disk \<Rightarrow> (log_t \<times> disk) option" where
  "do_log_main fopen now max_size max_files max_conns cache_miss s =
     map_option snd (print_line_to_log_file fopen now (Some (snprintf MESSAGE_MAX_SIZE
       (chars ''MAIN'' @ [9] @ chars ''MaxSize:'' @ dec_int (sint max_size) @ [9] @ chars ''MaxFiles:'' @ dec_int (sint max_files) @
        [9] @ chars ''MaxConn:'' @ dec_int (sint max_conns) @ [9] @ chars ''CacheMiss:'' @ dec_int (sint cache_miss)))) (fst s) (snd s))"

text \<open>The part of \<open>print_stats\<close> that goes to the log.\<close>

definition print_stats :: "(byte list \<Rightarrow> errno option) \<Rightarrow> tm \<Rightarrow> shared_state \<Rightarrow> log_t \<times> disk \<Rightarrow> (log_t \<times> disk) option" where
  "print_stats fopen now ss = do_log_main fopen now (ucast (max_reached_storage ss)) (word_of_int (max_reached_files ss))
     (word_of_int (max_reached_conns ss)) (cache_miss_execs ss)"

text \<open>A server that held two gigabytes reports a negative number.\<close>

lemma stats_wrap: "dec_int (sint (ucast (2 ^ 31 :: uint64) :: uint32)) = chars ''-2147483648''"
proof -
  have "sint (ucast (2 ^ 31 :: uint64) :: uint32) = - 2147483648" by code_simp
  moreover have "chars ''-2147483648'' = [45, 50, 49, 52, 55, 52, 56, 51, 54, 52, 56]" by code_simp
  ultimately show ?thesis by (simp add: dec_int_def dec_nat_step dec_nat_one)
qed

subsection \<open>What ends up in the file\<close>

fun log_all :: "(byte list \<Rightarrow> errno option) \<Rightarrow> tm list \<Rightarrow> log_entry list \<Rightarrow> log_t \<times> disk \<Rightarrow> (log_t \<times> disk) option" where
  "log_all fopen (t # ts) (x # xs) s = Option.bind (log_entry_out fopen t x s) (log_all fopen ts xs)"
| "log_all fopen _ _ s = Some s"

definition log_line :: "tm \<Rightarrow> log_entry \<Rightarrow> byte list" where
  "log_line t x = stamp t @ [9] @ cstr (take (MESSAGE_MAX_SIZE - 1) (log_text x)) @ [10]"

lemma cstr_nul_tail: "cstr (xs @ [0]) = cstr xs"
  unfolding cstr_def by (induction xs) auto

lemma log_all_lines:
  assumes "\<not> mux log" and "\<And>p. fopen p = None" and "length ts = length xs" and "dk (cstr (filename log)) = Some old"
  shows "log_all fopen ts xs (log, dk) =
    Some (log, dk(cstr (filename log) \<mapsto> old @ concat (map2 log_line ts xs)))"
  using assms(3,4)
proof (induction ts xs arbitrary: dk old rule: list_induct2)
  case Nil
  then show ?case by (simp add: fun_upd_idem)
next
  case (Cons t ts x xs)
  let ?p = "cstr (filename log)"
  have "log_entry_out fopen t x (log, dk) = Some (log, dk(?p \<mapsto> old @ log_line t x))"
    using assms(1,2) Cons.prems
    by (simp add: log_entry_out_def print_line_to_log_file_def snprintf_def cstr_nul_tail log_line_def)
  moreover have "log_all fopen ts xs (log, dk(?p \<mapsto> old @ log_line t x))
      = Some (log, (dk(?p \<mapsto> old @ log_line t x))(?p \<mapsto> (old @ log_line t x) @ concat (map2 log_line ts xs)))"
    by (rule Cons.IH) (rule fun_upd_same)
  ultimately show ?case unfolding log_all.simps by (simp only: bind.simps fun_upd_upd append_assoc zip_Cons_Cons list.map prod.case concat.simps)
qed

text \<open>After one failure to open the file the log is locked for ever.\<close>

lemma log_fails_once:
  assumes "\<not> mux log" and "fopen (cstr (filename log)) = Some e" and "length t = length xs" and "2 \<le> length xs"
  shows "log_all fopen t xs (log, dk) = None"
proof -
  obtain a b ts where t: "t = a # b # ts" using assms(3,4) by (cases t; cases "tl t") auto
  obtain x y ys where x: "xs = x # y # ys" using assms(4) by (cases xs; cases "tl xs") auto
  have "log_entry_out fopen a x (log, dk) = Some (log\<lparr>mux := True\<rparr>, dk)"
    using assms(1,2) by (simp add: log_entry_out_def print_line_to_log_file_def)
  moreover have "log_entry_out fopen b y (log\<lparr>mux := True\<rparr>, dk) = None"
    by (simp add: log_entry_out_def print_line_to_log_file_def)
  ultimately show ?thesis by (simp add: t x)
qed

end
