(* ===== verification/Client_Run.thy ===== *)
theory Client_Run
  imports Client_Expand Client_Data Log
begin

text \<open>
  The client program: sending the prepared requests one after the other
  (\<open>source/client/client_subcalls.c\<close>) and \<open>main\<close> of \<open>exec/client.c\<close>. What it prints is the
  list of bytes it writes to its output; the text of the help is not modelled.
\<close>

subsection \<open>Environment\<close>

text \<open>The environment of the library; the local time at each request; the byte that lies behind a
  string on the heap, which the library reads too; the texts of \<open>strerror\<close>; \<open>opendir\<close> and what
  \<open>malloc\<close> leaves in a block; \<open>getcwd\<close> and \<open>access\<close>.\<close>

record run_env =
  r_api :: client_env
  r_now :: "nat \<Rightarrow> tm"
  r_heap :: byte
  r_strerror :: "errno \<Rightarrow> byte list"
  r_opendir :: "byte list \<Rightarrow> dirent list option"
  r_junk :: "byte list"
  r_cwd :: "byte list option"
  r_access :: "byte list \<Rightarrow> errno option"

definition get_cwd :: "run_env \<Rightarrow> byte list option" where
  "get_cwd R = map_option (\<lambda>d. if last d = 47 then d else d @ [47]) (r_cwd R)"

definition check_socket_file :: "run_env \<Rightarrow> byte list option \<Rightarrow> errno + unit" where
  "check_socket_file R sock =
     (case sock of
        None \<Rightarrow> Inl ENOENT
      | Some s \<Rightarrow> if cstr s = [] then Inl ENOENT else (case r_access R (cstr s) of Some e \<Rightarrow> Inl e | None \<Rightarrow> Inr ()))"

definition open_connection :: "client_env \<Rightarrow> byte list \<Rightarrow> int \<Rightarrow> client \<Rightarrow> ((errno + unit) \<times> client) option" where
  "open_connection E sock between c = openConnection E sock (if 100 < between then between else 500) 5 0 c"

subsection \<open>One request\<close>

text \<open>\<open>printf\<close> shows a NULL string as \<open>(null)\<close>. The result is that of the call, -1 with \<open>errno\<close>.\<close>

definition print_operation_result :: "(errno \<Rightarrow> byte list) \<Rightarrow> byte list \<Rightarrow> byte list option \<Rightarrow> errno + int \<Rightarrow> client \<Rightarrow> byte list" where
  "print_operation_result err op file res c =
     (let rd = sint (byte_read c); wr = sint (byte_write c); n = (case res of Inl _ \<Rightarrow> -1 | Inr n \<Rightarrow> n) in
      chars ''Operation: '' @ op @ chars ''; File: '' @ (case file of None \<Rightarrow> chars ''(null)'' | Some s \<Rightarrow> cstr s) @
      chars ''; Result: '' @ (case res of Inl e \<Rightarrow> err e | Inr _ \<Rightarrow> chars ''Success'') @
      (if 0 < n then chars ''; Files read: '' @ dec_int n else []) @
      (if rd \<noteq> 0 \<or> wr \<noteq> 0 then chars ''; Bytes: read '' @ dec_int rd @ chars ''; write '' @ dec_int wr else []) @ chars ''.'' @ [10])"

definition data_to_file :: "client_env \<Rightarrow> byte list \<Rightarrow> req \<Rightarrow> client \<Rightarrow> client" where
  "data_to_file E buf r c =
     (case rq_dir r of
        None \<Rightarrow> c
      | Some dir \<Rightarrow>
          (let nm = cstr (convert_slashes_to_underscores (block (stringdata r))); path = cstr dir @ nm in
           if \<not> ce_alloc E (of_nat (length nm + 1 + length (cstr dir))) then c
           else (case ce_fopen E path of Some _ \<Rightarrow> c | None \<Rightarrow> c\<lparr>c_disk := (c_disk c)(path \<mapsto> buf)\<rparr>)))"

definition calc_timestamp :: "tm \<Rightarrow> byte list" where
  "calc_timestamp now = resize_block 23 (snprintf 23 (stamp now @ [10]))"

text \<open>The memory the string argument of a call points to.\<close>

definition arg :: "byte \<Rightarrow> req \<Rightarrow> byte list" where
  "arg heap r = block (stringdata r) @ [heap]"

definition done_unit :: "(errno + unit) \<times> client \<Rightarrow> (errno + int) \<times> client" where
  "done_unit r = map_prod (map_sum id (\<lambda>_. 0)) id r"

text \<open>The \<open>switch\<close>: what is printed for the operation, its result, and the client afterwards. Other
  types do nothing.\<close>

definition perform :: "client_env \<Rightarrow> byte \<Rightarrow> tm \<Rightarrow> req \<Rightarrow> client \<Rightarrow> (byte list \<times> (errno + int) \<times> client) option" where
  "perform E heap now r c =
     (let p = arg heap r; ty = rq_type r in
      if ty = REQUEST_OPEN then Some (chars ''Open File'', done_unit (openFile E p 0 c))
      else if ty = REQUEST_OPEN_LOCK then Some (chars ''Open Lock File'', done_unit (openFile E p O_LOCK c))
      else if ty = REQUEST_CREATE_LOCK then Some (chars ''Create and Lock File'', done_unit (openFile E p (O_CREATE OR O_LOCK) c))
      else if ty = REQUEST_CLOSE then Some (chars ''Close File'', done_unit (closeFile E p c))
      else if ty = REQUEST_READ then
        Some (chars ''Read File'',
          (case readFile E p c of (Inl e, c) \<Rightarrow> (Inl e, c) | (Inr d, c) \<Rightarrow> (Inr 0, data_to_file E d r c)))
      else if ty = REQUEST_READN then Some (chars ''Read N Files'', readNFiles E (word_of_int (rq_n r)) (rq_dir r) c)
      else if ty = REQUEST_WRITE then Some (chars ''Write File'', done_unit (writeFile E p (rq_dir r) c))
      else if ty = REQUEST_APPEND then
        Some (chars ''Append to File'', done_unit (appendToFile E p (calc_timestamp now) 23 (rq_dir r) c))
      else if ty = REQUEST_LOCK then Some (chars ''Lock File'', done_unit (lockFile E p c))
      else if ty = REQUEST_UNLOCK then Some (chars ''Unlock File'', done_unit (unlockFile E p c))
      else if ty = REQUEST_REMOVE then Some (chars ''Remove File'', done_unit (removeFile E p c))
      else None)"

subsection \<open>All requests\<close>

text \<open>The waits between the requests are not checked.\<close>

definition nap :: "client \<Rightarrow> client" where
  "nap c = c\<lparr>c_naps := Suc (c_naps c)\<rparr>"

fun send_requests :: "run_env \<Rightarrow> nat \<Rightarrow> req list \<Rightarrow> int \<Rightarrow> client \<Rightarrow> byte list \<times> client" where
  "send_requests R k [] pr c = ([], nap c)"
| "send_requests R k (r # rs) pr c =
     (case perform (r_api R) (r_heap R) (r_now R k) r (nap c) of
        None \<Rightarrow> send_requests R (Suc k) rs pr (nap c)
      | Some (op, res, c') \<Rightarrow>
          (case send_requests R (Suc k) rs pr c' of
             (out, c'') \<Rightarrow>
               ((if pr \<noteq> 0 then print_operation_result (r_strerror R) op (stringdata r) res c' else []) @ out, c'')))"

text \<open>\<open>main\<close>: the exit status, what the requests printed, and the client. It has no value where the
  program has none: undefined behaviour of the parser, or a walk or a connection attempt without
  end.\<close>

definition client_main :: "run_env \<Rightarrow> byte list list \<Rightarrow> client \<Rightarrow> (int \<times> byte list \<times> client) option" where
  "client_main R argv c =
     (let al = ce_alloc (r_api R) in
      case get_cwd R of
        None \<Rightarrow> Some (1, [], c)
      | Some cwd \<Rightarrow>
          (case parse_args al argv \<lparr>socket_name = None, do_print = 0, time_between_reqs = 0, p_reqs = no_reqs\<rparr> of
             None \<Rightarrow> None
           | Some (n, p) \<Rightarrow>
               if n = 1 then Some (0, [], c)
               else if n = -1 then Some (1, [], c)
               else (case check_socket_file R (socket_name p) of
                  Inl _ \<Rightarrow> Some (1, [], c)
                | Inr _ \<Rightarrow>
                    if reqs (p_reqs p) = [] then Some (0, [], c)
                    else (case expand_requests al (r_opendir R) (r_junk R) cwd (p_reqs p) of
                       None \<Rightarrow> None
                     | Some arr \<Rightarrow>
                         (case add_open_create_requests al arr of
                            (Inl _, _) \<Rightarrow> Some (1, [], c)
                          | (Inr _, arr) \<Rightarrow>
                              (case open_connection (r_api R) (block (socket_name p) @ [0]) (time_between_reqs p) c of
                                 None \<Rightarrow> None
                               | Some (Inl _, c) \<Rightarrow> Some (1, [], c)
                               | Some (Inr _, c) \<Rightarrow>
                                   (case send_requests R 0 (reqs arr) (do_print p) c of
                                      (out, c) \<Rightarrow> Some (0, out, snd (closeConnection (r_api R) c)))))))))"

subsection \<open>A read that is stored\<close>

lemma send_receive_disk [simp]: "c_disk (snd (send_receive E m c)) = c_disk c"
  by (auto simp: send_receive_def Let_def CLOSE_def split: sum.splits prod.splits)

lemma ask_disk [simp]: "c_disk (snd (ask E ty p c)) = c_disk c"
  by (auto simp: ask_def Let_def split: sum.splits)

lemma readFile_disk [simp]: "c_disk (snd (readFile E p c)) = c_disk c"
proof -
  obtain x c' where a: "ask E MESSAGE_READ_FILE p c = (x, c')" by (cases "ask E MESSAGE_READ_FILE p c")
  then have "c_disk c' = c_disk c" using ask_disk [of E MESSAGE_READ_FILE p c] by simp
  then show ?thesis by (auto simp: readFile_def a Let_def split: sum.splits prod.splits)
qed

lemma convert_flat:
  assumes "length s \<le> 254" and "0 \<notin> set s"
  shows "cstr (convert_slashes_to_underscores (s @ [0])) = flat_name s"
proof -
  have "0 \<notin> set (flat_name s)" using assms(2) by (auto simp: flat_name_def)
  moreover have "convert_slashes_to_underscores (s @ [0]) = flat_name s @ 0 # []"
    using slashes_cstr [of s FILE_NAME_MAX_SIZE "[]"] assms
    by (simp add: convert_slashes_to_underscores_def flat_name_def FILE_NAME_MAX_SIZE_def)
  ultimately show ?thesis using cstr_append_nul [of "flat_name s" "[]"] by simp
qed

lemma read_stored:
  assumes r: "rq_type r = REQUEST_READ" "stringdata r = Some (s @ [0])" "rq_dir r = Some dir" "length s \<le> 254" "0 \<notin> set s"
    and c: "client_ready E c" "ce_fopen E = (\<lambda>_. None)" and srv: "serving e k io sv"
    and con: "connected (readFile E (arg heap r)) c e thread io k sv w"
  obtains op res c' where "perform E heap now r c = Some (op, res, c')"
    and "case request (keep a_read_op) k s (sabs sv) of (x, m) \<Rightarrow>
      sabs (s_server w) = m
      \<and> (case x of
           Inr _ \<Rightarrow> res = Inr 0 \<and> c_disk c' = (c_disk c)(cstr dir @ flat_name s \<mapsto> a_content (the (sabs sv s)))
         | Inl y \<Rightarrow> res = Inl (if y = ENOENT then ENOENT else EPERM) \<and> c_disk c' = c_disk c)"
proof -
  have p: "path (arg heap r) s" using r by (simp add: arg_def path_def)
  obtain res c1 where f: "readFile E (arg heap r) c = (res, c1)" by (cases "readFile E (arg heap r) c")
  have d1: "c_disk c1 = c_disk c" using readFile_disk [of E "arg heap r" c] f by simp
  have pf: "perform E heap now r c = Some (chars ''Read File'',
      (case (res, c1) of (Inl e, c) \<Rightarrow> (Inl e, c) | (Inr d, c) \<Rightarrow> (Inr 0, data_to_file E d r c)))"
    using r(1) by (simp add: perform_def f request_types)
  have al: "ce_alloc E = mem_ok" using c(1) by (simp add: client_ready_def)
  have dtf: "c_disk (data_to_file E d r c1) = (c_disk c)(cstr dir @ flat_name s \<mapsto> d)" for d
    using r(2,3) al c(2) d1 by (simp add: data_to_file_def convert_flat [OF r(4,5)] mem_ok Let_def)
  note S = readFile_served [OF c(1) p srv con, unfolded f fst_conv]
  show thesis
  proof (cases res)
    case (Inl y)
    then show thesis using that [of "chars ''Read File''" "Inl y" c1] pf S d1 by (auto split: prod.splits sum.splits)
  next
    case (Inr d)
    then show thesis using that [of "chars ''Read File''" "Inr 0" "data_to_file E d r c1"] pf S dtf by (auto split: prod.splits sum.splits)
  qed
qed

subsection \<open>Connecting comes to an end\<close>

lemma connect_loop_ends:
  assumes "0 < msec"
  shows "connect_loop E msec lim tot k c \<noteq> None"
proof (induction "nat (lim - tot + 1)" arbitrary: tot k c rule: less_induct)
  case less
  show ?case
  proof (cases "ce_connect E k")
    case None
    then show ?thesis by (simp add: connect_loop.simps)
  next
    case (Some err)
    show ?thesis
    proof (cases "(err = ENOENT \<or> err = ECONNREFUSED) \<and> \<not> lim < tot \<and> ce_nap E (c_naps c) = None")
      case True
      then have "nat (lim - (tot + msec * 1000000) + 1) < nat (lim - tot + 1)" using assms by simp
      from less [OF this, of "Suc k" "c\<lparr>c_naps := Suc (c_naps c)\<rparr>"] Some True assms
      show ?thesis by (simp add: connect_loop.simps [of E msec lim tot])
    next
      case False
      then show ?thesis using Some assms by (auto simp: connect_loop.simps [of E msec lim tot] split: option.split)
    qed
  qed
qed

text \<open>The server never answers: after \<open>n\<close> waits the time is over.\<close>

lemma connect_loop_times_out:
  assumes "\<And>k. ce_connect E k = Some ECONNREFUSED" and "\<And>k. ce_nap E k = None" and "0 < msec"
    and "lim < tot + int n * (msec * 1000000)" and "\<And>j. j < n \<Longrightarrow> tot + int j * (msec * 1000000) \<le> lim"
  shows "connect_loop E msec lim tot k c = Some (Inl ETIMEDOUT, CLOSE (c\<lparr>c_naps := c_naps c + n\<rparr>))"
  using assms(4,5)
proof (induction n arbitrary: tot k c)
  case 0
  then show ?case using assms(1) by (simp add: connect_loop.simps)
next
  case (Suc n)
  have t: "tot \<le> lim" using Suc.prems(2) [of 0] by simp
  have s: "connect_loop E msec lim tot k c = connect_loop E msec lim (tot + msec * 1000000) (Suc k) (c\<lparr>c_naps := Suc (c_naps c)\<rparr>)"
    using t assms(1-3) by (simp add: connect_loop.simps [of E msec lim tot])
  have "tot + msec * 1000000 + int j * (msec * 1000000) \<le> lim" if "j < n" for j
    using Suc.prems(2) [of "Suc j"] that by (simp add: algebra_simps)
  then show ?case using Suc.IH [of "tot + msec * 1000000" "Suc k" "c\<lparr>c_naps := Suc (c_naps c)\<rparr>"] Suc.prems(1) s
    by (simp add: algebra_simps)
qed

text \<open>The only name with which connecting is undefined is the longest one that is let through.\<close>

definition name_overflows :: "client_env \<Rightarrow> byte list \<Rightarrow> client \<Rightarrow> bool" where
  "name_overflows E sock c \<longleftrightarrow> api_conn c < 0 \<and> SOCKNAME_VALID sock = Inr 108 \<and> (\<exists>s. ce_socket E = Inr s)"

lemma socket_name_fits:
  assumes "SOCKNAME_VALID sock = Inr len"
  shows "of_nat UNIX_PATH_MAX < len + 1 \<longleftrightarrow> len = 108"
proof -
  have "len \<le> 108" using assms by (auto simp: SOCKNAME_VALID_def UNIX_PATH_MAX_def Let_def not_less split: if_splits)
  then have l: "unat len \<le> 108" using word_le_nat_alt [of len 108] by simp
  then have "unat (len + 1) = unat len + 1" by (simp add: unat_word_ariths)
  then show ?thesis using l word_unat_eq_iff [of len 108] by (auto simp: UNIX_PATH_MAX_def word_less_nat_alt)
qed

lemma openConnection_ends:
  assumes "0 < msec"
  shows "openConnection E sock msec sec nsec c = None \<longleftrightarrow> name_overflows E sock c"
proof -
  have "(connect_loop E msec (sec * 1000000000 + nsec) 0 0 d = None) = False" for d using connect_loop_ends [OF assms] by blast
  then show ?thesis
    using socket_name_fits [of sock]
    by (auto simp: openConnection_def name_overflows_def clear_byte_read_write_def Let_def split: sum.splits option.splits prod.splits if_splits
        simp del: not_None_eq)
qed

lemma open_connection_ends: "open_connection E sock between c = None \<longleftrightarrow> name_overflows E sock c"
  unfolding open_connection_def by (rule openConnection_ends) simp

end
