(* ===== verification/Client_Line.thy ===== *)
theory Client_Line
  imports Client_Expand
begin

text \<open>
  What a command line means: the requests that the parser and the expansion make of a line that
  is put together as the help of the client describes it.
\<close>

text \<open>A command: the option, its argument, and the directory of \<open>-D\<close> or \<open>-d\<close>.\<close>

record command =
  cm_opt :: byte
  cm_files :: "byte list"
  cm_dir :: "byte list option"

definition dir_flag :: "byte \<Rightarrow> byte" where
  "dir_flag c = (if c = 114 then 100 else 68)"

definition command_ok :: "command \<Rightarrow> bool" where
  "command_ok m \<longleftrightarrow>
     cm_opt m \<in> {87, 97, 114, 108, 117, 99} \<and> 0 \<notin> set (cm_files m)
   \<and> (case cm_dir m of None \<Rightarrow> True | Some d \<Rightarrow> d \<noteq> [] \<and> 0 \<notin> set d \<and> cm_opt m \<in> {87, 97, 114})"

definition command_words :: "command \<Rightarrow> byte list list" where
  "command_words m = [45, cm_opt m] # cm_files m # (case cm_dir m of None \<Rightarrow> [] | Some d \<Rightarrow> [[45, dir_flag (cm_opt m)], d])"

definition command_opts :: "command \<Rightarrow> (byte \<times> byte list option) list" where
  "command_opts m = (cm_opt m, Some (cm_files m)) # (case cm_dir m of None \<Rightarrow> [] | Some d \<Rightarrow> [(dir_flag (cm_opt m), Some d)])"

definition with_slash :: "byte list \<Rightarrow> byte list" where
  "with_slash d = (if last d = 47 then d else d @ [47])"

definition command_req :: "command \<Rightarrow> req" where
  "command_req m = init_request\<lparr>rq_type := the (request_of_option (cm_opt m)), stringdata := Some (cm_files m @ [0]),
     stringdata_len := length (cm_files m) + 1, rq_dir := map_option (\<lambda>d. with_slash d @ [0]) (cm_dir m),
     dir_len := (case cm_dir m of None \<Rightarrow> 0 | Some d \<Rightarrow> length (with_slash d) + 1)\<rparr>"

lemma option_chars:
  "chars ''hp'' = [104, 112]" "chars ''fwWaDrdtluc'' = [102, 119, 87, 97, 68, 114, 100, 116, 108, 117, 99]"
  by code_simp+

lemma command_getopt:
  assumes "command_ok m"
  shows "getopt True client_option [] (command_words m @ ws) = command_opts m @ getopt True client_option [] ws"
proof -
  have k: "client_option (cm_opt m) = Some Needs" "cm_opt m \<noteq> 45" using assms
    by (auto simp: command_ok_def client_option_def option_chars)
  have d: "client_option (dir_flag (cm_opt m)) = Some Needs" "dir_flag (cm_opt m) \<noteq> 45"
    by (simp_all add: dir_flag_def client_option_def option_chars)
  show ?thesis by (cases "cm_dir m") (simp_all add: command_words_def command_opts_def k d)
qed

lemma commands_getopt:
  "\<forall>m \<in> set ms. command_ok m \<Longrightarrow> getopt True client_option [] (concat (map command_words ms)) = concat (map command_opts ms)"
  by (induction ms) (simp_all add: command_getopt)

lemma cmd_to_request_files:
  assumes "ty \<noteq> REQUEST_READN" and "ty \<noteq> REQUEST_WRITE_DIR"
  shows "\<exists>n. cmd_to_request mem_ok ty (Some a) arr = Some (Inr (), \<lparr>reqs = reqs arr @
    [init_request\<lparr>rq_type := ty, stringdata := Some (a @ [0]), stringdata_len := length a + 1\<rparr>], reqs_size = n\<rparr>)"
proof -
  let ?r = "init_request\<lparr>rq_type := ty, stringdata := Some (a @ [0]), stringdata_len := length a + 1\<rparr>"
  have "cmd_to_request mem_ok ty (Some a) arr = Some (add_request mem_ok ?r arr)"
    using assms by (simp add: cmd_to_request_def Let_def mem_ok)
  then show ?thesis using add_request_ok [of ?r arr] by auto
qed

lemma command_parsed:
  assumes "command_ok m"
  shows "\<exists>n pr. parse_opts mem_ok prec (command_opts m @ opts) p
    = parse_opts mem_ok pr opts (p\<lparr>p_reqs := \<lparr>reqs = reqs (p_reqs p) @ [command_req m], reqs_size = n\<rparr>\<rparr>)"
proof -
  let ?c = "cm_opt m"
  obtain ty where ty: "request_of_option ?c = Some ty" "ty \<noteq> REQUEST_READN" "ty \<noteq> REQUEST_WRITE_DIR"
    using assms by (auto simp: command_ok_def request_of_option_def request_types)
  let ?r = "init_request\<lparr>rq_type := ty, stringdata := Some (cm_files m @ [0]), stringdata_len := length (cm_files m) + 1\<rparr>"
  obtain n where n: "cmd_to_request mem_ok ty (Some (cm_files m)) (p_reqs p)
      = Some (Inr (), \<lparr>reqs = reqs (p_reqs p) @ [?r], reqs_size = n\<rparr>)"
    using cmd_to_request_files [OF ty(2,3)] by blast
  show ?thesis
  proof (cases "cm_dir m")
    case None
    then have "command_req m = ?r" by (simp add: command_req_def ty(1) init_request_def)
    then show ?thesis using None n ty(1) by (auto simp: command_opts_def)
  next
    case (Some d)
    let ?f = "dir_flag ?c" and ?arr = "\<lparr>reqs = reqs (p_reqs p) @ [?r], reqs_size = n\<rparr>"
    have d: "d \<noteq> []" "?c \<in> {87, 97, 114}" using assms Some by (simp_all add: command_ok_def)
    have f: "request_of_option ?f = None" "?f \<noteq> 104" "?f \<noteq> 102" "?f \<noteq> 112" "?f \<noteq> 116"
      "?f = 68 \<and> ?c \<in> {119, 87, 97} \<or> ?f = 100 \<and> ?c \<in> {114, 82}"
      using d(2) by (auto simp: dir_flag_def request_of_option_def)
    have "write_dir_to_last_request mem_ok d ?arr
        = Some (Inr (), \<lparr>reqs = reqs (p_reqs p) @ [command_req m], reqs_size = n\<rparr>)"
      using d(1) Some ty(1)
      by (simp add: write_dir_to_last_request_def Let_def mem_ok command_req_def with_slash_def init_request_def)
    then have "parse_opts mem_ok ?c ((?f, Some d) # opts) (p\<lparr>p_reqs := ?arr\<rparr>)
        = parse_opts mem_ok ?f opts (p\<lparr>p_reqs := \<lparr>reqs = reqs (p_reqs p) @ [command_req m], reqs_size = n\<rparr>\<rparr>)"
      using f by simp
    moreover have "parse_opts mem_ok prec (command_opts m @ opts) p = parse_opts mem_ok ?c ((?f, Some d) # opts) (p\<lparr>p_reqs := ?arr\<rparr>)"
      using Some n ty(1) by (simp add: command_opts_def)
    ultimately show ?thesis by metis
  qed
qed

lemma commands_parsed:
  "\<forall>m \<in> set ms. command_ok m \<Longrightarrow>
   \<exists>n. parse_opts mem_ok prec (concat (map command_opts ms)) p
     = Some (0, p\<lparr>p_reqs := \<lparr>reqs = reqs (p_reqs p) @ map command_req ms, reqs_size = n\<rparr>\<rparr>)"
proof (induction ms arbitrary: prec p)
  case Nil
  show ?case by (cases p; cases "p_reqs p") auto
next
  case (Cons m ms)
  then obtain n pr where "parse_opts mem_ok prec (command_opts m @ concat (map command_opts ms)) p
    = parse_opts mem_ok pr (concat (map command_opts ms)) (p\<lparr>p_reqs := \<lparr>reqs = reqs (p_reqs p) @ [command_req m], reqs_size = n\<rparr>\<rparr>)"
    using command_parsed [of m prec "concat (map command_opts ms)" p] by auto
  then show ?case
    using Cons.IH [of pr "p\<lparr>p_reqs := \<lparr>reqs = reqs (p_reqs p) @ [command_req m], reqs_size = n\<rparr>\<rparr>"] Cons.prems by auto
qed

text \<open>Each command becomes one request for each of its files, in the order of the line.\<close>

definition meant :: "byte list \<Rightarrow> command list \<Rightarrow> req list" where
  "meant cwd ms = concat (map (\<lambda>m. map (part_of (command_req m) cwd) (parts (cm_files m))) ms)"

lemma commands_expanded:
  "\<forall>m \<in> set ms. command_ok m \<Longrightarrow>
   \<exists>arr'. expand_loop mem_ok opendir junk cwd (map command_req ms) arr = Some arr' \<and> reqs arr' = reqs arr @ meant cwd ms"
proof (induction ms arbitrary: arr)
  case (Cons m ms)
  then have m: "command_ok m" by simp
  have ty: "rq_type (command_req m) \<noteq> REQUEST_WRITE_DIR" "rq_type (command_req m) \<noteq> REQUEST_READN"
    using m by (auto simp: command_req_def command_ok_def request_of_option_def request_types)
  have "str (command_req m) = cm_files m" using m by (simp add: str_def command_req_def cstr_nul_end cstr_id command_ok_def)
  then have "reqs (split_and_fix_request_files mem_ok (command_req m) cwd arr)
      = reqs arr @ map (part_of (command_req m) cwd) (parts (cm_files m))"
    by (simp add: split_and_fix_request_files_def split_loop_parts)
  then show ?case using Cons.IH [of "split_and_fix_request_files mem_ok (command_req m) cwd arr"] Cons.prems ty
    by (simp add: meant_def)
qed (simp add: meant_def)

lemma line_understood:
  assumes "\<forall>m \<in> set ms. command_ok m" and "p0 = \<lparr>socket_name = None, do_print = 0, time_between_reqs = 0, p_reqs = no_reqs\<rparr>"
  shows "\<exists>p arr. parse_args mem_ok (prog # [45, 102] # sock # concat (map command_words ms)) p0 = Some (0, p)
     \<and> socket_name p = Some sock \<and> expand_requests mem_ok opendir junk cwd (p_reqs p) = Some arr \<and> reqs arr = meant cwd ms"
proof -
  let ?p = "p0\<lparr>socket_name := Some sock\<rparr>"
  have k: "client_option 102 = Some Needs" "request_of_option 102 = None"
    by (simp_all add: client_option_def option_chars request_of_option_def)
  obtain n where n: "parse_opts mem_ok 102 (concat (map command_opts ms)) ?p
      = Some (0, ?p\<lparr>p_reqs := \<lparr>reqs = reqs (p_reqs ?p) @ map command_req ms, reqs_size = n\<rparr>\<rparr>)"
    using commands_parsed [OF assms(1)] by blast
  have "parse_args mem_ok (prog # [45, 102] # sock # concat (map command_words ms)) p0
      = parse_opts mem_ok 102 (concat (map command_opts ms)) ?p"
    using assms(2) k by (simp add: parse_args_def commands_getopt [OF assms(1)])
  with n have "parse_args mem_ok (prog # [45, 102] # sock # concat (map command_words ms)) p0
      = Some (0, ?p\<lparr>p_reqs := \<lparr>reqs = map command_req ms, reqs_size = n\<rparr>\<rparr>)"
    by (simp add: assms(2) no_reqs_def)
  moreover obtain arr where "expand_loop mem_ok opendir junk cwd (map command_req ms) no_reqs = Some arr" "reqs arr = meant cwd ms"
    using commands_expanded [OF assms(1), of opendir junk cwd no_reqs] by (auto simp: no_reqs_def)
  ultimately show ?thesis by (simp add: expand_requests_def)
qed

end
