(* ===== verification/Config.thy ===== *)
theory Config
  imports C_String Cache_Miss
begin

text \<open>
  The configuration of the server: the reader of \<open>key=value\<close> files (\<open>source/config.c\<close>) and the
  options the server takes from them (\<open>source/server/server_parsing.c\<close>). A value of type
  \<open>(errno + 'a) option\<close> is \<open>None\<close> where the code dereferences the NULL that \<open>strtok_r\<close> returns.
\<close>

subsection \<open>Key and value files\<close>

definition CFG_MAX_PAIR_SIZE :: nat where "CFG_MAX_PAIR_SIZE = 512"
definition CFG_MAX_KEY_SIZE :: nat where "CFG_MAX_KEY_SIZE = 64"
definition CFG_MAX_VALUE_SIZE :: nat where "CFG_MAX_VALUE_SIZE = CFG_MAX_PAIR_SIZE - CFG_MAX_KEY_SIZE"

lemmas cfg_sizes = CFG_MAX_PAIR_SIZE_def CFG_MAX_KEY_SIZE_def CFG_MAX_VALUE_SIZE_def

record cfg_kv =
  cfg_key :: "byte list"
  cfg_value :: "byte list"

text \<open>\<open>count\<close> is the number of entries of the list.\<close>

record cfg_file =
  cfgs :: "cfg_kv list"
  cfg_size :: nat

definition realloc_cfg_struct :: "allocator \<Rightarrow> nat \<Rightarrow> cfg_file \<Rightarrow> errno + cfg_file" where
  "realloc_cfg_struct al newsize cfg =
     (if al (of_nat (CFG_MAX_PAIR_SIZE * newsize)) then Inr (cfg\<lparr>cfg_size := newsize\<rparr>) else Inl ENOMEM)"

text \<open>What one line is: nothing, an entry, an error, or the use of a NULL token. After the first
  token \<open>saveptr\<close> is past a \<open>=\<close>, which is now NUL, or at the end of the line, so that
  \<open>*(saveptr-1)\<close> is the last byte of the token. \<open>cur\<close> is the local entry, whose arrays still
  hold what earlier lines left there.\<close>

datatype cfg_line = Nothing | Entry cfg_kv | Malformed | Null

definition config_line :: "cfg_kv \<Rightarrow> byte list \<Rightarrow> cfg_line" where
  "config_line cur line =
     (let l = cstr line in
      case strtok_r (chars ''='') l of
        (None, _) \<Rightarrow> Malformed
      | (Some token, saveptr) \<Rightarrow>
          if CFG_MAX_KEY_SIZE < length token + 1 then Malformed
          else if 61 \<notin> set (dropWhile (\<lambda>b. b = 61) l) \<and> last token = 10
          then (case dropWhile (\<lambda>b. b = 32 \<or> b = 9) token of
                  [] \<Rightarrow> Nothing
                | b # _ \<Rightarrow> if b = 10 \<or> b = 35 then Nothing else Malformed)
          else (case fst (strtok_r [9, 32] token) of
                  None \<Rightarrow> Null
                | Some key \<Rightarrow>
                    (case fst (strtok_r [35, 10] saveptr) of
                       None \<Rightarrow> Malformed
                     | Some token \<Rightarrow>
                         if CFG_MAX_KEY_SIZE < length token + 1 then Malformed
                         else (case fst (strtok_r [9, 32] token) of
                                 None \<Rightarrow> Null
                               | Some val \<Rightarrow> Entry (cur\<lparr>cfg_key := strncpy (cfg_key cur) key CFG_MAX_KEY_SIZE,
                                                         cfg_value := strncpy (cfg_value cur) val CFG_MAX_VALUE_SIZE\<rparr>)))))"

fun config_lines :: "allocator \<Rightarrow> cfg_kv \<Rightarrow> byte list list \<Rightarrow> cfg_file \<Rightarrow> (errno + cfg_file) option" where
  "config_lines al cur [] out = Some (Inr out)"
| "config_lines al cur (line # lines) out =
     (case config_line cur line of
        Nothing \<Rightarrow> config_lines al cur lines out
      | Malformed \<Rightarrow> Some (Inl EINVAL)
      | Null \<Rightarrow> None
      | Entry kv \<Rightarrow>
          (case (if cfg_size out \<le> length (cfgs out) then realloc_cfg_struct al (cfg_size out + 10) out else Inr out) of
             Inl e \<Rightarrow> Some (Inl e)
           | Inr out \<Rightarrow> config_lines al kv lines (out\<lparr>cfgs := cfgs out @ [kv]\<rparr>)))"

text \<open>\<open>cfg\<close> is what \<open>fopen\<close> and \<open>getline\<close> give: an error or the contents of the file.\<close>

definition read_config_file :: "allocator \<Rightarrow> cfg_kv \<Rightarrow> errno + byte list \<Rightarrow> (errno + cfg_file) option" where
  "read_config_file al cur cfg =
     (case cfg of
        Inl e \<Rightarrow> Some (if e = ENOENT then Inr \<lparr>cfgs = [], cfg_size = 0\<rparr> else Inl e)
      | Inr text \<Rightarrow>
          (case config_lines al cur (getlines text) \<lparr>cfgs = [], cfg_size = 0\<rparr> of
             Some (Inr out) \<Rightarrow> Some (realloc_cfg_struct al (length (cfgs out)) out)
           | r \<Rightarrow> r))"

fun find_option :: "byte list \<Rightarrow> cfg_kv list \<Rightarrow> byte list option" where
  "find_option key [] = None"
| "find_option key (kv # kvs) = (if cstr (cfg_key kv) = key then Some (cstr (cfg_value kv)) else find_option key kvs)"

definition get_option :: "cfg_file \<Rightarrow> byte list \<Rightarrow> byte list option" where
  "get_option cfg key = find_option key (cfgs cfg)"

subsection \<open>The options of the server\<close>

definition MAX_WORKER_THREADS :: int where "MAX_WORKER_THREADS = 64"
definition MAX_STORAGE_CAPACITY :: int where "MAX_STORAGE_CAPACITY = 4 * 1024 * (1024 * 1024)"
definition MAX_STORAGE_FILES :: int where "MAX_STORAGE_FILES = 1024 * 1024"
definition MAX_CONNECTIONS :: int where "MAX_CONNECTIONS = 50"

lemmas config_limits = MAX_WORKER_THREADS_def MAX_STORAGE_CAPACITY_def MAX_STORAGE_FILES_def MAX_CONNECTIONS_def

record cfg_t =
  socket_file :: "byte list"
  log_file :: "byte list"
  worker_threads :: int
  storage_capacity :: int
  max_files :: int
  max_connections :: int
  algorithm :: int

definition DEFAULT_SOCKET_FILE_NAME :: "byte list" where "DEFAULT_SOCKET_FILE_NAME = chars ''./socket.sk''"
definition DEFAULT_SOCKET_FILE_SIZE :: nat where "DEFAULT_SOCKET_FILE_SIZE = 12"
definition DEFAULT_LOG_FILE_NAME :: "byte list" where "DEFAULT_LOG_FILE_NAME = chars ''./log.txt''"
definition DEFAULT_LOG_FILE_SIZE :: nat where "DEFAULT_LOG_FILE_SIZE = 10"
definition DEFAULT_CONFIG_FILE_NAME :: "byte list" where "DEFAULT_CONFIG_FILE_NAME = chars ''./config.txt''"

definition init_default_config :: "cfg_t \<Rightarrow> cfg_t" where
  "init_default_config cfg =
     cfg\<lparr>socket_file := strncpy (socket_file cfg) DEFAULT_SOCKET_FILE_NAME DEFAULT_SOCKET_FILE_SIZE,
         log_file := strncpy (log_file cfg) DEFAULT_LOG_FILE_NAME DEFAULT_LOG_FILE_SIZE,
         worker_threads := 4, storage_capacity := 100 * 1024 * 1024, max_files := 100, max_connections := 10,
         algorithm := ALGO_FIFO\<rparr>"

text \<open>A file name that is too long, and a number out of range, leave the option as it was.\<close>

definition name_option :: "byte list option \<Rightarrow> byte list \<Rightarrow> byte list" where
  "name_option opt old =
     (case opt of None \<Rightarrow> old | Some s \<Rightarrow> if length s < FILE_NAME_MAX_SIZE then strncpy old s (length s + 1) else old)"

definition number_option :: "byte list option \<Rightarrow> int \<Rightarrow> int \<Rightarrow> int" where
  "number_option opt limit old =
     (case opt of None \<Rightarrow> old | Some s \<Rightarrow> let n = strtol s in if 0 < n \<and> n < limit then n else old)"

definition algorithm_option :: "byte list option \<Rightarrow> int \<Rightarrow> int" where
  "algorithm_option opt old =
     (case opt of
        None \<Rightarrow> old
      | Some s \<Rightarrow>
          if take 4 s = chars ''fifo'' then ALGO_FIFO
          else if take 3 s = chars ''lru'' then ALGO_LRU
          else if take 3 s = chars ''lfu'' then ALGO_LFU else old)"

definition take_options :: "cfg_file \<Rightarrow> cfg_t \<Rightarrow> cfg_t" where
  "take_options read cfg =
     (let opt = (\<lambda>key. get_option read (chars key)) in
      cfg\<lparr>socket_file := name_option (opt ''socket_name'') (socket_file cfg),
          log_file := name_option (opt ''log_name'') (log_file cfg),
          worker_threads := number_option (opt ''worker_threads'') MAX_WORKER_THREADS (worker_threads cfg),
          storage_capacity := number_option (opt ''storage_size'') MAX_STORAGE_CAPACITY (storage_capacity cfg),
          max_files := number_option (opt ''max_files'') MAX_STORAGE_FILES (max_files cfg),
          max_connections := number_option (opt ''max_connections'') MAX_CONNECTIONS (max_connections cfg),
          algorithm := algorithm_option (opt ''algorithm'') (algorithm cfg)\<rparr>)"

definition parse_config_from_file :: "allocator \<Rightarrow> cfg_kv \<Rightarrow> errno + byte list \<Rightarrow> cfg_t \<Rightarrow> (errno + cfg_t) option" where
  "parse_config_from_file al cur text cfg =
     map_option (map_sum id (\<lambda>read. take_options read cfg)) (read_config_file al cur text)"

text \<open>The command line: \<open>-c\<close> names the file, \<open>-h\<close> prints the help and ends the program with
  whatever \<open>errno\<close> is there.\<close>

definition server_option :: "byte \<Rightarrow> opt_kind option" where
  "server_option c = (if c = 104 then Some NoArg else if c = 99 then Some Needs else None)"

fun server_args :: "errno \<Rightarrow> (byte \<times> byte list option) list \<Rightarrow> byte list \<Rightarrow> errno + byte list" where
  "server_args err [] cfg = Inr cfg"
| "server_args err ((c, optarg) # opts) cfg =
     (if c = 99 then server_args err opts (case optarg of Some a \<Rightarrow> a | None \<Rightarrow> [])
      else if c = 104 then Inl err
      else if c = 63 \<or> c = 58 then Inl EINVAL
      else server_args err opts cfg)"

definition command_line_parsing :: "errno \<Rightarrow> byte list list \<Rightarrow> byte list \<Rightarrow> errno + byte list" where
  "command_line_parsing err argv cfg = server_args err (getopt False server_option [] (drop 1 argv)) cfg"

text \<open>The start of the program up to the log: \<open>disk\<close> is what opening a path gives.\<close>

definition start_config ::
    "allocator \<Rightarrow> cfg_kv \<Rightarrow> cfg_t \<Rightarrow> errno \<Rightarrow> (byte list \<Rightarrow> errno + byte list) \<Rightarrow> byte list list \<Rightarrow> (errno + cfg_t) option" where
  "start_config al cur raw err disk argv =
     (case command_line_parsing err argv DEFAULT_CONFIG_FILE_NAME of
        Inl e \<Rightarrow> Some (Inl e)
      | Inr cfg \<Rightarrow> parse_config_from_file al cur (disk cfg) (init_default_config raw))"

subsection \<open>What every configuration satisfies\<close>

definition c_string_in :: "nat \<Rightarrow> byte list \<Rightarrow> bool" where
  "c_string_in n buf \<longleftrightarrow> length buf = n \<and> 0 \<in> set buf"

lemma c_string_in_strncpy:
  assumes "length dst = n" and "length (cstr src) < k" and "k \<le> n"
  shows "c_string_in n (strncpy dst src k)"
proof -
  have "replicate (k - length (cstr src)) (0 :: byte) \<noteq> []" using assms(2) by simp
  then have "0 \<in> set (replicate (k - length (cstr src)) (0 :: byte))" using assms(2) by simp
  then show ?thesis using assms(1,3) by (simp add: c_string_in_def strncpy_def resize_block_def)
qed

definition config_ok :: "cfg_t \<Rightarrow> bool" where
  "config_ok cfg \<longleftrightarrow>
     c_string_in FILE_NAME_MAX_SIZE (socket_file cfg) \<and> c_string_in FILE_NAME_MAX_SIZE (log_file cfg)
   \<and> 0 < worker_threads cfg \<and> worker_threads cfg < MAX_WORKER_THREADS
   \<and> 0 < storage_capacity cfg \<and> storage_capacity cfg < MAX_STORAGE_CAPACITY
   \<and> 0 < max_files cfg \<and> max_files cfg < MAX_STORAGE_FILES
   \<and> 0 < max_connections cfg \<and> max_connections cfg < MAX_CONNECTIONS
   \<and> algorithm cfg \<in> {ALGO_FIFO, ALGO_LRU, ALGO_LFU}"

lemma name_option_ok: "c_string_in FILE_NAME_MAX_SIZE old \<Longrightarrow> c_string_in FILE_NAME_MAX_SIZE (name_option opt old)"
  using length_cstr_le
  by (auto simp: name_option_def intro!: c_string_in_strncpy le_imp_less_Suc split: option.split)
    (simp add: c_string_in_def)

lemma number_option_ok: "0 < old \<and> old < limit \<Longrightarrow> 0 < number_option opt limit old \<and> number_option opt limit old < limit"
  by (simp add: number_option_def Let_def split: option.split)

lemma algorithm_option_ok:
  "old \<in> {ALGO_FIFO, ALGO_LRU, ALGO_LFU} \<Longrightarrow> algorithm_option opt old \<in> {ALGO_FIFO, ALGO_LRU, ALGO_LFU}"
  by (simp add: algorithm_option_def split: option.split)

lemma default_config_ok:
  assumes "length (socket_file raw) = FILE_NAME_MAX_SIZE" and "length (log_file raw) = FILE_NAME_MAX_SIZE"
  shows "config_ok (init_default_config raw)"
proof -
  have "cstr DEFAULT_SOCKET_FILE_NAME = DEFAULT_SOCKET_FILE_NAME" "cstr DEFAULT_LOG_FILE_NAME = DEFAULT_LOG_FILE_NAME"
    "length DEFAULT_SOCKET_FILE_NAME = 11" "length DEFAULT_LOG_FILE_NAME = 9"
    by (code_simp)+
  then have "c_string_in FILE_NAME_MAX_SIZE (strncpy (socket_file raw) DEFAULT_SOCKET_FILE_NAME DEFAULT_SOCKET_FILE_SIZE)"
    "c_string_in FILE_NAME_MAX_SIZE (strncpy (log_file raw) DEFAULT_LOG_FILE_NAME DEFAULT_LOG_FILE_SIZE)"
    using assms by (auto intro!: c_string_in_strncpy simp: DEFAULT_SOCKET_FILE_SIZE_def DEFAULT_LOG_FILE_SIZE_def FILE_NAME_MAX_SIZE_def)
  then show ?thesis by (simp add: config_ok_def init_default_config_def config_limits)
qed

lemma take_options_ok: "config_ok cfg \<Longrightarrow> config_ok (take_options read cfg)"
  unfolding config_ok_def take_options_def Let_def
  using name_option_ok number_option_ok algorithm_option_ok by simp

lemma parse_config_result:
  assumes "parse_config_from_file al cur text cfg = Some (Inr cfg')"
  obtains read where "read_config_file al cur text = Some (Inr read)" and "cfg' = take_options read cfg"
proof -
  obtain z where z: "read_config_file al cur text = Some z" "map_sum id (\<lambda>read. take_options read cfg) z = Inr cfg'"
    using assms by (auto simp: parse_config_from_file_def)
  then show thesis using that by (cases z) auto
qed

text \<open>Whatever the file holds.\<close>

lemma start_config_ok:
  assumes "start_config al cur raw err disk argv = Some (Inr cfg)"
    and "length (socket_file raw) = FILE_NAME_MAX_SIZE" and "length (log_file raw) = FILE_NAME_MAX_SIZE"
  shows "config_ok cfg"
proof -
  obtain f where "parse_config_from_file al cur (disk f) (init_default_config raw) = Some (Inr cfg)"
    using assms(1) by (auto simp: start_config_def split: sum.splits)
  then obtain read where "cfg = take_options read (init_default_config raw)" by (rule parse_config_result)
  then show ?thesis using take_options_ok [OF default_config_ok [OF assms(2,3)]] by simp
qed

subsection \<open>Reading back a written file\<close>

text \<open>A file as it is meant: settings and remarks, one on a line.\<close>

datatype cfg_item = Setting "byte list" "byte list" | Remark "byte list" "byte list"

definition word_ok :: "byte list \<Rightarrow> bool" where
  "word_ok w \<longleftrightarrow> w \<noteq> [] \<and> length w < CFG_MAX_KEY_SIZE \<and> set w \<inter> {0, 9, 10, 32, 35, 61} = {}"

text \<open>A remark as \<open>config.h\<close> promises it: blanks, and then nothing or a \<open>#\<close> and anything.\<close>

fun is_remark :: "cfg_item \<Rightarrow> bool" where
  "is_remark (Setting k v) \<longleftrightarrow> False"
| "is_remark (Remark blank rem) \<longleftrightarrow> set blank \<subseteq> {9, 32} \<and> (rem = [] \<or> hd rem = 35) \<and> set rem \<inter> {0, 10} = {}"

text \<open>The reader treats a remark with a \<open>=\<close> as a setting whose key starts with \<open>#\<close>, and limits the length of
  what it takes for the key and for the value; the value ends at the next \<open>#\<close>.\<close>

definition remark_key :: "byte list \<Rightarrow> byte list" where
  "remark_key rem = takeWhile (\<lambda>b. b \<noteq> 61) rem"

definition remark_value :: "byte list \<Rightarrow> byte list" where
  "remark_value rem = takeWhile (\<lambda>b. b \<noteq> 35) (dropWhile (\<lambda>b. b = 35) (drop 1 (dropWhile (\<lambda>b. b \<noteq> 61) rem)))"

fun item_ok :: "cfg_item \<Rightarrow> bool" where
  "item_ok (Setting k v) \<longleftrightarrow> word_ok k \<and> word_ok v"
| "item_ok (Remark blank rem) \<longleftrightarrow> is_remark (Remark blank rem)
   \<and> (if 61 \<in> set rem
      then length blank + length (remark_key rem) < CFG_MAX_KEY_SIZE
         \<and> length (remark_value rem) < CFG_MAX_KEY_SIZE \<and> \<not> set (remark_value rem) \<subseteq> {9, 32}
      else length blank + length rem < CFG_MAX_KEY_SIZE - 1)"

fun item_line :: "cfg_item \<Rightarrow> byte list" where
  "item_line (Setting k v) = k @ 61 # v"
| "item_line (Remark blank rem) = blank @ rem"

definition config_text :: "cfg_item list \<Rightarrow> byte list" where
  "config_text is = concat (map (\<lambda>i. item_line i @ [10]) is)"

fun settings :: "cfg_item list \<Rightarrow> (byte list \<times> byte list) list" where
  "settings [] = []"
| "settings (Setting k v # is) = (k, v) # settings is"
| "settings (Remark _ _ # is) = settings is"

definition kv_pair :: "cfg_kv \<Rightarrow> byte list \<times> byte list" where
  "kv_pair kv = (cstr (cfg_key kv), cstr (cfg_value kv))"

lemma chars_eq [simp]: "chars ''='' = [61]"
  by code_simp

lemma config_line_setting:
  assumes "word_ok k" and "word_ok v"
  shows "\<exists>kv. config_line cur (item_line (Setting k v) @ [10]) = Entry kv \<and> kv_pair kv = (k, v)"
proof -
  have k: "k \<noteq> []" "set k \<inter> set [61] = {}" "set k \<inter> set [9, 32] = {}" "0 \<notin> set k" "length k < 64"
    and v: "v \<noteq> []" "set v \<inter> set [35, 10] = {}" "set v \<inter> set [9, 32] = {}" "0 \<notin> set v" "length v < 64"
    using assms by (auto simp: word_ok_def CFG_MAX_KEY_SIZE_def)
  have c: "cstr (k @ 61 # v @ [10]) = k @ 61 # v @ [10]" using k(4) v(4) by (intro cstr_id) auto
  have t: "strtok_r [61] (k @ 61 # v @ [10]) = (Some k, v @ [10])" by (rule strtok_r_sep [OF k(1,2)]) simp
  have d: "61 \<in> set (dropWhile (\<lambda>b. b = 61) (k @ 61 # v @ [10]))"
    using k(1,2) by (cases k) auto
  have tk: "strtok_r [9, 32] k = (Some k, [])" by (rule strtok_r_last [OF k(1,3)])
  have "strtok_r [35, 10] (v @ 10 # []) = (Some v, [])" by (rule strtok_r_sep [OF v(1,2)]) simp
  moreover have "strtok_r [9, 32] v = (Some v, [])" by (rule strtok_r_last [OF v(1,3)])
  ultimately have e: "config_line cur (k @ 61 # v @ [10]) =
      Entry (cur\<lparr>cfg_key := strncpy (cfg_key cur) k CFG_MAX_KEY_SIZE, cfg_value := strncpy (cfg_value cur) v CFG_MAX_VALUE_SIZE\<rparr>)"
    using k(5) v(5) d tk by (simp add: config_line_def c t CFG_MAX_KEY_SIZE_def)
  have "cstr (strncpy (cfg_key cur) k CFG_MAX_KEY_SIZE) = k" "cstr (strncpy (cfg_value cur) v CFG_MAX_VALUE_SIZE) = v"
    using k(4,5) v(4,5) by (simp_all add: cstr_strncpy cstr_id cfg_sizes)
  with e show ?thesis by (simp add: kv_pair_def)
qed

text \<open>A remark without \<open>=\<close>: the whole line is the first token.\<close>

lemma plain_remark:
  assumes "is_remark (Remark blank rem)" and "61 \<notin> set rem"
  shows "config_line cur (item_line (Remark blank rem) @ [10])
    = (if length blank + length rem < CFG_MAX_KEY_SIZE - 1 then Nothing else Malformed)"
proof -
  let ?l = "blank @ rem @ [10]"
  have b: "set blank \<subseteq> {9, 32}" and n: "rem = [] \<or> hd rem = 35" "set rem \<inter> {0, 10, 61} = {}"
    using assms by auto
  have "0 \<notin> set ?l" using b n(2) by auto
  then have c: "cstr ?l = ?l" by (rule cstr_id)
  have e: "61 \<notin> set ?l" using b n(2) by auto
  then have t: "strtok_r [61] ?l = (Some ?l, [])" by (intro strtok_r_last) auto
  have d: "61 \<notin> set (dropWhile (\<lambda>b. b = 61) ?l)" using e by (auto dest: set_dropWhileD)
  have "\<forall>x \<in> set blank. x = 32 \<or> x = 9" using b by auto
  then have w: "dropWhile (\<lambda>b. b = 32 \<or> b = 9) ?l = rem @ [10]"
    using n(1) by (cases rem) (simp_all add: dropWhile_append2)
  have l: "last ?l = 10" by simp
  from c t d w l show ?thesis unfolding item_line.simps append_assoc
    by (cases rem) (use n(1) in \<open>auto simp add: config_line_def CFG_MAX_KEY_SIZE_def simp del: append_assoc\<close>)
qed

text \<open>A remark with \<open>=\<close>: an entry whose key starts with \<open>#\<close>, or an error.\<close>

lemma strtok_blanks: "fst (strtok_r [9, 32] s) = None \<longleftrightarrow> set s \<subseteq> {9, 32}"
  by (auto simp: strtok_r_def Let_def dropWhile_eq_Nil_conv)

lemma strtok_remark_key:
  assumes "set blank \<subseteq> {9, 32}" and "hd k = 35" and "k \<noteq> []"
  shows "\<exists>key. fst (strtok_r [9, 32] (blank @ k)) = Some key \<and> take 1 key = [35] \<and> set key \<subseteq> set k \<and> length key \<le> length k"
proof -
  have "\<forall>x \<in> set blank. x = 9 \<or> x = 32" using assms(1) by auto
  then have "dropWhile (\<lambda>b. b \<in> set [9, 32]) (blank @ k) = k"
    using assms(2,3) by (cases k) (simp_all add: dropWhile_append2)
  then have "fst (strtok_r [9, 32] (blank @ k)) = Some (takeWhile (\<lambda>b. b \<notin> set [9, 32]) k)"
    using assms(3) by (simp add: strtok_r_def)
  moreover have "take 1 (takeWhile (\<lambda>b. b \<notin> set [9, 32]) k) = [35]" using assms(2,3) by (cases k) simp_all
  moreover have "set (takeWhile (\<lambda>b. b \<notin> set [9, 32]) k) \<subseteq> set k" by (rule subsetI) (blast dest: set_takeWhileD)
  moreover have "length (takeWhile (\<lambda>b. b \<notin> set [9, 32]) k) \<le> length k" by (rule length_takeWhile_le)
  ultimately show ?thesis by (intro exI [of _ "takeWhile (\<lambda>b. b \<notin> set [9, 32]) k"] conjI)
qed

lemma strtok_remark_value:
  assumes "10 \<notin> set v"
  shows "fst (strtok_r [35, 10] (v @ [10]))
    = (let t = takeWhile (\<lambda>b. b \<noteq> 35) (dropWhile (\<lambda>b. b = 35) v) in if t = [] then None else Some t)"
proof (cases "set v \<subseteq> {35}")
  case True
  then have v: "\<forall>x \<in> set v. x = 35" by auto
  have "dropWhile (\<lambda>b. b = 35) v = []" using v by (subst dropWhile_eq_Nil_conv)
  then have "takeWhile (\<lambda>b. b \<noteq> 35) (dropWhile (\<lambda>b. b = 35) v) = []" by (simp only: takeWhile.simps)
  moreover have "dropWhile (\<lambda>b. b \<in> set [35, 10]) (v @ [10]) = []"
    using v by (subst dropWhile_eq_Nil_conv) auto
  ultimately show ?thesis by (simp add: strtok_r_def)
next
  case False
  let ?w = "dropWhile (\<lambda>b. b = 35) v"
  have w: "?w \<noteq> []" "10 \<notin> set ?w" using False assms by (auto simp: dropWhile_eq_Nil_conv dest: set_dropWhileD)
  then have hd: "hd ?w \<noteq> 35" "hd ?w \<noteq> 10" using hd_dropWhile by (blast, metis list.set_sel(1))
  have "dropWhile (\<lambda>b. b \<in> set [35, 10]) (v @ [10]) = ?w @ [10]"
    using assms hd w(1) by (induction v) auto
  moreover have "takeWhile (\<lambda>b. b \<notin> set [35, 10]) (u @ [10]) = takeWhile (\<lambda>b. b \<noteq> 35) u" if "10 \<notin> set u" for u
    using that by (induction u) auto
  then have "takeWhile (\<lambda>b. b \<notin> set [35, 10]) (?w @ [10]) = takeWhile (\<lambda>b. b \<noteq> 35) ?w" using w(2) by blast
  moreover have "takeWhile (\<lambda>b. b \<noteq> 35) ?w \<noteq> []" using hd(1) w(1) by (cases ?w) simp_all
  ultimately show ?thesis by (simp add: strtok_r_def Let_def)
qed

lemma assigning_remark:
  assumes r: "is_remark (Remark blank rem)" and "61 \<in> set rem"
  shows "if item_ok (Remark blank rem)
         then \<exists>kv. config_line cur (item_line (Remark blank rem) @ [10]) = Entry kv \<and> take 1 (cstr (cfg_key kv)) = [35]
         else config_line cur (item_line (Remark blank rem) @ [10]) \<in> {Malformed, Null}"
proof -
  let ?k = "remark_key rem" and ?v = "drop 1 (dropWhile (\<lambda>b. b \<noteq> 61) rem)"
  have b: "set blank \<subseteq> {9, 32}" and n: "hd rem = 35" "set rem \<inter> {0, 10} = {}" using r assms(2) by auto
  have rem: "rem = ?k @ 61 # ?v"
    using assms(2) hd_dropWhile [of "\<lambda>b. b \<noteq> 61" rem] takeWhile_dropWhile_id [of "\<lambda>b. b \<noteq> 61" rem]
    unfolding remark_key_def by (cases "dropWhile (\<lambda>b. b \<noteq> 61) rem") (auto simp: dropWhile_eq_Nil_conv)
  have k: "?k \<noteq> []" "hd ?k = 35" "61 \<notin> set ?k"
    using n(1) rem unfolding remark_key_def by (cases rem; auto dest: set_takeWhileD)+
  have nul: "0 \<notin> set ?k" "10 \<notin> set ?k" "0 \<notin> set ?v" "10 \<notin> set ?v"
    using n(2) by (auto simp: remark_key_def dest!: set_takeWhileD in_set_dropD set_dropWhileD)
  have line: "item_line (Remark blank rem) @ [10] = (blank @ ?k) @ 61 # (?v @ [10])" by (subst rem) simp
  have c: "cstr ((blank @ ?k) @ 61 # (?v @ [10])) = (blank @ ?k) @ 61 # (?v @ [10])"
    using b nul by (intro cstr_id) auto
  have t: "strtok_r [61] ((blank @ ?k) @ 61 # (?v @ [10])) = (Some (blank @ ?k), ?v @ [10])"
    by (rule strtok_r_sep) (use b k in auto)
  have "hd (blank @ ?k) \<noteq> 61" using b k(1,2) by (cases blank) auto
  then have d: "61 \<in> set (dropWhile (\<lambda>b. b = 61) ((blank @ ?k) @ 61 # (?v @ [10])))"
    using k(1) by (cases "blank @ ?k") auto
  obtain key where key: "fst (strtok_r [9, 32] (blank @ ?k)) = Some key" "take 1 key = [35]" "set key \<subseteq> set ?k" "length key \<le> length ?k"
    using strtok_remark_key [OF b k(2,1)] by blast
  have v: "fst (strtok_r [35, 10] (?v @ [10])) = (if remark_value rem = [] then None else Some (remark_value rem))"
    using strtok_remark_value [OF nul(4)] by (simp add: remark_value_def Let_def)
  have L: "config_line cur (item_line (Remark blank rem) @ [10]) =
      (if CFG_MAX_KEY_SIZE < length blank + length ?k + 1 then Malformed
       else if remark_value rem = [] \<or> CFG_MAX_KEY_SIZE < length (remark_value rem) + 1 then Malformed
       else case fst (strtok_r [9, 32] (remark_value rem)) of
              None \<Rightarrow> Null
            | Some val \<Rightarrow> Entry (cur\<lparr>cfg_key := strncpy (cfg_key cur) key CFG_MAX_KEY_SIZE,
                                   cfg_value := strncpy (cfg_value cur) val CFG_MAX_VALUE_SIZE\<rparr>))"
    unfolding line config_line_def c chars_eq t Let_def prod.case option.case using d key(1) v
    by (simp del: append_assoc)
  show ?thesis
  proof (cases "item_ok (Remark blank rem)")
    case True
    then have ok: "length blank + length ?k < 64" "length (remark_value rem) < 64" "\<not> set (remark_value rem) \<subseteq> {9, 32}"
      using assms(2) by (auto simp: CFG_MAX_KEY_SIZE_def split: if_splits)
    then obtain val where "fst (strtok_r [9, 32] (remark_value rem)) = Some val" using strtok_blanks by (metis not_None_eq)
    moreover have "remark_value rem \<noteq> []" using ok(3) by auto
    moreover have "cstr (strncpy (cfg_key cur) key CFG_MAX_KEY_SIZE) = key"
    proof -
      have "cstr key = key" using key(3) nul(1) by (intro cstr_id) blast
      then show ?thesis using ok(1) key(4) by (subst cstr_strncpy) (simp_all add: CFG_MAX_KEY_SIZE_def)
    qed
    ultimately show ?thesis using True L ok key(2) assms(2) by (simp add: CFG_MAX_KEY_SIZE_def)
  next
    case False
    then have "\<not> length blank + length ?k < 64 \<or> \<not> length (remark_value rem) < 64 \<or> set (remark_value rem) \<subseteq> {9, 32}"
      using assms by (auto simp: CFG_MAX_KEY_SIZE_def)
    then have "config_line cur (item_line (Remark blank rem) @ [10]) \<in> {Malformed, Null}"
      unfolding L using strtok_blanks [of "remark_value rem"] by (auto simp: CFG_MAX_KEY_SIZE_def)
    then show ?thesis unfolding if_not_P [OF False] .
  qed
qed

text \<open>What a remark is for the reader: nothing, an entry that no option matches, or the end.\<close>

definition read_as_remark :: "cfg_line \<Rightarrow> bool" where
  "read_as_remark l \<longleftrightarrow> (case l of Nothing \<Rightarrow> True | Entry kv \<Rightarrow> take 1 (cstr (cfg_key kv)) = [35] | _ \<Rightarrow> False)"

lemma remark_read:
  assumes "is_remark i"
  shows "if item_ok i then read_as_remark (config_line cur (item_line i @ [10])) else config_line cur (item_line i @ [10]) \<in> {Malformed, Null}"
proof (cases i)
  case (Remark blank rem)
  then show ?thesis
    using plain_remark [of blank rem cur] assigning_remark [of blank rem cur] assms
    by (cases "61 \<in> set rem") (auto simp: read_as_remark_def split: if_splits)
qed (use assms in simp)

lemma getlines_config_text:
  "(\<forall>i \<in> set is. item_ok i \<or> is_remark i) \<Longrightarrow> getlines (config_text is) = map (\<lambda>i. item_line i @ [10]) is"
proof (induction "is")
  case (Cons i "is")
  have "10 \<notin> set (item_line i)" using Cons.prems by (cases i) (auto simp: word_ok_def)
  then show ?case using Cons getlines_line by (simp add: config_text_def)
qed (simp add: config_text_def)

text \<open>The entries that are not remarks.\<close>

definition plain :: "(byte list \<times> byte list) list \<Rightarrow> (byte list \<times> byte list) list" where
  "plain kvs = filter (\<lambda>kv. take 1 (fst kv) \<noteq> [35]) kvs"

lemma map_of_plain: "take 1 key \<noteq> [35] \<Longrightarrow> map_of (plain kvs) key = map_of kvs key"
  by (induction kvs) (auto simp: plain_def)

lemma grown_array:
  "\<exists>sz. (if cfg_size out \<le> length (cfgs out) then realloc_cfg_struct mem_ok (cfg_size out + 10) out else Inr out)
     = Inr (out\<lparr>cfg_size := sz\<rparr>)"
proof (cases "cfg_size out \<le> length (cfgs out)")
  case True
  then show ?thesis by (simp add: realloc_cfg_struct_def mem_ok) blast
next
  case False
  then show ?thesis by (intro exI [of _ "cfg_size out"]) simp
qed

lemma word_plain: "word_ok k \<Longrightarrow> take 1 k \<noteq> [35]"
  by (cases k) (auto simp: word_ok_def)

lemma config_lines_items:
  "(\<forall>i \<in> set is. item_ok i) \<Longrightarrow>
   \<exists>out'. config_lines mem_ok cur (map (\<lambda>i. item_line i @ [10]) is) out = Some (Inr out')
     \<and> plain (map kv_pair (cfgs out')) = plain (map kv_pair (cfgs out)) @ settings is"
proof (induction "is" arbitrary: cur out)
  case (Cons i "is")
  note IH = Cons.IH and ok = Cons.prems
  obtain sz where sz: "(if cfg_size out \<le> length (cfgs out) then realloc_cfg_struct mem_ok (cfg_size out + 10) out else Inr out)
      = Inr (out\<lparr>cfg_size := sz\<rparr>)" using grown_array by blast
  have grow: "\<exists>out'. config_lines mem_ok cur (map (\<lambda>i. item_line i @ [10]) (i # is)) out = Some (Inr out')
      \<and> plain (map kv_pair (cfgs out')) = plain (map kv_pair (cfgs out)) @ plain [kv_pair kv] @ settings is"
    if "config_line cur (item_line i @ [10]) = Entry kv" for kv
    using IH [of kv "out\<lparr>cfg_size := sz, cfgs := cfgs out @ [kv]\<rparr>"] that sz ok by (auto simp: plain_def)
  show ?case
  proof (cases i)
    case (Setting k v)
    then obtain kv where "config_line cur (item_line i @ [10]) = Entry kv" "kv_pair kv = (k, v)"
      using config_line_setting ok by fastforce
    moreover have "take 1 k \<noteq> [35]" using word_plain ok Setting by simp
    ultimately have "plain [kv_pair kv] = [(k, v)]" "config_line cur (item_line i @ [10]) = Entry kv" by (simp_all add: plain_def)
    with grow Setting show ?thesis by simp
  next
    case (Remark blank rem)
    then have "is_remark i" "item_ok i" using ok by auto
    then have "read_as_remark (config_line cur (item_line i @ [10]))" using remark_read by presburger
    then consider "config_line cur (item_line i @ [10]) = Nothing"
      | kv where "config_line cur (item_line i @ [10]) = Entry kv" "take 1 (cstr (cfg_key kv)) = [35]"
      by (auto simp: read_as_remark_def split: cfg_line.splits)
    then show ?thesis
    proof cases
      case 1
      then show ?thesis using IH [of cur out] ok Remark by simp
    next
      case 2
      then have "plain [kv_pair kv] = []" by (simp add: plain_def kv_pair_def)
      with grow [OF 2(1)] Remark show ?thesis by simp
    qed
  qed
qed simp

text \<open>One remark that does not fit, and the reader fails.\<close>

lemma config_lines_refused:
  "(\<forall>i \<in> set is. item_ok i \<or> is_remark i) \<Longrightarrow> \<not> (\<forall>i \<in> set is. item_ok i) \<Longrightarrow>
   config_lines mem_ok cur (map (\<lambda>i. item_line i @ [10]) is) out \<noteq> Some (Inr out')"
proof (induction "is" arbitrary: cur out)
  case (Cons i "is")
  show ?case
  proof (cases "item_ok i")
    case True
    obtain sz where "(if cfg_size out \<le> length (cfgs out) then realloc_cfg_struct mem_ok (cfg_size out + 10) out else Inr out)
        = Inr (out\<lparr>cfg_size := sz\<rparr>)" using grown_array by blast
    then show ?thesis using Cons True by (auto split: cfg_line.split)
  next
    case False
    then have "is_remark i" using Cons.prems by simp
    with False have "config_line cur (item_line i @ [10]) \<in> {Malformed, Null}" using remark_read by presburger
    then show ?thesis by auto
  qed
qed simp

lemma find_option_map_of: "find_option key kvs = map_of (map kv_pair kvs) key"
  by (induction kvs) (auto simp: kv_pair_def)

lemma read_config_text:
  assumes "\<forall>i \<in> set is. item_ok i"
  shows "\<exists>out. read_config_file mem_ok cur (Inr (config_text is)) = Some (Inr out)
           \<and> (\<forall>key. take 1 key \<noteq> [35] \<longrightarrow> get_option out key = map_of (settings is) key)"
proof -
  obtain out where o: "config_lines mem_ok cur (map (\<lambda>i. item_line i @ [10]) is) \<lparr>cfgs = [], cfg_size = 0\<rparr> = Some (Inr out)"
      "plain (map kv_pair (cfgs out)) = settings is"
    using config_lines_items [OF assms, of cur "\<lparr>cfgs = [], cfg_size = 0\<rparr>"] by (auto simp: plain_def)
  then have "read_config_file mem_ok cur (Inr (config_text is)) = Some (Inr (out\<lparr>cfg_size := length (cfgs out)\<rparr>))"
    using getlines_config_text assms by (simp add: read_config_file_def realloc_cfg_struct_def mem_ok)
  then show ?thesis using map_of_plain [of _ "map kv_pair (cfgs out)"] by (simp add: get_option_def find_option_map_of o(2))
qed

lemma config_text_refused:
  assumes "\<forall>i \<in> set is. item_ok i \<or> is_remark i" and "\<not> (\<forall>i \<in> set is. item_ok i)"
  shows "\<nexists>cfg. parse_config_from_file mem_ok cur (Inr (config_text is)) old = Some (Inr cfg)"
proof
  assume "\<exists>cfg. parse_config_from_file mem_ok cur (Inr (config_text is)) old = Some (Inr cfg)"
  then obtain read where "read_config_file mem_ok cur (Inr (config_text is)) = Some (Inr read)"
    using parse_config_result by metis
  then obtain out where "config_lines mem_ok cur (map (\<lambda>i. item_line i @ [10]) is) \<lparr>cfgs = [], cfg_size = 0\<rparr> = Some (Inr out)"
    using getlines_config_text [OF assms(1)] by (auto simp: read_config_file_def split: option.splits sum.splits)
  then show False using config_lines_refused [OF assms] by blast
qed

text \<open>The file that \<open>relazione\<close> and \<open>config.txt\<close> describe, for a given configuration.\<close>

definition algorithm_name :: "int \<Rightarrow> byte list" where
  "algorithm_name a = (if a = ALGO_FIFO then chars ''fifo'' else if a = ALGO_LRU then chars ''lru'' else chars ''lfu'')"

definition config_items :: "cfg_t \<Rightarrow> cfg_item list" where
  "config_items c =
     [Setting (chars ''socket_name'') (cstr (socket_file c)), Setting (chars ''log_name'') (cstr (log_file c)),
      Setting (chars ''worker_threads'') (dec_int (worker_threads c)),
      Setting (chars ''storage_size'') (dec_int (storage_capacity c)),
      Setting (chars ''max_files'') (dec_int (max_files c)),
      Setting (chars ''max_connections'') (dec_int (max_connections c)),
      Setting (chars ''algorithm'') (algorithm_name (algorithm c))]"

lemma dec_int_word:
  assumes "0 < n" and "n < 2 ^ 33"
  shows "word_ok (dec_int n)" and "strtol (dec_int n) = n"
proof -
  have d: "dec_int n = dec_nat (nat n)" using assms(1) by (simp add: dec_int_def)
  have n: "nat n < 2 ^ 33" using assms(2) by (simp add: nat_less_iff)
  then have "length (dec_nat (nat n)) \<le> 10" by (intro length_dec_nat) simp_all
  moreover have "dec_nat (nat n) \<noteq> []" using dec_nat_head [of "nat n"] by auto
  moreover have "set (dec_nat (nat n)) \<inter> {0, 9, 10, 32, 35, 61} = {}"
    using dec_nat_digits [of "nat n"] by (auto simp: plain_digit_def)
  ultimately show "word_ok (dec_int n)" by (simp add: word_ok_def d CFG_MAX_KEY_SIZE_def)
  show "strtol (dec_int n) = n" using strtol_dec_nat [of "nat n"] n assms(1) by (simp add: d)
qed

lemma option_names:
  "chars ''socket_name'' = [115, 111, 99, 107, 101, 116, 95, 110, 97, 109, 101]"
  "chars ''log_name'' = [108, 111, 103, 95, 110, 97, 109, 101]"
  "chars ''worker_threads'' = [119, 111, 114, 107, 101, 114, 95, 116, 104, 114, 101, 97, 100, 115]"
  "chars ''storage_size'' = [115, 116, 111, 114, 97, 103, 101, 95, 115, 105, 122, 101]"
  "chars ''max_files'' = [109, 97, 120, 95, 102, 105, 108, 101, 115]"
  "chars ''max_connections'' = [109, 97, 120, 95, 99, 111, 110, 110, 101, 99, 116, 105, 111, 110, 115]"
  "chars ''algorithm'' = [97, 108, 103, 111, 114, 105, 116, 104, 109]"
  "chars ''fifo'' = [102, 105, 102, 111]"
  "chars ''lru'' = [108, 114, 117]"
  "chars ''lfu'' = [108, 102, 117]"
  by code_simp+

lemma config_items_ok:
  assumes c: "config_ok c" and "word_ok (cstr (socket_file c))" and "word_ok (cstr (log_file c))"
  shows "\<forall>i \<in> set (config_items c). item_ok i"
proof -
  have w: "word_ok (chars ''socket_name'')" "word_ok (chars ''log_name'')" "word_ok (chars ''worker_threads'')"
    "word_ok (chars ''storage_size'')" "word_ok (chars ''max_files'')" "word_ok (chars ''max_connections'')"
    "word_ok (chars ''algorithm'')" "word_ok (chars ''fifo'')" "word_ok (chars ''lru'')" "word_ok (chars ''lfu'')"
    by code_simp+
  have "word_ok (dec_int (worker_threads c))" "word_ok (dec_int (storage_capacity c))" "word_ok (dec_int (max_files c))"
    "word_ok (dec_int (max_connections c))"
    using c by (intro dec_int_word(1); simp add: config_ok_def config_limits)+
  moreover have "word_ok (algorithm_name (algorithm c))" using w by (simp add: algorithm_name_def)
  ultimately show ?thesis using w assms(2,3) by (simp add: config_items_def)
qed

lemma config_reads_back:
  assumes c: "config_ok c" and "word_ok (cstr (socket_file c))" and "word_ok (cstr (log_file c))"
    and "config_ok old" and rems: "\<forall>i \<in> set rems. item_ok i \<and> is_remark i"
  shows "\<exists>c'. parse_config_from_file mem_ok cur (Inr (config_text (rems @ config_items c))) old = Some (Inr c')
    \<and> cstr (socket_file c') = cstr (socket_file c) \<and> cstr (log_file c') = cstr (log_file c)
    \<and> worker_threads c' = worker_threads c \<and> storage_capacity c' = storage_capacity c
    \<and> max_files c' = max_files c \<and> max_connections c' = max_connections c \<and> algorithm c' = algorithm c"
proof -
  have set: "settings (rems @ is) = settings is" for "is" using rems
  proof (induction rems)
    case (Cons r rems)
    then show ?case by (cases r) auto
  qed simp
  note N = dec_int_word [of "worker_threads c"] dec_int_word [of "storage_capacity c"] dec_int_word [of "max_files c"]
    dec_int_word [of "max_connections c"]
  have n: "strtol (dec_int (worker_threads c)) = worker_threads c"
    "strtol (dec_int (storage_capacity c)) = storage_capacity c" "strtol (dec_int (max_files c)) = max_files c"
    "strtol (dec_int (max_connections c)) = max_connections c"
    using N c by (simp_all add: config_ok_def config_limits)
  have "\<forall>i \<in> set (rems @ config_items c). item_ok i" using config_items_ok [OF assms(1-3)] rems by (simp add: ball_Un)
  from read_config_text [OF this, of cur] obtain out where
    o: "read_config_file mem_ok cur (Inr (config_text (rems @ config_items c))) = Some (Inr out)"
      "\<And>key. take 1 key \<noteq> [35] \<Longrightarrow> get_option out key = map_of (settings (config_items c)) key" by (auto simp: set)
  have old: "length (socket_file old) = 256" "length (log_file old) = 256" using assms(4)
    by (simp_all add: config_ok_def c_string_in_def FILE_NAME_MAX_SIZE_def)
  have lens: "length (cstr (socket_file c)) < 64" "length (cstr (log_file c)) < 64"
    using assms(2,3) by (simp_all add: word_ok_def CFG_MAX_KEY_SIZE_def)
  let ?opt = "\<lambda>key. get_option out (chars key)"
  have opt: "?opt ''socket_name'' = Some (cstr (socket_file c))" "?opt ''log_name'' = Some (cstr (log_file c))"
    "?opt ''worker_threads'' = Some (dec_int (worker_threads c))" "?opt ''storage_size'' = Some (dec_int (storage_capacity c))"
    "?opt ''max_files'' = Some (dec_int (max_files c))" "?opt ''max_connections'' = Some (dec_int (max_connections c))"
    "?opt ''algorithm'' = Some (algorithm_name (algorithm c))"
    by (simp_all add: o(2) config_items_def option_names)
  have name: "cstr (name_option (Some (cstr x)) y) = cstr x" if "length (cstr x) < 64" for x y
    using that by (simp add: name_option_def FILE_NAME_MAX_SIZE_def cstr_strncpy)
  have alg: "algorithm_option (Some (algorithm_name (algorithm c))) y = algorithm c" for y
    using c by (auto simp: algorithm_option_def algorithm_name_def option_names config_ok_def ALGO_FIFO_def ALGO_LRU_def ALGO_LFU_def)
  have "parse_config_from_file mem_ok cur (Inr (config_text (rems @ config_items c))) old = Some (Inr (take_options out old))"
    by (simp add: parse_config_from_file_def o(1))
  moreover have "number_option (Some (dec_int n)) limit y = n" if "strtol (dec_int n) = n" "0 < n" "n < limit" for n limit y
    using that by (simp add: number_option_def)
  ultimately show ?thesis using c n name lens alg
    by (simp add: take_options_def opt config_ok_def)
qed

subsection \<open>Lines that are not what they seem\<close>

text \<open>A value made of blanks leaves \<open>token2\<close> NULL, and \<open>strncpy\<close> reads through it; what follows
  \<open>=#\<close> is taken as the value; and a remark of 63 characters is an error.\<close>

lemma blank_value_null: "config_line cur (chars ''max_files= '' @ [10]) = Null"
  by code_simp

lemma remark_as_value:
  "\<exists>kv. config_line cur (chars ''max_files=#all'' @ [10]) = Entry kv \<and> kv_pair kv = (chars ''max_files'', chars ''all'')"
proof -
  have "config_line \<lparr>cfg_key = k, cfg_value = v\<rparr> (chars ''max_files=#all'' @ [10])
      = Entry \<lparr>cfg_key = strncpy k (chars ''max_files'') 64, cfg_value = strncpy v (chars ''all'') 448\<rparr>" for k v
    by code_simp
  moreover have "cstr (chars ''max_files'') = chars ''max_files''" "length (chars ''max_files'') < 64"
    "cstr (chars ''all'') = chars ''all''" "length (chars ''all'') < 448"
    by code_simp+
  ultimately show ?thesis by (cases cur) (simp add: kv_pair_def cstr_strncpy)
qed

lemma long_remark_rejected: "config_line cur (35 # replicate 63 42 @ [10]) = Malformed"
  by code_simp

end
