(* ===== verification/Server_Start.thy ===== *)
theory Server_Start
  imports Pool Config Log Client_Api
begin

text \<open>
  The start of the server: what \<open>main\<close> of \<open>exec/server.c\<close> does before its loop, with
  \<open>parse_cmd_start_log\<close>, \<open>prepare_socket\<close>, \<open>signal_to_file\<close> and \<open>prepare_shared_data\<close>. It
  ties the configuration to the system of \<open>Pool\<close>: whatever the configuration file holds, a
  server that starts satisfies the invariant of that system.
\<close>

text \<open>What the kernel and the C library decide, and what the uninitialised variables hold.\<close>

record start_env =
  se_alloc :: allocator
  se_files_mem :: bool
  se_threads_mem :: bool
  se_spawn :: "nat \<Rightarrow> bool"
  se_open :: "byte list \<Rightarrow> errno + byte list"
  se_fopen :: "byte list \<Rightarrow> errno option"
  se_now :: tm
  se_socket :: "errno + int"
  se_bind :: "errno option"
  se_listen :: "errno option"
  se_signalfd :: "errno + int"
  se_errno :: errno
  se_kv :: cfg_kv
  se_cfg :: cfg_t
  se_log :: log_t
  se_data :: worker_data

definition parse_cmd_start_log :: "start_env \<Rightarrow> byte list list \<Rightarrow> disk \<Rightarrow> (errno + cfg_t \<times> log_t \<times> disk) option" where
  "parse_cmd_start_log E argv dk =
     (case start_config (se_alloc E) (se_kv E) (se_cfg E) (se_errno E) (se_open E) argv of
        None \<Rightarrow> None
      | Some (Inl e) \<Rightarrow> Some (Inl e)
      | Some (Inr cfg) \<Rightarrow>
          (case init_log_file_struct (Some (log_file cfg)) (se_log E) of
             Inl e \<Rightarrow> Some (Inl e)
           | Inr log \<Rightarrow>
               (case reset_log (se_fopen E) (se_now E) log dk of
                  None \<Rightarrow> None
                | Some (Inl e, _) \<Rightarrow> Some (Inl e)
                | Some (Inr _, log, dk) \<Rightarrow> Some (Inr (cfg, log, dk)))))"

definition prepare_socket :: "start_env \<Rightarrow> cfg_t \<Rightarrow> errno + int" where
  "prepare_socket E cfg =
     (case SOCKNAME_VALID (socket_file cfg) of
        Inl e \<Rightarrow> Inl e
      | Inr _ \<Rightarrow>
          (case se_socket E of
             Inl e \<Rightarrow> Inl e
           | Inr sck \<Rightarrow>
               (case se_bind E of
                  Some e \<Rightarrow> Inl e
                | None \<Rightarrow> (case se_listen E of Some e \<Rightarrow> Inl e | None \<Rightarrow> Inr sck))))"

text \<open>The thread blocks the four signals of the loop and reads them from a file.\<close>

definition signal_to_file :: "errno + int \<Rightarrow> errno + int \<times> signal set" where
  "signal_to_file signalfd =
     (case signalfd of Inl e \<Rightarrow> Inl e | Inr sigfd \<Rightarrow> Inr (sigfd, {SIGINT, SIGQUIT, SIGHUP, SIGUSR1}))"

definition prepare_shared_data :: "allocator \<Rightarrow> int \<Rightarrow> cfg_t \<Rightarrow> errno + shared_state" where
  "prepare_shared_data al sck cfg =
     init_shared_state al (algorithm cfg) (word_of_int (storage_capacity cfg)) (max_files cfg) (max_connections cfg) sck"

definition server_boot :: "start_env \<Rightarrow> byte list list \<Rightarrow> disk \<Rightarrow> (errno + cfg_t \<times> system \<times> log_t \<times> disk) option" where
  "server_boot E argv dk =
     (case parse_cmd_start_log E argv dk of
        None \<Rightarrow> None
      | Some (Inl e) \<Rightarrow> Some (Inl e)
      | Some (Inr (cfg, log, dk)) \<Rightarrow> Some
          (case compression_init of Inl e \<Rightarrow> Inl e | Inr _ \<Rightarrow>
          (case prepare_socket E cfg of Inl e \<Rightarrow> Inl e | Inr sck \<Rightarrow>
          (case signal_to_file (se_signalfd E) of Inl e \<Rightarrow> Inl e | Inr (sigfd, _) \<Rightarrow>
          (case initialize_poll_array (se_alloc E (word_of_int (8 * (max_connections cfg + 2)))) sck sigfd
                  (nat (max_connections cfg)) of None \<Rightarrow> Inl ENOMEM | Some ps \<Rightarrow>
          if \<not> se_files_mem E then Inl ENOMEM
          else (case prepare_shared_data (se_alloc E) sck cfg of Inl e \<Rightarrow> Inl e | Inr ss \<Rightarrow>
               (case prepare_threads (se_threads_mem E) (se_spawn E) (se_data E) (nat (worker_threads cfg)) (nat (max_files cfg)) of
                  None \<Rightarrow> Inl EAGAIN
                | Some ws \<Rightarrow> Inr (cfg, started (nat (max_files cfg)) sck ws ps ss, log, dk))))))))"

subsection \<open>A server that starts is sound\<close>

definition booted :: "cfg_t \<Rightarrow> system \<Rightarrow> bool" where
  "booted cfg s \<longleftrightarrow>
     pool_inv (nat (max_connections cfg)) s
   \<and> length (threads_data (main s)) = nat (worker_threads cfg)
   \<and> length (files (srv s)) = nat (max_files cfg)
   \<and> unat (ro_max_storage (shared (srv s))) = nat (storage_capacity cfg)
   \<and> ro_cache_miss_algorithm (shared (srv s)) = algorithm cfg"

lemma capacity_word:
  assumes "0 < n" and "n < MAX_STORAGE_CAPACITY"
  shows "unat (word_of_int n :: uint64) = nat n" and "nat n < 2 ^ 61"
proof -
  have n: "0 \<le> n" "n < 2 ^ 32" using assms by (simp_all add: MAX_STORAGE_CAPACITY_def)
  then have "n < 2 ^ LENGTH(64)" by simp
  then have "uint (word_of_int n :: uint64) = n" using n(1) by (simp add: uint_word_of_int take_bit_int_eq_self)
  then show "unat (word_of_int n :: uint64) = nat n" by (metis unat_eq_nat_uint)
  show "nat n < 2 ^ 61" using n by (simp add: nat_less_iff)
qed

lemma prepare_threads_any:
  assumes "prepare_threads mem spawn raw k n = Some ws"
  shows "prepare_threads True (\<lambda>_. True) raw k n = Some ws" and "length ws = k"
  using assms by (auto simp: prepare_threads_def split: if_splits)

lemma parse_cmd_parts:
  assumes "parse_cmd_start_log E argv dk = Some (Inr (cfg, log, dk'))"
  shows "start_config (se_alloc E) (se_kv E) (se_cfg E) (se_errno E) (se_open E) argv = Some (Inr cfg)" and "\<not> mux log"
proof -
  from assms obtain c where c: "start_config (se_alloc E) (se_kv E) (se_cfg E) (se_errno E) (se_open E) argv = Some (Inr c)"
    by (auto simp: parse_cmd_start_log_def split: option.splits sum.splits)
  from assms c obtain l where l: "init_log_file_struct (Some (log_file c)) (se_log E) = Inr l"
    by (auto simp: parse_cmd_start_log_def split: sum.splits)
  have m: "\<not> mux l" using l by (auto simp: init_log_file_struct_def Let_def split: if_splits)
  then have "log = l \<and> cfg = c" using assms c l
    by (auto simp: parse_cmd_start_log_def reset_log_def Let_def split: option.splits)
  then show "start_config (se_alloc E) (se_kv E) (se_cfg E) (se_errno E) (se_open E) argv = Some (Inr cfg)" "\<not> mux log"
    using c m by simp_all
qed

lemma boot_parts:
  assumes "server_boot E argv dk = Some (Inr (cfg, s, log, dk'))"
  obtains sck sigfd ps ss ws where
    "start_config (se_alloc E) (se_kv E) (se_cfg E) (se_errno E) (se_open E) argv = Some (Inr cfg)"
    "se_socket E = Inr sck"
    "initialize_poll_array True sck sigfd (nat (max_connections cfg)) = Some ps"
    "prepare_shared_data (se_alloc E) sck cfg = Inr ss"
    "prepare_threads True (\<lambda>_. True) (se_data E) (nat (worker_threads cfg)) (nat (max_files cfg)) = Some ws"
    "length ws = nat (worker_threads cfg)" "s = started (nat (max_files cfg)) sck ws ps ss"
proof -
  note B = assms [unfolded server_boot_def compression_init_def]
  obtain c l d where p: "parse_cmd_start_log E argv dk = Some (Inr (c, l, d))"
    using B by (cases "parse_cmd_start_log E argv dk") (auto split: sum.splits prod.splits)
  obtain sck where k: "prepare_socket E c = Inr sck" using B p by (auto split: sum.splits)
  obtain sigfd ms where g: "signal_to_file (se_signalfd E) = Inr (sigfd, ms)" using B p k by (auto split: sum.splits)
  obtain ps where ps: "initialize_poll_array (se_alloc E (word_of_int (8 * (max_connections c + 2)))) sck sigfd (nat (max_connections c)) = Some ps"
    using B p k g by (auto split: option.splits)
  obtain ss where ss: "prepare_shared_data (se_alloc E) sck c = Inr ss" using B p k g ps by (auto split: sum.splits if_splits)
  obtain ws where ws: "prepare_threads (se_threads_mem E) (se_spawn E) (se_data E) (nat (worker_threads c)) (nat (max_files c)) = Some ws"
    using B p k g ps ss by (auto split: option.splits if_splits)
  have c: "c = cfg" "s = started (nat (max_files cfg)) sck ws ps ss" "l = log"
    using B p k g ps ss ws by (auto split: if_splits)
  have "se_socket E = Inr sck" using k by (auto simp: prepare_socket_def split: sum.splits option.splits)
  moreover have "initialize_poll_array True sck sigfd (nat (max_connections cfg)) = Some ps"
    using ps c(1) by (auto simp: initialize_poll_array_def split: if_splits)
  ultimately show thesis
    using that parse_cmd_parts(1) [OF p] ss prepare_threads_any [OF ws] c by blast
qed

lemma boot_sound:
  assumes b: "server_boot E argv dk = Some (Inr (cfg, s, log, dk'))"
    and raw: "length (socket_file (se_cfg E)) = FILE_NAME_MAX_SIZE" "length (log_file (se_cfg E)) = FILE_NAME_MAX_SIZE"
    and fd: "\<And>sck. se_socket E = Inr sck \<Longrightarrow> 0 < sck"
  shows "config_ok cfg" and "booted cfg s"
proof -
  obtain sck sigfd ps ss ws where P:
    "start_config (se_alloc E) (se_kv E) (se_cfg E) (se_errno E) (se_open E) argv = Some (Inr cfg)"
    "se_socket E = Inr sck"
    "initialize_poll_array True sck sigfd (nat (max_connections cfg)) = Some ps"
    "prepare_shared_data (se_alloc E) sck cfg = Inr ss"
    "prepare_threads True (\<lambda>_. True) (se_data E) (nat (worker_threads cfg)) (nat (max_files cfg)) = Some ws"
    "length ws = nat (worker_threads cfg)" "s = started (nat (max_files cfg)) sck ws ps ss"
    using boot_parts [OF b] .
  show ok: "config_ok cfg" by (rule start_config_ok [OF P(1) raw])
  then have c: "0 < storage_capacity cfg" "storage_capacity cfg < MAX_STORAGE_CAPACITY" "0 < max_connections cfg"
    "0 < max_files cfg" "max_files cfg < 2 ^ 31"
    by (simp_all add: config_ok_def config_limits)
  have mc: "int (nat (max_connections cfg)) = max_connections cfg" using c(3) by simp
  have init: "init_shared_state (se_alloc E) (algorithm cfg) (word_of_int (storage_capacity cfg)) (max_files cfg)
      (int (nat (max_connections cfg))) sck = Inr ss"
    unfolding mc using P(4) by (simp only: prepare_shared_data_def)
  have nf: "0 < nat (max_files cfg)" "nat (max_files cfg) < 2 ^ 31" using c(4,5) by (simp_all add: nat_less_iff)
  have "pool_inv (nat (max_connections cfg)) s"
    unfolding P(7) using capacity_word [OF c(1,2)] by (intro started_inv [OF init nf _ fd [OF P(2)] P(3,5)]) simp
  moreover have "ro_max_storage ss = word_of_int (storage_capacity cfg)" "ro_cache_miss_algorithm ss = algorithm cfg"
    using init by (auto simp: init_shared_state_def split: if_splits)
  ultimately show "booted cfg s"
    using P(6) capacity_word(1) [OF c(1,2)] by (simp add: booted_def P(7) started_def initialize_file_structure_def)
qed

end
