(* ===== verification/Programs.thy ===== *)
theory Programs
  imports Examples Client_Run Client_Line Server_Start
begin

text \<open>
  The properties of the two programs: the server from its command line and configuration file to
  the system that \<open>Pool\<close> describes, the client from its command line to the calls of the library
  and the files it stores, and the log.
\<close>

section \<open>The server program\<close>

text \<open>C30. Whatever the command line and the configuration file hold: a server that starts has numbers
  of threads, bytes, files and connections within the limits of the program, and the system it
  starts, with exactly these numbers, satisfies the invariant that keeps connections, workers and
  the store consistent.\<close>

theorem configured_server_starts:
  assumes "server_boot E argv dk = Some (Inr (cfg, s, log, dk'))"
    and "length (socket_file (se_cfg E)) = FILE_NAME_MAX_SIZE" and "length (log_file (se_cfg E)) = FILE_NAME_MAX_SIZE"
    and "se_socket E = Inr sck" and "0 < sck"
  shows "0 < worker_threads cfg \<and> worker_threads cfg < 64 \<and> 0 < storage_capacity cfg \<and> storage_capacity cfg < 2 ^ 32
     \<and> 0 < max_files cfg \<and> max_files cfg < 2 ^ 20 \<and> 0 < max_connections cfg \<and> max_connections cfg < 50
     \<and> pool_inv (nat (max_connections cfg)) s
     \<and> length (threads_data (main s)) = nat (worker_threads cfg) \<and> length (files (srv s)) = nat (max_files cfg)
     \<and> unat (ro_max_storage (shared (srv s))) = nat (storage_capacity cfg)
     \<and> ro_cache_miss_algorithm (shared (srv s)) = algorithm cfg"
  using boot_sound [OF assms(1-3)] assms(4,5) by (simp add: config_ok_def config_limits booted_def)

definition ex_raw :: cfg_t where
  "ex_raw = \<lparr>socket_file = replicate 256 7, log_file = replicate 256 7, worker_threads = 0, storage_capacity = 0, max_files = 0,
     max_connections = 0, algorithm = 9\<rparr>"

text \<open>A configuration file with one useful line, and a system where every call succeeds.\<close>

definition ex_text :: "byte list" where
  "ex_text = chars ''# my files'' @ [10] @ chars ''max_files=8'' @ [10] @ chars ''worker_threads = 99'' @ [10]"

definition ex_boot :: start_env where
  "ex_boot = \<lparr>se_alloc = mem_ok, se_files_mem = True, se_threads_mem = True, se_spawn = (\<lambda>_. True), se_open = (\<lambda>_. Inr ex_text),
     se_fopen = (\<lambda>_. None), se_now = [2022, 1, 2, 3, 4, 5], se_socket = Inr 3, se_bind = None, se_listen = None, se_signalfd = Inr 4,
     se_errno = EIO, se_kv = \<lparr>cfg_key = replicate 64 7, cfg_value = replicate 448 7\<rparr>, se_cfg = ex_raw,
     se_log = \<lparr>filename = replicate 256 7, mux = True\<rparr>,
     se_data = \<lparr>do_work = 7, w_exit = True, in_conn = 0, add_conn = 0, thread_id = 9\<rparr>\<rparr>"

lemma ex_config:
  "start_config mem_ok (se_kv ex_boot) ex_raw EIO (se_open ex_boot) [[115]]
   = Some (Inr (ex_raw\<lparr>socket_file := chars ''./socket.sk'' @ 0 # replicate 244 7, log_file := chars ''./log.txt'' @ 0 # replicate 246 7,
       worker_threads := 4, storage_capacity := 104857600, max_files := 8, max_connections := 10, algorithm := 0\<rparr>))"
  by code_simp

lemma ex_boots: "\<exists>cfg s log dk. server_boot ex_boot [[115]] Map.empty = Some (Inr (cfg, s, log, dk)) \<and> max_files cfg = 8"
proof -
  obtain cfg where c: "start_config mem_ok (se_kv ex_boot) ex_raw EIO (se_open ex_boot) [[115]] = Some (Inr cfg)"
      "max_files cfg = 8" "max_connections cfg = 10" "worker_threads cfg = 4"
      "log_file cfg = chars ''./log.txt'' @ 0 # replicate 246 7" "socket_file cfg = chars ''./socket.sk'' @ 0 # replicate 244 7"
    using ex_config by simp
  have n: "cstr (log_file cfg) = chars ''./log.txt''" "cstr (socket_file cfg) = chars ''./socket.sk''"
    "length (chars ''./log.txt'') = 9" "length (chars ''./socket.sk'') = 11"
    unfolding c(5,6) by code_simp+
  obtain log where "init_log_file_struct (Some (log_file cfg)) (se_log ex_boot) = Inr log" "\<not> mux log"
    by (simp add: init_log_file_struct_def n FILE_NAME_MAX_SIZE_def)
  then obtain l d where p: "parse_cmd_start_log ex_boot [[115]] Map.empty = Some (Inr (cfg, l, d))"
    using c(1) by (auto simp: parse_cmd_start_log_def reset_log_def ex_boot_def Let_def)
  have "SOCKNAME_VALID (socket_file cfg) = Inr 12"
    by (simp add: SOCKNAME_VALID_def strlen_def n UNIX_PATH_MAX_def wlen_def)
  then have k: "prepare_socket ex_boot cfg = Inr 3" by (simp add: prepare_socket_def ex_boot_def)
  obtain ss where ss: "prepare_shared_data mem_ok 3 cfg = Inr ss" by (simp add: prepare_shared_data_def init_shared_state_def mem_ok)
  obtain ws where "prepare_threads True (\<lambda>_. True) (se_data ex_boot) (nat (worker_threads cfg)) (nat (max_files cfg)) = Some ws"
    by (simp add: prepare_threads_def)
  moreover obtain ps where "initialize_poll_array True 3 4 (nat (max_connections cfg)) = Some ps" by (simp add: initialize_poll_array_def)
  moreover have "se_alloc ex_boot = mem_ok" "se_signalfd ex_boot = Inr 4" "se_files_mem ex_boot" "se_threads_mem ex_boot"
    "se_spawn ex_boot = (\<lambda>_. True)" by (simp_all add: ex_boot_def)
  ultimately show ?thesis using c(2) k ss
    by (simp add: server_boot_def signal_to_file_def p compression_init_def mem_ok)
qed

theorem configured_server_starts_witness:
  "\<exists>cfg s log dk. server_boot ex_boot [[115]] Map.empty = Some (Inr (cfg, s, log, dk)) \<and> max_files cfg = 8
     \<and> length (files (srv s)) = 8 \<and> pool_inv (nat (max_connections cfg)) s"
proof -
  obtain cfg s log dk where b: "server_boot ex_boot [[115]] Map.empty = Some (Inr (cfg, s, log, dk))" "max_files cfg = 8"
    using ex_boots by blast
  have e: "length (socket_file (se_cfg ex_boot)) = FILE_NAME_MAX_SIZE" "length (log_file (se_cfg ex_boot)) = FILE_NAME_MAX_SIZE"
    "se_socket ex_boot = Inr 3" by (simp_all add: ex_boot_def ex_raw_def FILE_NAME_MAX_SIZE_def)
  from configured_server_starts [OF b(1) e] b show ?thesis by auto
qed






section \<open>The log\<close>

text \<open>While the log file can be opened, the log holds the opening line and then one line for each
  entry of the server, in order, each cut to the size of the buffer; one failure to open it leaves
  the log locked, and the second entry after that blocks its thread for ever.\<close>

theorem log_in_order:
  assumes "\<not> mux log" and "length ts = length xs"
  shows "((\<forall>p. fopen p = None) \<longrightarrow> (\<exists>dk1. reset_log fopen now log dk = Some (Inr (), log, dk1)
           \<and> log_all fopen ts xs (log, dk1) = Some (log, dk(cstr (filename log) \<mapsto>
                (stamp now @ [9] @ chars ''Opening log file.'' @ [10]) @ concat (map2 log_line ts xs)))))
    \<and> (fopen (cstr (filename log)) \<noteq> None \<and> 2 \<le> length xs \<longrightarrow> log_all fopen ts xs (log, dk) = None)"
proof -
  let ?dk = "dk(cstr (filename log) \<mapsto> stamp now @ [9] @ chars ''Opening log file.'' @ [10])"
  have "reset_log fopen now log dk = Some (Inr (), log, ?dk)" if "\<forall>p. fopen p = None"
    using assms(1) that by (simp add: reset_log_def)
  moreover have "log_all fopen ts xs (log, ?dk) = Some (log, dk(cstr (filename log) \<mapsto>
      (stamp now @ [9] @ chars ''Opening log file.'' @ [10]) @ concat (map2 log_line ts xs)))" if "\<forall>p. fopen p = None"
    using log_all_lines [OF assms(1) _ assms(2), of fopen ?dk] that by simp
  ultimately show ?thesis using log_fails_once [OF assms(1) _ assms(2)] by blast
qed

definition ex_entry :: "byte list \<Rightarrow> log_entry" where
  "ex_entry f = \<lparr>l_thread = 1, l_client = 5, l_file = f, l_operation = ''Read-File'', l_outcome = ''Success'', l_read = 2, l_write = 0\<rparr>"

theorem log_in_order_witness:
  "(\<exists>dk1. reset_log (\<lambda>_. None) [2022, 1, 2, 3, 4, 5] \<lparr>filename = [108, 0], mux = False\<rparr> Map.empty = Some (Inr (), \<lparr>filename = [108, 0], mux = False\<rparr>, dk1)
     \<and> (case log_all (\<lambda>_. None) [[2022, 1, 2, 3, 4, 6]] [ex_entry [97]] (\<lparr>filename = [108, 0], mux = False\<rparr>, dk1) of
          Some (log, dk) \<Rightarrow> dk [108] = Some (chars ''[2022/01/02-03:04:05]'' @ [9] @ chars ''Opening log file.'' @ [10] @
             chars ''[2022/01/02-03:04:06]'' @ [9] @ chars ''Thread:1'' @ [9] @ chars ''Read:2'' @ [9] @ chars ''Write:0'' @ [9] @
             chars ''Client-Op:[5-Read-File]'' @ [9] @ chars ''Outcome:Success'' @ [9] @ chars ''File:a'' @ [10])
        | None \<Rightarrow> False))
   \<and> log_all (\<lambda>_. Some EIO) [[], []] [ex_entry [97], ex_entry [98]] (\<lparr>filename = [108, 0], mux = False\<rparr>, Map.empty) = None"
proof -
  let ?l = "\<lparr>filename = [108, 0], mux = False\<rparr>" and ?n = "[2022, 1, 2, 3, 4, 5]" and ?x = "ex_entry [97]"
  have D: "dec_nat 2022 = [50, 48, 50, 50]" "dec_nat 0 = [48]" "dec_nat 1 = [49]" "dec_nat 2 = [50]" "dec_nat 3 = [51]"
    "dec_nat 4 = [52]" "dec_nat 5 = [53]" "dec_nat 6 = [54]" by (simp_all add: dec_nat_step dec_nat_one)
  have st: "stamp ?n = chars ''[2022/01/02-03:04:05]''" "stamp [2022, 1, 2, 3, 4, 6] = chars ''[2022/01/02-03:04:06]''"
    by (simp_all add: pad_def D) (code_simp+)
  have "log_text ?x = chars ''Thread:1'' @ [9] @ chars ''Read:2'' @ [9] @ chars ''Write:0'' @ [9] @
      chars ''Client-Op:[5-Read-File]'' @ [9] @ chars ''Outcome:Success'' @ [9] @ chars ''File:a''"
    by (simp add: log_text_def ex_entry_def dec_int_def D) code_simp
  then have ln: "log_line [2022, 1, 2, 3, 4, 6] ?x = chars ''[2022/01/02-03:04:06]'' @ [9] @ chars ''Thread:1'' @ [9] @ chars ''Read:2'' @ [9] @
      chars ''Write:0'' @ [9] @ chars ''Client-Op:[5-Read-File]'' @ [9] @ chars ''Outcome:Success'' @ [9] @ chars ''File:a'' @ [10]"
    unfolding log_line_def st by (simp only:) code_simp
  have c: "cstr (filename ?l) = [108]" "concat (map2 log_line [[2022, 1, 2, 3, 4, 6]] [?x]) = log_line [2022, 1, 2, 3, 4, 6] ?x"
    by (simp add: cstr_Cons) (simp only: zip_Cons_Cons zip_Nil list.map concat.simps prod.case append_Nil2)
  have l: "\<not> mux ?l" "length [[2022, 1, 2, 3, 4, 6 :: nat]] = length [?x]" "length [[], [] :: nat list] = length [?x, ex_entry [98]]" by simp_all
  obtain dk1 where r: "reset_log (\<lambda>_. None) ?n ?l Map.empty = Some (Inr (), ?l, dk1)"
      "log_all (\<lambda>_. None) [[2022, 1, 2, 3, 4, 6]] [?x] (?l, dk1) = Some (?l, Map.empty([108] \<mapsto>
         (stamp ?n @ [9] @ chars ''Opening log file.'' @ [10]) @ log_line [2022, 1, 2, 3, 4, 6] ?x))"
    using conjunct1 [OF log_in_order [OF l(1,2), of "\<lambda>_. None" ?n Map.empty]] unfolding c by blast
  have f: "log_all (\<lambda>_. Some EIO) [[], []] [?x, ex_entry [98]] (?l, Map.empty) = None"
    using conjunct2 [OF log_in_order [OF l(1,3), of "\<lambda>_. Some EIO" ?n Map.empty]] by (simp del: log_all.simps)
  show ?thesis
    by (intro conjI exI [of _ dk1] r(1) f)
      (simp only: r(2) option.case prod.case fun_upd_same st ln append_assoc)
qed

section \<open>The client program\<close>

text \<open>A command line that names files with the options of the help is understood: after the
  socket, every command becomes one request for each of its non-empty comma-separated parts, in the order of
  the line, with an absolute name and with the directory of its \<open>-D\<close> or \<open>-d\<close> ending in a slash.\<close>

theorem command_line_understood:
  assumes "\<forall>m \<in> set ms. command_ok m" and "p0 = \<lparr>socket_name = None, do_print = 0, time_between_reqs = 0, p_reqs = no_reqs\<rparr>"
  shows "\<exists>p arr. parse_args mem_ok (prog # [45, 102] # sock # concat (map command_words ms)) p0 = Some (0, p)
     \<and> socket_name p = Some sock \<and> expand_requests mem_ok opendir junk cwd (p_reqs p) = Some arr \<and> reqs arr = meant cwd ms"
  by (rule line_understood [OF assms])

definition ex_parsed :: parsed where
  "ex_parsed = \<lparr>socket_name = None, do_print = 0, time_between_reqs = 0, p_reqs = no_reqs\<rparr>"

text \<open>\<open>client -f s -W a,,/b -D d\<close>\<close>

theorem command_line_understood_witness:
  "\<exists>p arr. parse_args mem_ok ([99] # [45, 102] # [115] # [45, 87] # [97, 44, 44, 47, 98] # [45, 68] # [100] # []) ex_parsed = Some (0, p)
     \<and> expand_requests mem_ok Map.empty [] [47] (p_reqs p) = Some arr
     \<and> map stringdata (reqs arr) = [Some [47, 97, 0], Some [47, 98, 0]] \<and> map rq_dir (reqs arr) = [Some [100, 47, 0], Some [100, 47, 0]]"
proof -
  let ?m = "\<lparr>cm_opt = 87, cm_files = [97, 44, 44, 47, 98], cm_dir = Some [100]\<rparr>"
  have m: "\<forall>m \<in> set [?m]. command_ok m" by (simp add: command_ok_def)
  have w: "concat (map command_words [?m]) = [45, 87] # [97, 44, 44, 47, 98] # [45, 68] # [100] # []"
    by (simp add: command_words_def dir_flag_def)
  have "map stringdata (meant [47] [?m]) = [Some [47, 97, 0], Some [47, 98, 0]]"
    "map rq_dir (meant [47] [?m]) = [Some [100, 47, 0], Some [100, 47, 0]]"
    by (simp_all add: meant_def parts_def part_of_def absolute_def command_req_def with_slash_def copy_dir_def cstr_Cons
        init_request_def resize_block_def request_of_option_def)
  then show ?thesis
    using command_line_understood [OF m ex_parsed_def, of "[99]" "[115]" Map.empty "[]" "[47]"] unfolding w by metis
qed

text \<open>C29. Whatever the command line and the directories hold: the requests that the client sends are
  those of the user in their order, with the necessary others around them. Every file is used
  while it is open, written right after it was created and locked, removed right after it was
  locked; only open files are closed, and at the end none is left open.\<close>

theorem requests_well_ordered:
  assumes "parse_args al argv p0 = Some (n, p)" and "reqs (p_reqs p0) = []"
    and "expand_requests al opendir junk cwd (p_reqs p) = Some arr"
  shows "\<exists>out last. add_open_create_requests mem_ok arr = (Inr (), out)
     \<and> session (None, {}) (reqs out) = Some (last, {}) \<and> filter (\<lambda>r. \<not> added r) (reqs out) = reqs arr"
  using requests_ordered [OF expanded_user [OF assms]] by blast

text \<open>\<open>client -f s -r a -W b -c a -l b\<close>\<close>

theorem requests_well_ordered_witness:
  "\<exists>p arr out last. parse_args mem_ok [[99], [45, 102], [115], [45, 114], [97], [45, 87], [98], [45, 99], [97], [45, 108], [98]] ex_parsed = Some (0, p)
     \<and> expand_requests mem_ok Map.empty [] [47] (p_reqs p) = Some arr
     \<and> add_open_create_requests mem_ok arr = (Inr (), out) \<and> session (None, {}) (reqs out) = Some (last, {})
     \<and> map rq_type (filter (\<lambda>r. \<not> added r) (reqs out)) = [REQUEST_READ, REQUEST_WRITE, REQUEST_REMOVE, REQUEST_LOCK]"
proof -
  let ?ms = "[\<lparr>cm_opt = 114, cm_files = [97], cm_dir = None\<rparr>, \<lparr>cm_opt = 87, cm_files = [98], cm_dir = None\<rparr>,
    \<lparr>cm_opt = 99, cm_files = [97], cm_dir = None\<rparr>, \<lparr>cm_opt = 108, cm_files = [98], cm_dir = None\<rparr>]"
  have m: "\<forall>m \<in> set ?ms. command_ok m" by (simp add: command_ok_def)
  have w: "concat (map command_words ?ms) = [[45, 114], [97], [45, 87], [98], [45, 99], [97], [45, 108], [98]]"
    by (simp add: command_words_def)
  have t: "map rq_type (meant [47] ?ms) = [REQUEST_READ, REQUEST_WRITE, REQUEST_REMOVE, REQUEST_LOCK]"
    by (simp add: meant_def parts_def part_of_def command_req_def init_request_def request_of_option_def)
  obtain p arr where p: "parse_args mem_ok [[99], [45, 102], [115], [45, 114], [97], [45, 87], [98], [45, 99], [97], [45, 108], [98]] ex_parsed = Some (0, p)"
      "expand_requests mem_ok Map.empty [] [47] (p_reqs p) = Some arr" "reqs arr = meant [47] ?ms"
    using line_understood [OF m ex_parsed_def, of "[99]" "[115]" Map.empty "[]" "[47]"] unfolding w by blast
  have "reqs (p_reqs ex_parsed) = []" by (simp add: ex_parsed_def no_reqs_def)
  from requests_well_ordered [OF p(1) this p(2)] p t show ?thesis by metis
qed

text \<open>C34. A directory option becomes requests for the first files of the tree below it, in the order
  of the walk and no more than asked for (0: all of them), each with its absolute name; the walk
  of a finite tree ends. What \<open>opendir\<close> gets is the absolute name with one final slash; only for a
  name given as absolute with its slash it is followed by the \<open>junk\<close> that \<open>malloc\<close> left behind the
  missing NUL, and the tree is the one found there. When the directory cannot be opened there are
  no requests.\<close>

theorem directory_expansion:
  assumes "x_alloc X = mem_ok"
    and "case x_opendir X (if take 1 d = [47] \<and> last d = 47 then d @ x_junk X else dir_path cwd d) of
           None \<Rightarrow> nodes = []
         | Some entries \<Rightarrow> entries = map entry nodes \<and> (\<forall>k \<in> set nodes. mounted (x_opendir X) (dir_path cwd d) k)"
  shows "\<exists>n arr'. expand_dir_to_files X d cwd arr = Some (n, arr')
    \<and> reqs arr' = reqs arr @ map (\<lambda>f. file_req (x_retdir_size X) (x_retdir X) (fst f) (snd f))
        (if x_max X = 0 then concat (map (files_below (dir_path cwd d)) nodes)
         else take (nat (x_max X)) (concat (map (files_below (dir_path cwd d)) nodes)))"
proof -
  obtain st where "expand_dir_to_files X d cwd arr = Some st" "walk_result X (dir_path cwd d) nodes 0 arr st"
    using directory_expanded [OF assms(1), where d = d and cwd = cwd and nodes = nodes and arr = arr] assms(2) unfolding dir_arg_def by blast
  then show ?thesis by (cases st) (auto simp: walk_result_def walked_def up_to_def one_file_def split: if_splits)
qed

text \<open>The directory \<open>/d\<close> with a file \<open>x\<close>, a directory \<open>s\<close> that holds \<open>y\<close> and \<open>z\<close>, and itself.\<close>

definition ex_dirs :: "byte list \<Rightarrow> dirent list option" where
  "ex_dirs p = (if p = [47, 100, 47] then Some [([46], DT_DIR), ([120], DT_REG), ([115], DT_DIR)]
     else if p = [47, 100, 47, 115, 47] then Some [([121], DT_REG), ([122], DT_REG)] else None)"

theorem directory_expansion_witness:
  "\<exists>n arr'. expand_dir_to_files \<lparr>x_alloc = mem_ok, x_opendir = ex_dirs, x_junk = [], x_max = 2, x_retdir = None, x_retdir_size = 0\<rparr>
      [100] [47] no_reqs = Some (n, arr')
    \<and> map stringdata (reqs arr') = [Some [47, 100, 47, 120, 0], Some [47, 100, 47, 115, 47, 121, 0]]"
proof -
  let ?X = "\<lparr>x_alloc = mem_ok, x_opendir = ex_dirs, x_junk = [], x_max = 2, x_retdir = None, x_retdir_size = 0\<rparr>"
  let ?ns = "[Dir [46] [], File [120], Dir [115] [File [121], File [122]]]"
  have p: "dir_path [47] [100] = [47, 100, 47]" by (simp add: dir_path_def absolute_def)
  have "x_opendir ?X (dir_path [47] [100]) = Some (map entry ?ns)" "\<forall>k \<in> set ?ns. mounted (x_opendir ?X) (dir_path [47] [100]) k"
    by (simp_all add: p ex_dirs_def dots_def)
  with directory_expansion [where X = ?X and d = "[100]" and cwd = "[47]" and nodes = ?ns and arr = no_reqs] p
  obtain n arr' where r: "expand_dir_to_files ?X [100] [47] no_reqs = Some (n, arr')"
      "reqs arr' = map (\<lambda>f. file_req 0 None (fst f) (snd f)) (take (nat 2) (concat (map (files_below (dir_path [47] [100])) ?ns)))"
    by (auto simp: no_reqs_def)
  have "concat (map (files_below (dir_path [47] [100])) ?ns)
      = [([47, 100, 47], [120]), ([47, 100, 47, 115, 47], [121]), ([47, 100, 47, 115, 47], [122])]"
    by (simp add: p dots_def)
  then have "map stringdata (reqs arr') = [Some [47, 100, 47, 120, 0], Some [47, 100, 47, 115, 47, 121, 0]]"
    unfolding r(2) by (simp only: nat_numeral take_Suc_Cons numeral_2_eq_2 take_0 list.map fst_conv snd_conv) (simp add: file_req_def)
  with r(1) show ?thesis by (intro exI [of _ n] exI [of _ arr'] conjI)
qed

text \<open>C31. A read request with a directory: what the server stores ends up, byte for byte, in a file of
  that directory under the flattened name; a refused read stores nothing and reports why.\<close>

theorem read_saves_file:
  assumes "rq_type r = REQUEST_READ" and "stringdata r = Some (s @ [0])" and "rq_dir r = Some dir" and "length s \<le> 254" and "0 \<notin> set s"
    and "client_ready E c" and "ce_fopen E = (\<lambda>_. None)" and "serving e k io sv"
    and "connected (readFile E (arg heap r)) c e thread io k sv w"
  shows "\<exists>op res c'. perform E heap now r c = Some (op, res, c') \<and> sabs (s_server w) = sabs sv
     \<and> (case sabs sv s of
          None \<Rightarrow> res = Inl ENOENT \<and> c_disk c' = c_disk c
        | Some a \<Rightarrow> if a_open a \<and> (a_owner a = OWNER_NULL \<or> a_owner a = k)
                    then res = Inr 0 \<and> c_disk c' = (c_disk c)(cstr dir @ flat_name s \<mapsto> a_content a)
                    else res = Inl EPERM \<and> c_disk c' = c_disk c)"
proof -
  obtain op res c' where p: "perform E heap now r c = Some (op, res, c')"
    "case request (keep a_read_op) k s (sabs sv) of (x, m) \<Rightarrow>
      sabs (s_server w) = m
      \<and> (case x of
           Inr _ \<Rightarrow> res = Inr 0 \<and> c_disk c' = (c_disk c)(cstr dir @ flat_name s \<mapsto> a_content (the (sabs sv s)))
         | Inl y \<Rightarrow> res = Inl (if y = ENOENT then ENOENT else EPERM) \<and> c_disk c' = c_disk c)"
    using read_stored [OF assms] .
  then show ?thesis
    by (cases "sabs sv s") (auto simp: request_def keep_def a_read_op_def locked_out_def split: if_splits)
qed

theorem read_saves_file_witness:
  "\<exists>c op c'. perform ex_cenv 0 [] (init_request\<lparr>rq_type := REQUEST_READ, stringdata := Some [97, 0], rq_dir := Some [100, 47, 0]\<rparr>) c
      = Some (op, Inr 0, c') \<and> c_disk c' [100, 47, 97] = Some [1, 2]"
proof -
  let ?r = "init_request\<lparr>rq_type := REQUEST_READ, stringdata := Some [97, 0], rq_dir := Some [100, 47, 0]\<rparr>"
  have a: "arg 0 ?r = [97, 0, 0]" by (simp add: arg_def)
  let ?f = "readFile ex_cenv (arg 0 ?r)"
  obtain w where w: "connected ?f (ex_client (s_sent w)) ex_env 1 (ex_talk ?f) 5 (ex_server 0 10) w"
    unfolding a using ex_close_read_talk(2) by blast
  have srv: "serving ex_env 5 (ex_talk ?f) (ex_server 0 10)" by (rule ex_serving) simp_all
  have fo: "ce_fopen ex_cenv = (\<lambda>_. None)" by (simp add: ex_cenv_def)
  have s: "stringdata ?r = Some ([97] @ [0])" by simp
  have n: "cstr [100, 47, 0] @ flat_name [97] = [100, 47, 97]" by (simp add: cstr_Cons flat_name_def)
  obtain op res c' where p: "perform ex_cenv 0 [] ?r (ex_client (s_sent w)) = Some (op, res, c')"
      "res = Inr 0 \<and> c_disk c' = (c_disk (ex_client (s_sent w)))([100, 47, 97] \<mapsto> [1, 2])"
    using read_saves_file [OF _ s _ _ _ ex_client_ready fo srv w, of "[100, 47, 0]" "[]"] ex_sabs(1) [of 0 10] by (auto simp: n)
  then show ?thesis by (intro exI [of _ "ex_client (s_sent w)"] exI [of _ op] exI [of _ c']) simp
qed




text \<open>C32. A lock that somebody else holds is waited for: as long as the server answers that the file
  is taken, the call sleeps and sends the same request again, and it returns with the lock when
  the server grants it, however the answers are cut into pieces.\<close>

theorem lock_waits:
  assumes "client_ready E c" and "path p s" and "\<And>k. ce_nap E k = None"
    and "sendable taken" and "mtype taken = MESSAGE_LFILE_ACK OR MESSAGE_FILE_NOWN"
    and "sendable granted" and "mtype granted = MESSAGE_LFILE_ACK OR MESSAGE_OP_SUCC"
    and "chunks (concat (replicate n (wire taken)) @ wire granted) (c_in c)"
  shows "\<exists>c' m. lockFile E p c = (Inr (), c') \<and> mtype m = MESSAGE_LOCK_FILE \<and> requests m s
     \<and> c_sent c' = c_sent c @ concat (replicate (Suc n) (wire m)) \<and> c_naps c' = c_naps c + n"
proof -
  have al: "ce_alloc E = mem_ok" using assms(1) by (simp add: client_ready_def)
  let ?m = "name_message E MESSAGE_LOCK_FILE (of_nat (length s) + 1 + 1) p"
  note M = name_message_ok [OF al assms(2), of MESSAGE_LOCK_FILE]
  have v: "FILENAME_VALID p = Inr (of_nat (length s) + 1)" using path_valid(1) [OF assms(2)] .
  have ready: "client_ready E (clear_byte_read_write c)" "chunks (concat (replicate n (wire taken)) @ wire granted) (c_in (clear_byte_read_write c))"
    using assms(1,8) by simp_all
  obtain c' where "lock_loop E ?m (clear_byte_read_write c) = (Inr (), c')"
      "c_sent c' = c_sent c @ concat (replicate (Suc n) (wire ?m))" "c_naps c' = c_naps c + n"
    using lock_loop_retries [OF M(1) assms(4-7,3) ready] by (auto simp: clear_byte_read_write_def)
  moreover have "lockFile E p c = lock_loop E ?m (clear_byte_read_write c)"
    using assms(1) by (simp add: lockFile_def v client_ready_def clear_byte_read_write_def)
  ultimately show ?thesis using M(2,3) by metis
qed

definition ex_reply :: "msg_t \<Rightarrow> net_msg" where
  "ex_reply ty = set_checksum (create_message\<lparr>mtype := ty\<rparr>)"

theorem lock_waits_witness:
  "\<exists>c'. lockFile ex_cenv [97, 0, 0] (ex_client (wire (ex_reply (MESSAGE_LFILE_ACK OR MESSAGE_FILE_NOWN)) @
       wire (ex_reply (MESSAGE_LFILE_ACK OR MESSAGE_OP_SUCC)))) = (Inr (), c') \<and> c_naps c' = 1"
proof -
  let ?b = "ex_reply (MESSAGE_LFILE_ACK OR MESSAGE_FILE_NOWN)" and ?g = "ex_reply (MESSAGE_LFILE_ACK OR MESSAGE_OP_SUCC)"
  have db: "db_inv (mdata create_message)" using fresh_create by (simp add: fresh_def)
  have m: "sendable ?b" "mtype ?b = MESSAGE_LFILE_ACK OR MESSAGE_FILE_NOWN" "sendable ?g" "mtype ?g = MESSAGE_LFILE_ACK OR MESSAGE_OP_SUCC"
    using db by (simp_all add: ex_reply_def)
  have "wire ?b \<noteq> []" by (simp add: wire_def header_bytes_def int_bytes_def numeral_eq_Suc)
  then have "chunks (concat (replicate 1 (wire ?b)) @ wire ?g) (c_in (ex_client (wire ?b @ wire ?g)))"
    by (simp add: ex_client_def chunks_Cons)
  then show ?thesis
    using lock_waits [OF ex_client_ready ex_path _ m, of 1 "wire ?b @ wire ?g"] by (auto simp: ex_cenv_def ex_client_def)
qed

end
