(* ===== verification/Sections.thy ===== *)
theory Sections
  imports Worker_Spec "HOL-Library.Multiset"
begin

text \<open>
  The workers at the granularity of their critical sections. A handler of \<open>source/worker\<close> does not
  hold a lock while it runs: each call of \<open>source/file.c\<close> locks the mutex of one file, each access
  to the counters locks \<open>state_mux\<close>, and between two of them other workers run. Here a worker is a
  request and the critical section it stands before (\<open>stage\<close>), one step is one critical section,
  and the sections of all workers interleave in any order. Two parts of a handler that touch
  neither files nor counters are left out: the entry of the client's own table slot and the log.
  The loops by which a replacement policy looks for its victim only read, apart from the reference
  bits; they are replaced by an arbitrary choice, so every run of the code is a run of the model.
\<close>

subsection \<open>Requests and stages\<close>

text \<open>The flag of an open or create request is its wish for the lock; the number of \<open>OpReadN\<close> is how
  many files it wants. A write is past the test of the client's last operation.\<close>

datatype request_op = OpCreate bool | OpOpen bool | OpClose | OpRead | OpLock | OpUnlock | OpRemove
  | OpWrite | OpAppend | OpReadN int | OpLeave

record job =
  j_op :: request_op
  j_conn :: int
  j_name :: "byte list"
  j_data :: "byte list"

datatype verdict = Success | Failed errno | Too_big | Not_locked

text \<open>The sections, in the order of the handlers; the numbers are slots. Those from \<open>At_victim\<close> to
  \<open>At_missed\<close> belong to an eviction and keep the slot of the request first, then the slot of the
  victim, and whether the victim's contents could be read into a buffer.\<close>

datatype stage = Ended verdict
  | At_exists nat | At_name nat
  | At_vacant nat | At_make nat | At_count nat | At_open_made nat
  | At_apply nat | At_settle size_t
  | At_owner nat | At_remove nat | At_uncount size_t
  | At_measure nat | At_victim nat | At_claim nat nat | At_force_open nat nat | At_force_read nat nat | At_victim_name nat nat bool
  | At_force_remove nat nat bool | At_discount nat nat bool size_t | At_clock nat nat bool | At_missed nat
  | At_reserve nat | At_store nat | At_release errno
  | At_walk nat nat | At_walk_open nat nat bool | At_walk_read nat nat bool | At_walk_close nat nat "errno + size_t"
  | At_walk_settle nat nat "errno + size_t" size_t | At_walk_name nat nat "errno + size_t"
  | At_leave nat | At_leave_close nat | At_leave_settle nat size_t

text \<open>What a policy does next: clear the reference bit of a slot it passes, settle for a victim, or
  end without one.\<close>

datatype choice = Pass nat | Pick nat | No_victim

subsection \<open>The lookup of a name\<close>

definition wants_lock :: "job \<Rightarrow> bool" where
  "wants_lock j \<longleftrightarrow> (case j_op j of OpCreate l \<Rightarrow> l | OpOpen l \<Rightarrow> l | _ \<Rightarrow> False)"

definition job_owner :: "job \<Rightarrow> int" where
  "job_owner j = (if wants_lock j then j_conn j else OWNER_NULL)"

text \<open>What the handlers do with the result of \<open>get_file\<close>; the size of the data is tested against a
  constant.\<close>

definition after_get_file :: "server \<Rightarrow> job \<Rightarrow> errno + nat \<Rightarrow> stage" where
  "after_get_file sv j r =
     (case r of
        Inl err \<Rightarrow>
          (case j_op j of
             OpCreate _ \<Rightarrow> if err = ENOENT then At_vacant 0 else Ended (Failed err)
           | _ \<Rightarrow> Ended (Failed err))
      | Inr i \<Rightarrow>
          (case j_op j of
             OpCreate _ \<Rightarrow> Ended (Failed EEXIST)
           | OpRemove \<Rightarrow> At_owner i
           | OpWrite \<Rightarrow> if ro_max_storage (shared sv) < wlen (j_data j) then Ended Too_big else At_measure i
           | OpAppend \<Rightarrow> if ro_max_storage (shared sv) < wlen (j_data j) then Ended Too_big else At_measure i
           | _ \<Rightarrow> At_apply i))"

definition seek :: "server \<Rightarrow> job \<Rightarrow> nat \<Rightarrow> stage" where
  "seek sv j i = (if i < length (files sv) then At_exists i else after_get_file sv j (Inl ENOENT))"

text \<open>The two sections of the loop of \<open>get_file\<close>. A file that goes between them ends the search.\<close>

definition exists_section :: "job \<Rightarrow> nat \<Rightarrow> server \<Rightarrow> stage" where
  "exists_section j i sv = (if is_existing_file (files sv ! i) then At_name i else seek sv j (Suc i))"

definition name_section :: "job \<Rightarrow> nat \<Rightarrow> server \<Rightarrow> stage" where
  "name_section j i sv =
     (case check_file_name (files sv ! i) (j_name j) of
        Inr True \<Rightarrow> after_get_file sv j (Inr i)
      | Inr False \<Rightarrow> seek sv j (Suc i)
      | Inl err \<Rightarrow> after_get_file sv j (Inl err))"

subsection \<open>Creating a file\<close>

definition vacant_section :: "nat \<Rightarrow> server \<Rightarrow> stage" where
  "vacant_section i sv =
     (if i < length (files sv)
      then if \<not> is_existing_file (files sv ! i) then At_make i else At_vacant (Suc i)
      else Ended (Failed EMFILE))"

definition make_section :: "env \<Rightarrow> job \<Rightarrow> nat \<Rightarrow> server \<Rightarrow> stage \<times> server" where
  "make_section e j i sv =
     (case create_file_struct (e_clock e (ticks sv)) (files sv ! i) (j_name j) (job_owner j) of
        (Inl err, f) \<Rightarrow> (Ended (Failed err), set_file i f sv)
      | (Inr _, f) \<Rightarrow> (At_count i, (set_file i f sv)\<lparr>ticks := Suc (ticks sv)\<rparr>))"

definition count_section :: "nat \<Rightarrow> server \<Rightarrow> stage \<times> server" where
  "count_section i sv =
     (At_open_made i,
      on_shared (\<lambda>ss. let n = current_files ss + 1 in
        ss\<lparr>current_files := n, max_reached_files := (if max_reached_files ss < n then n else max_reached_files ss)\<rparr>) sv)"

definition open_section :: "env \<Rightarrow> int \<Rightarrow> nat \<Rightarrow> server \<Rightarrow> stage \<times> server" where
  "open_section e own i sv =
     (case open_file (e_alloc e) (files sv ! i) own of
        (Inl err, f) \<Rightarrow> (Ended (Failed err), set_file i f sv)
      | (Inr _, f) \<Rightarrow> (Ended Success, set_file i f sv))"

subsection \<open>Requests of one operation\<close>

definition close_section :: "env \<Rightarrow> int \<Rightarrow> nat \<Rightarrow> server \<Rightarrow> stage \<times> server" where
  "close_section e conn i sv =
     (case close_file (e_alloc e) (files sv ! i) conn 0 of
        (Inl err, f) \<Rightarrow> (Ended (Failed err), set_file i f sv)
      | (Inr diff, f) \<Rightarrow> (At_settle diff, set_file i f sv))"

definition lock_section :: "int \<Rightarrow> nat \<Rightarrow> server \<Rightarrow> stage \<times> server" where
  "lock_section conn i sv =
     (case lock_file (files sv ! i) conn of
        (Inl err, f) \<Rightarrow> (Ended (Failed err), set_file i f sv)
      | (Inr _, f) \<Rightarrow> (Ended Success, set_file i f sv))"

definition unlock_section :: "int \<Rightarrow> nat \<Rightarrow> server \<Rightarrow> stage \<times> server" where
  "unlock_section conn i sv =
     (case unlock_file (files sv ! i) conn of
        (Inl err, f) \<Rightarrow> (Ended (Failed err), set_file i f sv)
      | (Inr _, f) \<Rightarrow> (Ended Success, set_file i f sv))"

definition read_section :: "env \<Rightarrow> int \<Rightarrow> nat \<Rightarrow> server \<Rightarrow> stage \<times> server" where
  "read_section e conn i sv =
     (case read_file (e_alloc e) (files sv ! i) conn (None, 0) of
        (Inl err, f) \<Rightarrow> (Ended (Failed err), set_file i f sv)
      | (Inr _, f) \<Rightarrow> (Ended Success, set_file i f sv))"

definition apply_section :: "env \<Rightarrow> job \<Rightarrow> nat \<Rightarrow> server \<Rightarrow> stage \<times> server" where
  "apply_section e j i sv =
     (case j_op j of
        OpOpen _ \<Rightarrow> open_section e (job_owner j) i sv
      | OpClose \<Rightarrow> close_section e (j_conn j) i sv
      | OpLock \<Rightarrow> lock_section (j_conn j) i sv
      | OpUnlock \<Rightarrow> unlock_section (j_conn j) i sv
      | _ \<Rightarrow> read_section e (j_conn j) i sv)"

text \<open>The owner of the file is read without its mutex.\<close>

definition owner_section :: "nat \<Rightarrow> server \<Rightarrow> stage" where
  "owner_section i sv = (if owner (files sv ! i) = OWNER_NULL then Ended Not_locked else At_remove i)"

definition remove_section :: "int \<Rightarrow> nat \<Rightarrow> server \<Rightarrow> stage \<times> server" where
  "remove_section conn i sv =
     (case remove_file (files sv ! i) conn of
        (Inl err, f) \<Rightarrow> (Ended (Failed err), set_file i f sv)
      | (Inr n, f) \<Rightarrow> (At_uncount n, set_file i f sv))"

definition uncount_section :: "size_t \<Rightarrow> server \<Rightarrow> server" where
  "uncount_section n = on_shared (\<lambda>ss. ss\<lparr>current_files := current_files ss - 1, current_storage := current_storage ss - n\<rparr>)"

subsection \<open>Writing, appending and making room\<close>

text \<open>The bytes in use are read in one section and reserved in another.\<close>

definition measure_section :: "job \<Rightarrow> nat \<Rightarrow> server \<Rightarrow> stage" where
  "measure_section j i sv =
     (if ro_max_storage (shared sv) < current_storage (shared sv) + wlen (j_data j) then At_victim i else At_reserve i)"

definition store_section :: "env \<Rightarrow> job \<Rightarrow> nat \<Rightarrow> server \<Rightarrow> stage \<times> server" where
  "store_section e j i sv =
     (case (if j_op j = OpWrite then write_file (e_alloc e) (files sv ! i) (j_conn j) (j_data j) (wlen (j_data j))
            else append_file (e_alloc e) (files sv ! i) (j_conn j) (j_data j) (wlen (j_data j))) of
        (Inl err, f) \<Rightarrow> (At_release err, set_file i f sv)
      | (Inr _, f) \<Rightarrow> (Ended Success, set_file i f sv))"

text \<open>First in, first out reads the clock once for every search.\<close>

definition search_clock :: "server \<Rightarrow> server" where
  "search_clock sv =
     (if ro_cache_miss_algorithm (shared sv) = ALGO_LFU \<or> ro_cache_miss_algorithm (shared sv) = ALGO_LRU then sv
      else sv\<lparr>ticks := Suc (ticks sv)\<rparr>)"

lemma search_clock_simps [simp]: "files (search_clock sv) = files sv" "shared (search_clock sv) = shared sv"
  by (simp_all add: search_clock_def)

definition victim_section :: "choice \<Rightarrow> nat \<Rightarrow> server \<Rightarrow> stage \<times> server" where
  "victim_section ch i sv =
     (case ch of
        Pass v \<Rightarrow> (At_victim i, set_file v (snd (update_lru (files sv ! v) 0)) sv)
      | Pick v \<Rightarrow> (At_claim i v, search_clock sv)
      | No_victim \<Rightarrow> (At_measure i, search_clock sv))"

text \<open>\<open>force_open_file\<close> takes the ownership in one section and opens the file in the next; a file that has
  gone or is being evicted already ends the eviction.\<close>

definition claim_section :: "nat \<Rightarrow> nat \<Rightarrow> server \<Rightarrow> stage \<times> server" where
  "claim_section i v sv =
     (if owner (files sv ! v) = OWNER_NEXIST \<or> owner (files sv ! v) = OWNER_ADMIN then (At_clock i v False, sv)
      else (At_force_open i v, set_file v ((files sv ! v)\<lparr>owner := OWNER_ADMIN\<rparr>) sv))"

definition force_open_section :: "env \<Rightarrow> nat \<Rightarrow> nat \<Rightarrow> server \<Rightarrow> stage \<times> server" where
  "force_open_section e i v sv =
     (case open_file (e_alloc e) (files sv ! v) OWNER_ADMIN of
        (Inr _, f) \<Rightarrow> (At_force_read i v, set_file v f sv)
      | (Inl err, f) \<Rightarrow>
          (if err \<noteq> ENOENT \<and> err \<noteq> EAGAIN then Ended (Failed err) else At_clock i v False, set_file v f sv))"

definition force_read_section :: "env \<Rightarrow> nat \<Rightarrow> nat \<Rightarrow> server \<Rightarrow> stage \<times> server" where
  "force_read_section e i v sv =
     (case force_read_file (e_alloc e) (files sv ! v) (None, 0) of
        (Inl err, f) \<Rightarrow> (Ended (Failed err), set_file v f sv)
      | (Inr ((b, _), _), f) \<Rightarrow> (At_victim_name i v (b \<noteq> None), set_file v f sv))"

definition victim_name_section :: "env \<Rightarrow> nat \<Rightarrow> nat \<Rightarrow> bool \<Rightarrow> server \<Rightarrow> stage" where
  "victim_name_section e i v b sv =
     (case get_file_name (e_alloc e) (files sv ! v) (None, 0) of
        Inl err \<Rightarrow> Ended (Failed err)
      | Inr _ \<Rightarrow> At_force_remove i v b)"

definition force_remove_section :: "nat \<Rightarrow> nat \<Rightarrow> bool \<Rightarrow> server \<Rightarrow> stage \<times> server" where
  "force_remove_section i v b sv =
     (case force_remove_file (files sv ! v) of
        (Inl err, f) \<Rightarrow> (Ended (Failed err), set_file v f sv)
      | (Inr n, f) \<Rightarrow> (At_discount i v b n, set_file v f sv))"

text \<open>Only the clock policy moves its hand; a section that another policy does not have is a step
  without effect.\<close>

definition clock_section :: "nat \<Rightarrow> nat \<Rightarrow> bool \<Rightarrow> server \<Rightarrow> stage \<times> server" where
  "clock_section i v b sv =
     (if b then At_missed i else At_measure i,
      if ro_cache_miss_algorithm (shared sv) = ALGO_LRU
      then on_shared (\<lambda>ss. ss\<lparr>lru_clock_pos := Suc v mod length (files sv)\<rparr>) sv else sv)"

definition missed_section :: "server \<Rightarrow> server" where
  "missed_section = on_shared (\<lambda>ss. ss\<lparr>cache_miss_execs := cache_miss_execs ss + 1\<rparr>)"

subsection \<open>Reading several files, and leaving\<close>

text \<open>The loop of \<open>do_readn_files\<close>, with the slot and the number of files read so far, whether the
  slot was closed before, and the result of the read.\<close>

definition walk :: "server \<Rightarrow> job \<Rightarrow> nat \<Rightarrow> nat \<Rightarrow> stage" where
  "walk sv j i n =
     (case j_op j of
        OpReadN k \<Rightarrow> if i < length (files sv) \<and> (k \<le> 0 \<or> int n < k) then At_walk i n else Ended Success
      | _ \<Rightarrow> Ended Success)"

definition walk_open_section :: "env \<Rightarrow> job \<Rightarrow> nat \<Rightarrow> nat \<Rightarrow> bool \<Rightarrow> server \<Rightarrow> stage \<times> server" where
  "walk_open_section e j i n was sv =
     (case open_file (e_alloc e) (files sv ! i) (j_conn j) of
        (Inl err, f) \<Rightarrow>
          (if err \<noteq> ENOENT \<and> err \<noteq> EAGAIN then Ended (Failed err) else walk sv j (Suc i) n, set_file i f sv)
      | (Inr _, f) \<Rightarrow> (At_walk_read i n was, set_file i f sv))"

text \<open>After the read and, for a file that was closed, its closing: the name is asked for only when the
  read succeeded.\<close>

definition after_walk :: "server \<Rightarrow> job \<Rightarrow> nat \<Rightarrow> nat \<Rightarrow> errno + size_t \<Rightarrow> stage" where
  "after_walk sv j i n res =
     (case res of
        Inr _ \<Rightarrow> At_walk_name i n res
      | Inl err \<Rightarrow>
          if err \<noteq> EAGAIN \<and> err \<noteq> EPERM \<and> err \<noteq> ENOENT then Ended (Failed err) else walk sv j (Suc i) n)"

definition walk_read_section :: "env \<Rightarrow> job \<Rightarrow> nat \<Rightarrow> nat \<Rightarrow> bool \<Rightarrow> server \<Rightarrow> stage \<times> server" where
  "walk_read_section e j i n was sv =
     (case read_file (e_alloc e) (files sv ! i) (j_conn j) (None, 0) of
        (r, f) \<Rightarrow>
          (let res = (case r of Inl err \<Rightarrow> Inl err | Inr (_, k) \<Rightarrow> Inr k)
           in (if was then At_walk_close i n res else after_walk sv j i n res, set_file i f sv)))"

definition walk_close_section :: "env \<Rightarrow> job \<Rightarrow> nat \<Rightarrow> nat \<Rightarrow> errno + size_t \<Rightarrow> server \<Rightarrow> stage \<times> server" where
  "walk_close_section e j i n res sv =
     (case close_file (e_alloc e) (files sv ! i) (j_conn j) 0 of
        (Inl err, f) \<Rightarrow>
          (if err \<noteq> ENOENT \<and> err \<noteq> EAGAIN then Ended (Failed err) else after_walk sv j i n res, set_file i f sv)
      | (Inr diff, f) \<Rightarrow>
          (if diff \<noteq> 0 then At_walk_settle i n res diff else after_walk sv j i n res, set_file i f sv))"

text \<open>The \<open>errno\<close> tested after a missing name is the one found after the successful read.\<close>

definition walk_name_section :: "env \<Rightarrow> job \<Rightarrow> nat \<Rightarrow> nat \<Rightarrow> server \<Rightarrow> stage" where
  "walk_name_section e j i n sv =
     (case get_file_name (e_alloc e) (files sv ! i) (None, 0) of
        Inl _ \<Rightarrow> if e_errno e \<noteq> ENOENT then Ended (Failed (e_errno e)) else walk sv j (Suc i) n
      | Inr _ \<Rightarrow> walk sv j (Suc i) (Suc n))"

text \<open>The loop of \<open>do_close_connection\<close>: the test of the owner and the closing are two sections, and
  the result of the second is not looked at.\<close>

definition leave :: "server \<Rightarrow> nat \<Rightarrow> stage" where
  "leave sv i = (if i < length (files sv) then At_leave i else Ended Success)"

definition leave_section :: "job \<Rightarrow> nat \<Rightarrow> server \<Rightarrow> stage" where
  "leave_section j i sv =
     (if is_locked_file (files sv ! i) (j_conn j) = Inr True then At_leave_close i else leave sv (Suc i))"

definition leave_close_section :: "env \<Rightarrow> job \<Rightarrow> nat \<Rightarrow> server \<Rightarrow> stage \<times> server" where
  "leave_close_section e j i sv =
     (case close_file (e_alloc e) (files sv ! i) (j_conn j) 0 of
        (Inl _, f) \<Rightarrow> (At_leave_settle i 0, set_file i f sv)
      | (Inr diff, f) \<Rightarrow> (At_leave_settle i diff, set_file i f sv))"

subsection \<open>One section\<close>

fun section_of :: "env \<Rightarrow> choice \<Rightarrow> job \<Rightarrow> stage \<Rightarrow> server \<Rightarrow> stage \<times> server" where
  "section_of e ch j (Ended r) sv = (Ended r, sv)"
| "section_of e ch j (At_exists i) sv = (exists_section j i sv, sv)"
| "section_of e ch j (At_name i) sv = (name_section j i sv, sv)"
| "section_of e ch j (At_vacant i) sv = (vacant_section i sv, sv)"
| "section_of e ch j (At_make i) sv = make_section e j i sv"
| "section_of e ch j (At_count i) sv = count_section i sv"
| "section_of e ch j (At_open_made i) sv = open_section e (job_owner j) i sv"
| "section_of e ch j (At_apply i) sv = apply_section e j i sv"
| "section_of e ch j (At_settle d) sv = (Ended Success, sub_storage d sv)"
| "section_of e ch j (At_owner i) sv = (owner_section i sv, sv)"
| "section_of e ch j (At_remove i) sv = remove_section (j_conn j) i sv"
| "section_of e ch j (At_uncount d) sv = (Ended Success, uncount_section d sv)"
| "section_of e ch j (At_measure i) sv = (measure_section j i sv, sv)"
| "section_of e ch j (At_victim i) sv = victim_section ch i sv"
| "section_of e ch j (At_claim i v) sv = claim_section i v sv"
| "section_of e ch j (At_force_open i v) sv = force_open_section e i v sv"
| "section_of e ch j (At_force_read i v) sv = force_read_section e i v sv"
| "section_of e ch j (At_victim_name i v b) sv = (victim_name_section e i v b sv, sv)"
| "section_of e ch j (At_force_remove i v b) sv = force_remove_section i v b sv"
| "section_of e ch j (At_discount i v b d) sv = (At_clock i v b, uncount_section d sv)"
| "section_of e ch j (At_clock i v b) sv = clock_section i v b sv"
| "section_of e ch j (At_missed i) sv = (At_measure i, missed_section sv)"
| "section_of e ch j (At_reserve i) sv = (At_store i, reserve_storage (wlen (j_data j)) sv)"
| "section_of e ch j (At_store i) sv = store_section e j i sv"
| "section_of e ch j (At_release err) sv = (Ended (Failed err), sub_storage (wlen (j_data j)) sv)"
| "section_of e ch j (At_walk i n) sv = (At_walk_open i n (\<not> is_open_file (files sv ! i)), sv)"
| "section_of e ch j (At_walk_open i n was) sv = walk_open_section e j i n was sv"
| "section_of e ch j (At_walk_read i n was) sv = walk_read_section e j i n was sv"
| "section_of e ch j (At_walk_close i n res) sv = walk_close_section e j i n res sv"
| "section_of e ch j (At_walk_settle i n res d) sv = (after_walk sv j i n res, sub_storage d sv)"
| "section_of e ch j (At_walk_name i n res) sv = (walk_name_section e j i n sv, sv)"
| "section_of e ch j (At_leave i) sv = (leave_section j i sv, sv)"
| "section_of e ch j (At_leave_close i) sv = leave_close_section e j i sv"
| "section_of e ch j (At_leave_settle i d) sv = (leave sv (Suc i), sub_storage d sv)"

definition first_stage :: "server \<Rightarrow> job \<Rightarrow> stage" where
  "first_stage sv j =
     (case j_op j of OpReadN _ \<Rightarrow> walk sv j 0 0 | OpLeave \<Rightarrow> leave sv 0 | _ \<Rightarrow> seek sv j 0)"

end
