(* ===== verification/Sections_Inv.thy ===== *)
theory Sections_Inv
  imports Sections
begin

text \<open>
  What holds under every interleaving of critical sections. The locale \<open>interleaved\<close> is the
  contract between one section of one worker and an invariant of all workers and the memory;
  its interpretation \<open>accounting\<close> shows that the counters never drift and how far the bytes in use
  may exceed the capacity, and its interpretation \<open>guarded\<close> that a locked file is left alone.
\<close>

subsection \<open>What an operation of a file leaves as it is\<close>

definition quiet :: "file_t \<Rightarrow> file_t \<Rightarrow> bool" where
  "quiet f f' \<longleftrightarrow> (file_inv f \<longrightarrow> file_inv f' \<and> fsize f' = fsize f \<and> (existing f' \<longleftrightarrow> existing f))"

lemma quiet_refl [simp]: "quiet f f"
  by (simp add: quiet_def)

lemma quiet_sim:
  assumes sim: "file_inv f \<Longrightarrow> existing f \<Longrightarrow> file_sim f sp (r, f')"
    and same: "\<And>a. sp = Inr a \<Longrightarrow> a_content a = a_content (fabs f)"
    and gone: "\<not> existing f \<Longrightarrow> f' = f"
  shows "quiet f f'"
proof (cases "existing f \<and> file_inv f")
  case True
  then have s: "file_sim f sp (r, f')" using sim by blast
  then have f': "file_inv f'" by (simp add: file_sim_def)
  show ?thesis
  proof (cases sp)
    case (Inl err)
    with s show ?thesis by (simp add: file_sim_def)
  next
    case (Inr a)
    with s same have a: "a_content (fabs f') = a_content (fabs f)" "existing f'" by (simp_all add: file_sim_def)
    then have "unat (fsize f') = unat (fsize f)" using True f' by (simp add: unat_fsize)
    then have "fsize f' = fsize f" by (rule unsigned_word_eqI)
    with a f' True show ?thesis by (simp add: quiet_def)
  qed
qed (use gone in \<open>auto simp: quiet_def\<close>)

lemma keeps_contentD: "keeps_content op \<Longrightarrow> op who a = Inr a' \<Longrightarrow> a_content a' = a_content a"
  by (auto simp: keeps_content_def)

lemma quiet_open: "0 \<le> who \<Longrightarrow> open_file mem_ok f who = (r, f') \<Longrightarrow> quiet f f'"
  by (rule quiet_sim [of f "a_open_op who (fabs f)" r])
    (use open_file_refines [of f who] in \<open>auto simp: open_file_def keeps_contentD [OF keeps_content_ops(1)]\<close>)

lemma quiet_close: "0 \<le> who \<Longrightarrow> close_file mem_ok f who d = (r, f') \<Longrightarrow> quiet f f'"
  by (rule quiet_sim [of f "a_close_op who (fabs f)" r])
    (use close_file_refines [of f who d] in \<open>auto simp: close_file_def keeps_contentD [OF keeps_content_ops(2)]\<close>)

lemma quiet_read: "0 \<le> who \<Longrightarrow> read_file mem_ok f who out = (r, f') \<Longrightarrow> quiet f f'"
  by (rule quiet_sim [of f "a_read_op who (fabs f)" r])
    (use read_file_refines [of f who out] in \<open>auto simp: read_file_def keeps_contentD [OF keeps_content_ops(3)]\<close>)

lemma quiet_lock: "0 \<le> who \<Longrightarrow> lock_file f who = (r, f') \<Longrightarrow> quiet f f'"
  by (rule quiet_sim [of f "a_lock_op who (fabs f)" r])
    (use lock_file_refines [of f who] in \<open>auto simp: lock_file_def keeps_contentD [OF keeps_content_ops(4)]\<close>)

lemma quiet_unlock: "0 \<le> who \<Longrightarrow> unlock_file f who = (r, f') \<Longrightarrow> quiet f f'"
  by (rule quiet_sim [of f "a_unlock_op who (fabs f)" r])
    (use unlock_file_refines [of f who] in \<open>auto simp: unlock_file_def keeps_contentD [OF keeps_content_ops(5)]\<close>)

lemma quiet_owner: "existing f \<Longrightarrow> 0 \<le> who \<Longrightarrow> quiet f (f\<lparr>owner := who\<rparr>)"
  using file_inv_owner [of f who] by (auto simp: quiet_def fsize_def)

lemma quiet_trans: "quiet f g \<Longrightarrow> quiet g h \<Longrightarrow> quiet f h"
  by (auto simp: quiet_def)

lemma quiet_admin: "existing f \<Longrightarrow> quiet f (f\<lparr>owner := OWNER_ADMIN\<rparr>)"
  by (rule quiet_owner) simp_all

lemma quiet_update_lru: "quiet f (snd (update_lru f n))"
  by (simp add: quiet_def update_lru_def file_inv_def fsize_def is_open_file_def)

text \<open>The refused ones leave the file alone altogether.\<close>

lemma refused_same:
  assumes "locked_out who (fabs f)"
  shows "snd (open_file al f who) = f" "snd (close_file al f who d) = f" "snd (read_file al f who out) = f"
    "snd (lock_file f who) = f" "snd (unlock_file f who) = f" "snd (remove_file f who) = f"
    "snd (write_file al f who b n) = f" "snd (append_file al f who b n) = f"
  using assms
  by (auto simp: open_file_def close_file_def read_file_def lock_file_def unlock_file_def remove_file_def
      write_file_def append_file_def locked_out_def)

subsection \<open>Interleaving\<close>

record task =
  t_job :: job
  t_stage :: stage

datatype event = Asks job | Section choice

definition choice_ok :: "server \<Rightarrow> choice \<Rightarrow> bool" where
  "choice_ok sv ch \<longleftrightarrow> (case ch of Pass v \<Rightarrow> v < length (files sv) | Pick v \<Rightarrow> v < length (files sv) | No_victim \<Rightarrow> True)"

text \<open>Connections are positive, and the number of the owner \<open>OWNER_ADMIN\<close> is none of them.\<close>

definition job_ok :: "job \<Rightarrow> bool" where
  "job_ok j \<longleftrightarrow> 0 < j_conn j \<and> j_conn j \<noteq> OWNER_ADMIN \<and> length (j_data j) < 2 ^ 62"

inductive task_step :: "event \<Rightarrow> task \<Rightarrow> server \<Rightarrow> task \<times> server \<Rightarrow> bool" where
  asks: "t_stage t = Ended r \<Longrightarrow> job_ok j \<Longrightarrow> task_step (Asks j) t sv (\<lparr>t_job = j, t_stage = first_stage sv j\<rparr>, sv)"
| does: "good_env e \<Longrightarrow> choice_ok sv ch \<Longrightarrow> section_of e ch (t_job t) (t_stage t) sv = (st, sv') \<Longrightarrow>
    task_step (Section ch) t sv (t\<lparr>t_stage := st\<rparr>, sv')"

lemma task_stepE:
  assumes "task_step ev t sv (t', sv')"
  obtains (asks) j r where "ev = Asks j" "t_stage t = Ended r" "job_ok j" "t' = \<lparr>t_job = j, t_stage = first_stage sv j\<rparr>" "sv' = sv"
    | (does) e ch st where "ev = Section ch" "good_env e" "choice_ok sv ch"
        "section_of e ch (t_job t) (t_stage t) sv = (st, sv')" "t' = t\<lparr>t_stage := st\<rparr>"
  using assms by (cases rule: task_step.cases) blast+

inductive interleave ::
    "('l \<Rightarrow> 'w \<Rightarrow> 'm \<Rightarrow> 'w \<times> 'm \<Rightarrow> bool) \<Rightarrow> nat \<times> 'l \<Rightarrow> 'w list \<times> 'm \<Rightarrow> 'w list \<times> 'm \<Rightarrow> bool" for act where
  one: "i < length ws \<Longrightarrow> act l (ws ! i) m (w', m') \<Longrightarrow> interleave act (i, l) (ws, m) (ws[i := w'], m')"

inductive_cases interleaveE: "interleave act l (ws, m) s'"

locale interleaved =
  fixes act :: "'l \<Rightarrow> 'w \<Rightarrow> 'm \<Rightarrow> 'w \<times> 'm \<Rightarrow> bool"
    and inv :: "'w multiset \<Rightarrow> 'm \<Rightarrow> bool"
  assumes act: "inv (add_mset w R) m \<Longrightarrow> act l w m (w', m') \<Longrightarrow> inv (add_mset w' R) m'"
begin

lemma step_keeps: "interleave act l (ws, m) (ws', m') \<Longrightarrow> inv (mset ws) m \<Longrightarrow> inv (mset ws') m'"
proof (elim interleaveE)
  fix i l' w' m''
  assume s: "(ws', m') = (ws[i := w'], m'')" "i < length ws" "act l' (ws ! i) m (w', m'')" and inv: "inv (mset ws) m"
  let ?R = "mset ws - {#ws ! i#}"
  have "mset ws = add_mset (ws ! i) ?R" using s(2) by simp
  with inv have "inv (add_mset (ws ! i) ?R) m" by simp
  from act [OF this s(3)] show "inv (mset ws') m'" using s(1,2) by (simp add: mset_update)
qed

lemma run_keeps: "run (interleave act) ls (ws, m) (ws', m') \<Longrightarrow> inv (mset ws) m \<Longrightarrow> inv (mset ws') m'"
proof (induction ls "(ws, m)" "(ws', m')" arbitrary: ws m rule: run.induct)
  case (run_Cons l s ls)
  then show ?case using step_keeps by (cases s) blast
qed

end

subsection \<open>What a worker owes the counters\<close>

text \<open>The slots a stage refers to, whether it carries data to store, and what it has to adjust.\<close>

fun slots_of :: "stage \<Rightarrow> nat set" where
  "slots_of (At_exists i) = {i}" | "slots_of (At_name i) = {i}" | "slots_of (At_make i) = {i}"
| "slots_of (At_count i) = {i}" | "slots_of (At_open_made i) = {i}" | "slots_of (At_apply i) = {i}"
| "slots_of (At_owner i) = {i}" | "slots_of (At_remove i) = {i}" | "slots_of (At_measure i) = {i}"
| "slots_of (At_victim i) = {i}" | "slots_of (At_claim i v) = {i, v}" | "slots_of (At_force_open i v) = {i, v}" | "slots_of (At_force_read i v) = {i, v}"
| "slots_of (At_victim_name i v b) = {i, v}" | "slots_of (At_force_remove i v b) = {i, v}"
| "slots_of (At_discount i v b n) = {i, v}" | "slots_of (At_clock i v b) = {i, v}" | "slots_of (At_missed i) = {i}"
| "slots_of (At_reserve i) = {i}" | "slots_of (At_store i) = {i}"
| "slots_of (At_walk i n) = {i}" | "slots_of (At_walk_open i n was) = {i}" | "slots_of (At_walk_read i n was) = {i}"
| "slots_of (At_walk_close i n res) = {i}" | "slots_of (At_walk_settle i n res d) = {i}" | "slots_of (At_walk_name i n res) = {i}"
| "slots_of (At_leave i) = {i}" | "slots_of (At_leave_close i) = {i}" | "slots_of (At_leave_settle i d) = {i}"
| "slots_of _ = {}"

fun stores :: "stage \<Rightarrow> bool" where
  "stores (At_measure i) = True" | "stores (At_victim i) = True" | "stores (At_claim i v) = True" | "stores (At_force_open i v) = True"
| "stores (At_force_read i v) = True" | "stores (At_victim_name i v b) = True" | "stores (At_force_remove i v b) = True"
| "stores (At_discount i v b n) = True" | "stores (At_clock i v b) = True" | "stores (At_missed i) = True"
| "stores (At_reserve i) = True" | "stores (At_store i) = True" | "stores (At_release err) = True"
| "stores _ = False"

fun difference :: "stage \<Rightarrow> size_t" where
  "difference (At_settle d) = d" | "difference (At_walk_settle i n res d) = d" | "difference (At_leave_settle i d) = d"
| "difference _ = 0"

text \<open>Bytes the counter holds and the files do not, bytes a worker may still reserve, and files the
  counter holds and the array does not.\<close>

fun owed_by :: "nat \<Rightarrow> stage \<Rightarrow> nat" where
  "owed_by n (At_store i) = n" | "owed_by n (At_release err) = n" | "owed_by n (At_uncount d) = unat d"
| "owed_by n (At_discount i v b d) = unat d" | "owed_by n _ = 0"

fun promised_by :: "nat \<Rightarrow> stage \<Rightarrow> nat" where
  "promised_by n (At_reserve i) = n" | "promised_by n _ = 0"

fun uncounted_by :: "stage \<Rightarrow> int" where
  "uncounted_by (At_count i) = -1" | "uncounted_by (At_uncount d) = 1" | "uncounted_by (At_discount i v b d) = 1"
| "uncounted_by _ = 0"

abbreviation payload :: "task \<Rightarrow> nat" where
  "payload t \<equiv> length (j_data (t_job t))"

definition owed :: "task \<Rightarrow> nat" where "owed t = owed_by (payload t) (t_stage t)"
definition promised :: "task \<Rightarrow> nat" where "promised t = promised_by (payload t) (t_stage t)"
definition uncounted :: "task \<Rightarrow> int" where "uncounted t = uncounted_by (t_stage t)"

definition task_ok :: "nat \<Rightarrow> nat \<Rightarrow> task \<Rightarrow> bool" where
  "task_ok n cap t \<longleftrightarrow>
     job_ok (t_job t) \<and> slots_of (t_stage t) \<subseteq> {..<n} \<and> difference (t_stage t) = 0
   \<and> (stores (t_stage t) \<longrightarrow> payload t \<le> cap \<and> j_op (t_job t) \<in> {OpWrite, OpAppend})"

abbreviation capacity :: "server \<Rightarrow> nat" where
  "capacity sv \<equiv> unat (ro_max_storage (shared sv))"

text \<open>The books, for \<open>k\<close> workers that owe \<open>o'\<close> bytes, may reserve \<open>p\<close> and have not counted \<open>u\<close> files.\<close>

definition balanced :: "nat \<Rightarrow> nat \<Rightarrow> nat \<Rightarrow> int \<Rightarrow> server \<Rightarrow> bool" where
  "balanced k o' p u sv \<longleftrightarrow>
     (\<forall>f \<in> set (files sv). file_inv f)
   \<and> current_storage (shared sv) = of_nat (used (files sv) + o')
   \<and> used (files sv) + o' + p \<le> k * capacity sv \<and> k * capacity sv < 2 ^ 61
   \<and> current_files (shared sv) = int (live (files sv)) + u"

definition accounts :: "task multiset \<Rightarrow> server \<Rightarrow> bool" where
  "accounts W sv \<longleftrightarrow>
     balanced (size W) (\<Sum>t \<in># W. owed t) (\<Sum>t \<in># W. promised t) (\<Sum>t \<in># W. uncounted t) sv
   \<and> (\<forall>t \<in># W. task_ok (length (files sv)) (capacity sv) t)"

subsection \<open>How the sections keep the books\<close>

lemma balanced_inv: "balanced k o' p u sv \<Longrightarrow> i < length (files sv) \<Longrightarrow> file_inv (files sv ! i)"
  by (simp add: balanced_def)

lemma balanced_frame:
  assumes "files sv' = files sv" and "current_storage (shared sv') = current_storage (shared sv)"
    and "current_files (shared sv') = current_files (shared sv)" and "ro_max_storage (shared sv') = ro_max_storage (shared sv)"
  shows "balanced k o' p u sv' = balanced k o' p u sv"
  using assms by (simp add: balanced_def)

lemma balanced_quiet:
  assumes b: "balanced k o' p u sv" and i: "i < length (files sv)" and q: "quiet (files sv ! i) f"
  shows "balanced k o' p u (set_file i f sv)"
proof -
  have f: "file_inv f" "fsize f = fsize (files sv ! i)" "existing f \<longleftrightarrow> existing (files sv ! i)"
    using q balanced_inv [OF b i] by (simp_all add: quiet_def)
  have "used ((files sv)[i := f]) = used (files sv)" "live ((files sv)[i := f]) = live (files sv)"
    using used_slot [OF i, of f] live_slot [OF i, of f] f(2,3) by (simp_all split: if_splits)
  then show ?thesis using b f(1) ball_slot [of "files sv" file_inv f i] by (simp add: balanced_def)
qed

lemma balanced_removed:
  assumes b: "balanced k o' p u sv" and i: "i < length (files sv)" and who: "0 \<le> who"
    and r: "remove_file (files sv ! i) who = (Inr n, f)"
  shows "balanced k (o' + unat n) p (u + 1) (set_file i f sv)"
proof -
  have ex: "existing (files sv ! i)" using r by (auto simp: remove_file_def split: if_splits)
  then have f: "n = fsize (files sv ! i)" "f = init_file_struct"
    using r remove_file_spec [OF ex who] by (auto split: sum.splits)
  have u: "used ((files sv)[i := f]) + unat n = used (files sv)" and l: "live ((files sv)[i := f]) + 1 = live (files sv)"
    using used_slot [OF i, of f] live_slot [OF i, of f] ex f by simp_all
  have eq: "used ((files sv)[i := f]) + (o' + unat n) = used (files sv) + o'" using u by simp
  have "file_inv f" using f(2) file_inv_init by simp
  then show ?thesis
    using b l ball_slot [of "files sv" file_inv f i] by (simp add: balanced_def eq del: of_nat_add)
qed

lemma balanced_made:
  assumes b: "balanced k o' p u sv" and i: "i < length (files sv)" and own: "0 \<le> own"
    and r: "create_file_struct now (files sv ! i) nm own = (Inr x, f)"
  shows "balanced k o' p (u - 1) (set_file i f sv)"
proof -
  have inv: "file_inv (files sv ! i)" by (rule balanced_inv [OF b i])
  have ex: "\<not> existing (files sv ! i)" "existing f"
    and eq: "f = (files sv ! i)\<lparr>owner := own, fifo_creation_time := now, lru_clock := 1, lfu_frequency := 1,
               name := take FILE_NAME_MAX_SIZE (cstr nm)\<rparr>"
    using r own by (auto simp: create_file_struct_def split: if_splits)
  have nm: "0 \<notin> set (take FILE_NAME_MAX_SIZE (cstr nm))" by (auto simp: cstr_def dest!: in_set_takeD set_takeWhileD)
  have "file_inv f" unfolding eq using inv ex(1) own nm by (simp add: file_inv_def is_open_file_def)
  moreover have "used ((files sv)[i := f]) = used (files sv)" using used_slot [OF i, of f] by (simp add: eq fsize_def)
  moreover have "live ((files sv)[i := f]) = live (files sv) + 1" using live_slot [OF i, of f] ex by simp
  ultimately show ?thesis using b ball_slot [of "files sv" file_inv f i] by (simp add: balanced_def)
qed

lemma balanced_counted: "balanced k o' p (u - 1) sv \<Longrightarrow> balanced k o' p u (snd (count_section i sv))"
  by (simp add: count_section_def balanced_def Let_def)

lemma balanced_uncount: "balanced k (o' + unat n) p (u + 1) sv \<Longrightarrow> balanced k o' p u (uncount_section n sv)"
  by (simp add: uncount_section_def balanced_def)

lemma balanced_reserve:
  "balanced k o' (p + length d) u sv \<Longrightarrow> balanced k (o' + length d) p u (reserve_storage (wlen d) sv)"
  by (simp add: reserve_storage_def balanced_def Let_def wlen_def)

lemma balanced_release:
  "balanced k (o' + length d) p u sv \<Longrightarrow> balanced k o' p u (sub_storage (wlen d) sv)"
  by (simp add: balanced_def shared_sub_storage wlen_def)

lemma balanced_settle: "balanced k o' p u sv \<Longrightarrow> balanced k o' p u (sub_storage 0 sv)"
  by simp

text \<open>The measurement is what limits the promises: each of the others has at most one.\<close>

lemma balanced_measure:
  assumes b: "balanced (Suc k) o' p u sv" and p: "p \<le> k * capacity sv" and d: "length d \<le> capacity sv"
    and room: "\<not> ro_max_storage (shared sv) < current_storage (shared sv) + wlen d"
  shows "balanced (Suc k) o' (p + length d) u sv"
proof -
  have lt: "used (files sv) + o' < 2 ^ 61" "length d < 2 ^ 61" using b d by (auto simp: balanced_def)
  have "current_storage (shared sv) + wlen d = of_nat (used (files sv) + o' + length d)"
    using b by (simp add: balanced_def wlen_def)
  then have "unat (current_storage (shared sv) + wlen d) = used (files sv) + o' + length d"
    using lt by (simp add: unat_of_nat del: of_nat_add)
  with room have "used (files sv) + o' + length d \<le> capacity sv" by (simp add: word_less_nat_alt)
  with b p show ?thesis by (simp add: balanced_def)
qed

text \<open>A store pays what is owed, or leaves the file alone.\<close>

lemma balanced_stored:
  assumes b: "balanced k (o' + length (j_data j)) p u sv" and i: "i < length (files sv)" and j: "job_ok j"
    and r: "(if j_op j = OpWrite then write_file mem_ok (files sv ! i) (j_conn j) (j_data j) (wlen (j_data j))
             else append_file mem_ok (files sv ! i) (j_conn j) (j_data j) (wlen (j_data j))) = (res, f)"
  shows "case res of Inl _ \<Rightarrow> f = files sv ! i | Inr _ \<Rightarrow> balanced k o' p u (set_file i f sv)"
proof (cases "existing (files sv ! i) \<and> j_data j \<noteq> []")
  case False
  then have "wlen (j_data j) = 0 \<or> \<not> existing (files sv ! i)" by auto
  with r show ?thesis by (auto simp: write_file_def append_file_def split: if_splits)
next
  case True
  let ?f = "files sv ! i" and ?d = "j_data j" and ?c = "a_content (fabs (files sv ! i))"
  have inv: "file_inv ?f" by (rule balanced_inv [OF b i])
  have who: "0 \<le> j_conn j" and d: "length ?d < 2 ^ 62" using j by (simp_all add: job_ok_def)
  have "length ?c \<le> used (files sv)" using used_nth_le [OF i] unat_fsize [OF inv] by simp
  then have fits: "length ?c + length ?d < 2 ^ 63" using b by (auto simp: balanced_def)
  define sp where "sp = (if j_op j = OpWrite then a_write_op ?d else a_append_op ?d) (j_conn j) (fabs ?f)"
  have sim: "file_sim ?f sp (res, f)"
    using r write_file_refines [OF inv _ who, of "j_data j"] append_file_refines [OF inv _ who _ fits] True d
    by (simp add: sp_def split: if_splits)
  show ?thesis
  proof (cases sp)
    case (Inl err)
    with sim show ?thesis by (simp add: file_sim_def)
  next
    case (Inr a)
    with sim obtain x where f: "res = Inr x" "file_inv f" "fabs f = a" "existing f" by (auto simp: file_sim_def)
    have "length (a_content a) = length ?c + length ?d"
      using Inr by (auto simp: sp_def a_write_op_def a_append_op_def split: if_splits)
    then have sz: "unat (fsize f) = unat (fsize ?f) + length ?d" using f unat_fsize [OF inv] unat_fsize [OF f(2)] by simp
    have u: "used ((files sv)[i := f]) = used (files sv) + length ?d" using used_slot [OF i, of f] sz by simp
    have "live ((files sv)[i := f]) = live (files sv)" using live_slot [OF i, of f] True f(4) by simp
    with b f(1,2) u show ?thesis
      using ball_slot [of "files sv" file_inv f i] by (simp add: balanced_def add.assoc add.commute [of o'])
  qed
qed

subsection \<open>Every section keeps the books\<close>

text \<open>The stages that only pass on: they carry no obligation and refer to slots of the array.\<close>

definition idle_stage :: "nat \<Rightarrow> stage \<Rightarrow> bool" where
  "idle_stage n st \<longleftrightarrow>
     slots_of st \<subseteq> {..<n} \<and> \<not> stores st \<and> difference st = 0
   \<and> (\<forall>m. owed_by m st = 0 \<and> promised_by m st = 0) \<and> uncounted_by st = 0"

lemma idle_Ended [simp]: "idle_stage n (Ended r)"
  by (simp add: idle_stage_def)

lemma idle_walk [simp]: "idle_stage (length (files sv)) (walk sv j i n)"
  by (simp add: walk_def idle_stage_def split: request_op.split)

lemma idle_leave [simp]: "idle_stage (length (files sv)) (leave sv i)"
  by (simp add: leave_def idle_stage_def)

text \<open>After the lookup a request that stores has data that is not too big.\<close>

definition looked_up :: "server \<Rightarrow> job \<Rightarrow> stage \<Rightarrow> bool" where
  "looked_up sv j st \<longleftrightarrow>
     idle_stage (length (files sv)) st
   \<or> (\<exists>i < length (files sv). st = At_measure i \<and> j_op j \<in> {OpWrite, OpAppend} \<and> length (j_data j) \<le> capacity sv)"

lemma not_too_big: "length d < 2 ^ 62 \<Longrightarrow> \<not> ro_max_storage (shared sv) < wlen d \<Longrightarrow> length d \<le> capacity sv"
  by (simp add: word_less_nat_alt unat_wlen)

lemma after_get_file_looked_up:
  assumes "job_ok j" and "\<And>i. r = Inr i \<Longrightarrow> i < length (files sv)"
  shows "looked_up sv j (after_get_file sv j r)"
  using assms not_too_big [of "j_data j" sv]
  by (auto simp: looked_up_def after_get_file_def idle_stage_def job_ok_def split: sum.splits request_op.splits)

lemma seek_looked_up: "job_ok j \<Longrightarrow> looked_up sv j (seek sv j i)"
  using after_get_file_looked_up [of j "Inl ENOENT"] by (auto simp: seek_def looked_up_def idle_stage_def)

lemma idle_looked_up: "idle_stage (length (files sv)) st \<Longrightarrow> looked_up sv j st"
  by (simp add: looked_up_def)

lemma first_stage_looked_up: "job_ok j \<Longrightarrow> looked_up sv j (first_stage sv j)"
  by (cases "j_op j") (simp_all add: first_stage_def seek_looked_up idle_looked_up)

text \<open>What one section does to the books of a worker, the others owing the rest.\<close>

definition keeps_books :: "nat \<Rightarrow> nat \<Rightarrow> nat \<Rightarrow> int \<Rightarrow> job \<Rightarrow> stage \<times> server \<Rightarrow> bool" where
  "keeps_books k o' p u j out \<longleftrightarrow>
     (case out of (st, sv) \<Rightarrow>
        balanced k (o' + owed_by (length (j_data j)) st) (p + promised_by (length (j_data j)) st) (u + uncounted_by st) sv
      \<and> task_ok (length (files sv)) (capacity sv) \<lparr>t_job = j, t_stage = st\<rparr>)"

lemma keeps_idle:
  assumes "balanced k o' p u sv" and "job_ok j" and "idle_stage (length (files sv)) st"
  shows "keeps_books k o' p u j (st, sv)"
  using assms by (simp add: keeps_books_def idle_stage_def task_ok_def)

lemma keeps_looked_up:
  assumes "balanced k o' p u sv" and "job_ok j" and "looked_up sv j st"
  shows "keeps_books k o' p u j (st, sv)"
  using assms(3) unfolding looked_up_def
proof (elim disjE exE conjE)
  fix i
  assume "i < length (files sv)" "st = At_measure i" "j_op j \<in> {OpWrite, OpAppend}" "length (j_data j) \<le> capacity sv"
  with assms(1,2) show ?thesis by (simp add: keeps_books_def task_ok_def)
qed (rule keeps_idle [OF assms(1,2)])

text \<open>A section on one slot that changes nothing the books record.\<close>

lemma keeps_quiet:
  assumes "balanced k o' p u sv" and "job_ok j" and "i < length (files sv)" and "quiet (files sv ! i) f"
    and "idle_stage (length (files sv)) st"
  shows "keeps_books k o' p u j (st, set_file i f sv)"
  by (rule keeps_idle [OF balanced_quiet [OF assms(1,3,4)] assms(2)]) (use assms(5) in simp)

lemma keeps_open:
  assumes "good_env e" and "balanced k o' p u sv" and "job_ok j" and "i < length (files sv)" and "0 \<le> own"
  shows "keeps_books k o' p u j (open_section e own i sv)"
  using assms
  by (auto simp: open_section_def good_env_def split: sum.splits prod.splits intro!: keeps_quiet quiet_open)

lemma keeps_close:
  assumes e: "good_env e" and b: "balanced k o' p u sv" and j: "job_ok j" and i: "i < length (files sv)"
  shows "keeps_books k o' p u j (close_section e (j_conn j) i sv)"
proof -
  obtain r f where c: "close_file mem_ok (files sv ! i) (j_conn j) 0 = (r, f)" by (cases "close_file mem_ok (files sv ! i) (j_conn j) 0")
  have q: "quiet (files sv ! i) f" using quiet_close [OF _ c] j by (simp add: job_ok_def)
  have "d = 0" if "r = Inr d" for d using close_file_difference [OF balanced_inv [OF b i]] c that by simp
  then have "idle_stage (length (files sv)) (case r of Inl err \<Rightarrow> Ended (Failed err) | Inr d \<Rightarrow> At_settle d)"
    by (auto simp: idle_stage_def split: sum.split)
  from keeps_quiet [OF b j i q this] show ?thesis
    using c e by (simp add: close_section_def good_env_def split: sum.splits)
qed

lemma keeps_lock:
  "balanced k o' p u sv \<Longrightarrow> job_ok j \<Longrightarrow> i < length (files sv) \<Longrightarrow> keeps_books k o' p u j (lock_section (j_conn j) i sv)"
  by (auto simp: lock_section_def job_ok_def split: sum.splits prod.splits intro!: keeps_quiet quiet_lock [of "j_conn j"])

lemma keeps_unlock:
  "balanced k o' p u sv \<Longrightarrow> job_ok j \<Longrightarrow> i < length (files sv) \<Longrightarrow> keeps_books k o' p u j (unlock_section (j_conn j) i sv)"
  by (auto simp: unlock_section_def job_ok_def split: sum.splits prod.splits intro!: keeps_quiet quiet_unlock [of "j_conn j"])

lemma keeps_read:
  "good_env e \<Longrightarrow> balanced k o' p u sv \<Longrightarrow> job_ok j \<Longrightarrow> i < length (files sv) \<Longrightarrow>
   keeps_books k o' p u j (read_section e (j_conn j) i sv)"
  by (auto simp: read_section_def job_ok_def good_env_def split: sum.splits prod.splits intro!: keeps_quiet quiet_read [of "j_conn j"])

lemma job_owner_nonneg: "job_ok j \<Longrightarrow> 0 \<le> job_owner j"
  by (simp add: job_owner_def job_ok_def)

lemma keeps_apply:
  assumes "good_env e" and "balanced k o' p u sv" and "job_ok j" and "i < length (files sv)"
  shows "keeps_books k o' p u j (apply_section e j i sv)"
  using keeps_open [OF assms job_owner_nonneg [OF assms(3)]] keeps_close [OF assms] keeps_lock [OF assms(2-4)]
    keeps_unlock [OF assms(2-4)] keeps_read [OF assms]
  by (simp add: apply_section_def split: request_op.split)

lemma keeps_make:
  assumes b: "balanced k o' p u sv" and j: "job_ok j" and i: "i < length (files sv)"
  shows "keeps_books k o' p u j (make_section e j i sv)"
proof -
  obtain r f where c: "create_file_struct (e_clock e (ticks sv)) (files sv ! i) (j_name j) (job_owner j) = (r, f)"
    by (cases "create_file_struct (e_clock e (ticks sv)) (files sv ! i) (j_name j) (job_owner j)")
  show ?thesis
  proof (cases r)
    case (Inl err)
    then have "f = files sv ! i" using c by (auto simp: create_file_struct_def split: if_splits)
    then have "keeps_books k o' p u j (Ended (Failed err), set_file i f sv)" using keeps_quiet [OF b j i] by simp
    with Inl c show ?thesis by (simp add: make_section_def)
  next
    case (Inr x)
    have "balanced k o' p (u - 1) (set_file i f sv)"
      using balanced_made [OF b i job_owner_nonneg [OF j]] c Inr by simp
    with Inr c i j show ?thesis
      by (simp add: make_section_def keeps_books_def task_ok_def balanced_def)
  qed
qed

lemma keeps_remove:
  assumes b: "balanced k o' p u sv" and j: "job_ok j" and i: "i < length (files sv)"
  shows "keeps_books k o' p u j (remove_section (j_conn j) i sv)"
proof -
  obtain r f where c: "remove_file (files sv ! i) (j_conn j) = (r, f)" by (cases "remove_file (files sv ! i) (j_conn j)")
  show ?thesis
  proof (cases r)
    case (Inl err)
    then have "f = files sv ! i" using c by (auto simp: remove_file_def split: if_splits)
    then have "keeps_books k o' p u j (Ended (Failed err), set_file i f sv)" using keeps_quiet [OF b j i] by simp
    with Inl c show ?thesis by (simp add: remove_section_def)
  next
    case (Inr n)
    have "balanced k (o' + unat n) p (u + 1) (set_file i f sv)"
      using balanced_removed [OF b i _ c [unfolded Inr]] j by (simp add: job_ok_def)
    with Inr c i j show ?thesis by (simp add: remove_section_def keeps_books_def task_ok_def)
  qed
qed

text \<open>During an eviction the worker keeps the data it wants to store.\<close>

definition evicting :: "nat \<Rightarrow> stage \<Rightarrow> bool" where
  "evicting n st \<longleftrightarrow>
     slots_of st \<subseteq> {..<n} \<and> difference st = 0 \<and> (\<forall>m. owed_by m st = 0 \<and> promised_by m st = 0) \<and> uncounted_by st = 0"

lemma keeps_evicting:
  assumes "balanced k o' p u sv" and "task_ok (length (files sv)) (capacity sv) \<lparr>t_job = j, t_stage = was\<rparr>" and "stores was"
    and "evicting (length (files sv)) st"
  shows "keeps_books k o' p u j (st, sv)"
  using assms by (simp add: keeps_books_def evicting_def task_ok_def)

lemma keeps_evicting_quiet:
  assumes "balanced k o' p u sv" and "task_ok (length (files sv)) (capacity sv) \<lparr>t_job = j, t_stage = was\<rparr>" and "stores was"
    and "evicting (length (files sv)) st" and "v < length (files sv)" and "quiet (files sv ! v) f"
  shows "keeps_books k o' p u j (st, set_file v f sv)"
  by (rule keeps_evicting [OF balanced_quiet [OF assms(1,5,6)]]) (use assms in simp_all)

lemma keeps_search_clock [simp]: "keeps_books k o' p u j (st, search_clock sv) = keeps_books k o' p u j (st, sv)"
  by (simp add: keeps_books_def balanced_def)

lemma keeps_victim:
  assumes b: "balanced k o' p u sv" and t: "task_ok (length (files sv)) (capacity sv) \<lparr>t_job = j, t_stage = At_victim i\<rparr>"
    and ch: "choice_ok sv ch"
  shows "keeps_books k o' p u j (victim_section ch i sv)"
  using t ch
  by (cases ch)
    (auto simp: victim_section_def choice_ok_def evicting_def task_ok_def
      intro!: keeps_evicting [OF b t] keeps_evicting_quiet [OF b t] quiet_update_lru)

lemma keeps_claim:
  assumes b: "balanced k o' p u sv"
    and t: "task_ok (length (files sv)) (capacity sv) \<lparr>t_job = j, t_stage = At_claim i v\<rparr>"
  shows "keeps_books k o' p u j (claim_section i v sv)"
  using b t keeps_evicting [OF b t]
  by (auto simp: claim_section_def evicting_def task_ok_def intro!: keeps_evicting_quiet [OF b t] quiet_admin simp del: owner_consts)

lemma keeps_force_open:
  assumes e: "good_env e" and b: "balanced k o' p u sv"
    and t: "task_ok (length (files sv)) (capacity sv) \<lparr>t_job = j, t_stage = At_force_open i v\<rparr>"
  shows "keeps_books k o' p u j (force_open_section e i v sv)"
  using t e
  by (auto simp: force_open_section_def evicting_def task_ok_def good_env_def split: sum.splits prod.splits
      intro!: keeps_evicting_quiet [OF b t] quiet_open [of OWNER_ADMIN])

lemma keeps_force_read:
  assumes e: "good_env e" and b: "balanced k o' p u sv"
    and t: "task_ok (length (files sv)) (capacity sv) \<lparr>t_job = j, t_stage = At_force_read i v\<rparr>"
  shows "keeps_books k o' p u j (force_read_section e i v sv)"
  using t e
  by (auto simp: force_read_section_def force_read_file_def evicting_def task_ok_def good_env_def split: sum.splits prod.splits
      intro!: keeps_evicting_quiet [OF b t] quiet_read [of OWNER_ADMIN])

lemma keeps_force_remove:
  assumes b: "balanced k o' p u sv"
    and t: "task_ok (length (files sv)) (capacity sv) \<lparr>t_job = j, t_stage = At_force_remove i v w\<rparr>"
  shows "keeps_books k o' p u j (force_remove_section i v w sv)"
proof -
  have i: "i < length (files sv)" "v < length (files sv)" using t by (simp_all add: task_ok_def)
  obtain r f where c: "remove_file (files sv ! v) OWNER_ADMIN = (r, f)" by (cases "remove_file (files sv ! v) OWNER_ADMIN")
  show ?thesis
  proof (cases r)
    case (Inl err)
    then have "f = files sv ! v" using c by (auto simp: remove_file_def split: if_splits)
    then have "quiet (files sv ! v) f" by simp
    from keeps_quiet [OF b _ i(2) this idle_Ended] have "keeps_books k o' p u j (Ended (Failed err), set_file v f sv)"
      using t by (simp add: task_ok_def)
    with Inl c show ?thesis by (simp add: force_remove_section_def force_remove_file_def)
  next
    case (Inr n)
    have "balanced k (o' + unat n) p (u + 1) (set_file v f sv)"
      using balanced_removed [OF b i(2) _ c [unfolded Inr]] by simp
    with Inr c t show ?thesis by (simp add: force_remove_section_def force_remove_file_def keeps_books_def task_ok_def)
  qed
qed

lemma keeps_clock:
  assumes b: "balanced k o' p u sv" and t: "task_ok (length (files sv)) (capacity sv) \<lparr>t_job = j, t_stage = At_clock i v w\<rparr>"
  shows "keeps_books k o' p u j (clock_section i v w sv)"
proof -
  let ?sv = "snd (clock_section i v w sv)"
  have f: "files ?sv = files sv" "current_storage (shared ?sv) = current_storage (shared sv)"
    "current_files (shared ?sv) = current_files (shared sv)" "ro_max_storage (shared ?sv) = ro_max_storage (shared sv)"
    by (simp_all add: clock_section_def)
  with b have "balanced k o' p u ?sv" by (simp add: balanced_frame [OF f])
  then have "keeps_books k o' p u j (if w then At_missed i else At_measure i, ?sv)"
    by (rule keeps_evicting [where was = "At_clock i v w"]) (use t f in \<open>simp_all add: evicting_def task_ok_def\<close>)
  then show ?thesis by (simp add: clock_section_def)
qed

lemma keeps_missed:
  assumes b: "balanced k o' p u sv" and t: "task_ok (length (files sv)) (capacity sv) \<lparr>t_job = j, t_stage = At_missed i\<rparr>"
  shows "keeps_books k o' p u j (At_measure i, missed_section sv)"
  by (rule keeps_evicting [where was = "At_missed i"])
    (use b t in \<open>simp_all add: missed_section_def balanced_def evicting_def task_ok_def\<close>)

lemma keeps_measure:
  assumes b: "balanced (Suc k) o' p u sv" and t: "task_ok (length (files sv)) (capacity sv) \<lparr>t_job = j, t_stage = At_measure i\<rparr>"
    and p: "p \<le> k * capacity sv"
  shows "keeps_books (Suc k) o' p u j (measure_section j i sv, sv)"
proof (cases "ro_max_storage (shared sv) < current_storage (shared sv) + wlen (j_data j)")
  case True
  have "keeps_books (Suc k) o' p u j (At_victim i, sv)"
    by (rule keeps_evicting [OF b t]) (use t in \<open>simp_all add: evicting_def task_ok_def\<close>)
  with True show ?thesis by (simp add: measure_section_def)
next
  case False
  have "balanced (Suc k) o' (p + length (j_data j)) u sv"
    by (rule balanced_measure [OF b p _ False]) (use t in \<open>simp add: task_ok_def\<close>)
  with False t show ?thesis by (simp add: measure_section_def keeps_books_def task_ok_def)
qed

lemma keeps_reserve:
  assumes b: "balanced k o' (p + length (j_data j)) u sv"
    and t: "task_ok (length (files sv)) (capacity sv) \<lparr>t_job = j, t_stage = At_reserve i\<rparr>"
  shows "keeps_books k o' p u j (At_store i, reserve_storage (wlen (j_data j)) sv)"
proof -
  have "length (files (reserve_storage (wlen (j_data j)) sv)) = length (files sv)"
    "capacity (reserve_storage (wlen (j_data j)) sv) = capacity sv"
    by (simp_all add: reserve_storage_def Let_def)
  with balanced_reserve [OF b] t show ?thesis by (simp add: keeps_books_def task_ok_def)
qed

lemma keeps_store:
  assumes e: "good_env e" and b: "balanced k (o' + length (j_data j)) p u sv"
    and t: "task_ok (length (files sv)) (capacity sv) \<lparr>t_job = j, t_stage = At_store i\<rparr>"
  shows "keeps_books k o' p u j (store_section e j i sv)"
proof -
  have i: "i < length (files sv)" and j: "job_ok j" using t by (simp_all add: task_ok_def)
  let ?run = "if j_op j = OpWrite then write_file mem_ok (files sv ! i) (j_conn j) (j_data j) (wlen (j_data j))
    else append_file mem_ok (files sv ! i) (j_conn j) (j_data j) (wlen (j_data j))"
  obtain r f where c: "?run = (r, f)" by (cases ?run)
  note S = balanced_stored [OF b i j c]
  have s: "store_section e j i sv = (case ?run of (Inl err, f) \<Rightarrow> (At_release err, set_file i f sv)
      | (Inr _, f) \<Rightarrow> (Ended Success, set_file i f sv))"
    using e by (simp add: store_section_def good_env_def)
  show ?thesis
  proof (cases r)
    case (Inl err)
    with S b t i show ?thesis unfolding s c by (simp add: keeps_books_def task_ok_def)
  next
    case (Inr x)
    with S j have "keeps_books k o' p u j (Ended Success, set_file i f sv)" by (intro keeps_idle) simp_all
    with Inr show ?thesis unfolding s c by simp
  qed
qed

lemma keeps_release:
  assumes b: "balanced k (o' + length (j_data j)) p u sv" and j: "job_ok j"
  shows "keeps_books k o' p u j (Ended (Failed err), sub_storage (wlen (j_data j)) sv)"
  by (rule keeps_idle [OF balanced_release [OF b] j]) simp

lemma keeps_uncount:
  assumes "balanced k (o' + unat n) p (u + 1) sv" and "job_ok j"
  shows "keeps_books k o' p u j (Ended Success, uncount_section n sv)"
  by (rule keeps_idle [OF balanced_uncount [OF assms(1)] assms(2)]) simp

lemma keeps_discount:
  assumes b: "balanced k (o' + unat n) p (u + 1) sv"
    and t: "task_ok (length (files sv)) (capacity sv) \<lparr>t_job = j, t_stage = At_discount i v w n\<rparr>"
  shows "keeps_books k o' p u j (At_clock i v w, uncount_section n sv)"
  by (rule keeps_evicting [OF balanced_uncount [OF b], where was = "At_discount i v w n"])
    (use t in \<open>simp_all add: uncount_section_def evicting_def task_ok_def\<close>)

lemma keeps_count:
  assumes b: "balanced k o' p (u - 1) sv" and j: "job_ok j" and i: "i < length (files sv)"
  shows "keeps_books k o' p u j (count_section i sv)"
proof -
  have "keeps_books k o' p u j (At_open_made i, snd (count_section i sv))"
    by (rule keeps_idle [OF balanced_counted [OF b] j]) (use i in \<open>simp add: count_section_def idle_stage_def\<close>)
  then show ?thesis by (simp add: count_section_def)
qed

text \<open>The walk over all files, and the closing of the files of a client.\<close>

lemma walk_frame [simp]: "walk (set_file i f sv) j k n = walk sv j k n"
  by (cases "j_op j") (simp_all add: walk_def)

lemma idle_walk_stages [simp]:
  "i < k \<Longrightarrow> idle_stage k (At_walk_open i n was)" "i < k \<Longrightarrow> idle_stage k (At_walk_read i n was)"
  "i < k \<Longrightarrow> idle_stage k (At_walk_close i n res)" "i < k \<Longrightarrow> idle_stage k (At_walk_name i n res)"
  by (simp_all add: idle_stage_def)

lemma after_walk_idle: "i < length (files sv) \<Longrightarrow> idle_stage (length (files sv)) (after_walk sv j i n res)"
  by (simp add: after_walk_def split: sum.split)

lemma keeps_walk_open:
  assumes e: "good_env e" and b: "balanced k o' p u sv" and j: "job_ok j" and i: "i < length (files sv)"
  shows "keeps_books k o' p u j (walk_open_section e j i n was sv)"
  using e j i
  by (auto simp: walk_open_section_def good_env_def job_ok_def
      split: sum.splits prod.splits intro!: keeps_quiet [OF b j i] quiet_open [of "j_conn j"])

lemma keeps_walk_read:
  assumes e: "good_env e" and b: "balanced k o' p u sv" and j: "job_ok j" and i: "i < length (files sv)"
  shows "keeps_books k o' p u j (walk_read_section e j i n was sv)"
proof -
  obtain r f where c: "read_file mem_ok (files sv ! i) (j_conn j) (None, 0) = (r, f)"
    by (cases "read_file mem_ok (files sv ! i) (j_conn j) (None, 0)")
  let ?st = "let res = (case r of Inl err \<Rightarrow> Inl err | Inr (_, m) \<Rightarrow> Inr m)
    in if was then At_walk_close i n res else after_walk sv j i n res"
  have q: "quiet (files sv ! i) f" using quiet_read [OF _ c] j by (simp add: job_ok_def)
  have st: "idle_stage (length (files sv)) ?st" using after_walk_idle [OF i] i by (simp add: Let_def)
  from keeps_quiet [OF b j i q st] c e show ?thesis by (simp add: walk_read_section_def good_env_def Let_def)
qed

lemma keeps_walk_close:
  assumes e: "good_env e" and b: "balanced k o' p u sv" and j: "job_ok j" and i: "i < length (files sv)"
  shows "keeps_books k o' p u j (walk_close_section e j i n res sv)"
proof -
  obtain r f where c: "close_file mem_ok (files sv ! i) (j_conn j) 0 = (r, f)" by (cases "close_file mem_ok (files sv ! i) (j_conn j) 0")
  have q: "quiet (files sv ! i) f" using quiet_close [OF _ c] j by (simp add: job_ok_def)
  have z: "d = 0" if "r = Inr d" for d using close_file_difference [OF balanced_inv [OF b i]] c that by simp
  note W = keeps_quiet [OF b j i q after_walk_idle [OF i, of j n res]] keeps_quiet [OF b j i q idle_Ended]
  show ?thesis using W c e z by (auto simp: walk_close_section_def good_env_def split: sum.split)
qed

lemma walk_name_idle: "idle_stage (length (files sv)) (walk_name_section e j i n sv)"
  by (simp add: walk_name_section_def split: sum.split)

lemma keeps_leave_close:
  assumes e: "good_env e" and b: "balanced k o' p u sv" and j: "job_ok j" and i: "i < length (files sv)"
  shows "keeps_books k o' p u j (leave_close_section e j i sv)"
proof -
  obtain r f where c: "close_file mem_ok (files sv ! i) (j_conn j) 0 = (r, f)" by (cases "close_file mem_ok (files sv ! i) (j_conn j) 0")
  have q: "quiet (files sv ! i) f" using quiet_close [OF _ c] j by (simp add: job_ok_def)
  have z: "d = 0" if "r = Inr d" for d using close_file_difference [OF balanced_inv [OF b i]] c that by simp
  have "idle_stage (length (files sv)) (At_leave_settle i 0)" using i by (simp add: idle_stage_def)
  from keeps_quiet [OF b j i q this] c e z show ?thesis by (auto simp: leave_close_section_def good_env_def split: sum.split)
qed

text \<open>All sections together.\<close>

lemma exists_looked_up: "job_ok j \<Longrightarrow> i < length (files sv) \<Longrightarrow> looked_up sv j (exists_section j i sv)"
  by (simp add: exists_section_def seek_looked_up idle_looked_up idle_stage_def [of _ "At_name i"])

lemma name_looked_up: "job_ok j \<Longrightarrow> i < length (files sv) \<Longrightarrow> looked_up sv j (name_section j i sv)"
  by (auto simp: name_section_def seek_looked_up intro!: after_get_file_looked_up split: sum.split bool.split)

lemma vacant_idle: "idle_stage (length (files sv)) (vacant_section i sv)"
  by (simp add: vacant_section_def idle_stage_def)

lemma owner_idle: "i < length (files sv) \<Longrightarrow> idle_stage (length (files sv)) (owner_section i sv)"
  by (simp add: owner_section_def idle_stage_def)

lemma leave_idle: "i < length (files sv) \<Longrightarrow> idle_stage (length (files sv)) (leave_section j i sv)"
  by (simp add: leave_section_def idle_stage_def [of _ "At_leave_close i"])

lemma keeps_section:
  assumes e: "good_env e" and ch: "choice_ok sv ch"
    and t: "task_ok (length (files sv)) (capacity sv) \<lparr>t_job = j, t_stage = st\<rparr>"
    and b: "balanced (Suc k) (o' + owed_by (length (j_data j)) st) (p + promised_by (length (j_data j)) st) (u + uncounted_by st) sv"
    and p: "p \<le> k * capacity sv"
  shows "keeps_books (Suc k) o' p u j (section_of e ch j st sv)"
proof -
  have j: "job_ok j" and i: "slots_of st \<subseteq> {..<length (files sv)}" and d: "difference st = 0"
    using t by (simp_all add: task_ok_def)
  have b0: "balanced (Suc k) o' p u sv" if "\<forall>m. owed_by m st = 0 \<and> promised_by m st = 0" "uncounted_by st = 0"
    using b that by simp
  note idle = keeps_idle [OF b0 j] and up = keeps_looked_up [OF b0 j]
  show ?thesis
  proof (cases st)
    case (At_exists i)
    with up exists_looked_up [OF j] i show ?thesis by simp
  next
    case (At_name i)
    with up name_looked_up [OF j] i show ?thesis by simp
  next
    case (At_vacant i)
    with idle vacant_idle show ?thesis by simp
  next
    case (At_make i)
    with keeps_make [OF b0 j] i show ?thesis by simp
  next
    case (At_count i)
    with keeps_count [of "Suc k" o' p u] b j i show ?thesis by simp
  next
    case (At_open_made i)
    with keeps_open [OF e b0 j] job_owner_nonneg [OF j] i show ?thesis by simp
  next
    case (At_apply i)
    with keeps_apply [OF e b0 j] i show ?thesis by simp
  next
    case (At_settle n)
    with idle [of "Ended Success"] d show ?thesis by simp
  next
    case (At_owner i)
    with idle owner_idle i show ?thesis by simp
  next
    case (At_remove i)
    with keeps_remove [OF b0 j] i show ?thesis by simp
  next
    case (At_uncount n)
    with keeps_uncount [of "Suc k" o' n p u] b j show ?thesis by simp
  next
    case (At_measure i)
    with keeps_measure [OF b0 _ p] t show ?thesis by simp
  next
    case (At_victim i)
    with keeps_victim [OF b0 _ ch] t show ?thesis by simp
  next
    case (At_claim i v)
    with keeps_claim [OF b0] t show ?thesis by simp
  next
    case (At_force_open i v)
    with keeps_force_open [OF e b0] t show ?thesis by simp
  next
    case (At_force_read i v)
    with keeps_force_read [OF e b0] t show ?thesis by simp
  next
    case (At_victim_name i v w)
    then have "keeps_books (Suc k) o' p u j (victim_name_section e i v w sv, sv)"
      using keeps_evicting [OF b0 t] i by (simp add: victim_name_section_def evicting_def split: sum.split)
    with At_victim_name show ?thesis by simp
  next
    case (At_force_remove i v w)
    with keeps_force_remove [OF b0] t show ?thesis by simp
  next
    case (At_discount i v w n)
    with keeps_discount [of "Suc k" o' n p u] b t show ?thesis by simp
  next
    case (At_clock i v w)
    with keeps_clock [OF b0] t show ?thesis by simp
  next
    case (At_missed i)
    with keeps_missed [OF b0] t show ?thesis by simp
  next
    case (At_reserve i)
    with keeps_reserve [of "Suc k" o' p] b t show ?thesis by simp
  next
    case (At_store i)
    with keeps_store [OF e, of "Suc k" o'] b t show ?thesis by simp
  next
    case (At_release err)
    with keeps_release [of "Suc k" o'] b j show ?thesis by simp
  next
    case (At_walk i n)
    with idle [of "At_walk_open i n (\<not> is_open_file (files sv ! i))"] i show ?thesis by simp
  next
    case (At_walk_open i n w)
    with keeps_walk_open [OF e b0 j] i show ?thesis by simp
  next
    case (At_walk_read i n w)
    with keeps_walk_read [OF e b0 j] i show ?thesis by simp
  next
    case (At_walk_close i n r)
    with keeps_walk_close [OF e b0 j] i show ?thesis by simp
  next
    case (At_walk_settle i n r m)
    with idle [OF _ _ after_walk_idle] d i show ?thesis by simp
  next
    case (At_walk_name i n r)
    with idle [OF _ _ walk_name_idle] show ?thesis by simp
  next
    case (At_leave i)
    with idle [OF _ _ leave_idle] i show ?thesis by simp
  next
    case (At_leave_close i)
    with keeps_leave_close [OF e b0 j] i show ?thesis by simp
  next
    case (At_leave_settle i m)
    with idle [of "leave sv (Suc i)"] d show ?thesis by simp
  qed (use idle in simp)
qed

lemmas section_defs = exists_section_def name_section_def vacant_section_def make_section_def count_section_def open_section_def
  close_section_def lock_section_def unlock_section_def read_section_def apply_section_def owner_section_def remove_section_def
  uncount_section_def measure_section_def store_section_def victim_section_def claim_section_def force_open_section_def force_read_section_def
  victim_name_section_def force_remove_section_def clock_section_def missed_section_def walk_open_section_def
  walk_read_section_def walk_close_section_def walk_name_section_def leave_section_def leave_close_section_def

lemma section_frame:
  assumes "section_of e ch j st sv = (st', sv')"
  shows "length (files sv') = length (files sv)" and "ro_max_storage (shared sv') = ro_max_storage (shared sv)"
  using assms
  by (cases st; auto simp: section_defs reserve_storage_def shared_sub_storage Let_def
      split: sum.splits prod.splits choice.splits request_op.splits if_splits)+

subsection \<open>The books under every interleaving\<close>

lemma promised_le: "task_ok n cap t \<Longrightarrow> promised t \<le> cap"
  by (cases "t_stage t") (simp_all add: promised_def task_ok_def)

lemma promises_le: "\<forall>t \<in># W. task_ok n cap t \<Longrightarrow> (\<Sum>t \<in># W. promised t) \<le> size W * cap"
  by (induction W) (auto dest: promised_le)

lemma accounts_step:
  assumes a: "accounts (add_mset t R) sv" and s: "task_step ev t sv (t', sv')"
  shows "accounts (add_mset t' R) sv'"
proof -
  let ?o = "\<Sum>t \<in># R. owed t" and ?p = "\<Sum>t \<in># R. promised t" and ?u = "\<Sum>t \<in># R. uncounted t"
  have b: "balanced (Suc (size R)) (?o + owed t) (?p + promised t) (?u + uncounted t) sv"
    and ok: "task_ok (length (files sv)) (capacity sv) t" "\<forall>t \<in># R. task_ok (length (files sv)) (capacity sv) t"
    using a by (simp_all add: accounts_def add.commute)
  have p: "?p \<le> size R * capacity sv" by (rule promises_le [OF ok(2)])
  have "keeps_books (Suc (size R)) ?o ?p ?u (t_job t') (t_stage t', sv')
    \<and> length (files sv') = length (files sv) \<and> capacity sv' = capacity sv"
  using s
  proof (cases rule: task_stepE)
    case (asks j r)
    then have "balanced (Suc (size R)) ?o ?p ?u sv" using b by (simp add: owed_def promised_def uncounted_def)
    with asks first_stage_looked_up show ?thesis by (auto intro: keeps_looked_up)
  next
    case (does e ch st)
    have t: "task_ok (length (files sv)) (capacity sv) \<lparr>t_job = t_job t, t_stage = t_stage t\<rparr>"
      using ok(1) by (simp add: task_ok_def)
    from keeps_section [OF does(2,3) t b [unfolded owed_def [of t] promised_def [of t] uncounted_def [of t]] p] does(4,5)
    show ?thesis using section_frame [OF does(4)] by simp
  qed
  then have "keeps_books (Suc (size R)) ?o ?p ?u (t_job t') (t_stage t', sv')"
    and same: "length (files sv') = length (files sv)" "capacity sv' = capacity sv" by blast+
  then have "balanced (Suc (size R)) (?o + owed t') (?p + promised t') (?u + uncounted t') sv'"
    and "task_ok (length (files sv')) (capacity sv') t'"
    by (simp_all add: keeps_books_def owed_def [of t'] promised_def [of t'] uncounted_def [of t'] task_ok_def)
  then show ?thesis using ok(2) same by (simp add: accounts_def add.commute)
qed

interpretation accounting: interleaved task_step accounts
  by unfold_locales (rule accounts_step)

text \<open>Workers at rest owe nothing.\<close>

definition resting :: "task list \<Rightarrow> bool" where
  "resting ts \<longleftrightarrow> (\<forall>t \<in> set ts. \<exists>r. t_stage t = Ended r)"

lemma resting_owes:
  "resting ts \<Longrightarrow> (\<Sum>t \<in># mset ts. owed t) = 0 \<and> (\<Sum>t \<in># mset ts. promised t) = 0 \<and> (\<Sum>t \<in># mset ts. uncounted t) = 0"
  by (induction ts) (auto simp: resting_def owed_def promised_def uncounted_def)

lemma resting_accounts:
  assumes "server_inv sv" and "resting ts" and "ts \<noteq> []" and "\<forall>t \<in> set ts. job_ok (t_job t)"
    and "length ts * capacity sv < 2 ^ 61"
  shows "accounts (mset ts) sv"
proof -
  have C: "\<forall>f \<in> set (files sv). file_inv f" "current_storage (shared sv) = of_nat (used (files sv))"
    "used (files sv) \<le> capacity sv" "current_files (shared sv) = int (live (files sv))"
    using assms(1) by (auto simp: server_inv_def store_inv_def counters_inv_def word_unat_eq_iff unat_of_nat)
  have "capacity sv \<le> length ts * capacity sv" using assms(3) by (cases ts) simp_all
  then have "used (files sv) \<le> length ts * capacity sv" using C(3) by linarith
  with C assms(5) have "balanced (size (mset ts)) 0 0 0 sv" by (simp add: balanced_def)
  moreover have "\<forall>t \<in># mset ts. task_ok (length (files sv)) (capacity sv) t"
    using assms(2,4) by (auto simp: resting_def task_ok_def)
  ultimately show ?thesis using resting_owes [OF assms(2)] by (simp only: accounts_def)
qed

text \<open>What the invariant says of the counters, and of the bytes in use.\<close>

lemma accounts_counters:
  assumes "accounts (mset ts) sv"
  shows "unat (current_storage (shared sv)) = used (files sv) + sum_list (map owed ts)"
    and "current_files (shared sv) = int (live (files sv)) + sum_list (map uncounted ts)"
    and "unat (current_storage (shared sv)) \<le> length ts * capacity sv"
    and "\<forall>f \<in> set (files sv). file_inv f"
proof -
  have b: "balanced (length ts) (sum_list (map owed ts)) (sum_list (map promised ts)) (sum_list (map uncounted ts)) sv"
    using assms by (simp add: accounts_def sum_mset_sum_list flip: mset_map)
  then have "used (files sv) + sum_list (map owed ts) < 2 ^ 61" by (auto simp: balanced_def)
  moreover have "current_storage (shared sv) = of_nat (used (files sv) + sum_list (map owed ts))" using b by (simp add: balanced_def)
  ultimately show "unat (current_storage (shared sv)) = used (files sv) + sum_list (map owed ts)"
    by (simp add: unat_of_nat del: of_nat_add)
  with b show "current_files (shared sv) = int (live (files sv)) + sum_list (map uncounted ts)"
    "unat (current_storage (shared sv)) \<le> length ts * capacity sv" "\<forall>f \<in> set (files sv). file_inv f"
    by (simp_all add: balanced_def)
qed

subsection \<open>A locked file under every interleaving\<close>

text \<open>The steps of workers that do not serve connection \<open>k\<close> and do not evict slot \<open>i\<close>.\<close>

definition spares :: "int \<Rightarrow> nat \<Rightarrow> event \<Rightarrow> bool" where
  "spares k i ev \<longleftrightarrow> (case ev of Asks j \<Rightarrow> j_conn j \<noteq> k | Section ch \<Rightarrow> ch \<noteq> Pick i)"

definition spared_step :: "int \<Rightarrow> nat \<Rightarrow> event \<Rightarrow> task \<Rightarrow> server \<Rightarrow> task \<times> server \<Rightarrow> bool" where
  "spared_step k i ev t sv r \<longleftrightarrow> spares k i ev \<and> task_step ev t sv r"

definition stranger :: "int \<Rightarrow> nat \<Rightarrow> task \<Rightarrow> bool" where
  "stranger k i t \<longleftrightarrow> job_ok (t_job t) \<and> j_conn (t_job t) \<noteq> k \<and> (\<forall>m. t_stage t \<noteq> At_claim m i)"

definition kept_slot :: "int \<Rightarrow> nat \<Rightarrow> byte list \<Rightarrow> afile \<Rightarrow> server \<Rightarrow> bool" where
  "kept_slot k i nm a sv \<longleftrightarrow>
     i < length (files sv) \<and> name (files sv ! i) = nm \<and> fabs (files sv ! i) = a
   \<and> a_owner a = k \<and> 0 < k \<and> k \<noteq> OWNER_ADMIN"

definition guards :: "int \<Rightarrow> nat \<Rightarrow> byte list \<Rightarrow> afile \<Rightarrow> task multiset \<Rightarrow> server \<Rightarrow> bool" where
  "guards k i nm a W sv \<longleftrightarrow> kept_slot k i nm a sv \<and> (\<forall>t \<in># W. stranger k i t)"

text \<open>What an operation on some slot may leave in slot \<open>i\<close>.\<close>

definition unharmed :: "nat \<Rightarrow> server \<Rightarrow> server \<Rightarrow> bool" where
  "unharmed i sv sv' \<longleftrightarrow>
     length (files sv') = length (files sv) \<and> name (files sv' ! i) = name (files sv ! i) \<and> fabs (files sv' ! i) = fabs (files sv ! i)"

lemma unharmed_frame [simp]:
  "unharmed i sv sv" "unharmed i sv (search_clock sv') = unharmed i sv sv'" "unharmed i sv (sv'\<lparr>ticks := n\<rparr>) = unharmed i sv sv'" "unharmed i sv (sv'\<lparr>shared := ss\<rparr>) = unharmed i sv sv'"
  by (simp_all add: unharmed_def)

lemma unharmed_set_file:
  assumes "v = i \<Longrightarrow> name f = name (files sv ! i) \<and> fabs f = fabs (files sv ! i)"
  shows "unharmed i sv (set_file v f sv)"
proof (cases "v = i \<and> i < length (files sv)")
  case True
  with assms show ?thesis by (simp add: unharmed_def)
next
  case False
  then have "(files sv)[v := f] ! i = files sv ! i" by (cases "v = i") (simp_all add: list_update_beyond)
  then show ?thesis by (simp add: unharmed_def)
qed

lemma refused_eq:
  assumes "locked_out who (fabs f)"
  shows "open_file al f who = (r, f') \<Longrightarrow> f' = f" "close_file al f who d = (r2, f') \<Longrightarrow> f' = f"
    "read_file al f who out = (r3, f') \<Longrightarrow> f' = f" "lock_file f who = (r4, f') \<Longrightarrow> f' = f"
    "unlock_file f who = (r5, f') \<Longrightarrow> f' = f" "remove_file f who = (r6, f') \<Longrightarrow> f' = f"
    "write_file al f who b n = (r7, f') \<Longrightarrow> f' = f" "append_file al f who b n = (r8, f') \<Longrightarrow> f' = f"
  using refused_same [OF assms] by (metis snd_conv)+

lemma locked_slot:
  "owner f = k \<Longrightarrow> 0 < k \<Longrightarrow> who \<noteq> k \<Longrightarrow> locked_out who (fabs f)"
  by (simp add: locked_out_def)

lemma section_spares:
  assumes k: "kept_slot k i nm a sv" and j: "job_ok j" "j_conn j \<noteq> k"
    and st: "\<forall>m. st \<noteq> At_claim m i" and ch: "ch \<noteq> Pick i"
    and run: "section_of e ch j st sv = (st', sv')"
  shows "unharmed i sv sv'"
proof -
  let ?f = "files sv ! i"
  have own: "owner ?f = k" "0 < k" "k \<noteq> OWNER_ADMIN" using k by (auto simp: kept_slot_def)
  have "job_owner j \<noteq> k" using j own by (simp add: job_owner_def)
  then have out: "locked_out (j_conn j) (fabs ?f)" "locked_out (job_owner j) (fabs ?f)" "locked_out OWNER_ADMIN (fabs ?f)"
    using locked_slot [OF own(1,2)] j(2) own(3) by simp_all
  note same = refused_eq [OF out(1)] refused_eq [OF out(2)] refused_eq [OF out(3) [unfolded OWNER_ADMIN_def]]
  have made: "create_file_struct now ?f nm' own' = (r, f') \<Longrightarrow> f' = ?f" for now nm' own' r f'
    using own by (auto simp: create_file_struct_def split: if_splits)
  have lru: "name (snd (update_lru ?f 0)) = name ?f" "fabs (snd (update_lru ?f 0)) = fabs ?f"
    by (simp_all add: update_lru_def fabs_def is_open_file_def)
  show ?thesis
    using run st
    by (cases st)
      (auto simp: section_defs force_read_file_def force_remove_file_def reserve_storage_def sub_storage_def on_shared_def Let_def lru
        split: sum.splits prod.splits choice.splits request_op.splits if_splits
        intro!: unharmed_set_file dest: same made)
qed

lemma section_no_pick: "section_of e ch j st sv = (At_claim m i, sv') \<Longrightarrow> ch = Pick i"
  by (cases st)
    (auto simp: section_defs after_get_file_def seek_def walk_def after_walk_def leave_def Let_def
      split: sum.splits prod.splits choice.splits request_op.splits if_splits bool.splits)

lemma first_stage_no_pick: "first_stage sv j \<noteq> At_claim m i"
  by (simp add: first_stage_def seek_def after_get_file_def walk_def leave_def split: request_op.split)

lemma guards_step:
  assumes g: "guards k i nm a (add_mset t R) sv" and s: "spared_step k i ev t sv (t', sv')"
  shows "guards k i nm a (add_mset t' R) sv'"
proof -
  have k: "kept_slot k i nm a sv" and t: "stranger k i t" using g by (simp_all add: guards_def)
  have sp: "spares k i ev" and "task_step ev t sv (t', sv')" using s by (simp_all add: spared_step_def)
  from this(2) have "unharmed i sv sv' \<and> stranger k i t'"
  proof (cases rule: task_stepE)
    case (does e ch st)
    have ch: "ch \<noteq> Pick i" using sp does(1) by (simp add: spares_def)
    have "unharmed i sv sv'" by (rule section_spares [OF k _ _ _ ch does(4)]) (use t in \<open>simp_all add: stranger_def\<close>)
    moreover have "st \<noteq> At_claim m i" for m using section_no_pick does(4) ch by blast
    ultimately show ?thesis using does(5) t by (simp add: stranger_def)
  next
    case (asks j r)
    with sp first_stage_no_pick show ?thesis by (simp add: spares_def stranger_def)
  qed
  then show ?thesis using g by (simp add: guards_def kept_slot_def unharmed_def)
qed

interpretation guarded: interleaved "spared_step k i" "guards k i nm a"
  by unfold_locales (rule guards_step)

end
