(* ===== verification/Races.thy ===== *)
theory Races
  imports Examples Sections_Inv
begin

text \<open>
  Three runs of the sections of \<open>Sections\<close> that no order of whole handlers can produce: two
  requests with data overrun the capacity, two creations leave two files of one name, and an
  append reaches a file it was not asked for. Each run is computed by \<open>scheduled\<close>, which applies
  a schedule to the workers.
\<close>

subsection \<open>Schedules\<close>

definition set_stage :: "nat \<Rightarrow> stage \<Rightarrow> task list \<Rightarrow> task list" where
  "set_stage i st ts = ts[i := (ts ! i)\<lparr>t_stage := st\<rparr>]"

fun scheduled :: "env \<Rightarrow> (nat \<times> event) list \<Rightarrow> task list \<times> server \<Rightarrow> (task list \<times> server) option" where
  "scheduled e [] s = Some s"
| "scheduled e ((i, Asks j) # evs) (ts, sv) =
     (if i < length ts \<and> job_ok j
      then case t_stage (ts ! i) of
             Ended _ \<Rightarrow> scheduled e evs (ts[i := \<lparr>t_job = j, t_stage = first_stage sv j\<rparr>], sv)
           | _ \<Rightarrow> None
      else None)"
| "scheduled e ((i, Section ch) # evs) (ts, sv) =
     (if i < length ts \<and> choice_ok sv ch
      then case section_of e ch (t_job (ts ! i)) (t_stage (ts ! i)) sv of
             (st, sv') \<Rightarrow> scheduled e evs (set_stage i st ts, sv')
      else None)"

lemma scheduled_run:
  "good_env e \<Longrightarrow> scheduled e evs s = Some s' \<Longrightarrow> run (interleave task_step) evs s s'"
proof (induction e evs s rule: scheduled.induct)
  case (1 e s)
  then show ?case by simp
next
  case (2 e i j evs ts sv)
  then have i: "i < length ts" "job_ok j" by (simp_all split: if_splits)
  from 2(3) i obtain r where st: "t_stage (ts ! i) = Ended r"
    and p: "scheduled e evs (ts[i := \<lparr>t_job = j, t_stage = first_stage sv j\<rparr>], sv) = Some s'"
    by (auto split: stage.splits)
  have "run (interleave task_step) evs (ts[i := \<lparr>t_job = j, t_stage = first_stage sv j\<rparr>], sv) s'"
    using 2(1) [OF _ st 2(2) p] i by blast
  moreover have "interleave task_step (i, Asks j) (ts, sv) (ts[i := \<lparr>t_job = j, t_stage = first_stage sv j\<rparr>], sv)"
    by (rule interleave.one [OF i(1)]) (rule task_step.asks [OF st i(2)])
  ultimately show ?case by (rule run_Cons [rotated])
next
  case (3 e i ch evs ts sv)
  then have i: "i < length ts" "choice_ok sv ch" by (simp_all split: if_splits)
  obtain st sv' where s: "section_of e ch (t_job (ts ! i)) (t_stage (ts ! i)) sv = (st, sv')" by fastforce
  with 3(3) i have p: "scheduled e evs (set_stage i st ts, sv') = Some s'" by simp
  have "run (interleave task_step) evs (set_stage i st ts, sv') s'"
    using 3(1) [OF _ s [symmetric] 3(2) p] i by simp
  moreover have "interleave task_step (i, Section ch) (ts, sv) (set_stage i st ts, sv')"
    unfolding set_stage_def by (rule interleave.one [OF i(1)]) (rule task_step.does [OF 3(2) i(2) s])
  ultimately show ?case by (rule run_Cons [rotated])
qed

subsection \<open>Two workers and one file\<close>

text \<open>The open, unlocked file \<open>x\<close> of two bytes, two free slots, and room for three more bytes.\<close>

definition race_file :: file_t where
  "race_file = \<lparr>owner = 0, name = [120], data_size = 2, data = Some [1, 2], open_size = 2, open_data = Some [1, 2],
                new_size = 0, fifo_creation_time = 10, lfu_frequency = 1, lru_clock = 1\<rparr>"

definition race_server :: server where
  "race_server =
     \<lparr>files = [race_file, init_file_struct, init_file_struct],
      shared = (ex_shared 0 5)\<lparr>ro_max_files := 3, current_storage := 2, current_files := 1\<rparr>, slog = [], ticks = 0\<rparr>"

definition job_for :: "request_op \<Rightarrow> int \<Rightarrow> byte list \<Rightarrow> byte list \<Rightarrow> job" where
  "job_for op k nm d = \<lparr>j_op = op, j_conn = k, j_name = nm, j_data = d\<rparr>"

definition idle_workers :: "task list" where
  "idle_workers =
     [\<lparr>t_job = job_for OpClose 5 [120] [], t_stage = Ended Success\<rparr>, \<lparr>t_job = job_for OpClose 6 [120] [], t_stage = Ended Success\<rparr>]"

definition sections :: "nat \<Rightarrow> nat \<Rightarrow> (nat \<times> event) list" where
  "sections n i = replicate n (i, Section No_victim)"

lemma sections_numeral:
  "sections 0 i = []" "sections (Suc n) i = (i, Section No_victim) # sections n i"
  "sections (numeral k) i = (i, Section No_victim) # sections (pred_numeral k) i"
  by (simp_all add: sections_def numeral_eq_Suc)

lemma race_server_inv: "server_inv race_server"
proof -
  have "unique_names [race_file, init_file_struct, init_file_struct]"
    by (simp add: unique_names_def race_file_def init_file_struct_def nth_Cons' less_Suc_eq)
  moreover have "file_inv race_file"
    by (simp add: file_inv_def race_file_def is_open_file_def FILE_NAME_MAX_SIZE_def)
  ultimately have "store_inv (files race_server)"
    using file_inv_init by (simp add: store_inv_def race_server_def)
  moreover have "used (files race_server) = 2" "live (files race_server) = 1"
    by (simp_all add: used_def live_def race_server_def fsize_def race_file_def init_file_struct_def)
  ultimately show ?thesis
    by (simp add: server_inv_def counters_inv_def conns_inv_def conns_def fds_def race_server_def ex_shared_def)
qed

lemma idle_workers_rest: "resting idle_workers" "\<forall>t \<in> set idle_workers. job_ok (t_job t)"
  by (simp_all add: resting_def idle_workers_def job_ok_def job_for_def)

lemmas stage_defs = section_defs first_stage_def seek_def after_get_file_def walk_def leave_def job_owner_def wants_lock_def
lemmas race_defs = race_server_def race_file_def idle_workers_def job_for_def sections_numeral ex_shared_def init_file_struct_def
  set_stage_def choice_ok_def job_ok_def

text \<open>Two appends of two bytes each find room before either reserves it.\<close>

definition overrun_run :: "(nat \<times> event) list" where
  "overrun_run =
     [(0, Asks (job_for OpAppend 5 [120] [3, 4])), (1, Asks (job_for OpAppend 6 [120] [5, 6]))]
     @ sections 3 0 @ sections 3 1 @ sections 2 0 @ sections 2 1"

text \<open>Two creations of \<open>y\<close> look it up before either makes it.\<close>

definition twins_run :: "(nat \<times> event) list" where
  "twins_run =
     [(0, Asks (job_for (OpCreate True) 5 [121] [])), (1, Asks (job_for (OpCreate True) 6 [121] []))]
     @ sections 5 0 @ sections 5 1 @ sections 5 0 @ sections 6 1"

text \<open>The append of connection 5 to \<open>x\<close> has looked up slot 0; connection 6 locks and removes \<open>x\<close> and
  creates \<open>y\<close>, which takes the slot.\<close>

definition stray_run :: "(nat \<times> event) list" where
  "stray_run =
     (0, Asks (job_for OpAppend 5 [120] [9])) # sections 4 0
     @ (1, Asks (job_for OpLock 6 [120] [])) # sections 3 1
     @ (1, Asks (job_for OpRemove 6 [120] [])) # sections 5 1
     @ (1, Asks (job_for (OpCreate False) 6 [121] [])) # sections 7 1
     @ sections 1 0"

lemmas scheduled_defs = overrun_run_def twins_run_def stray_run_def stage_defs race_defs ex_env_def name_max is_existing_file_def
  check_file_name_def cstr_def append_file_def is_open_file_def touch_def reserve_storage_def wlen_def used_def fsize_def
  open_bytes_def mem_ok Let_def create_file_struct_def open_file_def lock_file_def remove_file_def reset_file_struct_def
  uncount_section_def FILE_NAME_MAX_SIZE_def

lemma overrun_performs:
  "\<exists>ts sv. scheduled ex_env overrun_run (idle_workers, race_server) = Some (ts, sv)
     \<and> map t_stage ts = [Ended Success, Ended Success] \<and> used (files sv) = 6 \<and> capacity sv = 5"
  by (simp add: scheduled_defs)

lemma twins_performs:
  "\<exists>ts sv. scheduled ex_env twins_run (idle_workers, race_server) = Some (ts, sv)
     \<and> map t_stage ts = [Ended Success, Ended Success]
     \<and> map name (files sv) = [[120], [121], [121]] \<and> map owner (files sv) = [0, 5, 6]"
  by (simp add: scheduled_defs)

lemma stray_performs:
  "\<exists>ts sv. scheduled ex_env stray_run (idle_workers, race_server) = Some (ts, sv)
     \<and> map t_stage ts = [Ended Success, Ended Success]
     \<and> map existing (files sv) = [True, False, False]
     \<and> name (files sv ! 0) = [121] \<and> a_content (fabs (files sv ! 0)) = [9]"
  by (simp add: scheduled_defs fabs_def)

end
