(* ===== verification/Sections_End.thy ===== *)
theory Sections_End
  imports Sections_Inv
begin

text \<open>
  A request that stores no data ends after a bounded number of its own sections, whatever the
  other workers do in between: no section of such a request waits for another worker, and no
  loop starts again. The bound is a measure of the stages.
\<close>

text \<open>How many sections of its own a request at a stage may still have, for \<open>n\<close> slots.\<close>

fun cost :: "nat \<Rightarrow> stage \<Rightarrow> nat" where
  "cost n (At_exists i) = 2 * (n - Suc i) + n + 8" | "cost n (At_name i) = 2 * (n - Suc i) + n + 7"
| "cost n (At_vacant i) = (n - i) + 5" | "cost n (At_make i) = 4" | "cost n (At_count i) = 3" | "cost n (At_open_made i) = 2"
| "cost n (At_apply i) = 2" | "cost n (At_settle d) = 1"
| "cost n (At_owner i) = 3" | "cost n (At_remove i) = 2" | "cost n (At_uncount d) = 1"
| "cost n (At_walk i k) = 6 * (n - Suc i) + 6" | "cost n (At_walk_open i k was) = 6 * (n - Suc i) + 5"
| "cost n (At_walk_read i k was) = 6 * (n - Suc i) + 4" | "cost n (At_walk_close i k res) = 6 * (n - Suc i) + 3"
| "cost n (At_walk_settle i k res d) = 6 * (n - Suc i) + 2" | "cost n (At_walk_name i k res) = 6 * (n - Suc i) + 1"
| "cost n (At_leave i) = 3 * (n - Suc i) + 3" | "cost n (At_leave_close i) = 3 * (n - Suc i) + 2"
| "cost n (At_leave_settle i d) = 3 * (n - Suc i) + 1"
| "cost n _ = 0"

definition storing :: "job \<Rightarrow> bool" where
  "storing j \<longleftrightarrow> j_op j = OpWrite \<or> j_op j = OpAppend"

abbreviation ended :: "stage \<Rightarrow> bool" where
  "ended st \<equiv> (\<exists>r. st = Ended r)"

lemma cost_bound: "slots_of st \<subseteq> {..<n} \<Longrightarrow> cost n st \<le> 6 * n + 6"
  by (cases st) auto

lemma cost_pos: "\<not> stores st \<Longrightarrow> \<not> ended st \<Longrightarrow> 0 < cost n st"
  by (cases st) auto

text \<open>Where the loops go next.\<close>

lemma cost_seek: "\<not> storing j \<Longrightarrow> \<not> stores (seek sv j i) \<and> cost (length (files sv)) (seek sv j i) \<le> 2 * (length (files sv) - i) + length (files sv) + 6"
  by (auto simp: seek_def after_get_file_def storing_def split: request_op.split)

lemma cost_found: "\<not> storing j \<Longrightarrow> \<not> stores (after_get_file sv j r) \<and> cost (length (files sv)) (after_get_file sv j r) \<le> length (files sv) + 5"
  by (auto simp: after_get_file_def storing_def split: request_op.split sum.split)

lemma cost_walk: "\<not> stores (walk sv j i k) \<and> cost (length (files sv)) (walk sv j i k) \<le> 6 * (length (files sv) - i)"
  by (auto simp: walk_def split: request_op.split)

lemma cost_after_walk:
  "\<not> stores (after_walk sv j i k res) \<and> cost (length (files sv)) (after_walk sv j i k res) \<le> 6 * (length (files sv) - Suc i) + 1"
  using cost_walk [of sv j "Suc i" k] by (auto simp: after_walk_def split: sum.split)

lemma cost_leave: "\<not> stores (leave sv i) \<and> cost (length (files sv)) (leave sv i) \<le> 3 * (length (files sv) - i)"
  by (auto simp: leave_def)

lemma cost_section:
  assumes j: "\<not> storing j" and st: "\<not> stores st" "\<not> ended st" and i: "slots_of st \<subseteq> {..<length (files sv)}"
    and run: "section_of e ch j st sv = (st', sv')"
  shows "cost (length (files sv)) st' < cost (length (files sv)) st \<and> \<not> stores st'"
proof -
  let ?n = "length (files sv)"
  note seek = cost_seek [OF j, of sv]
  have found: "cost ?n (after_get_file sv j r) < m + ?n + 7" "\<not> stores (after_get_file sv j r)" for r m
    using cost_found [OF j, of sv r] by simp_all
  have walked: "cost ?n (after_walk sv j k m r) < 6 * (?n - Suc k) + 2" "cost ?n (after_walk sv j k m r) < 6 * (?n - Suc k) + 3"
    "cost ?n (after_walk sv j k m r) < 6 * (?n - Suc k) + 4" "\<not> stores (after_walk sv j k m r)" for k m r
    using cost_after_walk [of sv j k m r] by simp_all
  have walk: "cost ?n (walk sv j (Suc k) m) < Suc (6 * (?n - Suc k))" "cost ?n (walk sv j (Suc k) m) < 6 * (?n - Suc k) + 5"
    "\<not> stores (walk sv j (Suc k) m)" for k m
    using cost_walk [of sv j "Suc k" m] by simp_all
  show ?thesis
  proof (cases st)
    case (At_exists k)
    with i run seek [of "Suc k"] show ?thesis by (auto simp: exists_section_def split: if_splits)
  next
    case (At_name k)
    with i run seek [of "Suc k"] found show ?thesis
      by (auto simp: name_section_def split: sum.splits bool.splits)
  next
    case (At_walk k n)
    with run show ?thesis by auto
  next
    case (At_walk_open k n w)
    with run i walk [of k n] show ?thesis
      by (auto simp: walk_open_section_def split: sum.splits prod.splits if_splits)
  next
    case (At_walk_read k n w)
    with run i walked [of k n] show ?thesis
      by (auto simp: walk_read_section_def Let_def split: sum.splits prod.splits if_splits)
  next
    case (At_walk_close k n r)
    with run i walked [of k n] show ?thesis
      by (auto simp: walk_close_section_def split: sum.splits prod.splits if_splits)
  next
    case (At_walk_settle k n r d)
    with run walked [of k n r] show ?thesis by auto
  next
    case (At_walk_name k n r)
    with run i walk [of k] show ?thesis
      by (auto simp: walk_name_section_def split: sum.splits if_splits)
  next
    case (At_leave k)
    with run i cost_leave [of sv "Suc k"] show ?thesis by (auto simp: leave_section_def split: if_splits)
  next
    case (At_leave_close k)
    with run show ?thesis by (auto simp: leave_close_section_def split: sum.splits prod.splits)
  next
    case (At_leave_settle k d)
    with run i cost_leave [of sv "Suc k"] show ?thesis by auto
  qed (use st run in \<open>auto simp: vacant_section_def make_section_def count_section_def open_section_def apply_section_def
      close_section_def lock_section_def unlock_section_def read_section_def owner_section_def remove_section_def Let_def
      split: sum.splits prod.splits request_op.splits if_splits\<close>)
qed

text \<open>The sections of worker \<open>i\<close> in a schedule.\<close>

definition own_sections :: "nat \<Rightarrow> (nat \<times> event) list \<Rightarrow> nat" where
  "own_sections i evs = length (filter (\<lambda>ev. fst ev = i) evs)"

lemma cost_run:
  assumes "run (interleave task_step) evs (ts, sv) (ts', sv')" and "accounts (mset ts) sv" and "i < length ts"
    and "\<not> storing (t_job (ts ! i))" and "\<And>j. (i, Asks j) \<notin> set evs"
  shows "ended (t_stage (ts' ! i))
    \<or> cost (length (files sv)) (t_stage (ts' ! i)) + own_sections i evs \<le> cost (length (files sv)) (t_stage (ts ! i))
      \<and> \<not> ended (t_stage (ts ! i)) \<and> \<not> stores (t_stage (ts' ! i))"
  using assms
proof (induction evs "(ts, sv)" "(ts', sv')" arbitrary: ts sv rule: run.induct)
  case run_Nil
  have "task_ok (length (files sv')) (capacity sv') (ts' ! i)" using run_Nil by (simp add: accounts_def)
  then show ?case using run_Nil by (auto simp: own_sections_def task_ok_def storing_def)
next
  case (run_Cons ev s evs)
  obtain ts1 sv1 where s: "s = (ts1, sv1)" by (cases s)
  obtain k l where ev: "ev = (k, l)" by (cases ev)
  from run_Cons(1) obtain t1 where k: "k < length ts" "task_step l (ts ! k) sv (t1, sv1)" "ts1 = ts[k := t1]"
    unfolding s ev by (auto elim: interleaveE)
  have acc: "accounts (mset ts1) sv1" using accounting.step_keeps run_Cons(1,4) unfolding s by blast
  have n: "length (files sv1) = length (files sv)"
    using k(2) section_frame(1) by (cases rule: task_stepE) auto
  have "(i, Asks j) \<notin> set evs" for j using run_Cons(7) by simp
  note IH = run_Cons(3) [OF s acc _ _ this, unfolded n]
  show ?case
  proof (cases "k = i")
    case False
    then have "ts1 ! i = ts ! i" "own_sections i (ev # evs) = own_sections i evs" using k(3) ev by (simp_all add: own_sections_def)
    with IH k(3) run_Cons(5,6) show ?thesis by simp
  next
    case True
    with k(2) run_Cons(7) ev obtain e ch st where d: "section_of e ch (t_job (ts ! i)) (t_stage (ts ! i)) sv = (st, sv1)"
      "t1 = (ts ! i)\<lparr>t_stage := st\<rparr>" by (cases rule: task_stepE) auto
    have own: "own_sections i (ev # evs) = Suc (own_sections i evs)" using True ev by (simp add: own_sections_def)
    have t1: "t_job (ts1 ! i) = t_job (ts ! i)" "t_stage (ts1 ! i) = st" using k(1,3) True d(2) by simp_all
    have ok: "task_ok (length (files sv)) (capacity sv) (ts ! i)" using run_Cons(4,5) by (simp add: accounts_def)
    then have ns: "\<not> stores (t_stage (ts ! i))" and sl: "slots_of (t_stage (ts ! i)) \<subseteq> {..<length (files sv)}"
      using run_Cons(6) by (auto simp: task_ok_def storing_def)
    have IH': "ended (t_stage (ts' ! i)) \<or> cost (length (files sv)) (t_stage (ts' ! i)) + own_sections i evs \<le> cost (length (files sv)) st
        \<and> \<not> ended st \<and> \<not> stores (t_stage (ts' ! i))"
      using IH t1 k(3) run_Cons(5,6) by simp
    show ?thesis
    proof (cases "ended (t_stage (ts ! i))")
      case True
      then obtain r where "t_stage (ts ! i) = Ended r" by blast
      with d(1) have "st = Ended r" by simp
      with IH' show ?thesis by blast
    next
      case False
      with cost_section [OF run_Cons(6) ns False sl d(1)] IH' own show ?thesis by auto
    qed
  qed
qed

lemma request_ends:
  assumes "run (interleave task_step) evs (ts, sv) (ts', sv')" and "accounts (mset ts) sv" and "i < length ts"
    and "\<not> storing (t_job (ts ! i))" and "\<And>j. (i, Asks j) \<notin> set evs" and "6 * length (files sv) + 6 \<le> own_sections i evs"
  shows "ended (t_stage (ts' ! i))"
proof (rule ccontr)
  assume no: "\<not> ended (t_stage (ts' ! i))"
  with cost_run [OF assms(1-5)] have c: "cost (length (files sv)) (t_stage (ts' ! i)) + own_sections i evs
      \<le> cost (length (files sv)) (t_stage (ts ! i))" and "\<not> stores (t_stage (ts' ! i))" by blast+
  from cost_pos [OF this(2) no] have "0 < cost (length (files sv)) (t_stage (ts' ! i))" by blast
  moreover have "cost (length (files sv)) (t_stage (ts ! i)) \<le> 6 * length (files sv) + 6"
    by (rule cost_bound) (use assms(2,3) in \<open>simp add: accounts_def task_ok_def\<close>)
  ultimately show False using c assms(6) by linarith
qed

end
