(* ===== verification/Sections_Run.thy ===== *)
theory Sections_Run
  imports Sections
begin

text \<open>
  A worker whose critical sections (\<open>Sections\<close>) run without interference: the sections one after
  the other, and how the stages before the first change of a file lead to each other. The choices
  of the replacement policy are an input of such a run.
\<close>

subsection \<open>A worker that runs alone\<close>

text \<open>One choice for every section; only those at \<open>At_victim\<close> are looked at.\<close>

fun alone :: "env \<Rightarrow> choice list \<Rightarrow> job \<Rightarrow> stage \<Rightarrow> server \<Rightarrow> stage \<times> server" where
  "alone e [] j st sv = (st, sv)"
| "alone e (ch # chs) j st sv = (case section_of e ch j st sv of (st', sv') \<Rightarrow> alone e chs j st' sv')"

lemma alone_append: "alone e (xs @ ys) j st sv = (case alone e xs j st sv of (st', sv') \<Rightarrow> alone e ys j st' sv')"
  by (induction xs arbitrary: st sv) (simp_all split: prod.split)

lemma alone_Ended [simp]: "alone e chs j (Ended r) sv = (Ended r, sv)"
  by (induction chs) simp_all

definition leads :: "env \<Rightarrow> job \<Rightarrow> stage \<Rightarrow> server \<Rightarrow> stage \<Rightarrow> server \<Rightarrow> bool" where
  "leads e j st sv st' sv' \<longleftrightarrow> (\<exists>chs. alone e chs j st sv = (st', sv'))"

lemma leads_refl [simp]: "leads e j st sv st sv"
  unfolding leads_def by (rule exI [of _ "[]"]) simp

lemma leads_trans [trans]:
  assumes "leads e j a s b t" and "leads e j b t c u"
  shows "leads e j a s c u"
proof -
  from assms obtain xs ys where "alone e xs j a s = (b, t)" "alone e ys j b t = (c, u)" by (auto simp: leads_def)
  then have "alone e (xs @ ys) j a s = (c, u)" by (simp add: alone_append)
  then show ?thesis unfolding leads_def by blast
qed

lemma leads_section:
  assumes "section_of e ch j st sv = (st1, sv1)" and "leads e j st1 sv1 st' sv'"
  shows "leads e j st sv st' sv'"
proof -
  from assms(2) obtain chs where "alone e chs j st1 sv1 = (st', sv')" by (auto simp: leads_def)
  with assms(1) show ?thesis unfolding leads_def by (intro exI [of _ "ch # chs"]) simp
qed

definition ends :: "env \<Rightarrow> job \<Rightarrow> stage \<Rightarrow> server \<Rightarrow> verdict \<Rightarrow> server \<Rightarrow> bool" where
  "ends e j st sv r sv' \<longleftrightarrow> leads e j st sv (Ended r) sv'"

lemma ends_leads: "leads e j st sv st1 sv1 \<Longrightarrow> ends e j st1 sv1 r sv' \<Longrightarrow> ends e j st sv r sv'"
  unfolding ends_def by (rule leads_trans)

lemma ends_Ended [simp]: "ends e j (Ended r) sv r' sv' \<longleftrightarrow> r' = r \<and> sv' = sv"
  by (auto simp: ends_def leads_def)

text \<open>Outside \<open>At_victim\<close> there is nothing to choose.\<close>

lemma no_choice: "(\<And>i. st \<noteq> At_victim i) \<Longrightarrow> section_of e ch j st sv = section_of e No_victim j st sv"
  by (cases st) auto

lemma ends_step:
  assumes "\<And>r. st \<noteq> Ended r" and "\<And>i. st \<noteq> At_victim i"
  shows "ends e j st sv r sv'' \<longleftrightarrow> case_prod (\<lambda>st' sv'. ends e j st' sv' r sv'') (section_of e No_victim j st sv)"
proof -
  obtain st' sv' where s: "section_of e No_victim j st sv = (st', sv')" by (cases "section_of e No_victim j st sv")
  have "ends e j st' sv' r sv''" if "alone e chs j st sv = (Ended r, sv'')" for chs
  proof (cases chs)
    case Nil
    with that assms(1) show ?thesis by simp
  next
    case (Cons ch chs')
    with that s no_choice [OF assms(2), of e ch j sv] show ?thesis by (auto simp: ends_def leads_def)
  qed
  with s leads_section [OF s] show ?thesis by (auto simp: ends_def leads_def)
qed

lemma ends_steps [simp]:
  "ends e j (At_exists i) sv r s = ends e j (exists_section j i sv) sv r s"
  "ends e j (At_name i) sv r s = ends e j (name_section j i sv) sv r s"
  "ends e j (At_vacant i) sv r s = ends e j (vacant_section i sv) sv r s"
  "ends e j (At_make i) sv r s = case_prod (\<lambda>st' sv'. ends e j st' sv' r s) (make_section e j i sv)"
  "ends e j (At_count i) sv r s = case_prod (\<lambda>st' sv'. ends e j st' sv' r s) (count_section i sv)"
  "ends e j (At_open_made i) sv r s = case_prod (\<lambda>st' sv'. ends e j st' sv' r s) (open_section e (job_owner j) i sv)"
  "ends e j (At_apply i) sv r s = case_prod (\<lambda>st' sv'. ends e j st' sv' r s) (apply_section e j i sv)"
  "ends e j (At_settle d) sv r s = ends e j (Ended Success) (sub_storage d sv) r s"
  "ends e j (At_owner i) sv r s = ends e j (owner_section i sv) sv r s"
  "ends e j (At_remove i) sv r s = case_prod (\<lambda>st' sv'. ends e j st' sv' r s) (remove_section (j_conn j) i sv)"
  "ends e j (At_uncount d) sv r s = ends e j (Ended Success) (uncount_section d sv) r s"
  "ends e j (At_measure i) sv r s = ends e j (measure_section j i sv) sv r s"
  "ends e j (At_reserve i) sv r s = ends e j (At_store i) (reserve_storage (wlen (j_data j)) sv) r s"
  "ends e j (At_store i) sv r s = case_prod (\<lambda>st' sv'. ends e j st' sv' r s) (store_section e j i sv)"
  "ends e j (At_release err) sv r s = ends e j (Ended (Failed err)) (sub_storage (wlen (j_data j)) sv) r s"
  "ends e j (At_walk i n) sv r s = ends e j (At_walk_open i n (\<not> is_open_file (files sv ! i))) sv r s"
  "ends e j (At_walk_open i n was) sv r s = case_prod (\<lambda>st' sv'. ends e j st' sv' r s) (walk_open_section e j i n was sv)"
  "ends e j (At_walk_read i n was) sv r s = case_prod (\<lambda>st' sv'. ends e j st' sv' r s) (walk_read_section e j i n was sv)"
  "ends e j (At_walk_close i n res) sv r s = case_prod (\<lambda>st' sv'. ends e j st' sv' r s) (walk_close_section e j i n res sv)"
  "ends e j (At_walk_settle i n res d) sv r s = ends e j (after_walk sv j i n res) (sub_storage d sv) r s"
  "ends e j (At_walk_name i n res) sv r s = ends e j (walk_name_section e j i n sv) sv r s"
  "ends e j (At_leave i) sv r s = ends e j (leave_section j i sv) sv r s"
  "ends e j (At_leave_close i) sv r s = case_prod (\<lambda>st' sv'. ends e j st' sv' r s) (leave_close_section e j i sv)"
  "ends e j (At_leave_settle i d) sv r s = ends e j (leave sv (Suc i)) (sub_storage d sv) r s"
  by (simp_all add: ends_step)

lemma drop_Cons_nth: "drop i xs = y # ys \<Longrightarrow> i < length xs \<and> xs ! i = y \<and> drop (Suc i) xs = ys"
  by (metis drop_eq_Nil drop_Suc linorder_not_less list.discI list.sel(3) nth_via_drop tl_drop)

text \<open>The loops of \<open>get_file\<close> and \<open>get_empty_slot\<close>.\<close>

lemma ends_seek_from:
  assumes "\<forall>f \<in> set (files sv). file_inv f" and "drop i (files sv) = fs"
  shows "ends e j (seek sv j i) sv = ends e j (after_get_file sv j (get_file_from i fs (j_name j))) sv"
  using assms(2)
proof (induction fs arbitrary: i)
  case Nil
  then show ?case by (simp add: seek_def)
next
  case (Cons f fs)
  then have i: "i < length (files sv)" "files sv ! i = f" "drop (Suc i) (files sv) = fs"
    by (simp_all add: drop_Cons_nth)
  have "file_inv f" using assms(1) i by (metis nth_mem)
  then have "is_existing_file f \<Longrightarrow> owner f \<noteq> OWNER_NEXIST" by (simp add: is_existing_file_iff del: owner_consts)
  with Cons.IH [OF i(3)] i(1,2) show ?case
    by (auto simp: fun_eq_iff seek_def exists_section_def name_section_def check_file_name_def
        simp del: owner_consts split: bool.split)
qed

lemma ends_seek:
  "\<forall>f \<in> set (files sv). file_inv f \<Longrightarrow>
   ends e j (seek sv j 0) sv = ends e j (after_get_file sv j (get_file (files sv) (j_name j))) sv"
  using ends_seek_from [of sv 0 "files sv"] by (simp add: get_file_def)

lemma ends_vacant_from:
  assumes "drop i (files sv) = fs"
  shows "ends e j (At_vacant i) sv
    = ends e j (case get_empty_slot_from i fs of Inl err \<Rightarrow> Ended (Failed err) | Inr k \<Rightarrow> At_make k) sv"
  using assms
proof (induction fs arbitrary: i)
  case Nil
  then show ?case by (simp add: fun_eq_iff vacant_section_def)
next
  case (Cons f fs)
  then have i: "i < length (files sv)" "files sv ! i = f" "drop (Suc i) (files sv) = fs"
    by (simp_all add: drop_Cons_nth)
  with Cons.IH [OF i(3)] show ?case by (simp add: fun_eq_iff vacant_section_def)
qed

text \<open>The two servers differ at most in the log and in the last operations of the clients.\<close>

definition same_effects :: "server \<Rightarrow> server \<Rightarrow> bool" where
  "same_effects sv sv' \<longleftrightarrow>
     files sv = files sv' \<and> ticks sv = ticks sv' \<and> (shared sv)\<lparr>clients := []\<rparr> = (shared sv')\<lparr>clients := []\<rparr>"

lemma same_effects_shared:
  assumes "same_effects sv sv'"
  obtains cs where "shared sv' = (shared sv)\<lparr>clients := cs\<rparr>"
proof -
  have "(shared sv)\<lparr>clients := []\<rparr> = (shared sv')\<lparr>clients := []\<rparr>" using assms by (simp add: same_effects_def)
  then have "(shared sv)\<lparr>clients := clients (shared sv')\<rparr> = shared sv'"
    by (cases "shared sv"; cases "shared sv'") simp
  with that show thesis by metis
qed

lemma same_effects_refl [simp]: "same_effects sv sv"
  by (simp add: same_effects_def)

end
