(* ===== verification/Sections_Evict.thy ===== *)
theory Sections_Evict
  imports Sections_Run
begin

text \<open>
  The loop of \<open>do_cache_miss\<close> in critical sections: for every round of the loop there are choices
  of the policy (the reference bits it clears, then the victim or none) with which the sections
  from \<open>At_measure\<close> back to \<open>At_measure\<close> do what the round does, for each of the three policies.
\<close>

subsection \<open>Removing the victim\<close>

lemma leads_delete:
  assumes "same_effects s h" and "v < length (files h)"
    and "delete_evicted e thread v h (None, 0) (None, 0) = (Inr ((Some d, n), nm), h1)"
  shows "\<exists>s1. leads e j (At_claim i v) s (At_clock i v True) s1 \<and> same_effects s1 h1"
proof -
  obtain cs where sh: "shared h = (shared s)\<lparr>clients := cs\<rparr>" by (rule same_effects_shared [OF assms(1)])
  have fs: "files h = files s" and tk: "ticks h = ticks s" using assms(1) by (simp_all add: same_effects_def)
  have v: "v < length (files s)" using assms(2) fs by simp
  let ?f = "files s ! v"
  obtain f1 where o: "force_open_file (e_alloc e) ?f = (Inr (), f1)"
    using assms(3) fs by (auto simp: delete_evicted_def Let_def split: prod.splits sum.splits if_splits)
  obtain b m k f2 where r: "force_read_file (e_alloc e) f1 (None, 0) = (Inr ((b, m), k), f2)"
    using assms(3) fs o v by (auto simp: delete_evicted_def Let_def split: prod.splits sum.splits)
  obtain nb nn where g: "get_file_name (e_alloc e) f2 (None, 0) = Inr nb"
    using assms(3) fs o r v by (auto simp: delete_evicted_def Let_def split: prod.splits sum.splits)
  obtain w f3 where x: "force_remove_file f2 = (Inr w, f3)"
    using assms(3) fs o r g v by (auto simp: delete_evicted_def Let_def split: prod.splits sum.splits)
  have h1: "files h1 = (files s)[v := f3]" "ticks h1 = ticks s" "b = Some d"
      "shared h1 = (shared h)\<lparr>current_storage := current_storage (shared h) - w, current_files := current_files (shared h) - 1\<rparr>"
    using assms(3) fs tk o r g x v by (auto simp: delete_evicted_def Let_def split: prod.splits)
  have own: "\<not> (owner ?f = OWNER_NEXIST \<or> owner ?f = OWNER_ADMIN)"
    and op: "open_file (e_alloc e) (?f\<lparr>owner := OWNER_ADMIN\<rparr>) OWNER_ADMIN = (Inr (), f1)"
    using o by (auto simp: force_open_file_def split: if_splits)
  let ?s = "\<lambda>f. set_file v f s"
  have "leads e j (At_claim i v) s (At_clock i v True) (uncount_section w (?s f3))"
    apply (rule leads_section [where ch = No_victim])
     apply (use own in \<open>simp add: claim_section_def\<close>)
    apply (rule leads_section [where ch = No_victim])
     apply (use op v in \<open>simp add: force_open_section_def\<close>)
    apply (rule leads_section [where ch = No_victim])
     apply (use r v in \<open>simp add: force_read_section_def\<close>)
    apply (rule leads_section [where ch = No_victim])
     apply (use g v h1(3) in \<open>simp add: victim_name_section_def\<close>)
    apply (rule leads_section [where ch = No_victim])
     apply (use x v in \<open>simp add: force_remove_section_def\<close>)
    apply (rule leads_section [where ch = No_victim])
     apply simp
    apply (simp add: set_file_def)
    done
  moreover have "same_effects (uncount_section w (?s f3)) h1"
    using h1 sh by (simp add: same_effects_def uncount_section_def)
  ultimately show ?thesis by blast
qed

subsection \<open>Looking for a victim\<close>

text \<open>What a run of the policy on \<open>h\<close> amounts to, for the sections on \<open>s\<close>.\<close>

definition searched :: "env \<Rightarrow> job \<Rightarrow> nat \<Rightarrow> server \<Rightarrow> (errno + outbuf \<times> outbuf) \<times> server \<Rightarrow> bool" where
  "searched e j i s res \<longleftrightarrow>
     (case res of
        (Inr ((Some d, n), nm), h) \<Rightarrow> \<exists>s'. leads e j (At_victim i) s (At_missed i) s' \<and> same_effects s' h
      | (_, h) \<Rightarrow> \<exists>s'. leads e j (At_victim i) s (At_measure i) s' \<and> same_effects s' h)"

lemma same_algorithm: "same_effects s h \<Longrightarrow> ro_cache_miss_algorithm (shared h) = ro_cache_miss_algorithm (shared s)"
  by (erule same_effects_shared) simp

lemma same_effects_search: "same_effects s h \<Longrightarrow> same_effects (search_clock s) (search_clock h)"
  using same_algorithm [of s h] by (simp add: same_effects_def search_clock_def)

text \<open>The two policies that settle for a minimum.\<close>

lemma searched_none:
  assumes "same_effects (search_clock s) h"
  shows "searched e j i s (Inr ((None, 0), (None, 0)), h)"
  using leads_section [of e No_victim j "At_victim i" s "At_measure i" "search_clock s" "At_measure i" "search_clock s"] assms
  by (auto simp: searched_def victim_section_def)

lemma searched_min:
  assumes e: "good_env e" and h: "server_inv h" and same: "same_effects (search_clock s) h"
    and v: "v < length (files h)" "candidate nd (files h ! v)" and algo: "ro_cache_miss_algorithm (shared s) \<noteq> ALGO_LRU"
  shows "searched e j i s (delete_evicted e thread v h (None, 0) (None, 0))"
proof -
  obtain h1 where d: "delete_evicted e thread v h (None, 0) (None, 0) =
       (Inr ((Some (a_content (fabs (files h ! v))), fsize (files h ! v)),
             (Some (name (files h ! v) @ [0]), wlen (name (files h ! v) @ [0]))), h1)"
      "shared h1 = (shared h)\<lparr>current_storage := current_storage (shared h) - fsize (files h ! v),
                             current_files := current_files (shared h) - 1\<rparr>"
    using delete_evicted_ok [OF e h v] by metis
  obtain s1 where s1: "leads e j (At_claim i v) (search_clock s) (At_clock i v True) s1" "same_effects s1 h1"
    using leads_delete [OF same v(1) d(1)] by blast
  have "ro_cache_miss_algorithm (shared s1) \<noteq> ALGO_LRU"
    using algo d(2) same_algorithm [OF s1(2)] same_algorithm [OF same] by simp
  then have "section_of e No_victim j (At_clock i v True) s1 = (At_missed i, s1)" by (simp add: clock_section_def)
  from leads_section [OF this leads_refl] have "leads e j (At_clock i v True) s1 (At_missed i) s1" .
  then have "leads e j (At_claim i v) (search_clock s) (At_missed i) s1" using s1(1) leads_trans by blast
  then have "leads e j (At_victim i) s (At_missed i) s1"
    by (rule leads_section [of e "Pick v" j "At_victim i" s "At_claim i v" "search_clock s", rotated]) (simp add: victim_section_def)
  with d(1) s1(2) show ?thesis by (auto simp: searched_def)
qed

lemma searched_fifo:
  assumes e: "good_env e" and h: "server_inv h" and same: "same_effects s h"
    and algo: "ro_cache_miss_algorithm (shared h) \<noteq> ALGO_LRU" "ro_cache_miss_algorithm (shared h) \<noteq> ALGO_LFU"
  shows "searched e j i s (evict_FIFO e thread nd h (None, 0) (None, 0))"
proof -
  let ?now = "e_clock e (ticks h)" and ?h = "h\<lparr>ticks := Suc (ticks h)\<rparr>"
  obtain v t b where m: "min_loop fifo_creation_time 0 nd (files h) (0, ?now, False) = (v, t, b)"
    by (cases "min_loop fifo_creation_time 0 nd (files h) (0, ?now, False)") auto
  have sc: "search_clock h = ?h" using algo by (simp add: search_clock_def)
  have inv: "server_inv ?h" using h by (simp add: server_inv_def)
  note same' = same_effects_search [OF same, unfolded sc]
  have a: "ro_cache_miss_algorithm (shared s) \<noteq> ALGO_LRU" using algo same_algorithm [OF same] by simp
  show ?thesis
  proof (cases b)
    case True
    then have "least fifo_creation_time ?now nd (files h) v" by (rule min_loop_least(2) [OF m])
    then have "searched e j i s (delete_evicted e thread v ?h (None, 0) (None, 0))"
      by (intro searched_min [where nd = nd, OF e inv same' _ _ a]) (simp_all add: least_def)
    with True m show ?thesis by (simp add: evict_FIFO_def FIFO_loop_eq Let_def)
  next
    case False
    with searched_none [OF same'] m show ?thesis by (simp add: evict_FIFO_def FIFO_loop_eq Let_def)
  qed
qed

lemma searched_lfu:
  assumes e: "good_env e" and h: "server_inv h" and same: "same_effects s h"
    and algo: "ro_cache_miss_algorithm (shared h) = ALGO_LFU"
  shows "searched e j i s (evict_LFU e thread nd h (None, 0) (None, 0))"
proof -
  let ?key = "\<lambda>f. sint (lfu_frequency f)"
  obtain v t b where m: "min_loop ?key 0 nd (files h) (0, INT_MAX, False) = (v, t, b)"
    by (cases "min_loop ?key 0 nd (files h) (0, INT_MAX, False)") auto
  have "search_clock h = h" using algo by (simp add: search_clock_def)
  with same_effects_search [OF same] have same': "same_effects (search_clock s) h" by simp
  have a: "ro_cache_miss_algorithm (shared s) \<noteq> ALGO_LRU"
    using algo same_algorithm [OF same] by (simp add: ALGO_LRU_def ALGO_LFU_def)
  show ?thesis
  proof (cases b)
    case True
    then have "least ?key INT_MAX nd (files h) v" by (rule min_loop_least(2) [OF m])
    then have "searched e j i s (delete_evicted e thread v h (None, 0) (None, 0))"
      by (intro searched_min [where nd = nd, OF e h same' _ _ a]) (simp_all add: least_def)
    with True m show ?thesis by (simp add: evict_LFU_def LFU_loop_eq Let_def)
  next
    case False
    with searched_none [OF same'] m show ?thesis by (simp add: evict_LFU_def LFU_loop_eq Let_def)
  qed
qed

text \<open>The clock passes the slots whose bit is set.\<close>

lemma leads_passed:
  assumes "same_effects s h" and "LRU_loop m nd pos h = (Inr res, h1)"
  shows "\<exists>s1. leads e j (At_victim i) s (At_victim i) s1 \<and> same_effects s1 h1"
  using assms
proof (induction m arbitrary: pos s h)
  case 0
  then have "same_effects s h1" by simp
  then show ?case using leads_refl by blast
next
  case (Suc m)
  let ?f = "files h ! pos"
  have fs: "files s = files h" using Suc.prems(1) by (simp add: same_effects_def)
  consider (stop) "candidate nd ?f" "lru_clock ?f \<noteq> 1" | (skip) "\<not> candidate nd ?f" | (pass) "candidate nd ?f" "lru_clock ?f = 1"
    by blast
  then show ?case
  proof cases
    case stop
    with Suc.prems have "h1 = h" by (auto simp: LRU_loop_do_spec set_file_def)
    with Suc.prems(1) show ?thesis using leads_refl by blast
  next
    case skip
    with Suc.prems have "LRU_loop m nd (Suc pos mod length (files h)) h = (Inr res, h1)" by (simp add: LRU_loop_do_spec set_file_def)
    with Suc.IH [OF Suc.prems(1)] show ?thesis by blast
  next
    case pass
    let ?g = "?f\<lparr>lru_clock := 0\<rparr>"
    have u: "snd (update_lru ?f 0) = ?g" using pass(1) by (simp add: update_lru_def candidate_def)
    from pass Suc.prems have loop: "LRU_loop m nd (Suc pos mod length (files h)) (set_file pos ?g h) = (Inr res, h1)"
      by (simp add: LRU_loop_do_spec)
    have "same_effects (set_file pos ?g s) (set_file pos ?g h)" using Suc.prems(1) by (simp add: same_effects_def)
    from Suc.IH [OF this loop] obtain s1
      where s1: "leads e j (At_victim i) (set_file pos ?g s) (At_victim i) s1" "same_effects s1 h1" by blast
    have "section_of e (Pass pos) j (At_victim i) s = (At_victim i, set_file pos ?g s)"
      using u fs by (simp add: victim_section_def)
    from leads_section [OF this s1(1)] s1(2) show ?thesis by blast
  qed
qed

lemma searched_lru:
  assumes e: "good_env e" and h: "server_inv h" and same: "same_effects s h"
    and algo: "ro_cache_miss_algorithm (shared h) = ALGO_LRU"
  shows "searched e j i s (evict_LRU e thread nd h (None, 0) (None, 0))"
proof -
  let ?n = "length (files h)" and ?pos = "lru_clock_pos (shared h)"
  have pos: "?pos < ?n" using h by (simp add: server_inv_def counters_inv_def)
  obtain q h1 where loop: "LRU_loop ?n nd ?pos h = (q, h1)" by (cases "LRU_loop ?n nd ?pos h")
  have L: "same_files (files h1) (files h)" "shared h1 = shared h" "turn nd ?n ?pos (files h) q (files h1)"
    using LRU_loop_spec [OF pos le_refl loop] by blast+
  then obtain res where q: "q = Inr res" by (cases q) (simp_all add: turn_def)
  obtain s1 where s1: "leads e j (At_victim i) s (At_victim i) s1" "same_effects s1 h1"
    using leads_passed [OF same loop [unfolded q]] by blast
  have a: "ro_cache_miss_algorithm (shared s1) = ALGO_LRU" using algo L(2) same_algorithm [OF s1(2)] by simp
  then have sc: "search_clock s1 = s1" by (simp add: search_clock_def)
  show ?thesis
  proof (cases res)
    case None
    have "leads e j (At_victim i) s1 (At_measure i) s1"
      by (rule leads_section [of e No_victim j "At_victim i" s1 "At_measure i" s1]) (simp_all add: victim_section_def sc)
    then have "leads e j (At_victim i) s (At_measure i) s1" using s1(1) leads_trans by blast
    with None q loop s1(2) show ?thesis by (auto simp: evict_LRU_def searched_def)
  next
    case (Some v)
    then have "on_clock nd (files h) ?pos v" using L(3) q by (auto simp: turn_def on_clock_def Let_def)
    then have c: "v < ?n" "candidate nd (files h ! v)" using on_clock_slot by blast+
    have n1: "length (files h1) = ?n" by (rule same_files_eq(5) [OF L(1)])
    have inv1: "server_inv h1" using server_inv_same [OF L(1,2)] h by simp
    have v1: "v < length (files h1)" using c(1) n1 by simp
    have "unclock (files h1 ! v) = unclock (files h ! v)" by (rule same_files_nth [OF L(1) v1])
    then have c1: "candidate nd (files h1 ! v)" using c(2) by (metis unclock_simps(9))
    obtain h2 where d: "delete_evicted e thread v h1 (None, 0) (None, 0) =
         (Inr ((Some (a_content (fabs (files h1 ! v))), fsize (files h1 ! v)),
               (Some (name (files h1 ! v) @ [0]), wlen (name (files h1 ! v) @ [0]))), h2)"
        "shared h2 = (shared h1)\<lparr>current_storage := current_storage (shared h1) - fsize (files h1 ! v),
                               current_files := current_files (shared h1) - 1\<rparr>"
      using delete_evicted_ok [OF e inv1 v1 c1] by metis
    obtain s2 where s2: "leads e j (At_claim i v) s1 (At_clock i v True) s2" "same_effects s2 h2"
      using leads_delete [OF s1(2) v1 d(1)] by blast
    let ?move = "\<lambda>s. on_shared (\<lambda>ss. ss\<lparr>lru_clock_pos := Suc v mod length (files s)\<rparr>) s"
    have "ro_cache_miss_algorithm (shared s2) = ALGO_LRU"
      using a d(2) same_algorithm [OF s2(2)] same_algorithm [OF s1(2)] by simp
    then have "section_of e No_victim j (At_clock i v True) s2 = (At_missed i, ?move s2)" by (simp add: clock_section_def)
    from leads_section [OF this leads_refl] have "leads e j (At_clock i v True) s2 (At_missed i) (?move s2)" .
    then have "leads e j (At_claim i v) s1 (At_missed i) (?move s2)" using s2(1) leads_trans by blast
    then have "leads e j (At_victim i) s1 (At_missed i) (?move s2)"
      by (rule leads_section [of e "Pick v" j "At_victim i" s1 "At_claim i v" s1, rotated]) (simp add: victim_section_def sc)
    then have "leads e j (At_victim i) s (At_missed i) (?move s2)" using s1(1) leads_trans by blast
    moreover obtain cs where "shared h2 = (shared s2)\<lparr>clients := cs\<rparr>" by (rule same_effects_shared [OF s2(2)])
    then have "same_effects (?move s2) (?move h2)" using s2(2) by (simp add: same_effects_def on_shared_def)
    ultimately show ?thesis using Some q loop d(1) by (auto simp: evict_LRU_def searched_def)
  qed
qed

lemma searched_evict:
  assumes e: "good_env e" and h: "server_inv h" and same: "same_effects s h"
  shows "searched e j i s (evict e thread nd h (None, 0) (None, 0))"
  using searched_fifo [OF assms] searched_lru [OF assms] searched_lfu [OF assms] by (simp add: evict_def Let_def)

subsection \<open>One round, and the loop\<close>

lemma leads_round:
  assumes e: "good_env e" and h: "server_inv h" "reply_room out h" and same: "same_effects s h"
    and run: "cache_miss e thread nd h out = (r, out', h')"
  shows "\<exists>s'. leads e j (At_victim i) s (At_measure i) s' \<and> same_effects s' h'"
    and "cache_miss_execs (shared h') = cache_miss_execs (shared h) + (if r = Inr () then 1 else 0)"
proof -
  obtain q h1 where ev: "evict e thread nd h (None, 0) (None, 0) = (q, h1)"
    by (cases "evict e thread nd h (None, 0) (None, 0)")
  note S = searched_evict [OF e h(1) same, of j i thread nd, unfolded ev]
  have "(\<exists>s'. leads e j (At_victim i) s (At_measure i) s' \<and> same_effects s' h')
     \<and> cache_miss_execs (shared h') = cache_miss_execs (shared h) + (if r = Inr () then 1 else 0)"
    using cache_miss_spec [OF e h run]
  proof (elim disjE exE conjE)
    assume no: "\<forall>i. \<not> picks e nd h i" "r = Inl ECANCELED" "shared h' = shared h"
    then have "outcome h None (q, h1)" using configured.policy [OF e h(1), of nd thread] ev by metis
    then have "q = Inr ((None, 0), (None, 0))" by simp
    with S run ev no(2,3) show ?thesis by (auto simp: searched_def cache_miss_def same_effects_def)
  next
    fix v
    assume yes: "picks e nd h v" "r = Inr ()" "cache_miss_execs (shared h') = cache_miss_execs (shared h) + 1"
    then obtain v' where "outcome h (Some v') (q, h1)" using configured.policy [OF e h(1), of nd thread] ev by metis
    then obtain d n x k where q: "q = Inr ((Some d, n), (Some x, k))" by auto
    then have h': "h' = on_shared (\<lambda>ss. ss\<lparr>cache_miss_execs := cache_miss_execs ss + 1\<rparr>) h1"
      using run ev yes(2) by (auto simp: cache_miss_def split: prod.splits sum.splits)
    obtain s1 where s1: "leads e j (At_victim i) s (At_missed i) s1" "same_effects s1 h1" using S q by (auto simp: searched_def)
    have "leads e j (At_missed i) s1 (At_measure i) (missed_section s1)"
      by (rule leads_section [of e No_victim j "At_missed i" s1 "At_measure i" "missed_section s1"]) simp_all
    then have "leads e j (At_victim i) s (At_measure i) (missed_section s1)" using s1(1) leads_trans by blast
    moreover obtain cs where "shared h1 = (shared s1)\<lparr>clients := cs\<rparr>" by (rule same_effects_shared [OF s1(2)])
    then have "same_effects (missed_section s1) h'"
      using s1(2) h' by (simp add: same_effects_def missed_section_def on_shared_def)
    ultimately show ?thesis using yes by auto
  qed
  then show "\<exists>s'. leads e j (At_victim i) s (At_measure i) s' \<and> same_effects s' h'"
    "cache_miss_execs (shared h') = cache_miss_execs (shared h) + (if r = Inr () then 1 else 0)" by blast+
qed

text \<open>The loop leaves \<open>At_measure\<close> for \<open>At_reserve\<close> when it returns.\<close>

definition evicted_to :: "env \<Rightarrow> job \<Rightarrow> nat \<Rightarrow> server \<Rightarrow> server \<Rightarrow> server \<Rightarrow> nat \<Rightarrow> stage \<Rightarrow> bool" where
  "evicted_to e j i s h h' k st \<longleftrightarrow>
     cache_miss_execs (shared h') = cache_miss_execs (shared h) + of_nat k
   \<and> (\<exists>s'. leads e j (At_measure i) s st s' \<and> same_effects s' h')"

lemma measure_leads:
  assumes "same_effects s h"
  shows "leads e j (At_measure i) s
    (if ro_max_storage (shared h) < current_storage (shared h) + wlen (j_data j) then At_victim i else At_reserve i) s"
proof -
  obtain cs where "shared h = (shared s)\<lparr>clients := cs\<rparr>" by (rule same_effects_shared [OF assms])
  then have "section_of e No_victim j (At_measure i) s
    = (if ro_max_storage (shared h) < current_storage (shared h) + wlen (j_data j) then At_victim i else At_reserve i, s)"
    by (simp add: measure_section_def)
  from leads_section [OF this leads_refl] show ?thesis .
qed

lemma leads_evict_loop:
  assumes e: "good_env e" and h: "server_inv h" "reply_room out h" and same: "same_effects s h"
    and run: "evict_loop e thread nd (wlen (j_data j)) 0 out h = Some res"
  shows "\<exists>vs out' h'. res = (Inr (of_nat (length vs)), out', h') \<and> evict_inv nd h out vs h' out'
     \<and> evicted_to e j i s h h' (length vs) (At_reserve i)"
  using run
proof (rule evict_loop_rule [where I = "\<lambda>count out' h'. \<exists>vs. count = of_nat (length vs) \<and> evict_inv nd h out vs h' out'
    \<and> evicted_to e j i s h h' (length vs) (At_measure i)"])
  have "evicted_to e j i s h h 0 (At_measure i)" using same by (simp add: evicted_to_def, blast intro: leads_refl)
  then show "\<exists>vs. (0 :: size_t) = of_nat (length vs) \<and> evict_inv nd h out vs h out \<and> evicted_to e j i s h h (length vs) (At_measure i)"
    using evict_inv_start [OF h] by (intro exI [of _ "[]"]) simp
next
  fix count :: size_t and out1 h1 r out2 h2
  assume "\<exists>vs. count = of_nat (length vs) \<and> evict_inv nd h out vs h1 out1 \<and> evicted_to e j i s h h1 (length vs) (At_measure i)"
    and full: "ro_max_storage (shared h1) < current_storage (shared h1) + wlen (j_data j)"
    and cm: "cache_miss e thread nd h1 out1 = (r, out2, h2)"
  then obtain vs s1 where vs: "count = of_nat (length vs)" "evict_inv nd h out vs h1 out1"
      and n: "cache_miss_execs (shared h1) = cache_miss_execs (shared h) + of_nat (length vs)"
      and s1: "leads e j (At_measure i) s (At_measure i) s1" "same_effects s1 h1"
    by (auto simp: evicted_to_def)
  have h1: "server_inv h1" "reply_room out1 h1" using vs(2) by (simp_all add: evict_inv_def)
  note R = leads_round [OF e h1 s1(2) cm]
  obtain s2 where s2: "leads e j (At_victim i) s1 (At_measure i) s2" "same_effects s2 h2" using R(1) by blast
  have "leads e j (At_measure i) s1 (At_victim i) s1" using measure_leads [OF s1(2), of e j i] full by simp
  then have "leads e j (At_measure i) s (At_measure i) s2" using s1(1) s2(1) leads_trans by blast
  then have go: "evicted_to e j i s h h2 k (At_measure i)"
    if "cache_miss_execs (shared h2) = cache_miss_execs (shared h) + of_nat k" for k
    using that s2(2) by (auto simp: evicted_to_def)
  from evict_inv_step [OF e vs(2) cm]
  show "(r = Inr () \<and> (\<exists>vs. count + 1 = of_nat (length vs) \<and> evict_inv nd h out vs h2 out2 \<and> evicted_to e j i s h h2 (length vs) (At_measure i)))
      \<or> (r = Inl ECANCELED \<and> (\<exists>vs. count = of_nat (length vs) \<and> evict_inv nd h out vs h2 out2 \<and> evicted_to e j i s h h2 (length vs) (At_measure i)))"
  proof (elim disjE conjE exE)
    assume "r = Inl ECANCELED" "evict_inv nd h out vs h2 out2"
    then show ?thesis using vs(1) n R(2) go by (intro disjI2 conjI exI [of _ vs]) auto
  next
    fix v
    assume "r = Inr ()" "evict_inv nd h out (vs @ [files h1 ! v]) h2 out2"
    then show ?thesis
      using vs(1) n R(2) go by (intro disjI1 conjI exI [of _ "vs @ [files h1 ! v]"]) auto
  qed
next
  fix count :: size_t and out1 h1
  assume "\<exists>vs. count = of_nat (length vs) \<and> evict_inv nd h out vs h1 out1 \<and> evicted_to e j i s h h1 (length vs) (At_measure i)"
    and fits: "\<not> ro_max_storage (shared h1) < current_storage (shared h1) + wlen (j_data j)"
  then obtain vs s1 where vs: "count = of_nat (length vs)" "evict_inv nd h out vs h1 out1"
      "cache_miss_execs (shared h1) = cache_miss_execs (shared h) + of_nat (length vs)"
      and s1: "leads e j (At_measure i) s (At_measure i) s1" "same_effects s1 h1"
    by (auto simp: evicted_to_def)
  have "leads e j (At_measure i) s1 (At_reserve i) s1" using measure_leads [OF s1(2), of e j i] fits by simp
  then have "leads e j (At_measure i) s (At_reserve i) s1" using s1(1) leads_trans by blast
  with vs s1(2) show "\<exists>vs out' h'. (Inr count, out1, h1) = (Inr (of_nat (length vs)), out', h') \<and> evict_inv nd h out vs h' out'
     \<and> evicted_to e j i s h h' (length vs) (At_reserve i)"
    by (auto simp: evicted_to_def)
qed

text \<open>The flag of an answer that carries evicted files: the counter of evictions has moved.\<close>

definition miss_mark :: "server \<Rightarrow> server \<Rightarrow> msg_t" where
  "miss_mark sv sv' = (if cache_miss_execs (shared sv') = cache_miss_execs (shared sv) then 0 else MESSAGE_FILE_CHACEMISS)"

lemma mtype_push [simp]: "mtype (snd (push_msg al m n src)) = mtype m"
  by (simp add: push_msg_def split: prod.split)

lemma push_mtype: "push_msg al m n src = (r, m') \<Longrightarrow> mtype m' = mtype m"
  using mtype_push [of al m n src] by simp

lemma leads_cache_miss:
  assumes e: "good_env e" and h: "server_inv h" and out: "fresh out" and same: "same_effects s h"
    and run: "do_cache_miss e thread nd (wlen (j_data j)) h out = Some (r, out', h')"
  shows "r = Inr () \<and> server_inv h' \<and> mtype out' = mtype out OR miss_mark h h'
     \<and> (\<exists>s'. leads e j (At_measure i) s (At_reserve i) s' \<and> same_effects s' h')"
proof -
  obtain res where loop: "evict_loop e thread nd (wlen (j_data j)) 0 out h = Some res"
    using run by (auto simp: do_cache_miss_def)
  then obtain vs mid h1 where res: "res = (Inr (of_nat (length vs)), mid, h1)" "evict_inv nd h out vs h1 mid"
      and ev: "evicted_to e j i s h h1 (length vs) (At_reserve i)"
    using leads_evict_loop [OF e h reply_room_fresh [OF h out] same] by blast
  have I: "server_inv h1" "mtype mid = mtype out" "live (files h1) + length vs = live (files h)"
    using res(2) by (simp_all add: evict_inv_def)
  have "live (files h) < 2 ^ 31"
    using h length_filter_le [of existing "files h"] by (simp add: live_def server_inv_def counters_inv_def)
  then have n: "length vs < 2 ^ 31" using I(3) by simp
  then have "(0 :: size_t) < of_nat (length vs) \<longleftrightarrow> vs \<noteq> []" "(of_nat (length vs) :: uint32) = 0 \<longleftrightarrow> vs = []"
    by (simp_all add: word_less_nat_alt unsigned_of_nat take_bit_nat_eq_self word_unat_eq_iff)
  then show ?thesis
    using run loop res(1) I ev by (auto simp: do_cache_miss_def evicted_to_def miss_mark_def split: if_splits)
qed

end
