(* ===== verification/Sections_Walk.thy ===== *)
theory Sections_Walk
  imports Sections_Run Worker_Readn
begin

text \<open>
  The two requests that walk through all slots, in critical sections: \<open>do_readn_files\<close>, whose loop
  stops when enough files are on the answer, and \<open>do_close_connection\<close>, which closes what the client
  owns. Without interference their sections do what the loops of the handlers do.
\<close>

subsection \<open>Reading several files\<close>

text \<open>Whether an operation succeeds does not depend on the buffer it is given.\<close>

lemma read_any_buffer:
  "read_file mem_ok f who b = (Inl err, f') \<Longrightarrow> read_file mem_ok f who b' = (Inl err, f')"
  "read_file mem_ok f who b = (Inr (x, k), f') \<Longrightarrow> \<exists>x'. read_file mem_ok f who b' = (Inr (x', k), f')"
  by (auto simp: read_file_def mem_ok Let_def split: if_splits)

lemma name_any_buffer: "get_file_name mem_ok f b = Inl err \<longleftrightarrow> get_file_name mem_ok f b' = Inl err"
  by (auto simp: get_file_name_def mem_ok Let_def)

lemma same_slots_walk: "length (files s) = length (files s') \<Longrightarrow> walk s j = walk s' j"
  "length (files s) = length (files s') \<Longrightarrow> after_walk s j = after_walk s' j"
  by (auto simp: fun_eq_iff walk_def after_walk_def split: request_op.split sum.split)

definition walked :: "env \<Rightarrow> job \<Rightarrow> nat \<Rightarrow> nat \<Rightarrow> stage \<Rightarrow> server \<Rightarrow> readn_state \<Rightarrow> readn_state \<Rightarrow> bool" where
  "walked e j i n at s st st' \<longleftrightarrow>
     (\<exists>s' n'. ends e j at s = ends e j (walk s' j (Suc i) n') s' \<and> same_effects s' (rn_sv st')
        \<and> (n' = n \<and> rn_count st' = rn_count st \<or> n' = Suc n \<and> rn_count st' = rn_count st + 1))"

lemma walkedI:
  "ends e j at s = ends e j (walk s' j (Suc i) n) s' \<Longrightarrow> same_effects s' (rn_sv st') \<Longrightarrow> rn_count st' = rn_count st \<Longrightarrow>
   walked e j i n at s st st'"
  unfolding walked_def by blast

text \<open>The name, and the fields on the answer.\<close>

lemma walk_push:
  assumes al: "e_alloc e = mem_ok" and same: "same_effects s (rn_sv st)"
    and run: "readn_push e thread conn i (e_errno e) k st = (Inr (), st')"
  shows "walked e j i n (At_walk_name i n (Inr k)) s st st'"
proof (cases "get_file_name (e_alloc e) (files (rn_sv st) ! i) (rn_name st)")
  case (Inl err)
  with name_any_buffer [of "files s ! i" "rn_name st" err "(None, 0)"] al same
  have "get_file_name (e_alloc e) (files s ! i) (None, 0) = Inl err" by (simp add: same_effects_def)
  with Inl run same show ?thesis
    unfolding walked_def by (intro exI [of _ s] exI [of _ n]) (auto simp: fun_eq_iff readn_push_def walk_name_section_def split: if_splits)
next
  case (Inr x)
  then have "get_file_name (e_alloc e) (files s ! i) (None, 0) \<noteq> Inl err" for err
    using name_any_buffer [of "files s ! i" "rn_name st" err "(None, 0)"] al same by (simp add: same_effects_def)
  then obtain y where "get_file_name (e_alloc e) (files s ! i) (None, 0) = Inr y"
    by (cases "get_file_name (e_alloc e) (files s ! i) (None, 0)") auto
  moreover have "rn_sv st' = rn_sv st" "rn_count st' = rn_count st + 1"
    using Inr run by (auto simp: readn_push_def Let_def split: prod.splits sum.splits if_splits)
  ultimately show ?thesis
    using same unfolding walked_def
    by (intro exI [of _ s] exI [of _ "Suc n"]) (simp add: fun_eq_iff walk_name_section_def)
qed

text \<open>What follows the read: the name, unless the read failed.\<close>

definition after_read :: "env \<Rightarrow> int \<Rightarrow> int \<Rightarrow> nat \<Rightarrow> errno + outbuf \<times> size_t \<Rightarrow> readn_state \<Rightarrow> (errno + unit) \<times> readn_state" where
  "after_read e thread conn i res st =
     (case res of
        Inr (buf, read_buf) \<Rightarrow> readn_push e thread conn i (e_errno e) read_buf (st\<lparr>rn_buf := buf\<rparr>)
      | Inl error \<Rightarrow>
          (if error \<noteq> EAGAIN \<and> error \<noteq> EPERM \<and> error \<noteq> ENOENT
           then (Inl error, st\<lparr>rn_sv := do_log thread conn none_str STRING_READN_FILE ''File error.'' 0 0 (rn_sv st)\<rparr>)
           else (Inr (), st)))"

lemma walk_after:
  assumes al: "e_alloc e = mem_ok" and same: "same_effects s (rn_sv st)"
    and run: "after_read e thread conn i res st = (Inr (), st')"
  shows "walked e j i n (after_walk s j i n (map_sum id snd res)) s st st'"
proof (cases res)
  case (Inl err)
  with run same show ?thesis
    unfolding walked_def by (intro exI [of _ s] exI [of _ n]) (auto simp: after_read_def after_walk_def split: if_splits)
next
  case (Inr x)
  obtain b k where x: "x = (b, k)" by (cases x)
  have "walked e j i n (At_walk_name i n (Inr k)) s (st\<lparr>rn_buf := b\<rparr>) st'"
    by (rule walk_push [OF al]) (use run Inr x same in \<open>simp_all add: after_read_def\<close>)
  with Inr x show ?thesis by (simp add: after_walk_def walked_def)
qed

lemma walked_step:
  assumes "ends e j at s = ends e j at' s'" and "walked e j i n at' s' st1 st'" and "rn_count st1 = rn_count st"
  shows "walked e j i n at s st st'"
  using assms unfolding walked_def by simp

lemma set_file_twice: "set_file i f (set_file i g s) = set_file i f s"
  by (simp add: set_file_def)

lemma same_endsI: "(\<And>r t. ends e j a s r t = ends e j b u r t) \<Longrightarrow> ends e j a s = ends e j b u"
  by (intro ext)

lemma walk_slot:
  assumes al: "e_alloc e = mem_ok" and i: "i < length (files s)" and same: "same_effects s (rn_sv st)"
    and run: "readn_slot e thread (j_conn j) i st = (Inr (), st')"
  shows "walked e j i n (At_walk i n) s st st'"
proof -
  obtain cs where sh: "shared (rn_sv st) = (shared s)\<lparr>clients := cs\<rparr>" by (rule same_effects_shared [OF same])
  have fs: "files (rn_sv st) = files s" and tk: "ticks (rn_sv st) = ticks s" using same by (simp_all add: same_effects_def)
  let ?f = "files s ! i" and ?was = "\<not> is_open_file (files s ! i)"
  obtain r f1 where o: "open_file mem_ok ?f (j_conn j) = (r, f1)" by (cases "open_file mem_ok ?f (j_conn j)")
  have len: "walk (set_file i f s) j = walk s j" "after_walk (set_file i f s) j = after_walk s j" for f
    by (rule same_slots_walk; simp)+
  show ?thesis
  proof (cases r)
    case (Inl err)
    then have c: "err = ENOENT \<or> err = EAGAIN" and "st' = st\<lparr>rn_sv := set_file i f1 (rn_sv st)\<rparr>"
      using run o al fs by (auto simp: readn_slot_def Let_def split: if_splits)
    moreover have "ends e j (At_walk i n) s = ends e j (walk (set_file i f1 s) j (Suc i) n) (set_file i f1 s)"
      by (rule same_endsI) (use c Inl o al len in \<open>auto simp: walk_open_section_def\<close>)
    ultimately show ?thesis using same by (intro walkedI [where s' = "set_file i f1 s"]) (simp_all add: same_effects_def)
  next
    case (Inr u)
    obtain res f2 where rd: "read_file mem_ok f1 (j_conn j) (rn_buf st) = (res, f2)"
      by (cases "read_file mem_ok f1 (j_conn j) (rn_buf st)")
    have "\<exists>res'. read_file mem_ok f1 (j_conn j) (None, 0) = (res', f2) \<and> map_sum id snd res' = map_sum id snd res"
      using rd read_any_buffer [of f1 "j_conn j" "rn_buf st", where b' = "(None, 0)"] by (cases res) fastforce+
    then obtain res' where rd': "read_file mem_ok f1 (j_conn j) (None, 0) = (res', f2)" "map_sum id snd res' = map_sum id snd res" by blast
    have sum: "(case q of Inl err \<Rightarrow> Inl err | Inr (_, k) \<Rightarrow> Inr k) = map_sum id snd q" for q :: "errno + outbuf \<times> size_t"
      by (cases q) (simp_all split: prod.split)
    let ?s2 = "set_file i f2 s" and ?res = "map_sum id snd res"
    have first: "ends e j (At_walk i n) s
        = ends e j (if ?was then At_walk_close i n ?res else after_walk ?s2 j i n ?res) ?s2"
      by (rule same_endsI)
        (use o Inr rd' al i len in \<open>simp add: walk_open_section_def walk_read_section_def sum Let_def set_file_twice\<close>)
    show ?thesis
    proof (cases ?was)
      case False
      have "after_read e thread (j_conn j) i res (st\<lparr>rn_sv := set_file i f2 (rn_sv st)\<rparr>) = (Inr (), st')"
        using run o Inr rd al fs False
        by (auto simp: readn_slot_def after_read_def Let_def split: sum.splits prod.splits if_splits)
      from walk_after [OF al _ this, of ?s2 j n] same
      have "walked e j i n (after_walk ?s2 j i n ?res) ?s2 (st\<lparr>rn_sv := set_file i f2 (rn_sv st)\<rparr>) st'"
        by (simp add: same_effects_def)
      moreover have "ends e j (At_walk i n) s = ends e j (after_walk ?s2 j i n ?res) ?s2" using first False by simp
      ultimately show ?thesis using walked_step by fastforce
    next
      case True
      obtain c f3 where cl: "close_file mem_ok f2 (j_conn j) 0 = (c, f3)" by (cases "close_file mem_ok f2 (j_conn j) 0")
      let ?shut = "\<lambda>sv. case c of Inl _ \<Rightarrow> set_file i f3 sv | Inr d \<Rightarrow> if d \<noteq> 0 then sub_storage d (set_file i f3 sv) else set_file i f3 sv"
      have ok: "c = Inl err \<Longrightarrow> err = ENOENT \<or> err = EAGAIN" for err
        using run o Inr rd al fs True cl i by (auto simp: readn_slot_def readn_close_def set_file_twice split: if_splits)
      have close: "readn_close e (j_conn j) i (set_file i f2 (rn_sv st)) = (Inr (), ?shut (rn_sv st))"
        using cl al i fs ok by (auto simp: readn_close_def set_file_twice split: sum.splits)
      have "after_read e thread (j_conn j) i res (st\<lparr>rn_sv := ?shut (rn_sv st)\<rparr>) = (Inr (), st')"
        using run o Inr rd al fs True close
        by (auto simp: readn_slot_def after_read_def Let_def split: sum.splits prod.splits if_splits)
      moreover have "same_effects (?shut s) (?shut (rn_sv st))"
        using fs tk sh by (auto simp: same_effects_def shared_sub_storage split: sum.splits)
      ultimately have W: "walked e j i n (after_walk (?shut s) j i n ?res) (?shut s) (st\<lparr>rn_sv := ?shut (rn_sv st)\<rparr>) st'"
        using walk_after [OF al] by simp
      have "length (files (?shut s)) = length (files s)" by (simp split: sum.split)
      then have "ends e j (At_walk_close i n ?res) ?s2 = ends e j (after_walk (?shut s) j i n ?res) (?shut s)"
        by (intro same_endsI)
          (use cl al i ok len same_slots_walk(2) [of "?shut s" s j] in \<open>auto simp: walk_close_section_def set_file_twice split: sum.splits\<close>)
      with first True have "ends e j (At_walk i n) s = ends e j (after_walk (?shut s) j i n ?res) (?shut s)" by simp
      from walked_step [OF this W] show ?thesis by simp
    qed
  qed
qed

text \<open>The whole loop.\<close>

lemma readn_push_files: "files (rn_sv (snd (readn_push e thread conn i err k st))) = files (rn_sv st)"
  by (auto simp: readn_push_def Let_def split: sum.split prod.split)

lemma readn_slot_length:
  assumes "readn_slot e thread conn i st = (r, st')"
  shows "length (files (rn_sv st')) = length (files (rn_sv st))"
proof -
  have push: "length (files (rn_sv st')) = length (files (rn_sv st1))" if "readn_push e thread conn i err k st1 = (r, st')" for st1 err k
    using readn_push_files [of e thread conn i err k st1] that by simp
  have close: "length (files sv') = length (files sv)" if "readn_close e conn i sv = (q, sv')" for q sv sv'
    using that by (auto simp: readn_close_def split: prod.splits sum.splits if_splits)
  show ?thesis
    using assms by (auto simp: readn_slot_def Let_def split: prod.splits sum.splits if_splits dest!: push close)
qed

lemma walk_loop:
  assumes al: "e_alloc e = mem_ok" and op: "j_op j = OpReadN N" and N: "N < 2 ^ 31" and L: "L < 2 ^ 31"
  shows "same_effects s (rn_sv st) \<Longrightarrow> length (files s) = L \<Longrightarrow> k = L - i \<Longrightarrow> i \<le> L \<Longrightarrow> rn_count st = of_nat n \<Longrightarrow> n \<le> i \<Longrightarrow>
    readn_files_loop k e thread (j_conn j) N i st = (Inr (), st') \<Longrightarrow>
    \<exists>s'. ends e j (walk s j i n) s Success s' \<and> same_effects s' (rn_sv st')"
proof (induction k arbitrary: i n s st)
  case 0
  then show ?case using op by (auto simp: walk_def)
next
  case (Suc k)
  have i: "i < L" using Suc.prems by simp
  have g: "(N \<le> 0 \<or> rn_count st < of_int N) \<longleftrightarrow> (N \<le> 0 \<or> int n < N)"
    using readn_guard [OF _ L N refl, of n] Suc.prems(5,6) i by auto
  show ?case
  proof (cases "N \<le> 0 \<or> int n < N")
    case False
    with g Suc.prems(7) have "st' = st" by simp
    with False Suc.prems(1) op show ?thesis by (auto simp: walk_def)
  next
    case True
    obtain q st1 where slot: "readn_slot e thread (j_conn j) i st = (q, st1)" by (cases "readn_slot e thread (j_conn j) i st")
    with True g Suc.prems(7) have q: "q = Inr ()" and rest: "readn_files_loop k e thread (j_conn j) N (Suc i) st1 = (Inr (), st')"
      by (auto split: sum.splits)
    have i': "i < length (files s)" using i Suc.prems(2) by simp
    from walk_slot [OF al i' Suc.prems(1) slot [unfolded q], of n] obtain s1 n1
      where w: "ends e j (At_walk i n) s = ends e j (walk s1 j (Suc i) n1) s1" "same_effects s1 (rn_sv st1)"
        "n1 = n \<and> rn_count st1 = rn_count st \<or> n1 = Suc n \<and> rn_count st1 = rn_count st + 1"
      unfolding walked_def by blast
    have "length (files (rn_sv st1)) = length (files (rn_sv st))" by (rule readn_slot_length [OF slot])
    then have "length (files s1) = L" using w(2) Suc.prems(1,2) by (simp add: same_effects_def)
    moreover have "k = L - Suc i" "Suc i \<le> L" using Suc.prems(3,4) i by simp_all
    moreover have "rn_count st1 = of_nat n1" "n1 \<le> Suc i" using w(3) Suc.prems(5,6) by (auto simp: add.commute)
    ultimately obtain s' where "ends e j (walk s1 j (Suc i) n1) s1 Success s'" "same_effects s' (rn_sv st')"
      using Suc.IH [OF w(2) _ _ _ _ _ rest] by blast
    moreover have "walk s j i n = At_walk i n" using True i' op by (simp add: walk_def)
    ultimately show ?thesis using w(1) by metis
  qed
qed

subsection \<open>Leaving\<close>

lemma length_close_owned_slot [simp]: "length (files (close_owned_slot e conn i sv)) = length (files sv)"
  by (simp add: close_owned_slot_def split: prod.split sum.split)

lemma leave_ends:
  "k = length (files s) - i \<Longrightarrow> i \<le> length (files s) \<Longrightarrow> ends e j (leave s i) s Success (close_owned k e (j_conn j) i s)"
proof (induction k arbitrary: i s)
  case 0
  then show ?case by (simp add: leave_def)
next
  case (Suc k)
  let ?s = "close_owned_slot e (j_conn j) i s"
  have i: "i < length (files s)" using Suc.prems by simp
  have "leave ?s (Suc i) = leave s (Suc i)" by (simp add: leave_def)
  moreover have "leave s i = At_leave i" using i by (simp add: leave_def)
  moreover have "leave (set_file i f s) (Suc i) = leave s (Suc i)" for f by (simp add: leave_def)
  ultimately have "ends e j (leave s i) s = ends e j (leave ?s (Suc i)) ?s"
    by (intro same_endsI)
      (simp add: leave_section_def leave_close_section_def close_owned_slot_def split: prod.split sum.split)
  moreover have "k = length (files ?s) - Suc i" "Suc i \<le> length (files ?s)" using Suc.prems by simp_all
  then have "ends e j (leave ?s (Suc i)) ?s Success (close_owned k e (j_conn j) (Suc i) ?s)" by (rule Suc.IH)
  ultimately show ?case unfolding close_owned.simps by metis
qed

end
