(* ===== verification/Sections_Alone.thy ===== *)
theory Sections_Alone
  imports Sections_Evict Sections_Walk
begin

text \<open>
  The link between the critical sections of \<open>Sections\<close> and the handlers of the other theories: a
  request whose sections run without interference ends as the handler does when it runs as one
  step, with the same files, the same counters and the answer that belongs to its verdict. All
  requests are covered; a write or append may evict files first.
\<close>

subsection \<open>The request, the handler and the answer\<close>

text \<open>The message of the request \<open>j\<close>. A write or append carries at least one byte, and a write comes
  directly after the creation of the file; the data may need room that has to be made, or be too
  big altogether.\<close>

definition brings_data :: "net_msg \<Rightarrow> job \<Rightarrow> bool" where
  "brings_data m j \<longleftrightarrow> j_data j \<noteq> [] \<and> write_request m (cstr (j_name j)) (j_data j)"

definition asks_for :: "env \<Rightarrow> net_msg \<Rightarrow> nat \<Rightarrow> server \<Rightarrow> job \<Rightarrow> bool" where
  "asks_for e m ci sv j \<longleftrightarrow>
     0 < j_conn j
   \<and> (case j_op j of
        OpReadN k \<Rightarrow> \<exists>bs b. pop_buf (mdata m) 4 (Some (replicate 4 0)) = (Inr bs, b) \<and> k = sint (bytes_int bs)
      | OpLeave \<Rightarrow> True
      | _ \<Rightarrow> fst (read_file_name e m 256) = Inr (j_name j))
   \<and> (case j_op j of
        OpCreate l \<Rightarrow> HASFLAG (GETFLAGS (mtype m)) MESSAGE_OPEN_OCREATE \<and> l = HASFLAG (GETFLAGS (mtype m)) MESSAGE_OPEN_OLOCK
      | OpOpen l \<Rightarrow> \<not> HASFLAG (GETFLAGS (mtype m)) MESSAGE_OPEN_OCREATE \<and> l = HASFLAG (GETFLAGS (mtype m)) MESSAGE_OPEN_OLOCK
      | OpWrite \<Rightarrow> brings_data m j \<and> strncmp_eq FILE_NAME_MAX_SIZE (j_name j) (lastop_of ci sv)
      | OpAppend \<Rightarrow> brings_data m j
      | _ \<Rightarrow> True)"

text \<open>A client that leaves is served by \<open>do_close_connection\<close>, which is treated apart.\<close>

definition handler_of :: "request_op \<Rightarrow> env \<Rightarrow> int \<Rightarrow> int \<Rightarrow> net_msg \<Rightarrow> net_msg \<Rightarrow> nat \<Rightarrow> server \<Rightarrow> (int \<times> net_msg \<times> server) option" where
  "handler_of op e thread conn m out ci sv =
     (case op of
        OpWrite \<Rightarrow> do_write_file e thread conn m out ci sv
      | OpAppend \<Rightarrow> do_append_file e thread conn m out ci sv
      | OpClose \<Rightarrow> Some (do_close_file e thread conn m out ci sv)
      | OpLock \<Rightarrow> Some (do_lock_file e thread conn m out ci sv)
      | OpUnlock \<Rightarrow> Some (do_unlock_file e thread conn m out ci sv)
      | OpRemove \<Rightarrow> Some (do_remove_file e thread conn m out ci sv)
      | OpRead \<Rightarrow> Some (do_read_file e thread conn m out ci sv)
      | OpReadN _ \<Rightarrow> Some (do_readn_files e thread conn m out ci sv)
      | OpLeave \<Rightarrow> None
      | _ \<Rightarrow> Some (do_open_file e thread conn m out ci sv))"

definition ack_of :: "request_op \<Rightarrow> msg_t" where
  "ack_of op = (case op of OpWrite \<Rightarrow> MESSAGE_WFILE_ACK | OpAppend \<Rightarrow> MESSAGE_AFILE_ACK | OpClose \<Rightarrow> MESSAGE_CFILE_ACK
     | OpLock \<Rightarrow> MESSAGE_LFILE_ACK | OpUnlock \<Rightarrow> MESSAGE_ULFILE_ACK | OpRemove \<Rightarrow> MESSAGE_RMFILE_ACK
     | OpRead \<Rightarrow> MESSAGE_RFILE_ACK | OpReadN _ \<Rightarrow> MESSAGE_RNFILE_ACK | OpLeave \<Rightarrow> MESSAGE_CCONN_ACK | _ \<Rightarrow> MESSAGE_OFILE_ACK)"

fun outcome_flag :: "request_op \<Rightarrow> verdict \<Rightarrow> msg_t" where
  "outcome_flag op Success = MESSAGE_OP_SUCC"
| "outcome_flag op (Failed err) =
     (if err = ENOENT then MESSAGE_FILE_NEXISTS
      else if err = EPERM then MESSAGE_FILE_NOPEN
      else if err = EEXIST then MESSAGE_FILE_EXISTS
      else if err = EMFILE then MESSAGE_FILE_ERRMAXFILES
      else if op = OpWrite \<or> op = OpAppend then MESSAGE_FILE_NLOCK else MESSAGE_FILE_NOWN)"
| "outcome_flag op Not_locked = MESSAGE_FILE_NLOCK"
| "outcome_flag op Too_big = 0"

text \<open>What a handler that returns has to agree on with the sections.\<close>

definition agrees :: "env \<Rightarrow> job \<Rightarrow> server \<Rightarrow> (int \<times> net_msg \<times> server) option \<Rightarrow> bool" where
  "agrees e j sv h \<longleftrightarrow>
     (case h of
        None \<Rightarrow> True
      | Some (q, out, sv2) \<Rightarrow> q = 0 \<and> (\<exists>r sv1. ends e j (first_stage sv j) sv r sv1 \<and> same_effects sv1 sv2
          \<and> mtype out = (ack_of (j_op j) OR miss_mark sv sv1) OR outcome_flag (j_op j) r))"

subsection \<open>The errors that can occur\<close>

lemma op_errors:
  assumes "file_inv f" and "0 \<le> who"
  shows "open_file mem_ok f who = (Inl err, f1) \<Longrightarrow> err = ENOENT \<or> err = EAGAIN"
    and "close_file mem_ok f who d = (Inl err, f2) \<Longrightarrow> err = ENOENT \<or> err = EAGAIN"
    and "lock_file f who = (Inl err, f3) \<Longrightarrow> err = ENOENT \<or> err = EAGAIN \<or> err = EPERM"
    and "unlock_file f who = (Inl err, f4) \<Longrightarrow> err = ENOENT \<or> err = EAGAIN \<or> err = EPERM"
    and "remove_file f who = (Inl err, f5) \<Longrightarrow> err = ENOENT \<or> err = EAGAIN"
proof -
  have ne: "owner f = OWNER_NEXIST \<Longrightarrow> open_file mem_ok f who = (Inl ENOENT, f)"
    "owner f = OWNER_NEXIST \<Longrightarrow> close_file mem_ok f who d = (Inl ENOENT, f)"
    using assms(2) by (simp_all add: open_file_def close_file_def)
  show "open_file mem_ok f who = (Inl err, f1) \<Longrightarrow> err = ENOENT \<or> err = EAGAIN"
    using open_file_refines [OF assms(1) _ assms(2)] ne(1)
    by (cases "existing f") (auto simp: file_sim_def a_open_op_def split: if_splits)
  show "close_file mem_ok f who d = (Inl err, f2) \<Longrightarrow> err = ENOENT \<or> err = EAGAIN"
    using close_file_refines [OF assms(1) _ assms(2), of d] ne(2)
    by (cases "existing f") (auto simp: file_sim_def a_close_op_def split: if_splits)
qed (use assms(2) in \<open>auto simp: lock_file_def unlock_file_def remove_file_def split: if_splits\<close>)

lemma store_errors:
  assumes "0 \<le> who" and "wlen d \<noteq> 0"
  shows "write_file mem_ok f who d (wlen d) = (Inl err, f1) \<Longrightarrow> err = ENOENT \<or> err = EAGAIN \<or> err = EPERM \<or> err = EEXIST"
    and "append_file mem_ok f who d (wlen d) = (Inl err, f2) \<Longrightarrow> err = ENOENT \<or> err = EAGAIN \<or> err = EPERM"
  using assms by (auto simp: write_file_def append_file_def mem_ok split: if_splits)

lemma get_file_errors:
  assumes "\<forall>f \<in> set (files sv). file_inv f"
  shows "get_file (files sv) nm = Inl err \<Longrightarrow> err = ENOENT"
    and "get_file (files sv) nm = Inr i \<Longrightarrow> i < length (files sv)"
  using get_file_from_spec [OF assms, where k = 0 and n = nm] by (auto simp: get_file_def)

subsection \<open>Every request agrees with its handler\<close>

lemma ends_first:
  assumes "\<forall>f \<in> set (files sv). file_inv f" and "j_op j \<noteq> OpLeave" and "\<And>n. j_op j \<noteq> OpReadN n"
  shows "ends e j (first_stage sv j) sv = ends e j (after_get_file sv j (get_file (files sv) (j_name j))) sv"
  using ends_seek [OF assms(1), of e j] assms(2,3) by (simp add: first_stage_def split: request_op.split)

lemma agreesI:
  assumes "ends e j (first_stage sv j) sv r sv1" and "cache_miss_execs (shared sv1) = cache_miss_execs (shared sv)"
    and "case h of None \<Rightarrow> True
      | Some (q, out, sv2) \<Rightarrow> q = 0 \<and> same_effects sv1 sv2 \<and> mtype out = ack_of (j_op j) OR outcome_flag (j_op j) r"
  shows "agrees e j sv h"
proof (cases h)
  case (Some x)
  obtain q out sv2 where x: "x = (q, out, sv2)" by (cases x)
  have "miss_mark sv sv1 = 0" using assms(2) by (simp add: miss_mark_def)
  with assms(3) Some x have "q = 0" "same_effects sv1 sv2" "mtype out = (ack_of (j_op j) OR miss_mark sv sv1) OR outcome_flag (j_op j) r"
    by simp_all
  with assms(1) Some x show ?thesis unfolding agrees_def by auto
qed (simp add: agrees_def)

lemma agrees_marked:
  assumes "ends e j (first_stage sv j) sv r sv1" and "h = Some (0, out, sv2)" and "same_effects sv1 sv2"
    and "mtype out = (ack_of (j_op j) OR miss_mark sv sv1) OR outcome_flag (j_op j) r"
  shows "agrees e j sv h"
  using assms unfolding agrees_def by auto

lemma asks_name:
  assumes "asks_for e m ci sv j" and "j_op j \<noteq> OpLeave" and "\<And>n. j_op j \<noteq> OpReadN n"
  obtains m' where "read_file_name e m 256 = (Inr (j_name j), m')" "mtype m' = mtype m"
proof -
  have "fst (read_file_name e m 256) = Inr (j_name j)" using assms by (auto simp: asks_for_def split: request_op.splits)
  then show thesis using that read_file_name_mtype by (metis prod.collapse)
qed

lemmas agrees_simps = handler_of_def ack_of_def after_get_file_def apply_section_def same_effects_def shared_set_lastop
  shared_sub_storage Let_def


text \<open>A file that is not found ends every request alike, but for the creation.\<close>

lemmas handler_defs = do_read_file_def do_open_file_def open_file_open_def do_close_file_def do_lock_file_def do_unlock_file_def do_remove_file_def
  do_write_file_def do_append_file_def

lemma agrees_missing:
  assumes fi: "\<forall>f \<in> set (files sv). file_inv f" and a: "asks_for e m ci sv j"
    and op: "\<And>l. j_op j \<noteq> OpCreate l" "j_op j \<noteq> OpLeave" "\<And>n. j_op j \<noteq> OpReadN n"
    and g: "get_file (files sv) (j_name j) = Inl ENOENT"
  shows "agrees e j sv (handler_of (j_op j) e thread (j_conn j) m out ci sv)"
proof -
  note ops = op(2,3)
  obtain m' where rn: "read_file_name e m 256 = (Inr (j_name j), m')" "mtype m' = mtype m" by (rule asks_name [OF a ops])
  have E: "ends e j (first_stage sv j) sv (Failed ENOENT) sv"
    using ends_first [OF fi ops(1,2), of e] op g by (simp add: after_get_file_def split: request_op.split)
  show ?thesis
    by (rule agreesI [OF E])
      (use a op ops in \<open>auto simp: agrees_simps handler_defs rn g asks_for_def split: request_op.split\<close>)
qed

text \<open>A request of one operation: what is left to show once the file is found.\<close>

lemma agrees_found:
  assumes fi: "\<forall>f \<in> set (files sv). file_inv f" and ops: "j_op j \<noteq> OpLeave" "\<And>n. j_op j \<noteq> OpReadN n"
    and g: "get_file (files sv) (j_name j) = Inr i"
    and e: "ends e j (after_get_file sv j (Inr i)) sv r sv1" and n: "cache_miss_execs (shared sv1) = cache_miss_execs (shared sv)"
    and h: "case h of None \<Rightarrow> True
      | Some (q, out, sv2) \<Rightarrow> q = 0 \<and> same_effects sv1 sv2 \<and> mtype out = ack_of (j_op j) OR outcome_flag (j_op j) r"
  shows "agrees e j sv h"
  by (rule agreesI [where r = r and ?sv1.0 = sv1]) (use ends_first [OF fi ops, of e] g e h n in simp_all)

lemma agrees_lock:
  assumes fi: "\<forall>f \<in> set (files sv). file_inv f" and a: "asks_for e m ci sv j" and op: "j_op j = OpLock"
    and g: "get_file (files sv) (j_name j) = Inr i"
  shows "agrees e j sv (handler_of (j_op j) e thread (j_conn j) m out ci sv)"
proof -
  obtain m' where rn: "read_file_name e m 256 = (Inr (j_name j), m')" "mtype m' = mtype m" by (rule asks_name [OF a]) (simp_all add: op)
  have who: "0 \<le> j_conn j" using a by (simp add: asks_for_def)
  obtain r f where c: "lock_file (files sv ! i) (j_conn j) = (r, f)" by (cases "lock_file (files sv ! i) (j_conn j)")
  have err: "err = ENOENT \<or> err = EAGAIN \<or> err = EPERM" if "r = Inl err" for err
    using op_errors(3) [OF _ who] fi get_file_errors(2) [OF fi g] c that by (metis nth_mem)
  show ?thesis
    by (rule agrees_found [OF fi _ _ g, where r = "case r of Inl err \<Rightarrow> Failed err | Inr _ \<Rightarrow> Success" and ?sv1.0 = "set_file i f sv"])
      (use op c err in \<open>auto simp: agrees_simps lock_section_def do_lock_file_def rn g split: sum.splits\<close>)
qed

lemma agrees_unlock:
  assumes fi: "\<forall>f \<in> set (files sv). file_inv f" and a: "asks_for e m ci sv j" and op: "j_op j = OpUnlock"
    and g: "get_file (files sv) (j_name j) = Inr i"
  shows "agrees e j sv (handler_of (j_op j) e thread (j_conn j) m out ci sv)"
proof -
  obtain m' where rn: "read_file_name e m 256 = (Inr (j_name j), m')" "mtype m' = mtype m" by (rule asks_name [OF a]) (simp_all add: op)
  have who: "0 \<le> j_conn j" using a by (simp add: asks_for_def)
  obtain r f where c: "unlock_file (files sv ! i) (j_conn j) = (r, f)" by (cases "unlock_file (files sv ! i) (j_conn j)")
  have err: "err = ENOENT \<or> err = EAGAIN \<or> err = EPERM" if "r = Inl err" for err
    using op_errors(4) [OF _ who] fi get_file_errors(2) [OF fi g] c that by (metis nth_mem)
  show ?thesis
    by (rule agrees_found [OF fi _ _ g, where r = "case r of Inl err \<Rightarrow> Failed err | Inr _ \<Rightarrow> Success" and ?sv1.0 = "set_file i f sv"])
      (use op c err in \<open>auto simp: agrees_simps unlock_section_def do_unlock_file_def rn g split: sum.splits\<close>)
qed

lemma agrees_close:
  assumes al: "e_alloc e = mem_ok"
    and fi: "\<forall>f \<in> set (files sv). file_inv f" and a: "asks_for e m ci sv j" and op: "j_op j = OpClose"
    and g: "get_file (files sv) (j_name j) = Inr i"
  shows "agrees e j sv (handler_of (j_op j) e thread (j_conn j) m out ci sv)"
proof -
  obtain m' where rn: "read_file_name e m 256 = (Inr (j_name j), m')" "mtype m' = mtype m" by (rule asks_name [OF a]) (simp_all add: op)
  have who: "0 \<le> j_conn j" using a by (simp add: asks_for_def)
  obtain r f where c: "close_file mem_ok (files sv ! i) (j_conn j) 0 = (r, f)" by (cases "close_file mem_ok (files sv ! i) (j_conn j) 0")
  have err: "err = ENOENT \<or> err = EAGAIN" if "r = Inl err" for err
    using op_errors(2) [OF _ who] fi get_file_errors(2) [OF fi g] c that by (metis nth_mem)
  show ?thesis
    by (rule agrees_found [OF fi _ _ g, where r = "case r of Inl err \<Rightarrow> Failed err | Inr _ \<Rightarrow> Success"
          and ?sv1.0 = "case r of Inl _ \<Rightarrow> set_file i f sv | Inr d \<Rightarrow> sub_storage d (set_file i f sv)"])
      (use op c err al in \<open>auto simp: agrees_simps close_section_def do_close_file_def rn g split: sum.splits\<close>)
qed

lemma agrees_open:
  assumes al: "e_alloc e = mem_ok"
    and fi: "\<forall>f \<in> set (files sv). file_inv f" and a: "asks_for e m ci sv j" and op: "j_op j = OpOpen l"
    and g: "get_file (files sv) (j_name j) = Inr i"
  shows "agrees e j sv (handler_of (j_op j) e thread (j_conn j) m out ci sv)"
proof -
  obtain m' where rn: "read_file_name e m 256 = (Inr (j_name j), m')" "mtype m' = mtype m" by (rule asks_name [OF a]) (simp_all add: op)
  have who: "0 \<le> job_owner j" using a by (simp add: asks_for_def job_owner_def)
  have own: "job_owner j = (if HASFLAG (GETFLAGS (mtype m)) MESSAGE_OPEN_OLOCK then j_conn j else OWNER_NULL)"
    using a op by (simp add: asks_for_def job_owner_def wants_lock_def)
  obtain r f where c: "open_file mem_ok (files sv ! i) (job_owner j) = (r, f)" by (cases "open_file mem_ok (files sv ! i) (job_owner j)")
  have err: "err = ENOENT \<or> err = EAGAIN" if "r = Inl err" for err
    using op_errors(1) [OF _ who] fi get_file_errors(2) [OF fi g] c that by (metis nth_mem)
  have "\<not> HASFLAG (GETFLAGS (mtype m)) MESSAGE_OPEN_OCREATE" using a op by (simp add: asks_for_def)
  with own show ?thesis
    by (intro agrees_found [OF fi _ _ g, where r = "case r of Inl err \<Rightarrow> Failed err | Inr _ \<Rightarrow> Success" and ?sv1.0 = "set_file i f sv"])
      (use op c [unfolded own] err al in \<open>auto simp: agrees_simps open_section_def do_open_file_def open_file_open_def rn g split: sum.splits\<close>)
qed

lemma agrees_remove:
  assumes fi: "\<forall>f \<in> set (files sv). file_inv f" and a: "asks_for e m ci sv j" and op: "j_op j = OpRemove"
    and g: "get_file (files sv) (j_name j) = Inr i"
  shows "agrees e j sv (handler_of (j_op j) e thread (j_conn j) m out ci sv)"
proof -
  obtain m' where rn: "read_file_name e m 256 = (Inr (j_name j), m')" "mtype m' = mtype m" by (rule asks_name [OF a]) (simp_all add: op)
  have who: "0 \<le> j_conn j" using a by (simp add: asks_for_def)
  show ?thesis
  proof (cases "owner (files sv ! i) = OWNER_NULL")
    case True
    then show ?thesis
      by (intro agrees_found [OF fi _ _ g, where r = Not_locked and ?sv1.0 = sv])
        (use op in \<open>simp_all add: agrees_simps owner_section_def do_remove_file_def rn g\<close>)
  next
    case False
    obtain r f where c: "remove_file (files sv ! i) (j_conn j) = (r, f)" by (cases "remove_file (files sv ! i) (j_conn j)")
    have err: "err = ENOENT \<or> err = EAGAIN" if "r = Inl err" for err
      using op_errors(5) [OF _ who] fi get_file_errors(2) [OF fi g] c that by (metis nth_mem)
    from False show ?thesis
      by (intro agrees_found [OF fi _ _ g, where r = "case r of Inl err \<Rightarrow> Failed err | Inr _ \<Rightarrow> Success"
            and ?sv1.0 = "case r of Inl _ \<Rightarrow> set_file i f sv | Inr n \<Rightarrow> uncount_section n (set_file i f sv)"])
        (use op c err in \<open>auto simp: agrees_simps owner_section_def remove_section_def uncount_section_def do_remove_file_def rn g
           simp del: owner_consts split: sum.splits\<close>)
  qed
qed

lemma create_and_open:
  assumes "file_inv f" and "\<not> existing f" and "0 \<le> own"
  obtains f1 f2 where "create_file_struct now f nm own = (Inr (), f1)" "open_file al f1 own = (Inr (), f2)"
proof -
  have "owner f = OWNER_NEXIST" using assms(2) by simp
  with empty_slot_size [OF assms(1) this] assms(3) show thesis
    by (intro that [of "f\<lparr>owner := own, fifo_creation_time := now, lru_clock := 1, lfu_frequency := 1,
          name := take FILE_NAME_MAX_SIZE (cstr nm)\<rparr>"])
      (auto simp: create_file_struct_def open_file_def is_open_file_def)
qed

lemma agrees_create:
  assumes st: "store_inv (files sv)" and a: "asks_for e m ci sv j" and op: "j_op j = OpCreate l"
  shows "agrees e j sv (handler_of (j_op j) e thread (j_conn j) m out ci sv)"
proof -
  have fi: "\<forall>f \<in> set (files sv). file_inv f" using st by (simp add: store_inv_def)
  obtain m' where rn: "read_file_name e m 256 = (Inr (j_name j), m')" "mtype m' = mtype m" by (rule asks_name [OF a]) (simp_all add: op)
  have who: "0 \<le> job_owner j" using a by (simp add: asks_for_def job_owner_def)
  have own: "job_owner j = (if HASFLAG (GETFLAGS (mtype m)) MESSAGE_OPEN_OLOCK then j_conn j else OWNER_NULL)"
    and cr: "HASFLAG (GETFLAGS (mtype m)) MESSAGE_OPEN_OCREATE"
    using a op by (simp_all add: asks_for_def job_owner_def wants_lock_def)
  have "j_op j \<noteq> OpLeave" "\<And>n. j_op j \<noteq> OpReadN n" using op by simp_all
  note first = ends_first [OF fi this, of e]
  note hs = agrees_simps do_open_file_def open_file_create_def rn op cr
  show ?thesis
  proof (cases "get_file (files sv) (j_name j)")
    case (Inr i)
    then show ?thesis
      by (intro agreesI [where r = "Failed EEXIST" and ?sv1.0 = sv]) (simp_all add: first hs)
  next
    case (Inl err)
    then have g: "get_file (files sv) (j_name j) = Inl ENOENT" using get_file_errors(1) [OF fi Inl] by simp
    have made: "ends e j (first_stage sv j) sv
        = ends e j (case get_empty_slot (files sv) of Inl err \<Rightarrow> Ended (Failed err) | Inr k \<Rightarrow> At_make k) sv"
      unfolding first g get_empty_slot_def using op ends_vacant_from [of 0 sv "files sv" e j]
      by (simp add: after_get_file_def)
    show ?thesis
    proof (cases "get_empty_slot (files sv)")
      case (Inl err)
      moreover have "err = EMFILE" using get_empty_slot_Inl [OF st Inl] by simp
      ultimately show ?thesis
        by (intro agreesI [where r = "Failed EMFILE" and ?sv1.0 = sv]) (simp_all add: made hs g)
    next
      case (Inr i)
      with get_empty_slot_Inr [OF st] have i: "i < length (files sv)" "\<not> existing (files sv ! i)" by blast+
      have "file_inv (files sv ! i)" using fi i(1) by simp
      from create_and_open [OF this i(2) who] obtain f1 f2
        where c: "create_file_struct (e_clock e (ticks sv)) (files sv ! i) (j_name j) (job_owner j) = (Inr (), f1)"
          and o: "open_file (e_alloc e) f1 (job_owner j) = (Inr (), f2)" by blast
      let ?sv1 = "set_file i f2 (snd (count_section i ((set_file i f1 sv)\<lparr>ticks := Suc (ticks sv)\<rparr>)))"
      show ?thesis
        by (rule agreesI [where r = Success and ?sv1.0 = ?sv1])
          (use Inr i c o c [unfolded own] o [unfolded own] in
            \<open>simp_all add: made hs g make_section_def count_section_def open_section_def\<close>)
    qed
  qed
qed

text \<open>Reading a file changes its counters of use and no storage.\<close>

lemma agrees_read:
  assumes e: "good_env e" and inv: "server_inv sv" and out: "fresh out" and a: "asks_for e m ci sv j" and op: "j_op j = OpRead"
    and g: "get_file (files sv) (j_name j) = Inr i"
  shows "agrees e j sv (handler_of (j_op j) e thread (j_conn j) m out ci sv)"
proof -
  have fi: "\<forall>f \<in> set (files sv). file_inv f" using server_inv_store [OF inv] by (simp add: store_inv_def)
  obtain m' where rn: "read_file_name e m 256 = (Inr (j_name j), m')" "mtype m' = mtype m" by (rule asks_name [OF a]) (simp_all add: op)
  have who: "0 < j_conn j" and al: "e_alloc e = mem_ok" using a e by (simp_all add: asks_for_def good_env_def)
  obtain out' sv' where ok: "do_read_file e thread (j_conn j) m out ci sv = (0, out', sv')"
    using do_read_file_replies [OF e inv _ out who] rn(1) unfolding names_def by blast
  obtain r f where c: "read_file mem_ok (files sv ! i) (j_conn j) (None, 0) = (r, f)"
    by (cases "read_file mem_ok (files sv ! i) (j_conn j) (None, 0)")
  have err: "err = ENOENT \<or> err = EAGAIN \<or> err = EPERM" if "r = Inl err" for err
    using c that who by (auto simp: read_file_def mem_ok Let_def split: if_splits)
  show ?thesis
    by (rule agrees_found [OF fi _ _ g, where r = "case r of Inl err \<Rightarrow> Failed err | Inr _ \<Rightarrow> Success" and ?sv1.0 = "set_file i f sv"])
      (use op c err al ok in \<open>auto simp: agrees_simps read_section_def do_read_file_def rn g
          split: sum.splits prod.splits if_splits dest!: push_mtype\<close>)
qed

lemma agrees_readn:
  assumes e: "good_env e" and inv: "server_inv sv" and out: "fresh out" and a: "asks_for e m ci sv j" and op: "j_op j = OpReadN k"
  shows "agrees e j sv (handler_of (j_op j) e thread (j_conn j) m out ci sv)"
proof -
  have who: "0 < j_conn j" and al: "e_alloc e = mem_ok" using a e by (simp_all add: asks_for_def good_env_def)
  obtain bs b where pop: "pop_buf (mdata m) 4 (Some (replicate 4 0)) = (Inr bs, b)" "k = sint (bytes_int bs)"
    using a op by (auto simp: asks_for_def)
  have k: "k < 2 ^ 31" using sint_lt [of "bytes_int bs"] pop(2) by simp
  obtain out' sv' where ok: "do_readn_files e thread (j_conn j) m out ci sv = (0, out', sv')" "shared sv' = shared (set_lastop ci [] sv)"
      "mtype out' = MESSAGE_RNFILE_ACK OR MESSAGE_OP_SUCC"
    using do_readn_files_serves [OF e inv out who pop(1)] by blast
  let ?sv = "set_lastop ci [] sv"
  let ?st = "\<lparr>rn_sv = ?sv, rn_out = out\<lparr>mtype := MESSAGE_RNFILE_ACK\<rparr>, rn_buf = (None, 0), rn_name = (None, 0), rn_count = 0, rn_total = 0\<rparr>"
  obtain q st' where loop: "readn_files_loop (length (files sv)) e thread (j_conn j) k 0 ?st = (q, st')"
    by (cases "readn_files_loop (length (files sv)) e thread (j_conn j) k 0 ?st")
  then have q: "q = Inr ()" and sv': "same_effects (rn_sv st') sv'"
    using ok(1) pop by (auto simp: do_readn_files_def Let_def same_effects_def split: sum.splits prod.splits)
  have L: "length (files sv) < 2 ^ 31" using inv by (simp add: server_inv_def counters_inv_def)
  have "same_effects sv (rn_sv ?st)" by (simp add: same_effects_def shared_set_lastop)
  from walk_loop [OF al op k L this refl, of "length (files sv)" 0 0 thread st'] loop q
  obtain s' where s': "ends e j (walk sv j 0 0) sv Success s'" "same_effects s' (rn_sv st')" by auto
  have E: "ends e j (first_stage sv j) sv Success s'" using s'(1) op by (simp add: first_stage_def)
  have same: "same_effects s' sv'" using s'(2) sv' by (simp add: same_effects_def)
  obtain cs where "shared sv' = (shared s')\<lparr>clients := cs\<rparr>" by (rule same_effects_shared [OF same])
  then have "cache_miss_execs (shared s') = cache_miss_execs (shared sv')" by simp
  also have "\<dots> = cache_miss_execs (shared sv)" using ok(2) by (simp add: shared_set_lastop)
  finally show ?thesis
    by (rule agreesI [OF E]) (use op ok same in \<open>simp add: handler_of_def ack_of_def\<close>)
qed

text \<open>Data: files may be evicted first, and the operation may then still be refused.\<close>

lemma agrees_store:
  assumes e: "good_env e" and inv: "server_inv sv" and out: "fresh out" and a: "asks_for e m ci sv j"
    and op: "j_op j \<in> {OpWrite, OpAppend}" and g: "get_file (files sv) (j_name j) = Inr i"
  shows "agrees e j sv (handler_of (j_op j) e thread (j_conn j) m out ci sv)"
proof -
  let ?d = "j_data j" and ?sv = "set_lastop ci [] sv" and ?h = "handler_of (j_op j) e thread (j_conn j) m out ci sv"
  have fi: "\<forall>f \<in> set (files sv). file_inv f" using server_inv_store [OF inv] by (simp add: store_inv_def)
  have al: "e_alloc e = mem_ok" using e by (simp add: good_env_def)
  have ops: "j_op j \<noteq> OpLeave" "\<And>n. j_op j \<noteq> OpReadN n" using op by auto
  obtain m' where rn: "read_file_name e m 256 = (Inr (j_name j), m')" "mtype m' = mtype m" by (rule asks_name [OF a ops])
  have who: "0 \<le> j_conn j" and brings: "brings_data m j" using a op by (auto simp: asks_for_def)
  then have ne: "?d \<noteq> []" and rq: "write_request m (cstr (j_name j)) ?d" by (simp_all add: brings_data_def)
  have small: "length ?d < 2 ^ 61" using rq by (simp add: write_request_def)
  then have n: "unat (wlen ?d) = length ?d" "wlen ?d \<noteq> 0" using ne by (simp_all add: unat_wlen wlen_nonzero)
  obtain rest where m': "db_inv (mdata m')" "db_stack (mdata m') = rest @ field ?d"
    using read_write_request [OF rq, of e] rn(1) by auto
  obtain m'' where gd: "get_data e thread (j_conn j) (j_name j) m' STRING_WRITE_FILE ?sv
      = (if unat (ro_max_storage (shared sv)) < length ?d
         then (Inr None, m'', do_log thread (j_conn j) (j_name j) STRING_WRITE_FILE ''Data is too big.'' 0 0 ?sv)
         else (Inr (Some (?d, wlen ?d)), m'', ?sv))"
    using get_data_ok [OF e m' small, of thread "j_conn j" "j_name j" STRING_WRITE_FILE ?sv] by (auto simp: shared_set_lastop)
  have W: "strncmp_eq FILE_NAME_MAX_SIZE (j_name j) (lastop_of ci sv)" if "j_op j = OpWrite" using a that by (simp add: asks_for_def)
  have big: "ro_max_storage (shared sv) < wlen ?d \<longleftrightarrow> unat (ro_max_storage (shared sv)) < length ?d"
    by (simp add: word_less_nat_alt n)
  note first = ends_first [OF fi ops, of e, unfolded g]
  show ?thesis
  proof (cases "unat (ro_max_storage (shared sv)) < length ?d")
    case True
    with gd have gd': "get_data e thread (j_conn j) (j_name j) m' STRING_WRITE_FILE ?sv
      = (Inr None, m'', do_log thread (j_conn j) (j_name j) STRING_WRITE_FILE ''Data is too big.'' 0 0 ?sv)" by simp
    show ?thesis
      by (rule agreesI [where r = Too_big and ?sv1.0 = sv])
        (use op True big gd' W rn g in \<open>auto simp: first agrees_simps do_write_file_def do_append_file_def\<close>)
  next
    case False
    with gd have gd': "get_data e thread (j_conn j) (j_name j) m' STRING_WRITE_FILE ?sv = (Inr (Some (?d, wlen ?d)), m'', ?sv)" by simp
    let ?out = "out\<lparr>mtype := ack_of (j_op j)\<rparr>"
    show ?thesis
    proof (cases "do_cache_miss e thread (j_name j) (wlen ?d) ?sv ?out")
      case None
      then have "?h = None" using op gd' W rn g by (auto simp: agrees_simps do_write_file_def do_append_file_def)
      then show ?thesis by (simp add: agrees_def)
    next
      case (Some x)
      obtain q out1 h1 where x: "x = (q, out1, h1)" by (cases x)
      have "same_effects sv ?sv" by (simp add: same_effects_def shared_set_lastop)
      moreover have "server_inv ?sv" "fresh ?out" using inv out by (simp_all add: fresh_def)
      ultimately obtain s1 where q: "q = Inr ()" and ty: "mtype out1 = ack_of (j_op j) OR miss_mark ?sv h1"
          and s1: "leads e j (At_measure i) sv (At_reserve i) s1" "same_effects s1 h1"
        using leads_cache_miss [where s = sv and i = i, OF e _ _ _ Some [unfolded x]] by auto
      obtain cs where sh: "shared h1 = (shared s1)\<lparr>clients := cs\<rparr>" by (rule same_effects_shared [OF s1(2)])
      have fs: "files h1 = files s1" "ticks h1 = ticks s1" using s1(2) by (simp_all add: same_effects_def)
      let ?op = "if j_op j = OpWrite then write_file mem_ok (files s1 ! i) (j_conn j) ?d (wlen ?d)
        else append_file mem_ok (files s1 ! i) (j_conn j) ?d (wlen ?d)"
      obtain r f where c: "?op = (r, f)" by (cases ?op)
      have err: "err = ENOENT \<or> err = EAGAIN \<or> err = EPERM \<or> j_op j = OpWrite \<and> err = EEXIST" if "r = Inl err" for err
        using store_errors [OF who n(2)] c that by (auto split: if_splits)
      let ?r = "case r of Inl err \<Rightarrow> Failed err | Inr _ \<Rightarrow> Success"
      let ?eff = "\<lambda>sv. case r of Inl _ \<Rightarrow> sub_storage (wlen ?d) (set_file i f (reserve_storage (wlen ?d) sv))
        | Inr _ \<Rightarrow> set_file i f (reserve_storage (wlen ?d) sv)"
      have "ends e j (At_reserve i) s1 ?r (?eff s1)" using op c al by (auto simp: store_section_def split: sum.splits)
      then have "ends e j (At_measure i) sv ?r (?eff s1)" by (rule ends_leads [OF s1(1)])
      then have E: "ends e j (first_stage sv j) sv ?r (?eff s1)" using op False big by (auto simp: first after_get_file_def)
      have same: "same_effects (?eff s1) (?eff h1)"
        using sh fs by (auto simp: same_effects_def reserve_storage_def shared_sub_storage Let_def split: sum.splits)
      have mark: "miss_mark sv (?eff s1) = miss_mark ?sv h1"
        using sh by (auto simp: miss_mark_def reserve_storage_def shared_sub_storage shared_set_lastop Let_def split: sum.splits)
      have "\<exists>s2. ?h = Some (0, or_flag out1 (outcome_flag (j_op j) ?r), s2) \<and> same_effects (?eff h1) s2"
      proof (cases "j_op j = OpWrite")
        case True
        with c fs have c': "write_file mem_ok (files h1 ! i) (j_conn j) ?d (wlen ?d) = (r, f)" by simp
        show ?thesis
          using True gd' W rn(1) g Some x q c' al err
          by (cases r) (auto simp: handler_of_def ack_of_def do_write_file_def same_effects_def)
      next
        case False
        with op have A: "j_op j = OpAppend" by simp
        with c fs have c': "append_file mem_ok (files h1 ! i) (j_conn j) ?d (wlen ?d) = (r, f)" by simp
        show ?thesis
          using A gd' rn(1) g Some x q c' al err
          by (cases r) (auto simp: handler_of_def ack_of_def do_append_file_def same_effects_def)
      qed
      then obtain s2 where s2: "?h = Some (0, or_flag out1 (outcome_flag (j_op j) ?r), s2)" "same_effects (?eff h1) s2" by blast
      have "same_effects (?eff s1) s2" using same s2(2) by (simp add: same_effects_def)
      then show ?thesis by (rule agrees_marked [OF E s2(1)]) (simp only: ty mark, simp add: or_flag_def ty)
    qed
  qed
qed

text \<open>A request whose sections run without interference is its handler.\<close>

lemma alone_is_handler:
  assumes e: "good_env e" and inv: "server_inv sv" and out: "fresh out" and a: "asks_for e m ci sv j" and op: "j_op j \<noteq> OpLeave"
  shows "agrees e j sv (handler_of (j_op j) e thread (j_conn j) m out ci sv)"
proof -
  have al: "e_alloc e = mem_ok" using e by (simp add: good_env_def)
  have st: "store_inv (files sv)" by (rule server_inv_store [OF inv])
  then have fi: "\<forall>f \<in> set (files sv). file_inv f" by (simp add: store_inv_def)
  consider (create) l where "j_op j = OpCreate l" | (readn) k where "j_op j = OpReadN k"
    | (named) "\<And>l. j_op j \<noteq> OpCreate l" "\<And>k. j_op j \<noteq> OpReadN k" by blast
  then show ?thesis
  proof cases
    case create
    with agrees_create [OF st a] show ?thesis by blast
  next
    case readn
    with agrees_readn [OF e inv out a] show ?thesis by blast
  next
    case named
    show ?thesis
    proof (cases "get_file (files sv) (j_name j)")
      case (Inl err)
      with agrees_missing [OF fi a named(1) op named(2)] get_file_errors(1) [OF fi Inl] show ?thesis by simp
    next
      case (Inr i)
      with named op agrees_open [OF al fi a] agrees_close [OF al fi a] agrees_lock [OF fi a] agrees_unlock [OF fi a]
        agrees_remove [OF fi a] agrees_read [OF e inv out a] agrees_store [OF e inv out a]
      show ?thesis by (cases "j_op j") auto
    qed
  qed
qed

text \<open>Only a write or append that cannot make room does not return.\<close>

lemma handler_returns:
  assumes e: "good_env e" and inv: "server_inv sv" and out: "fresh out" and a: "asks_for e m ci sv j"
    and none: "handler_of (j_op j) e thread (j_conn j) m out ci sv = None"
  shows "j_op j = OpLeave \<or> j_op j \<in> {OpWrite, OpAppend} \<and> \<not> can_evict e (cstr (j_name j)) (j_data j) sv"
proof -
  have False if op: "j_op j \<in> {OpWrite, OpAppend}" and c: "can_evict e (cstr (j_name j)) (j_data j) sv"
  proof -
    have "write_request m (cstr (j_name j)) (j_data j)" using a op by (auto simp: asks_for_def brings_data_def)
    note D = data_ready_request [OF e this capacity_small [OF c]]
    from op show False
      using none do_append_file_returns [OF e inv D out c] do_write_file_returns [OF e inv D out c]
      by (auto simp: handler_of_def simp del: not_None_eq)
  qed
  with none show ?thesis by (cases "j_op j") (auto simp: handler_of_def)
qed

text \<open>A client that leaves: the sections free its files as \<open>do_close_connection\<close> does, which then takes the
  client off the table.\<close>

lemma leaving_is_close_connection:
  assumes op: "j_op j = OpLeave" and run: "do_close_connection e thread wevs (j_conn j) out sv = (q, c, sent, sv2)"
  shows "\<exists>chs sv1. alone e chs j (first_stage sv j) sv = (Ended Success, sv1) \<and> files sv1 = files sv2 \<and> ticks sv1 = ticks sv2
     \<and> (shared sv2 = shared sv1 \<or> shared sv2 = snd (remove_client (shared sv1) (j_conn j)))"
proof -
  let ?sv1 = "close_owned (length (files sv)) e (j_conn j) 0 sv"
  have "ends e j (first_stage sv j) sv Success ?sv1" using leave_ends [of "length (files sv)" sv 0 e j] op by (simp add: first_stage_def)
  then obtain chs where "alone e chs j (first_stage sv j) sv = (Ended Success, ?sv1)" by (auto simp: ends_def leads_def)
  moreover have "files ?sv1 = files sv2 \<and> ticks ?sv1 = ticks sv2
      \<and> (shared sv2 = shared ?sv1 \<or> shared sv2 = snd (remove_client (shared ?sv1) (j_conn j)))"
    using run by (auto simp: do_close_connection_def Let_def split: sum.splits prod.splits)
  ultimately show ?thesis by blast
qed

end
