(* ===== verification/Shutdown.thy ===== *)
theory Shutdown
  imports Server_Start
begin

text \<open>
  The end of the server: what \<open>SIGINT\<close>, \<open>SIGQUIT\<close> and \<open>SIGHUP\<close> do to the system of \<open>Pool\<close>. A system
  that drains after \<open>SIGHUP\<close> is compared with the same system before the signal
  (\<open>with_acceptor\<close>), so that the invariant of \<open>Pool\<close> carries over to it.
\<close>

subsection \<open>The acceptor's entry of the poll array\<close>

lemma add_connection_update:
  "k \<le> m \<Longrightarrow> add_connection_to_poll k c (ps[m := x]) = (add_connection_to_poll k c ps)[m := x]"
proof (induction k c ps arbitrary: m rule: add_connection_to_poll.induct)
  case (3 k c p ps)
  then show ?case by (cases m) auto
qed simp_all

lemma add_connection_nth: "k \<le> m \<Longrightarrow> add_connection_to_poll k c ps ! m = ps ! m"
proof (induction k c ps arbitrary: m rule: add_connection_to_poll.induct)
  case (3 k c p ps)
  then show ?case by (cases m) auto
qed simp_all

lemma give_back_other:
  "maxc \<le> m \<Longrightarrow> c \<noteq> acc \<Longrightarrow> give_back maxc acc c nc (ps[m := x]) = (give_back maxc acc c nc ps)[m := x]"
  "maxc \<le> m \<Longrightarrow> c \<noteq> acc \<Longrightarrow> give_back maxc acc c nc ps ! m = ps ! m"
  "give_back maxc acc c nc ps ! Suc maxc = ps ! Suc maxc" "length (give_back maxc acc c nc ps) = length ps"
  by (simp_all add: give_back_def Let_def add_connection_update add_connection_nth)

lemma finish_all_other:
  assumes "maxc \<le> m"
  shows "finish_all maxc acc ts ps n = (ts', ps', n') \<Longrightarrow> \<forall>t \<in> set ts. do_work t = WORKER_DONE \<longrightarrow> in_conn t \<noteq> acc \<Longrightarrow>
    finish_all maxc acc ts (ps[m := x]) n = (ts', ps'[m := x], n') \<and> ps' ! m = ps ! m \<and> length ps' = length ps"
proof (induction ts arbitrary: ps n ts' ps' n')
  case (Cons t ts)
  let ?ps = "if do_work t = WORKER_DONE then give_back maxc acc (in_conn t) (add_conn t) ps else ps"
  let ?n = "if do_work t = WORKER_DONE then n - 1 else n"
  obtain us qs k where r: "finish_all maxc acc ts ?ps ?n = (us, qs, k)" by (cases "finish_all maxc acc ts ?ps ?n")
  have ts: "\<forall>t \<in> set ts. do_work t = WORKER_DONE \<longrightarrow> in_conn t \<noteq> acc" using Cons.prems(2) by simp
  have "in_conn t \<noteq> acc" if "do_work t = WORKER_DONE" using Cons.prems(2) that by simp
  note G = give_back_other(1,2) [OF assms this] give_back_other(4)
  show ?case using Cons.IH [OF r ts] r Cons.prems(1) G by (auto split: if_splits prod.splits)
qed simp

lemma finish_all_signal_entry:
  "finish_all maxc acc ts ps n = (ts', ps', n') \<Longrightarrow> ps' ! Suc maxc = ps ! Suc maxc"
proof (induction ts arbitrary: ps n ts' ps' n')
  case (Cons t ts)
  then show ?case by (auto simp: give_back_other split: if_splits prod.splits)
qed simp

text \<open>A worker that has finished with the acceptor gives it back.\<close>

lemma finish_all_acceptor:
  assumes "finish_all maxc acc ts ps n = (ts', ps', n')" and "maxc < length ps"
    and "ps ! maxc = acc \<or> (\<exists>t \<in> set ts. do_work t = WORKER_DONE \<and> in_conn t = acc)"
  shows "ps' ! maxc = acc"
  using assms
proof (induction ts arbitrary: ps n ts' ps' n')
  case (Cons t ts)
  let ?ps = "if do_work t = WORKER_DONE then give_back maxc acc (in_conn t) (add_conn t) ps else ps"
  let ?n = "if do_work t = WORKER_DONE then n - 1 else n"
  obtain us qs k where r: "finish_all maxc acc ts ?ps ?n = (us, qs, k)" by (cases "finish_all maxc acc ts ?ps ?n")
  have own: "give_back maxc acc acc nc ps ! maxc = acc" for nc
    using Cons.prems(2) add_connection_nth [of maxc maxc] by (simp add: give_back_def Let_def)
  have "?ps ! maxc = acc \<or> (\<exists>t \<in> set ts. do_work t = WORKER_DONE \<and> in_conn t = acc)"
    using Cons.prems(3) own give_back_other(2) [of maxc maxc "in_conn t" acc] by (cases "in_conn t = acc") auto
  moreover have "maxc < length ?ps" using Cons.prems(2) give_back_other(4) by simp
  ultimately have "qs ! maxc = acc" using Cons.IH [OF r] by blast
  then show ?case using r Cons.prems(1) by (auto split: if_splits prod.splits)
qed simp

lemma find_ready_other:
  "i + k \<le> m \<Longrightarrow> find_ready k rdy i ps = (c, ps') \<Longrightarrow>
   find_ready k rdy i (ps[m := x]) = (c, ps'[m := x]) \<and> ps' ! m = ps ! m \<and> length ps' = length ps"
proof (induction k rdy i ps arbitrary: ps' rule: find_ready.induct)
  case (2 k rdy i ps)
  then show ?case by (auto simp: list_update_swap split: if_splits)
qed simp

subsection \<open>Draining after SIGHUP\<close>

text \<open>The same system as if the acceptor were still polled and no signal had come.\<close>

definition reopened :: "nat \<Rightarrow> int \<Rightarrow> thread main_state \<Rightarrow> thread main_state" where
  "reopened maxc acc ms = ms\<lparr>poll_array := (poll_array ms)[maxc := acc], m_sighup := False\<rparr>"

definition with_acceptor :: "nat \<Rightarrow> system \<Rightarrow> system" where
  "with_acceptor maxc s = s\<lparr>main := reopened maxc (ro_acceptor_fd (shared (srv s))) (main s)\<rparr>"

definition draining :: "nat \<Rightarrow> int \<Rightarrow> system \<Rightarrow> bool" where
  "draining maxc sg s \<longleftrightarrow>
     m_sighup (main s) \<and> \<not> m_exit (main s) \<and> length (poll_array (main s)) = maxc + 2 \<and> poll_array (main s) ! maxc = -1
   \<and> poll_array (main s) ! Suc maxc = sg \<and> 0 \<le> sg \<and> sg \<noteq> ro_acceptor_fd (shared (srv s)) \<and> closed (main s) = {ro_acceptor_fd (shared (srv s))}
   \<and> pool_inv maxc (with_acceptor maxc s)"

lemma reopened_simps [simp]:
  "threads_data (reopened maxc acc ms) = threads_data ms" "working_threads (reopened maxc acc ms) = working_threads ms"
  "m_exit (reopened maxc acc ms) = m_exit ms" "\<not> m_sighup (reopened maxc acc ms)"
  "poll_array (reopened maxc acc ms) = (poll_array ms)[maxc := acc]" "closed (reopened maxc acc ms) = closed ms"
  "poll_call maxc rdy (reopened maxc acc ms) = poll_call maxc rdy ms"
  by (simp_all add: reopened_def poll_call_def fun_eq_iff)

lemma with_acceptor_simps [simp]:
  "srv (with_acceptor maxc s) = srv s" "main (with_acceptor maxc s) = reopened maxc (ro_acceptor_fd (shared (srv s))) (main s)"
  "with_acceptor maxc (set_thread i t s) = set_thread i t (with_acceptor maxc s)"
  by (simp_all add: with_acceptor_def set_thread_def reopened_def)

lemma set_thread_fields [simp]:
  "srv (set_thread i t s) = srv s" "poll_array (main (set_thread i t s)) = poll_array (main s)"
  "closed (main (set_thread i t s)) = closed (main s)" "m_sighup (main (set_thread i t s)) = m_sighup (main s)"
  "m_exit (main (set_thread i t s)) = m_exit (main s)"
  by (simp_all add: set_thread_def)

lemma with_acceptor_server:
  "ro_acceptor_fd (shared v) = ro_acceptor_fd (shared (srv s)) \<Longrightarrow> with_acceptor maxc (s\<lparr>srv := v\<rparr>) = (with_acceptor maxc s)\<lparr>srv := v\<rparr>"
  by (simp add: with_acceptor_def)

text \<open>No worker holds the acceptor while the system drains.\<close>

lemma draining_held:
  assumes "draining maxc sg s" and "t \<in> set (threads_data (main s))"
  shows "ro_acceptor_fd (shared (srv s)) \<notin># held t"
proof
  let ?acc = "ro_acceptor_fd (shared (srv s))" and ?ps = "(poll_array (main s))[maxc := ro_acceptor_fd (shared (srv s))]"
  assume h: "?acc \<in># held t"
  have P: "polled maxc ?ps + sum_list (map held (threads_data (main s))) = mset_set (insert ?acc (conns (shared (srv s))))"
    and pos: "0 < ?acc" and len: "length (poll_array (main s)) = maxc + 2"
    using assms(1) by (simp_all add: draining_def pool_inv_def places_def)
  have "?acc = ?ps ! maxc" using len by simp
  then have "?acc \<in> set (take (Suc maxc) ?ps)" using len by (metis in_set_conv_nth length_list_update length_take lessI min.absorb2 nth_take
        add_2_eq_Suc' le_SucI order_refl)
  then have "?acc \<in># polled maxc ?ps" using pos by (simp add: polled_def)
  moreover have "?acc \<in># sum_list (map held (threads_data (main s)))"
    using sum_list_part [of "held t"] assms(2) h by (metis image_eqI list.set_map mset_subset_eqD)
  ultimately have "2 \<le> count (mset_set (insert ?acc (conns (shared (srv s))))) ?acc"
    unfolding P [symmetric] by (metis add_mono count_greater_eq_one_iff count_union one_add_one)
  then show False by (simp add: count_mset_set' split: if_splits)
qed

lemma draining_done:
  assumes d: "draining maxc sg s" and t: "t \<in> set (threads_data (main s))" "do_work t = WORKER_DONE"
  shows "in_conn t \<noteq> ro_acceptor_fd (shared (srv s))"
proof
  assume c: "in_conn t = ro_acceptor_fd (shared (srv s))"
  have "thread_ok (ro_acceptor_fd (shared (srv s))) t" "0 < ro_acceptor_fd (shared (srv s))"
    using d t(1) by (auto simp: draining_def pool_inv_def)
  moreover from this have "pc t = Waiting" using t(2) by (auto simp: thread_ok_def split: pc.splits)
  ultimately have "ro_acceptor_fd (shared (srv s)) \<in># held t" using t(2) c by (simp add: held_def reported_def)
  with draining_held [OF d t(1)] show False by blast
qed

text \<open>A round of the draining system is the round of the other one, as the acceptor reports nothing.\<close>

lemma assign_reopened:
  "thread_assign_work c (reopened maxc acc ms) = (case thread_assign_work c ms of (r, ms') \<Rightarrow> (r, reopened maxc acc ms'))"
  by (simp add: thread_assign_work_def reopened_def split: option.split)

lemma assign_frame:
  "thread_assign_work c ms = (r, ms') \<Longrightarrow>
   poll_array ms' = poll_array ms \<and> m_sighup ms' = m_sighup ms \<and> closed ms' = closed ms \<and> m_exit ms' = m_exit ms"
  by (auto simp: thread_assign_work_def split: option.splits)

lemma finished_reopened:
  assumes d: "draining maxc sg s" and acc: "acc = ro_acceptor_fd (shared (srv s))"
    and run: "thread_has_finished maxc acc (main s) = (r, ms)"
  shows "thread_has_finished maxc acc (reopened maxc acc (main s)) = (r, reopened maxc acc ms)"
    and "poll_array ms ! maxc = -1" "poll_array ms ! Suc maxc = sg" "length (poll_array ms) = maxc + 2" "closed ms = closed (main s)"
    "m_sighup ms" "m_exit ms = m_exit (main s)"
proof -
  obtain ts ps n where f: "finish_all maxc acc (threads_data (main s)) (poll_array (main s)) (working_threads (main s)) = (ts, ps, n)"
    by (cases "finish_all maxc acc (threads_data (main s)) (poll_array (main s)) (working_threads (main s))")
  have "\<forall>t \<in> set (threads_data (main s)). do_work t = WORKER_DONE \<longrightarrow> in_conn t \<noteq> acc"
    using draining_done [OF d] acc by blast
  note F = finish_all_other [OF le_refl f this] finish_all_signal_entry [OF f]
  have ms: "r = 0" "ms = (main s)\<lparr>threads_data := ts, poll_array := ps, working_threads := n\<rparr>"
    using run f by (simp_all add: thread_has_finished_def)
  show "thread_has_finished maxc acc (reopened maxc acc (main s)) = (r, reopened maxc acc ms)"
    using F ms by (simp add: thread_has_finished_def reopened_def)
  show "poll_array ms ! maxc = -1" "poll_array ms ! Suc maxc = sg" "length (poll_array ms) = maxc + 2" "closed ms = closed (main s)"
    "m_sighup ms" "m_exit ms = m_exit (main s)"
    using F ms d by (simp_all add: draining_def)
qed

lemma connection_reopened:
  assumes d: "draining maxc sg s" and run: "after_poll_connection maxc rdy (main s) = (r, ms)"
  shows "after_poll_connection maxc rdy (reopened maxc acc (main s)) = (r, reopened maxc acc ms)"
    and "poll_array ms ! maxc = -1" "poll_array ms ! Suc maxc = sg" "length (poll_array ms) = maxc + 2" "closed ms = closed (main s)"
    "m_sighup ms" "m_exit ms = m_exit (main s)"
proof -
  obtain c ps where f: "find_ready maxc rdy 0 (poll_array (main s)) = (c, ps)"
    by (cases "find_ready maxc rdy 0 (poll_array (main s))")
  have F: "find_ready maxc rdy 0 ((poll_array (main s))[maxc := acc]) = (c, ps[maxc := acc])"
    "ps ! maxc = -1" "ps ! Suc maxc = sg" "length ps = maxc + 2"
    using find_ready_other [OF _ f, of maxc acc] find_ready_other [OF _ f, of "Suc maxc"] d by (simp_all add: draining_def)
  have re: "reopened maxc acc (main s)\<lparr>poll_array := ps[maxc := acc]\<rparr> = reopened maxc acc (main s\<lparr>poll_array := ps\<rparr>)"
    by (simp add: reopened_def)
  let ?m = "(main s)\<lparr>poll_array := ps\<rparr>"
  have eq: "after_poll_connection maxc rdy (main s) = (if c = -1 then (-1, ?m) else thread_assign_work c ?m)"
    using f by (simp add: after_poll_connection_def)
  have "after_poll_connection maxc rdy (reopened maxc acc (main s))
      = (if c = -1 then (-1, reopened maxc acc ?m) else thread_assign_work c (reopened maxc acc ?m))"
    using F(1) by (simp add: after_poll_connection_def re)
  then show "after_poll_connection maxc rdy (reopened maxc acc (main s)) = (r, reopened maxc acc ms)"
    using run unfolding eq by (cases "c = -1") (simp_all add: assign_reopened)
  have "poll_array ms = poll_array ?m \<and> m_sighup ms = m_sighup ?m \<and> closed ms = closed ?m \<and> m_exit ms = m_exit ?m"
    using run unfolding eq by (cases "c = -1") (simp, use assign_frame [of c ?m r ms] in simp)
  then have "poll_array ms = ps" "m_sighup ms" "closed ms = closed (main s)" "m_exit ms = m_exit (main s)"
    using d by (simp_all add: draining_def)
  then show "poll_array ms ! maxc = -1" "poll_array ms ! Suc maxc = sg" "length (poll_array ms) = maxc + 2"
    "closed ms = closed (main s)" "m_sighup ms" "m_exit ms = m_exit (main s)"
    using F by simp_all
qed

lemma draining_round:
  assumes d: "draining maxc sg s" and busy: "get_current_connections (shared (srv s)) \<noteq> 0"
    and rdy: "\<forall>i. rdy i \<longrightarrow> i < maxc + 2 \<and> poll_array (main s) ! i \<noteq> -1"
    and run: "server_round maxc (ro_acceptor_fd (shared (srv s))) SIGUSR1 rdy (shared (srv s)) (main s) = Some (r, ms)"
  shows "server_round maxc (ro_acceptor_fd (shared (srv s))) SIGUSR1 rdy (shared (srv s))
      (reopened maxc (ro_acceptor_fd (shared (srv s))) (main s)) = Some (r, reopened maxc (ro_acceptor_fd (shared (srv s))) ms)"
    and "poll_array ms ! maxc = -1" "poll_array ms ! Suc maxc = sg" "length (poll_array ms) = maxc + 2" "closed ms = closed (main s)"
    "m_sighup ms" "m_exit ms = m_exit (main s)"
proof -
  let ?acc = "ro_acceptor_fd (shared (srv s))"
  have quiet: "\<not> poll_call maxc rdy (main s) maxc" and mux: "\<not> state_mux (shared (srv s))"
    using rdy d by (auto simp: poll_call_def draining_def pool_inv_def)
  consider (finished) "poll_call maxc rdy (main s) (maxc + 1)" "thread_has_finished maxc ?acc (main s) = (r, ms)"
    | (conn) "\<not> poll_call maxc rdy (main s) (maxc + 1)" "after_poll_connection maxc (poll_call maxc rdy (main s)) (main s) = (r, ms)"
    using run quiet mux busy by (auto simp: server_round_def after_poll_signal_def Let_def split: if_splits)
  then have "server_round maxc ?acc SIGUSR1 rdy (shared (srv s)) (reopened maxc ?acc (main s)) = Some (r, reopened maxc ?acc ms)
    \<and> poll_array ms ! maxc = -1 \<and> poll_array ms ! Suc maxc = sg \<and> length (poll_array ms) = maxc + 2 \<and> closed ms = closed (main s)
    \<and> m_sighup ms \<and> m_exit ms = m_exit (main s)"
  proof cases
    case finished
    with finished_reopened [OF d refl finished(2)] mux show ?thesis
      by (simp add: server_round_def after_poll_signal_def Let_def)
  next
    case conn
    with connection_reopened [OF d conn(2)] mux quiet show ?thesis
      by (simp add: server_round_def Let_def)
  qed
  then show "server_round maxc ?acc SIGUSR1 rdy (shared (srv s)) (reopened maxc ?acc (main s)) = Some (r, reopened maxc ?acc ms)"
    "poll_array ms ! maxc = -1" "poll_array ms ! Suc maxc = sg" "length (poll_array ms) = maxc + 2" "closed ms = closed (main s)"
    "m_sighup ms" "m_exit ms = m_exit (main s)" by blast+
qed

text \<open>The last round: no client is left.\<close>

lemma last_round:
  assumes "draining maxc sg s" and "get_current_connections (shared (srv s)) = 0"
  shows "\<exists>ms. server_round maxc acc l rdy (shared (srv s)) (main s) = Some (0, ms) \<and> m_exit ms \<and> (\<forall>t \<in> set (threads_data ms). w_exit t)"
  using assms
  by (auto simp: draining_def pool_inv_def server_round_def sighup_handler_def close_fd_def stop_all_threads_def)

lemma draining_stays:
  assumes step: "sys_step maxc l s s'" and ok: "normal l" and d: "draining maxc sg s" and on: "\<not> m_exit (main s')"
  shows "draining maxc sg s' \<and> conns (shared (srv s')) \<subseteq> conns (shared (srv s))"
  using step
proof cases
  case (round rdy sg' ms)
  let ?acc = "ro_acceptor_fd (shared (srv s))" and ?g = "with_acceptor maxc s"
  have sg': "sg' = SIGUSR1" using ok round(1) by simp
  have busy: "get_current_connections (shared (srv s)) \<noteq> 0"
  proof
    assume "get_current_connections (shared (srv s)) = 0"
    with round(5) d have "sighup_handler maxc (main s) = (0, ms)" by (auto simp: server_round_def draining_def split: if_splits)
    then show False using on round(2) by (auto simp: sighup_handler_def split: if_splits prod.splits)
  qed
  note R = draining_round [OF d busy round(3) round(5) [unfolded sg']]
  have len: "length (poll_array (main s)) = maxc + 2" and inv: "pool_inv maxc ?g" using d by (simp_all add: draining_def)
  have "\<forall>i. rdy i \<longrightarrow> i < maxc + 2 \<and> poll_array (main ?g) ! i \<noteq> -1"
    using round(3) d len by (auto simp: draining_def nth_list_update)
  from round_kept [OF inv this, of "reopened maxc ?acc ms"] R(1) have "pool_inv maxc (?g\<lparr>main := reopened maxc ?acc ms\<rparr>)" by simp
  moreover have "?g\<lparr>main := reopened maxc ?acc ms\<rparr> = with_acceptor maxc (s\<lparr>main := ms\<rparr>)" by (simp add: with_acceptor_def)
  ultimately show ?thesis using R d on round(2) by (simp add: draining_def)
next
  case (wake i t)
  have "pool_inv maxc (set_thread i t (with_acceptor maxc s))"
    using wake_kept [of maxc "with_acceptor maxc s" i t] wake d by (simp add: draining_def)
  then show ?thesis using d on wake(2) by (simp add: draining_def del: with_acceptor_simps(1,2))
next
  case (report i t c nc)
  then have "pool_inv maxc (set_thread i (report c nc (threads_data (main s) ! i)) (with_acceptor maxc s))"
    using report_kept [of maxc "with_acceptor maxc s" i c nc] d by (simp add: draining_def)
  then show ?thesis using d on report(2,4) by (simp add: draining_def del: with_acceptor_simps(1,2))
next
  case (return i t c e io w)
  let ?acc = "ro_acceptor_fd (shared (srv s))"
  have ok': "s_ret w \<noteq> -1" using ok return(1) by simp
  have "pool_inv maxc ((set_thread i (call_returns (s_ret w) (s_conn w) (s_newconn w) (threads_data (main s) ! i))
      (with_acceptor maxc s))\<lparr>srv := s_server w\<rparr>)"
    using return_kept [of maxc "with_acceptor maxc s" i c e io "thread_id t" w] return d ok' by (simp add: draining_def)
  moreover have si: "service_inv (srv s)" using d by (simp add: draining_def pool_inv_def)
  then have "table_moves c w (srv s)" using worker_do_serves [OF return(6) _ return(7,8)] by blast
  then have fr: "ro_acceptor_fd (shared (s_server w)) = ?acc" by (simp add: table_moves_def)
  have "?acc \<notin># held t" by (rule draining_held [OF d]) (use return(3,4) in simp)
  then have "c \<noteq> ?acc" using return(5) by (simp add: held_def)
  with worker_do_success(3) [OF return(6) si return(7,8) ok'] have "conns (shared (s_server w)) \<subseteq> conns (shared (srv s))" by auto
  ultimately show ?thesis
    using d on return(2,4) fr by (simp add: draining_def with_acceptor_server del: with_acceptor_simps(1,2))
qed

lemma draining_run:
  "run (sys_step maxc) ls s s' \<Longrightarrow> \<forall>l \<in> set ls. normal l \<Longrightarrow> draining maxc sg s \<Longrightarrow> \<not> m_exit (main s') \<Longrightarrow>
   draining maxc sg s' \<and> conns (shared (srv s')) \<subseteq> conns (shared (srv s))"
proof (induction rule: run.induct)
  case (run_Cons l s s' ls s'')
  have "\<not> m_exit (main s')"
  proof
    have stays: "run (sys_step maxc) ls a b \<Longrightarrow> m_exit (main a) \<Longrightarrow> m_exit (main b)" for a b
      by (induction rule: run.induct) (auto elim!: sys_step.cases simp: set_thread_def)
    assume "m_exit (main s')"
    with stays run_Cons(2,6) show False by blast
  qed
  with draining_stays [OF run_Cons(1) _ run_Cons(5)] run_Cons(3,4,6) show ?case by auto
qed simp

text \<open>Only the connections are in the hands of the main thread and the workers.\<close>

lemma draining_places:
  assumes "draining maxc sg s"
  shows "places maxc s = mset_set (conns (shared (srv s)))"
proof -
  let ?acc = "ro_acceptor_fd (shared (srv s))" and ?ps = "poll_array (main s)"
  have P: "polled maxc (?ps[maxc := ?acc]) + sum_list (map held (threads_data (main s))) = mset_set (insert ?acc (conns (shared (srv s))))"
    and S: "0 < ?acc" "length ?ps = maxc + 2" "?ps ! maxc = -1" "service_inv (srv s)"
    using assms by (simp_all add: draining_def pool_inv_def places_def)
  have "polled maxc (?ps[maxc := ?acc]) = polled maxc ?ps + {#?acc#}"
    using polled_put [of maxc maxc ?ps ?acc] S by simp
  moreover have "?acc \<notin> conns (shared (srv s))" using S(4) by (auto simp: service_inv_def)
  ultimately show ?thesis using P by (simp add: places_def conns_def)
qed

lemma draining_round_succeeds:
  assumes d: "draining maxc sg s"
    and rdy: "\<forall>i. rdy i \<longrightarrow> i < maxc + 2 \<and> poll_array (main s) ! i \<noteq> -1"
    and some: "poll_call maxc rdy (main s) i"
  shows "\<exists>ms. server_round maxc (ro_acceptor_fd (shared (srv s))) SIGUSR1 rdy (shared (srv s)) (main s) = Some (0, ms)"
proof (cases "get_current_connections (shared (srv s)) = 0")
  case True
  with last_round [OF d] show ?thesis by blast
next
  case False
  let ?acc = "ro_acceptor_fd (shared (srv s))"
  have inv: "pool_inv maxc (with_acceptor maxc s)" and len: "length (poll_array (main s)) = maxc + 2"
    and mux: "\<not> state_mux (shared (srv s))" using d by (simp_all add: draining_def pool_inv_def)
  obtain r ms where r: "server_round maxc ?acc SIGUSR1 rdy (shared (srv s)) (main s) = Some (r, ms)"
    using mux False by (cases "server_round maxc ?acc SIGUSR1 rdy (shared (srv s)) (main s)")
      (auto simp: server_round_def after_poll_signal_def Let_def split: if_splits)
  have "\<forall>i. rdy i \<longrightarrow> i < maxc + 2 \<and> poll_array (main (with_acceptor maxc s)) ! i \<noteq> -1"
    using rdy d len by (auto simp: draining_def nth_list_update)
  from round_succeeds [OF inv this] some draining_round(1) [OF d False rdy r] have "r = 0" by simp
  with r show ?thesis by simp
qed

lemma hangup_round:
  assumes inv: "pool_inv maxc s" and acc: "poll_array (main s) ! maxc = ro_acceptor_fd (shared (srv s))"
    and cl: "closed (main s) = {}" and rdy: "rdy (maxc + 1)"
    and sg: "0 \<le> poll_array (main s) ! Suc maxc" "poll_array (main s) ! Suc maxc \<noteq> ro_acceptor_fd (shared (srv s))"
  shows "\<exists>ms. server_round maxc (ro_acceptor_fd (shared (srv s))) SIGHUP rdy (shared (srv s)) (main s) = Some (0, ms)
    \<and> draining maxc (poll_array (main s) ! Suc maxc) (s\<lparr>main := ms\<rparr>)"
proof -
  let ?acc = "ro_acceptor_fd (shared (srv s))"
  let ?ms = "(main s)\<lparr>closed := {?acc}, poll_array := (poll_array (main s))[maxc := -1], m_sighup := True\<rparr>"
  have P: "\<not> state_mux (shared (srv s))" "0 < ?acc" "\<not> m_sighup (main s)" "\<not> m_exit (main s)"
    "length (poll_array (main s)) = maxc + 2"
    using inv by (simp_all add: pool_inv_def poll_ok_def)
  have "server_round maxc ?acc SIGHUP rdy (shared (srv s)) (main s) = Some (0, ?ms)"
    using P cl rdy by (simp add: server_round_def after_poll_signal_def sighup_do_def close_fd_def poll_call_def Let_def)
  moreover have "pool_inv maxc (with_acceptor maxc (s\<lparr>main := ?ms\<rparr>))"
  proof -
    have "(poll_array (main s))[maxc := ?acc] = poll_array (main s)" using acc P(5) by (metis list_update_id)
    then show ?thesis using inv P(3) by (simp add: pool_inv_def places_def)
  qed
  ultimately show ?thesis using P sg by (auto simp: draining_def)
qed

subsection \<open>SIGHUP while a worker accepts\<close>

text \<open>The worker gives the closed acceptor back, and it is polled again. A closed descriptor makes \<open>poll\<close>
  return at once without input to read.\<close>

lemma hangup_accepting:
  assumes inv: "pool_inv maxc s" and cl: "closed (main s) = {}" and rdy: "rdy (maxc + 1)" "rdy' (maxc + 1)"
    and t: "t \<in> set (threads_data (main s))" "do_work t = WORKER_DONE" "in_conn t = ro_acceptor_fd (shared (srv s))"
    and some: "get_current_connections (shared (srv s)) \<noteq> 0"
  shows "\<exists>ms ms'. server_round maxc (ro_acceptor_fd (shared (srv s))) SIGHUP rdy (shared (srv s)) (main s) = Some (0, ms)
    \<and> server_round maxc (ro_acceptor_fd (shared (srv s))) SIGUSR1 rdy' (shared (srv s)) ms = Some (0, ms')
    \<and> poll_array ms' ! maxc = ro_acceptor_fd (shared (srv s)) \<and> ro_acceptor_fd (shared (srv s)) \<in> closed ms'
    \<and> fst (the (server_round maxc (ro_acceptor_fd (shared (srv s))) sg (\<lambda>_. False) (shared (srv s)) ms')) = -1"
proof -
  let ?acc = "ro_acceptor_fd (shared (srv s))" and ?ps = "(poll_array (main s))[maxc := -1]"
  let ?ms = "(main s)\<lparr>closed := {?acc}, poll_array := ?ps, m_sighup := True\<rparr>"
  have P: "\<not> state_mux (shared (srv s))" "0 < ?acc" "\<not> m_sighup (main s)" "length (poll_array (main s)) = maxc + 2"
    using inv by (simp_all add: pool_inv_def poll_ok_def)
  obtain ts ps n where f: "finish_all maxc ?acc (threads_data (main s)) ?ps (working_threads (main s)) = (ts, ps, n)"
    by (cases "finish_all maxc ?acc (threads_data (main s)) ?ps (working_threads (main s))")
  let ?ms' = "?ms\<lparr>threads_data := ts, poll_array := ps, working_threads := n\<rparr>"
  have "server_round maxc ?acc SIGHUP rdy (shared (srv s)) (main s) = Some (0, ?ms)"
    using P cl rdy by (simp add: server_round_def after_poll_signal_def sighup_do_def close_fd_def poll_call_def Let_def)
  moreover have "server_round maxc ?acc SIGUSR1 rdy' (shared (srv s)) ?ms = Some (0, ?ms')"
    using P some rdy f by (simp add: server_round_def after_poll_signal_def thread_has_finished_def poll_call_def Let_def)
  moreover have "ps ! maxc = ?acc" using finish_all_acceptor [OF f] P(4) t by auto
  moreover have none: "find_ready k (\<lambda>i. False) i qs = (-1, qs)" for k i qs by (induction k arbitrary: i) simp_all
  have "poll_call maxc (\<lambda>_. False) m = (\<lambda>_. False)" for m :: "thread main_state" by (simp add: poll_call_def fun_eq_iff)
  then have "fst (the (server_round maxc ?acc sg (\<lambda>_. False) (shared (srv s)) ?ms')) = -1"
    using P some none by (simp add: server_round_def after_poll_connection_def Let_def)
  ultimately show ?thesis by (intro exI conjI) auto
qed

subsection \<open>SIGINT and SIGQUIT\<close>

lemma close_all_closes:
  assumes "distinct (filter (\<lambda>c. c \<noteq> -1) (take k ps))" and "\<forall>c \<in> set (take k ps). c \<noteq> -1 \<longrightarrow> 0 < c \<and> c \<notin> closed ms"
  shows "close_all_client_connections k ps ms
    = (0, ms\<lparr>closed := closed ms \<union> {c \<in> set (take k ps). c \<noteq> -1}\<rparr>)"
  using assms
proof (induction k ps ms rule: close_all_client_connections.induct)
  case (3 k p ps ms)
  show ?case
  proof (cases "p = -1")
    case True
    then have "{c \<in> set (take (Suc k) (p # ps)). c \<noteq> -1} = {c \<in> set (take k ps). c \<noteq> -1}" by auto
    moreover have "close_all_client_connections k ps ms = (0, ms\<lparr>closed := closed ms \<union> {c \<in> set (take k ps). c \<noteq> -1}\<rparr>)"
      using 3(2) [of] 3(3,4) True by simp
    ultimately show ?thesis using True by (simp only: close_all_client_connections.simps) simp
  next
    case False
    with 3(4) have c: "close_fd p ms = (0, ms\<lparr>closed := insert p (closed ms)\<rparr>)" by (simp add: close_fd_def)
    have "distinct (filter (\<lambda>c. c \<noteq> -1) (take k ps))"
      and "\<forall>c \<in> set (take k ps). c \<noteq> -1 \<longrightarrow> 0 < c \<and> c \<notin> closed (ms\<lparr>closed := insert p (closed ms)\<rparr>)"
      using 3(3,4) False by auto
    from 3(1) [OF False c [symmetric] _ this] have "close_all_client_connections k ps (ms\<lparr>closed := insert p (closed ms)\<rparr>)
        = (0, ms\<lparr>closed := insert p (closed ms) \<union> {c \<in> set (take k ps). c \<noteq> -1}\<rparr>)" by simp
    moreover have "closed ms \<union> {c \<in> set (take (Suc k) (p # ps)). c \<noteq> -1} = insert p (closed ms) \<union> {c \<in> set (take k ps). c \<noteq> -1}"
      using False by auto
    ultimately show ?thesis using c False by (simp only: close_all_client_connections.simps) simp
  qed
qed simp_all

lemma interrupt_round:
  assumes inv: "pool_inv maxc s" and cl: "closed (main s) = {}" and rdy: "rdy (maxc + 1)" and l: "l = SIGINT \<or> l = SIGQUIT"
    and sg: "0 \<le> poll_array (main s) ! Suc maxc"
      "poll_array (main s) ! Suc maxc \<notin> insert (ro_acceptor_fd (shared (srv s))) (conns (shared (srv s)))"
  shows "\<exists>ms. server_round maxc (ro_acceptor_fd (shared (srv s))) l rdy (shared (srv s)) (main s) = Some (0, ms)
    \<and> m_exit ms \<and> (\<forall>t \<in> set (threads_data ms). w_exit t) \<and> map pc (threads_data ms) = map pc (threads_data (main s))
    \<and> closed ms = {poll_array (main s) ! Suc maxc, ro_acceptor_fd (shared (srv s))} \<union> {c \<in> set (take maxc (poll_array (main s))). 0 < c}"
proof -
  let ?acc = "ro_acceptor_fd (shared (srv s))" and ?ps = "poll_array (main s)" and ?C = "conns (shared (srv s))"
  have P: "\<not> state_mux (shared (srv s))" "0 < ?acc" "\<not> m_sighup (main s)" "length ?ps = maxc + 2" "service_inv (srv s)"
    "\<forall>i < maxc. ?ps ! i = -1 \<or> (0 < ?ps ! i \<and> ?ps ! i \<noteq> ?acc)"
    "polled maxc ?ps + sum_list (map held (threads_data (main s))) = mset_set (insert ?acc ?C)"
    using inv by (simp_all add: pool_inv_def poll_ok_def places_def)
  let ?qs = "take maxc ?ps"
  have pos: "\<forall>c \<in> set ?qs. c \<noteq> -1 \<longleftrightarrow> 0 < c" "\<forall>c \<in> set ?qs. c \<noteq> -1 \<longrightarrow> c \<noteq> ?acc"
    using P(4,6) by (fastforce simp: in_set_conv_nth)+
  have "take (Suc maxc) ?ps = ?qs @ [?ps ! maxc]" using P(4) by (simp add: take_Suc_conv_app_nth)
  then have "mset (filter (\<lambda>c. 0 < c) ?qs) \<subseteq># polled maxc ?ps" by (simp add: polled_def)
  also have "\<dots> \<subseteq># mset_set (insert ?acc ?C)" unfolding P(7) [symmetric] by simp
  finally have sub: "mset (filter (\<lambda>c. 0 < c) ?qs) \<subseteq># mset_set (insert ?acc ?C)" .
  have "count (mset_set (insert ?acc ?C)) c \<le> 1" for c by (simp add: count_mset_set')
  then have "count (mset (filter (\<lambda>c. 0 < c) ?qs)) c \<le> 1" for c
    using mset_subset_eq_count [OF sub, of c] order_trans by blast
  then have "distinct (filter (\<lambda>c. 0 < c) ?qs)" by (metis count_mset_0_iff distinct_count_atmost_1 le_Suc_eq le_zero_eq One_nat_def)
  moreover have "filter (\<lambda>c. c \<noteq> -1) ?qs = filter (\<lambda>c. 0 < c) ?qs" using pos(1) by (intro filter_cong) auto
  ultimately have dist: "distinct (filter (\<lambda>c. c \<noteq> -1) ?qs)" by simp
  have inC: "c \<in> ?C" if "c \<in> set ?qs" "c \<noteq> -1" for c
  proof -
    have "c \<in># mset (filter (\<lambda>c. 0 < c) ?qs)" using that pos(1) by simp
    from mset_subset_eqD [OF sub this] show ?thesis using pos(2) that by (auto simp: conns_def)
  qed
  let ?sg = "?ps ! Suc maxc"
  let ?ms = "stop_all_threads ((main s)\<lparr>closed := {?acc, ?sg}, poll_array := ?ps[maxc := -1]\<rparr>)"
  have "\<forall>c \<in> set (take maxc (?ps[maxc := -1])). c \<noteq> -1 \<longrightarrow> 0 < c \<and> c \<notin> closed ?ms"
    using pos inC sg(2) by (auto simp: stop_all_threads_def)
  note C = close_all_closes [OF _ this]
  have "server_round maxc ?acc l rdy (shared (srv s)) (main s) = Some (0, ?ms\<lparr>closed := {?acc, ?sg} \<union> {c \<in> set ?qs. c \<noteq> -1}, m_exit := True\<rparr>)"
    using l P(1-4) cl rdy sg C dist
    by (auto simp: server_round_def after_poll_signal_def poll_call_def close_fd_def Let_def stop_all_threads_def)
  moreover have "{c \<in> set ?qs. c \<noteq> -1} = {c \<in> set ?qs. 0 < c}" using pos(1) by auto
  ultimately show ?thesis by (auto simp: stop_all_threads_def)
qed

subsection \<open>The threads end\<close>

text \<open>How many steps a thread that has to end still makes.\<close>

definition steps_left :: "thread \<Rightarrow> nat" where
  "steps_left t = (case pc t of Calling _ \<Rightarrow> 3 | Finishing _ _ \<Rightarrow> 2 | Waiting \<Rightarrow> 1 | Gone \<Rightarrow> 0)"

definition ending :: "system \<Rightarrow> bool" where
  "ending s \<longleftrightarrow> m_exit (main s) \<and> (\<forall>t \<in> set (threads_data (main s)). w_exit t)"

lemma ending_step:
  assumes "sys_step maxc l s s'" and e: "ending s"
  shows "ending s' \<and> Suc (sum_list (map steps_left (threads_data (main s')))) \<le> sum_list (map steps_left (threads_data (main s)))
    \<and> length (threads_data (main s')) = length (threads_data (main s))"
proof -
  have put: "ending (s\<lparr>main := (main s)\<lparr>threads_data := (threads_data (main s))[i := t]\<rparr>\<rparr>)
      \<and> Suc (sum_list (map steps_left ((threads_data (main s))[i := t]))) \<le> sum_list (map steps_left (threads_data (main s)))"
    if i: "i < length (threads_data (main s))" and t: "w_exit t" "steps_left t < steps_left (threads_data (main s) ! i)" for i t
  proof -
    have "\<forall>t \<in> set ((threads_data (main s))[i := t]). w_exit t"
      using e t(1) set_update_subset_insert [of "threads_data (main s)" i t] by (auto simp: ending_def)
    with sum_list_put [OF i, of steps_left t] t(2) e show ?thesis by (auto simp: ending_def)
  qed
  have ex: "w_exit (threads_data (main s) ! i)" if "i < length (threads_data (main s))" for i
    using e that by (simp add: ending_def)
  from assms(1) show ?thesis
  proof cases
    case (round rdy sg ms)
    with e show ?thesis by (simp add: ending_def)
  next
    case (wake i t)
    then show ?thesis using put [of i t] ex [of i]
      by (auto simp: wake_def set_thread_def steps_left_def split: if_splits)
  next
    case (report i t c nc)
    then show ?thesis using put [of i "report c nc t"] ex [of i]
      by (simp add: set_thread_def report_def steps_left_def)
  next
    case (return i t c e' io w)
    let ?t = "call_returns (s_ret w) (s_conn w) (s_newconn w) (threads_data (main s) ! i)"
    have "w_exit ?t" using ex [OF return(3)] by (simp add: call_returns_def Let_def)
    moreover have "steps_left ?t < steps_left (threads_data (main s) ! i)"
      using return(4,5) by (simp add: call_returns_def steps_left_def Let_def)
    ultimately show ?thesis using put [OF return(3)] return(2,4) by (simp add: set_thread_def ending_def)
  qed
qed

lemma ending_run:
  assumes "run (sys_step maxc) ls s s'" and "ending s"
  shows "ending s' \<and> length ls + sum_list (map steps_left (threads_data (main s'))) \<le> 3 * length (threads_data (main s))"
proof -
  have "ending s' \<and> length ls + sum_list (map steps_left (threads_data (main s'))) \<le> sum_list (map steps_left (threads_data (main s)))"
    using assms
  proof (induction rule: run.induct)
    case (run_Cons l s s' ls s'')
    with ending_step [OF run_Cons(1,4)] show ?case by auto
  qed simp
  moreover have "sum_list (map steps_left ts) \<le> 3 * length ts" for ts
    by (induction ts) (auto simp: steps_left_def split: pc.split)
  ultimately show ?thesis by (meson order_trans)
qed

text \<open>Only a thread inside a call can be waited for.\<close>

lemma ending_progress:
  assumes "ending s" and i: "i < length (threads_data (main s))" and "pc (threads_data (main s) ! i) \<noteq> Gone"
    and "\<And>c. pc (threads_data (main s) ! i) \<noteq> Calling c"
  shows "\<exists>l s'. sys_step maxc l s s'"
proof (cases "pc (threads_data (main s) ! i)")
  case Waiting
  then have "wake (threads_data (main s) ! i) = Some ((threads_data (main s) ! i)\<lparr>pc := Gone\<rparr>)"
    using assms(1) i by (simp add: wake_def ending_def)
  from sys_step.wake [OF i this] show ?thesis by blast
next
  case (Finishing c nc)
  from sys_step.report [OF i refl this] show ?thesis by blast
qed (use assms(3,4) in auto)

subsection \<open>From the start to the end\<close>

text \<open>Rounds without a terminating signal leave the signal file and the closed descriptors alone.\<close>

lemma normal_frame:
  assumes step: "sys_step maxc l s s'" and ok: "normal l" and hup: "\<not> m_sighup (main s)"
  shows "closed (main s') = closed (main s) \<and> poll_array (main s') ! Suc maxc = poll_array (main s) ! Suc maxc
    \<and> length (threads_data (main s')) = length (threads_data (main s))"
  using step
proof cases
  case (round rdy sg ms)
  have assigned: "length (threads_data ms') = length (threads_data ms0)"
    if "thread_assign_work c ms0 = (r, ms')" for c r and ms0 ms' :: "thread main_state"
  proof -
    have "thread_assign c ts = Some ts' \<Longrightarrow> length ts' = length ts" for ts ts' :: "thread list"
      by (induction ts arbitrary: ts') (auto split: if_splits)
    with that show ?thesis by (auto simp: thread_assign_work_def split: option.splits)
  qed
  have finished: "finish_all maxc acc ts ps n = (ts', ps', n') \<Longrightarrow> length ts' = length ts"
    for acc ps n ps' n' and ts ts' :: "thread list"
    by (induction ts arbitrary: ps n ts' ps' n') (auto split: if_splits prod.splits)
  let ?acc = "ro_acceptor_fd (shared (srv s))" and ?rdy = "poll_call maxc rdy (main s)"
  consider (a) "thread_has_finished maxc ?acc (main s) = (0, ms)" | (b) "after_poll_acceptor maxc (main s) = (0, ms)"
    | (c) "after_poll_connection maxc ?rdy (main s) = (0, ms)"
    using round(1,5) ok hup by (auto simp: server_round_def after_poll_signal_def Let_def split: if_splits)
  then have "closed ms = closed (main s) \<and> poll_array ms ! Suc maxc = poll_array (main s) ! Suc maxc
      \<and> length (threads_data ms) = length (threads_data (main s))"
  proof cases
    case a
    then show ?thesis using finish_all_signal_entry finished by (fastforce simp: thread_has_finished_def split: prod.splits)
  next
    case b
    then have r: "thread_assign_work (poll_array (main s) ! maxc) ((main s)\<lparr>poll_array := (poll_array (main s))[maxc := -1]\<rparr>) = (0, ms)"
      by (simp add: after_poll_acceptor_def Let_def)
    from assign_frame [OF r] assigned [OF r] show ?thesis by simp
  next
    case c
    obtain k ps where f: "find_ready maxc ?rdy 0 (poll_array (main s)) = (k, ps)" by fastforce
    then have r: "thread_assign_work k ((main s)\<lparr>poll_array := ps\<rparr>) = (0, ms)"
      using c by (auto simp: after_poll_connection_def split: if_splits)
    from find_ready_other [OF _ f, of "Suc maxc"] assign_frame [OF r] assigned [OF r] show ?thesis by simp
  qed
  then show ?thesis using round(2) by simp
qed (simp_all add: set_thread_def)

lemma normal_run_frame:
  "run (sys_step maxc) ls s s' \<Longrightarrow> \<forall>l \<in> set ls. normal l \<Longrightarrow> pool_inv maxc s \<Longrightarrow>
   closed (main s') = closed (main s) \<and> poll_array (main s') ! Suc maxc = poll_array (main s) ! Suc maxc
   \<and> length (threads_data (main s')) = length (threads_data (main s))"
proof (induction rule: run.induct)
  case (run_Cons l s s' ls s'')
  have "pool_inv maxc s'" using step_kept run_Cons(1,4,5) by simp
  moreover have "\<not> m_sighup (main s)" using run_Cons(5) by (simp add: pool_inv_def)
  ultimately show ?case using run_Cons normal_frame [OF run_Cons(1)] by simp
qed simp

text \<open>After the loop: the threads have been waited for, the statistics go to the log, memory is
  released and the socket file removed. \<open>None\<close>: \<open>pthread_join\<close> or the mutex of the log blocks.\<close>

definition join_all_threads :: "thread list \<Rightarrow> int option" where
  "join_all_threads ts = (if \<forall>t \<in> set ts. pc t = Gone then Some 0 else None)"

definition destroy_shared_state :: "shared_state \<Rightarrow> shared_state" where
  "destroy_shared_state ss = ss\<lparr>clients := []\<rparr>"

definition server_end ::
    "(byte list \<Rightarrow> errno option) \<Rightarrow> tm \<Rightarrow> cfg_t \<Rightarrow> system \<Rightarrow> log_t \<times> disk \<Rightarrow> (shared_state \<times> file_t list \<times> log_t \<times> disk) option" where
  "server_end fopen now cfg s out =
     (case join_all_threads (threads_data (main s)) of
        None \<Rightarrow> None
      | Some _ \<Rightarrow>
          (case print_stats fopen now (shared (srv s)) out of
             None \<Rightarrow> None
           | Some (log, dk) \<Rightarrow>
               Some (destroy_shared_state (shared (srv s)), map destroy_file_struct (files (srv s)),
                     destroy_log_file_struct log, dk(cstr (socket_file cfg) := None))))"

lemma server_end_returns:
  assumes "join_all_threads (threads_data (main s)) \<noteq> None" and "\<not> mux (fst out)"
  obtains ss fs log dk where "server_end fopen now cfg s out = Some (ss, fs, log, dk)" "dk (cstr (socket_file cfg)) = None"
proof -
  have "print_stats fopen now (shared (srv s)) out \<noteq> None"
    using assms(2) by (cases out) (simp add: print_stats_def do_log_main_def print_line_to_log_file_def Let_def split: option.split)
  then obtain log dk where "print_stats fopen now (shared (srv s)) out = Some (log, dk)" by (metis old.prod.exhaust option.exhaust)
  with assms(1) show thesis
    by (intro that [of "destroy_shared_state (shared (srv s))" "map destroy_file_struct (files (srv s))" "destroy_log_file_struct log"
          "dk(cstr (socket_file cfg) := None)"]) (auto simp: server_end_def)
qed

end
