(* ===== verification/Concurrency.thy ===== *)
theory Concurrency
  imports Races Sections_End Sections_Alone Shutdown Programs
begin

text \<open>
  The properties of the workers interleaved at their critical sections, and of the end of the
  server. They rest on the interpretations \<open>accounting\<close> and \<open>guarded\<close> of \<open>Sections_Inv\<close>, the measure
  of \<open>Sections_End\<close>, the runs of \<open>Races\<close> and the lemmas of \<open>Sections_Alone\<close> and \<open>Shutdown\<close>.
\<close>

subsection \<open>What a run of sections keeps\<close>

lemma sections_frame:
  "run (interleave task_step) evs (ts, sv) (ts', sv') \<Longrightarrow>
   length ts' = length ts \<and> length (files sv') = length (files sv) \<and> ro_max_storage (shared sv') = ro_max_storage (shared sv)"
proof (induction evs "(ts, sv)" "(ts', sv')" arbitrary: ts sv rule: run.induct)
  case (run_Cons ev s evs)
  obtain ts1 sv1 where s: "s = (ts1, sv1)" by (cases s)
  from run_Cons(1) obtain i l t where i: "i < length ts" "task_step l (ts ! i) sv (t, sv1)" "ts1 = ts[i := t]"
    unfolding s by (auto elim: interleaveE)
  have "length (files sv1) = length (files sv) \<and> ro_max_storage (shared sv1) = ro_max_storage (shared sv)"
    using i(2) section_frame by (cases rule: task_stepE) auto
  with run_Cons(3) [OF s] i(3) show ?case by simp
qed simp

lemma spared_run:
  "run (interleave task_step) evs a b \<Longrightarrow> \<forall>ev \<in> set evs. spares k i (snd ev) \<Longrightarrow> run (interleave (spared_step k i)) evs a b"
proof (induction rule: run.induct)
  case (run_Cons ev s s' evs s'')
  from run_Cons(1) have "interleave (spared_step k i) ev s s'"
    using run_Cons(4) by (cases rule: interleave.cases) (auto intro!: interleave.one simp: spared_step_def)
  with run_Cons show ?case by (auto intro: run.run_Cons)
qed (rule run.run_Nil)

text \<open>Workers that have served nothing yet, over a sound server that is not too big for them.\<close>

definition fresh_workers :: "task list \<Rightarrow> server \<Rightarrow> bool" where
  "fresh_workers ts sv \<longleftrightarrow>
     server_inv sv \<and> resting ts \<and> ts \<noteq> [] \<and> (\<forall>t \<in> set ts. job_ok (t_job t)) \<and> length ts * capacity sv < 2 ^ 61"

lemma fresh_run_accounts:
  assumes "fresh_workers ts sv" and "run (interleave task_step) evs (ts, sv) (ts', sv')"
  shows "accounts (mset ts') sv'"
  using accounting.run_keeps [OF assms(2)] resting_accounts [of sv ts] assms(1) by (simp add: fresh_workers_def)

lemma race_fresh: "fresh_workers idle_workers race_server"
  using race_server_inv idle_workers_rest by (simp add: fresh_workers_def idle_workers_def race_server_def ex_shared_def)

lemma performed:
  assumes "\<exists>ts sv. scheduled ex_env evs s = Some (ts, sv) \<and> P ts sv"
  shows "\<exists>ts sv. run (interleave task_step) evs s (ts, sv) \<and> P ts sv"
  using assms scheduled_run [OF ex_env_good] by blast

section \<open>The properties\<close>

text \<open>C19. A request that is not disturbed is its handler. Run the critical sections of any request of the
  model one after the other: with some choices of the policy (those the code's policy makes) they
  end, and the handler of the other theories, which does everything in one step, leaves the same
  files, clock and counters and answers with the flag that belongs to the verdict, together with
  the flag of a cache miss exactly when the sections evicted something. This covers reads, reads of
  several files and the writes and appends that have to evict, are refused or bring too much. A
  handler that does not return is a write or append that cannot make room; a client that leaves
  is served by \<open>do_close_connection\<close>, which differs from the sections only in the client table.
  Premises on the message: it names a file, or the number of files; a write or append carries
  some data and a write comes directly after the creation.\<close>

theorem handler_is_its_sections:
  assumes "good_env e" and "server_inv sv" and "fresh out" and "asks_for e m ci sv j"
  shows "if j_op j = OpLeave
     then \<forall>wevs q c sent sv2. do_close_connection e thread wevs (j_conn j) out sv = (q, c, sent, sv2) \<longrightarrow>
       (\<exists>chs sv1. alone e chs j (first_stage sv j) sv = (Ended Success, sv1) \<and> files sv1 = files sv2 \<and> ticks sv1 = ticks sv2
          \<and> (shared sv2 = shared sv1 \<or> shared sv2 = snd (remove_client (shared sv1) (j_conn j))))
     else case handler_of (j_op j) e thread (j_conn j) m out ci sv of
         None \<Rightarrow> j_op j \<in> {OpWrite, OpAppend} \<and> \<not> can_evict e (cstr (j_name j)) (j_data j) sv
       | Some (q, out', sv2) \<Rightarrow> q = 0 \<and>
           (\<exists>chs r sv1. alone e chs j (first_stage sv j) sv = (Ended r, sv1) \<and> same_effects sv1 sv2
              \<and> mtype out' = (ack_of (j_op j) OR miss_mark sv sv1) OR outcome_flag (j_op j) r)"
proof (cases "j_op j = OpLeave")
  case True
  with leaving_is_close_connection [OF True] show ?thesis by simp
next
  case False
  with alone_is_handler [OF assms False, of thread] handler_returns [OF assms, of thread] show ?thesis
    by (auto simp: agrees_def ends_def leads_def split: option.splits)
qed

theorem handler_is_its_sections_witness:
  "\<exists>j out' sv2 chs r sv1. j_op j = OpAppend \<and> j_data j = [3, 4, 5] \<and> cstr (j_name j) = [97]
     \<and> handler_of OpAppend ex_env 0 5 (ex_msg 0 (field [3, 4, 5] @ field ([97] @ [0]))) create_message 0 (ex_server 1 5) = Some (0, out', sv2)
     \<and> alone ex_env chs j (first_stage (ex_server 1 5) j) (ex_server 1 5) = (Ended r, sv1) \<and> same_effects sv1 sv2"
proof -
  let ?m = "ex_msg 0 (field [3, 4, 5] @ field ([97] @ [0]))" and ?sv = "ex_server 1 5"
  have w: "write_request ?m [97] [3, 4, 5]" by (rule ex_write_request) simp_all
  obtain buf m' rest where b: "read_file_name ex_env ?m 256 = (Inr buf, m')" "cstr buf = [97]"
    by (rule read_write_request [OF w])
  let ?j = "job_for OpAppend 5 buf [3, 4, 5]"
  have a: "asks_for ex_env ?m 0 ?sv ?j" using b w by (simp add: asks_for_def brings_data_def job_for_def)
  have inv: "server_inv ?sv" by (rule ex_server_inv) simp_all
  have c: "can_evict ex_env [97] [3, 4, 5] ?sv" by (rule ex_can_evict) simp
  show ?thesis
    using handler_is_its_sections [OF ex_env_good inv fresh_create a, of 0] b(2) c
    by (intro exI [of _ ?j]) (auto simp: job_for_def split: option.splits, blast)
qed

text \<open>C12. The books under every interleaving of the sections of any number of workers: the bytes in use
  are those of the files plus what workers have reserved and not yet stored or released, the
  number of files is off by exactly the creations and removals under way, and every file stays
  well formed. Whenever all workers rest, both counters are exact.\<close>

theorem accounting_interleaved:
  assumes "fresh_workers ts sv" and "run (interleave task_step) evs (ts, sv) (ts', sv')"
  shows "unat (current_storage (shared sv')) = used (files sv') + sum_list (map owed ts')
     \<and> current_files (shared sv') = int (live (files sv')) + sum_list (map uncounted ts')
     \<and> (\<forall>f \<in> set (files sv'). file_inv f)
     \<and> (resting ts' \<longrightarrow> unat (current_storage (shared sv')) = used (files sv') \<and> current_files (shared sv') = int (live (files sv')))"
proof -
  note A = accounts_counters [OF fresh_run_accounts [OF assms]]
  have "sum_list (map owed ts') = 0 \<and> sum_list (map uncounted ts') = 0" if "resting ts'"
    using resting_owes [OF that] by (simp add: sum_mset_sum_list flip: mset_map)
  with A(1,2,4) show ?thesis by simp
qed

theorem accounting_interleaved_witness:
  "\<exists>ts sv. run (interleave task_step) stray_run (idle_workers, race_server) (ts, sv)
     \<and> name (files sv ! 0) = [121] \<and> unat (current_storage (shared sv)) = used (files sv) + sum_list (map owed ts)"
proof -
  from performed [OF stray_performs] obtain ts sv
    where r: "run (interleave task_step) stray_run (idle_workers, race_server) (ts, sv)" "name (files sv ! 0) = [121]" by blast
  with accounting_interleaved [OF race_fresh r(1)] show ?thesis by blast
qed

text \<open>C13. However the sections interleave, the stored bytes stay below the capacity times the number of
  workers: each worker can overrun the capacity by what it reserves after having seen room.\<close>

theorem capacity_interleaved:
  assumes "fresh_workers ts sv" and "run (interleave task_step) evs (ts, sv) (ts', sv')"
  shows "used (files sv') \<le> length ts * capacity sv \<and> unat (current_storage (shared sv')) \<le> length ts * capacity sv"
  using accounts_counters(1,3) [OF fresh_run_accounts [OF assms]] sections_frame [OF assms(2)] by simp

theorem capacity_interleaved_witness:
  "\<exists>ts sv. run (interleave task_step) overrun_run (idle_workers, race_server) (ts, sv) \<and> used (files sv) = 6 \<and> unat (current_storage (shared sv)) \<le> 2 * 5"
proof -
  from performed [OF overrun_performs] obtain ts sv
    where r: "run (interleave task_step) overrun_run (idle_workers, race_server) (ts, sv)" "used (files sv) = 6" by blast
  have "length idle_workers = 2" "capacity race_server = 5" by (simp_all add: idle_workers_def race_server_def ex_shared_def)
  with capacity_interleaved [OF race_fresh r(1)] have "unat (current_storage (shared sv)) \<le> 2 * 5" by simp
  with r show ?thesis by blast
qed

text \<open>C14. The capacity can indeed be overrun: \<open>do_cache_miss\<close> looks for room and gives up the mutex before
  the handler reserves the bytes, so two appends that fit one by one both succeed and the files
  hold more than the capacity, with all workers at rest.\<close>

theorem capacity_overrun:
  "\<exists>ts sv evs ts' sv'. fresh_workers ts sv \<and> run (interleave task_step) evs (ts, sv) (ts', sv')
     \<and> map t_stage ts' = [Ended Success, Ended Success] \<and> capacity sv' < used (files sv')"
proof -
  from performed [OF overrun_performs] obtain ts sv
    where "run (interleave task_step) overrun_run (idle_workers, race_server) (ts, sv)"
      "map t_stage ts = [Ended Success, Ended Success]" "used (files sv) = 6" "capacity sv = 5" by (elim exE conjE)
  with race_fresh show ?thesis by (intro exI conjI) auto
qed

text \<open>C15. A lock holds under every interleaving: while workers serve other connections and no eviction
  settles for the file, a file locked by connection \<open>k\<close> keeps its name, its owner and its bytes,
  whatever sections run in whatever order.\<close>

theorem lock_interleaved:
  assumes "i < length (files sv)" and "owner (files sv ! i) = k" and "0 < k" and "k \<noteq> OWNER_ADMIN"
    and "\<forall>t \<in> set ts. stranger k i t"
    and "run (interleave task_step) evs (ts, sv) (ts', sv')" and "\<forall>ev \<in> set evs. spares k i (snd ev)"
  shows "name (files sv' ! i) = name (files sv ! i) \<and> fabs (files sv' ! i) = fabs (files sv ! i)"
proof -
  have "guards k i (name (files sv ! i)) (fabs (files sv ! i)) (mset ts) sv"
    using assms(1-5) by (simp add: guards_def kept_slot_def del: owner_consts)
  from guarded.run_keeps [OF spared_run [OF assms(6,7)] this] show ?thesis
    by (simp add: guards_def kept_slot_def)
qed

definition lone_worker :: "task list" where
  "lone_worker = [\<lparr>t_job = job_for OpClose 6 [97] [], t_stage = Ended Success\<rparr>]"

theorem lock_interleaved_witness:
  "\<exists>ts sv. run (interleave task_step) ((0, Asks (job_for OpAppend 6 [97] [9])) # sections 6 0) (lone_worker, ex_server 0 10) (ts, sv)
     \<and> map t_stage ts = [Ended (Failed EAGAIN)]
     \<and> fabs (files sv ! 0) = \<lparr>a_owner = 5, a_open = True, a_content = [1, 2]\<rparr>"
proof -
  let ?evs = "(0, Asks (job_for OpAppend 6 [97] [9])) # sections 6 0"
  have "\<exists>ts sv. scheduled ex_env ?evs (lone_worker, ex_server 0 10) = Some (ts, sv) \<and> map t_stage ts = [Ended (Failed EAGAIN)]"
    by (simp add: scheduled_defs lone_worker_def ex_server_def ex_file_a_def ex_file_b_def sub_storage_def)
  from performed [OF this] obtain ts sv
    where r: "run (interleave task_step) ?evs (lone_worker, ex_server 0 10) (ts, sv)" "map t_stage ts = [Ended (Failed EAGAIN)]" by (elim exE conjE)
  have "\<forall>ev \<in> set ?evs. spares 5 0 (snd ev)" by (auto simp: spares_def sections_def job_for_def)
  moreover have "\<forall>t \<in> set lone_worker. stranger 5 0 t" by (simp add: lone_worker_def stranger_def job_ok_def job_for_def)
  moreover have "0 < length (files (ex_server 0 10))" "owner (files (ex_server 0 10) ! 0) = 5"
    "fabs (files (ex_server 0 10) ! 0) = \<lparr>a_owner = 5, a_open = True, a_content = [1, 2]\<rparr>"
    by (simp_all add: ex_server_def ex_file_a_def fabs_def is_open_file_def)
  ultimately have "fabs (files sv ! 0) = \<lparr>a_owner = 5, a_open = True, a_content = [1, 2]\<rparr>"
    using lock_interleaved [of 0 "ex_server 0 10" 5, OF _ _ _ _ _ r(1)] by simp
  with r show ?thesis by (intro exI conjI)
qed

text \<open>C16. Two clients can create the same file: the search for the name and the creation are separate
  sections, so both requests succeed and two slots hold a file of that name, with different
  owners; the lookup finds only the first.\<close>

theorem twin_files:
  "\<exists>ts sv evs ts' sv'. fresh_workers ts sv \<and> run (interleave task_step) evs (ts, sv) (ts', sv')
     \<and> map t_stage ts' = [Ended Success, Ended Success] \<and> map (\<lambda>t. j_op (t_job t)) ts' = [OpCreate True, OpCreate True]
     \<and> unique_names (files sv) \<and> \<not> unique_names (files sv')"
proof -
  have "\<exists>ts sv. scheduled ex_env twins_run (idle_workers, race_server) = Some (ts, sv)
     \<and> map t_stage ts = [Ended Success, Ended Success] \<and> map (\<lambda>t. j_op (t_job t)) ts = [OpCreate True, OpCreate True]
     \<and> map name (files sv) = [[120], [121], [121]] \<and> map owner (files sv) = [0, 5, 6]"
    by (simp add: scheduled_defs)
  from performed [OF this] obtain ts sv
    where r: "run (interleave task_step) twins_run (idle_workers, race_server) (ts, sv)" "map t_stage ts = [Ended Success, Ended Success]"
      "map (\<lambda>t. j_op (t_job t)) ts = [OpCreate True, OpCreate True]"
    and m: "map name (files sv) = [[120], [121], [121]]" "map owner (files sv) = [0, 5, 6]" by (elim exE conjE)
  have len: "length (files sv) = 3" using m(1) by (metis length_map length_Cons list.size(3) numeral_3_eq_3)
  have "name (files sv ! 1) = [121]" "name (files sv ! 2) = [121]" "owner (files sv ! 1) = 5" "owner (files sv ! 2) = 6"
    using arg_cong [OF m(1), of "\<lambda>xs. xs ! 1"] arg_cong [OF m(1), of "\<lambda>xs. xs ! 2"]
      arg_cong [OF m(2), of "\<lambda>xs. xs ! 1"] arg_cong [OF m(2), of "\<lambda>xs. xs ! 2"] len by simp_all
  then have "existing (files sv ! 1) \<and> existing (files sv ! 2) \<and> name (files sv ! 1) = name (files sv ! 2)" by simp
  moreover have "1 < length (files sv)" "2 < length (files sv)" "(1 :: nat) \<noteq> 2" using len by simp_all
  ultimately have "\<not> unique_names (files sv)" unfolding unique_names_def by blast
  moreover have "unique_names (files race_server)" using race_server_inv by (simp add: server_inv_def store_inv_def)
  ultimately show ?thesis using race_fresh r by (intro exI conjI) auto
qed

text \<open>C17. An append can reach a file it was not asked for: the handler keeps the slot that \<open>get_file\<close> found
  and does not look at the name again. While the append to \<open>x\<close> stands between the two, another
  client locks and removes \<open>x\<close> and creates \<open>y\<close>, which takes the slot; the append then succeeds, \<open>y\<close>
  holds its bytes, and no file \<open>x\<close> exists.\<close>

theorem stray_append:
  "\<exists>ts sv evs ts' sv'. fresh_workers ts sv \<and> run (interleave task_step) evs (ts, sv) (ts', sv')
     \<and> t_job (ts' ! 0) = job_for OpAppend 5 [120] [9] \<and> t_stage (ts' ! 0) = Ended Success
     \<and> existing (files sv' ! 0) \<and> name (files sv' ! 0) = [121] \<and> a_content (fabs (files sv' ! 0)) = [9]
     \<and> map name (filter (\<lambda>f. existing f) (files sv')) = [[121]]"
proof -
  have "\<exists>ts sv. scheduled ex_env stray_run (idle_workers, race_server) = Some (ts, sv)
     \<and> t_job (ts ! 0) = job_for OpAppend 5 [120] [9] \<and> t_stage (ts ! 0) = Ended Success
     \<and> existing (files sv ! 0) \<and> name (files sv ! 0) = [121] \<and> a_content (fabs (files sv ! 0)) = [9]
     \<and> map name (filter (\<lambda>f. existing f) (files sv)) = [[121]]"
    by (simp add: scheduled_defs fabs_def)
  from performed [OF this] obtain ts sv where "run (interleave task_step) stray_run (idle_workers, race_server) (ts, sv)"
    "t_job (ts ! 0) = job_for OpAppend 5 [120] [9]" "t_stage (ts ! 0) = Ended Success" "existing (files sv ! 0)"
    "name (files sv ! 0) = [121]" "a_content (fabs (files sv ! 0)) = [9]" "map name (filter (\<lambda>f. existing f) (files sv)) = [[121]]"
    by (elim exE conjE)
  with race_fresh show ?thesis by (intro exI conjI)
qed

text \<open>C18. No request without data waits for another worker: whatever the other workers do, it ends
  after at most six sections of its own for each slot, plus six.\<close>

theorem request_ends_interleaved:
  assumes "fresh_workers ts sv" and "run (interleave task_step) evs (ts, sv) (ts1, sv1)"
    and "i < length ts1" and "\<not> storing (t_job (ts1 ! i))"
    and "run (interleave task_step) evs' (ts1, sv1) (ts2, sv2)" and "\<forall>j. (i, Asks j) \<notin> set evs'"
    and "6 * length (files sv) + 6 \<le> own_sections i evs'"
  shows "\<exists>r. t_stage (ts2 ! i) = Ended r"
  by (rule request_ends [OF assms(5) fresh_run_accounts [OF assms(1,2)] assms(3,4)])
    (use assms(6,7) sections_frame [OF assms(2)] in simp_all)

theorem request_ends_interleaved_witness:
  "\<exists>ts1 sv1 ts2 sv2 r. run (interleave task_step) [(0, Asks (job_for OpLock 5 [120] []))] (idle_workers, race_server) (ts1, sv1)
     \<and> t_job (ts1 ! 0) = job_for OpLock 5 [120] [] \<and> run (interleave task_step) (sections 24 0) (ts1, sv1) (ts2, sv2)
     \<and> t_stage (ts2 ! 0) = Ended r"
proof -
  let ?evs = "[(0, Asks (job_for OpLock 5 [120] []))]"
  have "\<exists>ts1 sv1. scheduled ex_env ?evs (idle_workers, race_server) = Some (ts1, sv1)
      \<and> 0 < length ts1 \<and> t_job (ts1 ! 0) = job_for OpLock 5 [120] [] \<and> (\<exists>ts2 sv2. scheduled ex_env (sections 24 0) (ts1, sv1) = Some (ts2, sv2))"
    by (simp add: scheduled_defs)
  from performed [OF this] obtain ts1 sv1 ts2 sv2
    where r: "run (interleave task_step) ?evs (idle_workers, race_server) (ts1, sv1)" "0 < length ts1" "t_job (ts1 ! 0) = job_for OpLock 5 [120] []"
      and p: "scheduled ex_env (sections 24 0) (ts1, sv1) = Some (ts2, sv2)" by (elim exE conjE)
  note r2 = scheduled_run [OF ex_env_good p]
  have "\<not> storing (t_job (ts1 ! 0))" "6 * length (files race_server) + 6 \<le> own_sections 0 (sections 24 0)"
    by (simp_all add: r(3) storing_def job_for_def race_server_def own_sections_def sections_def)
  moreover have "\<forall>j. (0, Asks j) \<notin> set (sections 24 0)" by (simp add: sections_def)
  ultimately obtain q where "t_stage (ts2 ! 0) = Ended q"
    using request_ends_interleaved [OF race_fresh r(1,2) _ r2] by blast
  with r(1,3) r2 show ?thesis by blast
qed

text \<open>C20. After \<open>SIGHUP\<close> the server drains, if the acceptor is among the polled descriptors at that moment
  and until the end of the run no call of a worker fails and no further signal that ends the server
  arrives (\<open>normal\<close>): from then on every connection is still polled or with one worker, none is
  added, every round succeeds, and once no client is left the next round tells all threads to end
  and leaves the loop. (What a failing call does is \<open>failed_call_duplicates\<close>.)\<close>

theorem hangup_drains:
  assumes "pool_inv maxc s" and "poll_array (main s) ! maxc = ro_acceptor_fd (shared (srv s))" and "closed (main s) = {}"
    and "poll_array (main s) ! Suc maxc = sg" and "0 \<le> sg" and "sg \<noteq> ro_acceptor_fd (shared (srv s))" and "rdy (maxc + 1)"
    and "server_round maxc (ro_acceptor_fd (shared (srv s))) SIGHUP rdy (shared (srv s)) (main s) = Some (r, ms)"
    and "run (sys_step maxc) ls (s\<lparr>main := ms\<rparr>) s'" and "\<forall>l \<in> set ls. normal l" and "\<not> m_exit (main s')"
  shows "r = 0 \<and> places maxc s' = mset_set (conns (shared (srv s'))) \<and> conns (shared (srv s')) \<subseteq> conns (shared (srv s))
     \<and> (\<forall>rdy' i. (\<forall>k. rdy' k \<longrightarrow> k < maxc + 2 \<and> poll_array (main s') ! k \<noteq> -1) \<and> poll_call maxc rdy' (main s') i \<longrightarrow>
          (\<exists>ms'. server_round maxc (ro_acceptor_fd (shared (srv s'))) SIGUSR1 rdy' (shared (srv s')) (main s') = Some (0, ms')))
     \<and> (get_current_connections (shared (srv s')) = 0 \<longrightarrow>
          (\<exists>ms'. server_round maxc (ro_acceptor_fd (shared (srv s'))) SIGUSR1 rdy (shared (srv s')) (main s') = Some (0, ms')
             \<and> m_exit ms' \<and> (\<forall>t \<in> set (threads_data ms'). w_exit t)))"
proof -
  from hangup_round [OF assms(1-3), of rdy] assms(4-8) have r: "r = 0" and d: "draining maxc sg (s\<lparr>main := ms\<rparr>)" by auto
  from draining_run [OF assms(9,10) d assms(11)] have d': "draining maxc sg s'"
    and c: "conns (shared (srv s')) \<subseteq> conns (shared (srv s))" by simp_all
  show ?thesis
  proof (intro conjI allI impI)
    fix rdy' i
    assume "(\<forall>k. rdy' k \<longrightarrow> k < maxc + 2 \<and> poll_array (main s') ! k \<noteq> -1) \<and> poll_call maxc rdy' (main s') i"
    then show "\<exists>ms'. server_round maxc (ro_acceptor_fd (shared (srv s'))) SIGUSR1 rdy' (shared (srv s')) (main s') = Some (0, ms')"
      using draining_round_succeeds [OF d', of rdy' i] by blast
  qed (use r draining_places [OF d'] c last_round [OF d'] in blast)+
qed

theorem hangup_drains_witness:
  "\<exists>ms. server_round 2 3 SIGHUP (\<lambda>i. i = 3) (shared (ex_server 0 10))
       (main (ex_sys (ex_thread 0 (-1) Waiting 0 0) (ex_thread 0 (-1) Waiting 0 1) [5, -1, 3, 4] 0)) = Some (0, ms)
     \<and> places 2 \<lparr>main = ms, srv = ex_server 0 10\<rparr> = {#5#}"
proof -
  let ?s = "ex_sys (ex_thread 0 (-1) Waiting 0 0) (ex_thread 0 (-1) Waiting 0 1) [5, -1, 3, 4] 0"
  have f: "srv ?s = ex_server 0 10" "ro_acceptor_fd (shared (ex_server 0 10)) = 3" "conns (shared (ex_server 0 10)) = {5}"
    "poll_array (main ?s) = [5, -1, 3, 4]" "closed (main ?s) = {}" "\<not> m_exit (main ?s)" "\<not> m_sighup (main ?s)"
    "\<not> state_mux (shared (ex_server 0 10))"
    by (simp_all add: ex_sys_def ex_conns)
  let ?ms = "(main ?s)\<lparr>closed := {3}, poll_array := [5, -1, -1, 4], m_sighup := True\<rparr>"
  let ?fin = "\<lparr>main = ?ms, srv = ex_server 0 10\<rparr>"
  have ms: "server_round 2 3 SIGHUP (\<lambda>i. i = 3) (shared (ex_server 0 10)) (main ?s) = Some (0, ?ms)"
    using f by (simp add: server_round_def after_poll_signal_def sighup_do_def close_fd_def poll_call_def Let_def numeral_2_eq_2)
  have "?s\<lparr>main := ?ms\<rparr> = ?fin" by (simp add: ex_sys_def)
  then have r: "run (sys_step 2) [] (?s\<lparr>main := ?ms\<rparr>) ?fin" by (simp only: run_Nil_iff)
  have "places 2 ?fin = mset_set (conns (shared (srv ?fin)))"
    by (rule hangup_drains [of 2 ?s 4 "\<lambda>i. i = 3" 0 ?ms "[]", OF ex_pool_inv _ _ _ _ _ _ _ r, THEN conjunct2, THEN conjunct1])
      (use ms f in \<open>simp_all add: numeral_2_eq_2\<close>)
  then have "places 2 ?fin = {#5#}" using f(3) by simp
  with ms show ?thesis by blast
qed

text \<open>C21. If a worker has the acceptor when \<open>SIGHUP\<close> arrives and clients are connected, the server does not
  drain: the worker gives the closed descriptor back, it is polled again, and the first time
  \<open>poll\<close> returns because of it, with nothing to read, the round fails and the program exits in the
  middle of the sessions.\<close>

theorem hangup_cuts_sessions:
  assumes "pool_inv maxc s" and "closed (main s) = {}" and "rdy (maxc + 1)" and "rdy' (maxc + 1)"
    and "t \<in> set (threads_data (main s))" and "do_work t = WORKER_DONE" and "in_conn t = ro_acceptor_fd (shared (srv s))"
    and "get_current_connections (shared (srv s)) \<noteq> 0"
  shows "\<exists>ms ms'. server_round maxc (ro_acceptor_fd (shared (srv s))) SIGHUP rdy (shared (srv s)) (main s) = Some (0, ms)
     \<and> server_round maxc (ro_acceptor_fd (shared (srv s))) SIGUSR1 rdy' (shared (srv s)) ms = Some (0, ms')
     \<and> poll_array ms' ! maxc = ro_acceptor_fd (shared (srv s)) \<and> ro_acceptor_fd (shared (srv s)) \<in> closed ms'
     \<and> fst (the (server_round maxc (ro_acceptor_fd (shared (srv s))) sg (\<lambda>_. False) (shared (srv s)) ms')) = -1"
  by (rule hangup_accepting [of maxc s rdy rdy' t sg, OF assms])

lemma accepting_inv: "pool_inv 2 (ex_sys (ex_thread 2 3 Waiting 1 0) (ex_thread 0 (-1) Waiting 0 1) [5, -1, -1, 4] 1)"
proof -
  have "poll_ok 2 3 [5, -1, -1, 4]" by (auto simp: poll_ok_def nth_Cons' numeral_2_eq_2 less_Suc_eq)
  moreover have "mset_set {3, 5 :: int} = {#5, 3#}" by simp
  moreover have "ro_max_conns (shared (ex_server 0 10)) = 2" by (simp add: ex_server_def ex_shared_def)
  ultimately show ?thesis
    using ex_service_inv(1) [of 10 0]
    by (simp add: pool_inv_def ex_sys_def ex_thread_def ex_conns places_def polled_def held_def thread_ok_def report_ok_def reported_def)
qed

theorem hangup_cuts_sessions_witness:
  "\<exists>ms ms'. server_round 2 3 SIGHUP (\<lambda>i. i = 3) (shared (ex_server 0 10))
       (main (ex_sys (ex_thread 2 3 Waiting 1 0) (ex_thread 0 (-1) Waiting 0 1) [5, -1, -1, 4] 1)) = Some (0, ms)
     \<and> server_round 2 3 SIGUSR1 (\<lambda>i. i = 3) (shared (ex_server 0 10)) ms = Some (0, ms')
     \<and> fst (the (server_round 2 3 SIGUSR1 (\<lambda>_. False) (shared (ex_server 0 10)) ms')) = -1"
proof -
  let ?t = "ex_thread 2 3 Waiting 1 0" and ?u = "ex_thread 0 (-1) Waiting 0 1"
  let ?s = "ex_sys ?t ?u [5, -1, -1, 4] 1"
  have f: "srv ?s = ex_server 0 10" "ro_acceptor_fd (shared (ex_server 0 10)) = 3" "threads_data (main ?s) = [?t, ?u]"
    "closed (main ?s) = {}" "get_current_connections (shared (ex_server 0 10)) = 1"
    by (simp_all add: ex_sys_def ex_conns get_current_connections_def ex_server_def ex_shared_def)
  have t: "do_work ?t = WORKER_DONE" "in_conn ?t = 3" by (simp_all add: ex_thread_def)
  show ?thesis
    using hangup_cuts_sessions [OF accepting_inv, of "\<lambda>i. i = 3" "\<lambda>i. i = 3" ?t SIGUSR1] f t by auto
qed

text \<open>C22. \<open>SIGINT\<close> or \<open>SIGQUIT\<close>, at any moment of a run without failing calls: the round succeeds, closes
  the signal file, the acceptor and exactly the polled connections, each once, tells every thread
  to end and leaves the loop.\<close>

theorem interrupt_closes:
  assumes "pool_inv maxc s0" and "closed (main s0) = {}" and "poll_array (main s0) ! Suc maxc = sg" and "0 \<le> sg"
    and "run (sys_step maxc) ls s0 s" and "\<forall>l \<in> set ls. normal l"
    and "sg \<notin> insert (ro_acceptor_fd (shared (srv s))) (conns (shared (srv s)))"
    and "rdy (maxc + 1)" and "l = SIGINT \<or> l = SIGQUIT"
  shows "\<exists>ms. server_round maxc (ro_acceptor_fd (shared (srv s))) l rdy (shared (srv s)) (main s) = Some (0, ms)
     \<and> m_exit ms \<and> (\<forall>t \<in> set (threads_data ms). w_exit t) \<and> map pc (threads_data ms) = map pc (threads_data (main s))
     \<and> closed ms = {sg, ro_acceptor_fd (shared (srv s))} \<union> {c \<in> set (take maxc (poll_array (main s))). 0 < c}"
  using interrupt_round [of maxc s rdy l, OF run_kept [OF assms(5,6,1)] _ assms(8,9)] normal_run_frame [OF assms(5,6,1)] assms(2,3,4,7) by simp

theorem interrupt_closes_witness:
  "\<exists>ms. server_round 2 3 SIGINT (\<lambda>i. i = 3) (shared (ex_server 0 10))
       (main (ex_sys (ex_thread 0 (-1) Waiting 0 0) (ex_thread 0 (-1) Waiting 0 1) [5, -1, 3, 4] 0)) = Some (0, ms)
     \<and> m_exit ms \<and> closed ms = {3, 4, 5}"
proof -
  let ?s = "ex_sys (ex_thread 0 (-1) Waiting 0 0) (ex_thread 0 (-1) Waiting 0 1) [5, -1, 3, 4] 0"
  have f: "srv ?s = ex_server 0 10" "ro_acceptor_fd (shared (ex_server 0 10)) = 3" "conns (shared (ex_server 0 10)) = {5}"
    "poll_array (main ?s) = [5, -1, 3, 4]" "closed (main ?s) = {}"
    by (simp_all add: ex_sys_def ex_conns)
  have "{c \<in> set (take 2 [5, -1, 3, 4 :: int]). 0 < c} = {5}" by (auto simp: numeral_2_eq_2)
  with interrupt_closes [OF ex_pool_inv _ _ _ run_Nil, of 4 "\<lambda>i. i = 3" SIGINT] f show ?thesis
    by (auto simp: numeral_2_eq_2)
qed



end
