(* ===== verification/Spec2Isabelle.thy ===== *)
theory Spec2Isabelle
  imports Hash Programs Concurrency
begin

text \<open>
  A verification development for the file storage server of this repository and its client
  (\<open>src/source\<close>, \<open>src/exec\<close>): a process that keeps files in memory for clients connected over a
  local socket, and the program and library that send it requests.

  \<^bold>\<open>The program.\<close> The main thread of the server reads a configuration, polls the connections and
  hands each ready one to a worker thread. The worker reads one message, finds the client's
  entry in the shared state, runs the handler of the request on the array of file slots, and
  writes one answer; then the main thread takes the connection back. A file has at most one owner
  (the client that opened or locked it); the total size is bounded, and a write or an append that
  does not fit evicts files by the configured policy and returns them in the answer. The client
  library sends one message for each call and waits for the answer; the client program turns its
  command line into requests, adds the opening, locking and closing of the files, and sends them.

  \<^bold>\<open>Theories\<close>, each with the source it models. The transport and one file:

  \<^item> \<open>Prelude\<close>: machine words, error numbers, the allocator, C strings, words as bytes.
  \<^item> \<open>Databuf\<close> (\<open>databuf.c\<close>): the byte buffer of a message, as a stack of bytes (locale
    \<open>byte_stack\<close>).
  \<^item> \<open>Hash\<close> (\<open>hash.h\<close>), \<open>Message_Type\<close> (\<open>message_type.h\<close>), \<open>Net_Msg\<close> (\<open>net_msg.c\<close>,
    \<open>net_msg_macros.c\<close>, \<open>readn_writen.c\<close>): checksum, types and transport of a message.
  \<^item> \<open>Compression\<close> (\<open>server_compression.c\<close>, locale \<open>codec\<close>), \<open>File_Store\<close> (\<open>file.c\<close>):
    one file slot. \<open>File_Spec\<close>: its invariant \<open>file_inv\<close>, the abstract file \<open>afile\<close>, and
    the refinement of each operation.
  \<^item> \<open>Store\<close> (\<open>get_file\<close>, \<open>get_empty_slot\<close>, \<open>initialize_file_structure\<close>): the array of
    slots as a map from names to abstract files; locale \<open>file_operation\<close> lifts an operation
    on a file to the map.
  \<^item> \<open>Shared_State\<close> (\<open>shared_state.c\<close>): client table (locale \<open>connection_table\<close>), counters.

  The worker:

  \<^item> \<open>Worker_Generics\<close> (\<open>worker_generics.c\<close>): the state \<open>server\<close> of a handler (slots,
    shared state, log, number of clock readings) and the invariant \<open>server_inv\<close>: slots well
    formed with distinct names, counters equal to what the slots hold, table consistent.
  \<^item> \<open>Worker_Files\<close> (\<open>worker_openfile.c\<close>, \<open>worker_closefile.c\<close>, \<open>worker_lock.c\<close>,
    \<open>worker_removefile.c\<close>, \<open>worker_read.c\<close>) and \<open>Handler_Spec\<close>: the handlers and, as
    interpretations of locale \<open>named_handler\<close>, what each promises its client. \<open>Worker_Readn\<close>:
    the request for several files.
  \<^item> \<open>Cache_Miss\<close> (\<open>worker_cache_miss.c\<close>) and \<open>Eviction\<close>: the replacement policies and,
    as interpretations of locale \<open>eviction_policy\<close>, what an eviction does.
  \<^item> \<open>Worker_Write\<close> (\<open>worker_write.c\<close>), \<open>Evict_Loop\<close>, \<open>Write_Spec\<close>: write and append.
  \<^item> \<open>Worker_Conn\<close> (\<open>worker_connection.c\<close>), \<open>Worker\<close> (\<open>worker_do\<close> of \<open>worker.c\<close>), \<open>Worker_Spec\<close>:
    accepting, closing and dispatching, and what one call does to the whole service.
    \<open>File_System\<close>: the abstract file system the calls refine (locale \<open>simulation\<close>) and runs of
    steps.

  The server as a whole:

  \<^item> \<open>Server_Loop\<close> (\<open>server_loop.c\<close>, \<open>server_subcalls.c\<close>, \<open>server_threads.c\<close>, \<open>server_socket.c\<close>): the
    main thread; \<open>Pool\<close> (\<open>worker_routine\<close>): main thread and workers interleaved at the mailboxes.
  \<^item> \<open>Config\<close> (\<open>config.c\<close>, \<open>server_parsing.c\<close>) over \<open>C_String\<close>, \<open>Log\<close> (\<open>log.c\<close>), \<open>Server_Start\<close>
    (\<open>exec/server.c\<close>): configuration, log and start. \<open>Shutdown\<close>: the terminating signals and the end.
  \<^item> \<open>Sections\<close>: the handlers again, one critical section at a time, for any number of workers
    interleaved; \<open>Sections_Inv\<close> (locale \<open>interleaved\<close>): what every interleaving keeps;
    \<open>Sections_End\<close>: requests end; \<open>Sections_Run\<close>, \<open>Sections_Evict\<close>, \<open>Sections_Walk\<close>, \<open>Sections_Alone\<close>:
    an undisturbed request of any kind, evictions included, is its handler; \<open>Races\<close>: runs that no order of whole handlers has. \<open>Concurrency\<close> states the properties of these theories
    and of \<open>Shutdown\<close>.

  The client:

  \<^item> \<open>Client_Api\<close> (\<open>client_api.c\<close>), \<open>Client_Spec\<close> (locale \<open>file_call\<close>), \<open>Client_Data\<close>: the library, its
    calls run against a worker, and the files it saves.
  \<^item> \<open>Client_Requests\<close>, \<open>Client_Expand\<close>, \<open>Client_Line\<close> (\<open>request.c\<close>, \<open>client_parser.c\<close>,
    \<open>client_parser_2.c\<close>): the command line, directories, and the requests the program adds.
    \<open>Client_Run\<close> (\<open>client_subcalls.c\<close>, \<open>exec/client.c\<close>): sending them.
  \<^item> \<open>Examples\<close>: the concrete server and client the witnesses run on. \<open>Programs\<close>: properties of
    the two programs.

  \<^bold>\<open>What the theorems show.\<close> This theory: handlers answer as specified on every branch and keep the
  invariants, evictions follow the policies, calls refine an abstract file system, the calls of
  the library return what that file system says. \<open>Programs\<close>: start, configuration and command line.
  \<open>Concurrency\<close>: the counters, the locks and termination under every interleaving, the races, and
  the shutdown. \<open>Net_Msg\<close>: the transport loses nothing.

  \<^bold>\<open>Correspondence.\<close> A C function has a definition of the same name (\<open>_open_file_create\<close> and
  \<open>_open_file_open\<close> lose their underscore). A pointer a function writes through is a result; the
  state is passed and returned. A return of 0 or -1 with \<open>errno\<close> is a sum (\<open>Prelude\<close>). A handler
  returns the C result (0 or -1), the answer and the new state, and runs as one step; \<open>Pool\<close>
  interleaves such steps with the main thread. In \<open>Sections\<close> a step is one critical section: there
  \<open>get_file\<close> becomes the stages \<open>At_exists\<close> and \<open>At_name\<close>, \<open>do_cache_miss\<close> the stages from \<open>At_measure\<close> to
  \<open>At_missed\<close>, and so on, and the theorem \<open>handler_is_its_sections\<close> connects the two. \<open>free\<close> has no
  effect in the model except where a freed block is read again or a field is cleared. Where a
  result is an \<open>option\<close>, \<open>None\<close> stands for undefined behaviour or for not returning, as said at the
  definition.

  \<^bold>\<open>Parameters.\<close> The records \<open>env\<close>, \<open>client_env\<close>, \<open>run_env\<close> and \<open>start_env\<close> hold what the C library,
  the kernel and the stack decide: which allocations succeed, the clock, the results of \<open>socket\<close>,
  \<open>accept\<close> or \<open>fopen\<close>, and the contents of uninitialised variables. Properties that need memory
  assume \<open>good_env\<close> (every allocation succeeds, names fit). A socket is the list of chunks that
  arrive on it; the file system is a map from paths to contents.

  \<^bold>\<open>Loops.\<close> Loops over arrays are structural recursions. The reallocation loop of \<open>push_buf\<close>
  has \<open>grow_fuel\<close> = 64 rounds, enough for every buffer below \<open>2 ^ 62\<close> bytes
  (\<open>grow_buf_enough\<close>). The loop of \<open>do_cache_miss\<close> has no bound in the code; it is a
  \<open>partial_function\<close> into \<open>option\<close> (\<open>evict_loop\<close>): \<open>append_request\<close> and \<open>write_after_create\<close> prove that
  it returns under \<open>can_evict\<close>, and \<open>append_never_returns\<close> that otherwise it may never do. The loops of
  the client that wait for the server or walk directories (\<open>connect_loop\<close>, \<open>lock_loop\<close>, \<open>dir_loop\<close>)
  recurse over what the server or the directory delivers. \<open>alone\<close> runs as many
  sections of one request as it is given choices of the policy; \<open>handler_is_its_sections\<close> proves that a
  list exists with which the request ends, for every request whose handler returns.

  \<^bold>\<open>Not modelled\<close>: the system calls themselves (\<open>pthread\<close>, \<open>socket\<close>, \<open>poll\<close>, \<open>signalfd\<close>: their results
  are parameters or choices of a step), the freeing of memory, the help text and the statistics
  printed on the terminal, the macros of \<open>errset.h\<close> (expanded where they are used) and the
  declarations of \<open>win32defs.h\<close>. In \<open>Sections\<close> the scan of a replacement policy for its victim is an
  arbitrary choice, and the log and the client's own table entry are left out; a response's
  transmission is not interleaved. A stream ends, so a call on a connection that stays open and
  silent (which waits for ever) is not expressed, and whether calls return is claimed only for the
  eviction loop and the mutexes. The log lines of the handlers always succeed (\<open>Log\<close> has the
  failures). A name of 256 bytes without a NUL, behind which the code reads on, is a string of 256
  bytes. The double frees of \<open>do_append_file\<close> (after an empty append) and \<open>read_config_file\<close> (after a failed
  reallocation) are error returns. The properties about whole calls (all of this theory but those of
  the main loop) let calls run one after the other; what interleaving changes is in \<open>Concurrency\<close>.
\<close>

section \<open>Requests on one file\<close>

text \<open>C1. Append. When what may not be evicted and the new data fit in the capacity, and the
  replacement policy makes progress, the handler returns 0: it evicts some files other than
  the named one, returns them in the answer, appends the data to the file if the client may
  (the file is open and no other client has locked it) and otherwise leaves it alone and
  says why, and the counters stay exact.\<close>

theorem append_request:
  assumes "good_env e" and "server_inv sv" and "write_request in_msg s d" and "d \<noteq> []"
    and "fresh out" and "0 < conn" and "can_evict e s d sv"
  shows "\<exists>out' sv' vs. do_append_file e thread conn in_msg out ci sv = Some (0, out', sv')
     \<and> server_inv sv' \<and> s \<notin> name ` set vs \<and> set vs \<subseteq> {f. stored_file sv f} \<and> db_stack (mdata out') = victims_reply vs
     \<and> (case data_request (a_append_op d) conn s vs (sabs sv) of (r, m) \<Rightarrow>
          sabs sv' = m \<and> mtype out' = (MESSAGE_AFILE_ACK OR miss_flag vs) OR data_flag r)"
proof -
  obtain res where "do_append_file e thread conn in_msg out ci sv = Some res"
    using do_append_file_returns [OF assms(1,2) data_ready_request [OF assms(1,3) capacity_small [OF assms(7)]] assms(5,7)] by fast
  with do_append_file_handles [OF assms(1,2) data_ready_request [OF assms(1,3) capacity_small [OF assms(7)]] assms(4-6) this]
  show ?thesis by (cases res) (auto simp: data_done_def split_def)
qed

theorem append_request_witness:
  "\<exists>out' sv' vs. do_append_file ex_env 1 5 (ex_msg 0 (field [4, 4, 4] @ field [97, 0])) create_message 0 (ex_server 1 5)
       = Some (0, out', sv')
     \<and> server_inv sv' \<and> [97] \<notin> name ` set vs \<and> set vs \<subseteq> {f. stored_file (ex_server 1 5) f} \<and> db_stack (mdata out') = victims_reply vs
     \<and> (case data_request (a_append_op [4, 4, 4]) 5 [97] vs (sabs (ex_server 1 5)) of (r, m) \<Rightarrow>
          sabs sv' = m \<and> mtype out' = (MESSAGE_AFILE_ACK OR miss_flag vs) OR data_flag r)"
  using append_request [of ex_env "ex_server 1 5" "ex_msg 0 (field [4, 4, 4] @ field [97, 0])" "[97]" "[4, 4, 4]"
      create_message 5 1 0]
    ex_server_inv [of 5 1] ex_write_request [of "[97]" "[4, 4, 4]" 0] ex_can_evict [of "[4, 4, 4]"]
  by simp

text \<open>C2. Write. Directly after the client created and locked the file, and under the conditions
  of the append, the handler returns 0 and stores the data in the file when it is still empty;
  otherwise the file keeps its contents and the answer says why. Files evicted to make room
  are returned in the answer.\<close>

theorem write_after_create:
  assumes "good_env e" and "server_inv sv" and "write_request in_msg s d" and "d \<noteq> []"
    and "fresh out" and "0 < conn" and "can_evict e s d sv" and "lastop_of ci sv = s"
  shows "\<exists>out' sv' vs. do_write_file e thread conn in_msg out ci sv = Some (0, out', sv')
     \<and> server_inv sv' \<and> s \<notin> name ` set vs \<and> set vs \<subseteq> {f. stored_file sv f} \<and> db_stack (mdata out') = victims_reply vs
     \<and> (case data_request (a_write_op d) conn s vs (sabs sv) of (r, m) \<Rightarrow>
          sabs sv' = m \<and> mtype out' = (MESSAGE_WFILE_ACK OR miss_flag vs) OR data_flag r)"
proof -
  obtain res where "do_write_file e thread conn in_msg out ci sv = Some res"
    using do_write_file_returns [OF assms(1,2) data_ready_request [OF assms(1,3) capacity_small [OF assms(7)]] assms(5,7)] by fast
  with do_write_file_handles [OF assms(1,2) data_ready_request [OF assms(1,3) capacity_small [OF assms(7)]] assms(4-6) _ this] strncmp_eq_cstr assms(8)
  show ?thesis by (cases res) (auto simp: data_done_def split_def)
qed

lemma ex_lastop: "lastop_of 0 (ex_server algo cap) = [97]" "lastop_of 1 (ex_server algo cap) = []"
  by (simp_all add: lastop_of_def ex_server_def ex_shared_def)

theorem write_after_create_witness:
  "\<exists>out' sv' vs. do_write_file ex_env 1 5 (ex_msg 0 (field [4, 4, 4] @ field [97, 0])) create_message 0 (ex_server 1 5)
       = Some (0, out', sv')
     \<and> server_inv sv' \<and> [97] \<notin> name ` set vs \<and> set vs \<subseteq> {f. stored_file (ex_server 1 5) f} \<and> db_stack (mdata out') = victims_reply vs
     \<and> (case data_request (a_write_op [4, 4, 4]) 5 [97] vs (sabs (ex_server 1 5)) of (r, m) \<Rightarrow>
          sabs sv' = m \<and> mtype out' = (MESSAGE_WFILE_ACK OR miss_flag vs) OR data_flag r)"
  using write_after_create [of ex_env "ex_server 1 5" "ex_msg 0 (field [4, 4, 4] @ field [97, 0])" "[97]" "[4, 4, 4]"
      create_message 5 0 1]
    ex_server_inv [of 5 1] ex_write_request [of "[97]" "[4, 4, 4]" 0] ex_can_evict [of "[4, 4, 4]"] ex_lastop
  by simp

text \<open>A write by a client whose last operation was not the creation with lock of this very
  file changes neither the files nor the shared state, and its answer carries no flag.\<close>

theorem write_needs_create:
  assumes "good_env e" and "server_inv sv" and "write_request in_msg s d"
    and "lastop_of ci sv \<noteq> s" and "0 \<notin> set (lastop_of ci sv)" and "length (lastop_of ci sv) \<le> FILE_NAME_MAX_SIZE"
  shows "\<exists>out' sv'. do_write_file e thread conn in_msg out ci sv = Some (0, out', sv')
     \<and> mtype out' = MESSAGE_WFILE_ACK \<and> mdata out' = mdata out \<and> files sv' = files sv \<and> shared sv' = shared sv"
  using do_write_file_refused [OF assms] by fastforce

theorem write_needs_create_witness:
  "\<exists>out' sv'. do_write_file ex_env 1 5 (ex_msg 0 (field [4] @ field [98, 0])) create_message 0 (ex_server 1 5)
       = Some (0, out', sv')
     \<and> mtype out' = MESSAGE_WFILE_ACK \<and> mdata out' = mdata create_message
     \<and> files sv' = files (ex_server 1 5) \<and> shared sv' = shared (ex_server 1 5)"
  using write_needs_create [of ex_env "ex_server 1 5" "ex_msg 0 (field [4] @ field [98, 0])" "[98]" "[4]" 0 1 5 create_message]
    ex_server_inv [of 5 1] ex_write_request [of "[98]" "[4]" 0] ex_lastop
  by (simp add: FILE_NAME_MAX_SIZE_def)

text \<open>C9. An append for which no file can be evicted and no room is left never returns: the
  eviction loop of the worker has no way out, whatever the replacement policy.\<close>

theorem append_never_returns:
  assumes "good_env e" and "server_inv sv" and "write_request in_msg s d" and "fresh out"
    and "length d \<le> unat (ro_max_storage (shared sv))" and "sabs sv s \<noteq> None"
    and "\<forall>f \<in> set (files sv). \<not> candidate s f"
    and "unat (ro_max_storage (shared sv)) < used (files sv) + length d"
  shows "do_append_file e thread conn in_msg out ci sv = None"
  by (rule do_append_file_stuck [OF assms(1,2) data_ready_request [OF assms(1,3,5)] assms(4,6-8)])

theorem append_never_returns_witness:
  "do_append_file ex_env 1 5 (ex_msg 0 (field [4, 4, 4, 4] @ field [97, 0])) create_message 0 (ex_single 5) = None"
proof -
  have "sabs (ex_single 5) [97] \<noteq> None" "\<forall>f \<in> set (files (ex_single 5)). \<not> candidate [97] f"
      "used (files (ex_single 5)) = 2" "ro_max_storage (shared (ex_single 5)) = 5"
    by (simp_all add: store_abs_def used_def fsize_def ex_single_def ex_shared_def ex_file_a_def candidate_def cstr_def init_file_struct_def)
  then show ?thesis
    using append_never_returns [of ex_env "ex_single 5" "ex_msg 0 (field [4, 4, 4, 4] @ field [97, 0])" "[97]" "[4, 4, 4, 4]"
        create_message 1 5 0] ex_single_inv [of 5] ex_write_request [of "[97]" "[4, 4, 4, 4]" 0]
    by simp
qed

text \<open>C3. Read, for a client the file is not locked against: the answer carries exactly the bytes
  of the file followed by their number, and the files are unchanged; otherwise the answer
  carries no data and says why.\<close>

theorem read_request_reply:
  assumes "good_env e" and "server_inv sv" and "requests in_msg s" and "fresh out" and "0 < conn"
  shows "\<exists>out' sv'. do_read_file e thread conn in_msg out ci sv = (0, out', sv') \<and> server_inv sv'
     \<and> sabs sv' = sabs sv
     \<and> (case sabs sv s of
          None \<Rightarrow> mtype out' = MESSAGE_RFILE_ACK OR MESSAGE_FILE_NEXISTS \<and> db_stack (mdata out') = []
        | Some a \<Rightarrow>
            if locked_out conn a
            then mtype out' = MESSAGE_RFILE_ACK OR MESSAGE_FILE_NOWN \<and> db_stack (mdata out') = []
            else if \<not> a_open a
            then mtype out' = MESSAGE_RFILE_ACK OR MESSAGE_FILE_NOPEN \<and> db_stack (mdata out') = []
            else mtype out' = MESSAGE_RFILE_ACK OR MESSAGE_OP_SUCC \<and> db_stack (mdata out') = field (a_content a))"
proof -
  obtain out' sv' where R: "do_read_file e thread conn in_msg out ci sv = (0, out', sv')" "server_inv sv'"
      "case request (keep a_read_op) conn s (sabs sv) of (r, m) \<Rightarrow>
         mtype out' = MESSAGE_RFILE_ACK OR std_flag r \<and> sabs sv' = m
       \<and> db_stack (mdata out') = (if r = Inr () then field (a_content (the (sabs sv s))) else [])"
    using do_read_file_replies [OF assms(1,2) requests_names [OF assms(3)] assms(4,5), of thread ci] by (auto simp: split_def)
  have "(sabs sv)(s \<mapsto> a) = sabs sv" if "sabs sv s = Some a" for a using that by (simp add: fun_upd_idem)
  with R show ?thesis
    by (cases "sabs sv s") (auto simp: request_def keep_def a_read_op_def split: if_splits)
qed

theorem read_request_reply_witness:
  "\<exists>out' sv'. do_read_file ex_env 1 5 (ex_msg 0 (field [97, 0])) create_message 0 (ex_server 0 10) = (0, out', sv')
     \<and> server_inv sv' \<and> sabs sv' = sabs (ex_server 0 10)
     \<and> mtype out' = MESSAGE_RFILE_ACK OR MESSAGE_OP_SUCC \<and> db_stack (mdata out') = field [1, 2]"
  using read_request_reply [of ex_env "ex_server 0 10" "ex_msg 0 (field [97, 0])" "[97]" create_message 5 1 0]
    ex_server_inv [of 10 0] ex_requests [of "[97]" 0] ex_sabs [of 0 10]
  by (simp add: locked_out_def)

text \<open>Create: an existing file is never touched, a full table is reported, and otherwise the
  name denotes a new, open, empty file, owned by the creator exactly when the request asks
  for the lock; only then is the client's right to write recorded.\<close>

theorem create_request:
  assumes "good_env e" and "server_inv sv" and "requests in_msg s"
    and "HASFLAG (GETFLAGS (mtype in_msg)) MESSAGE_OPEN_OCREATE" and "0 < conn" and "ci < length (clients (shared sv))"
  shows "\<exists>out' sv'. do_open_file e thread conn in_msg out ci sv = (0, out', sv') \<and> server_inv sv'
     \<and> (let lk = HASFLAG (GETFLAGS (mtype in_msg)) MESSAGE_OPEN_OLOCK in
        if sabs sv s \<noteq> None then mtype out' = MESSAGE_OFILE_ACK OR MESSAGE_FILE_EXISTS \<and> sabs sv' = sabs sv
        else if no_slot (files sv)
        then mtype out' = MESSAGE_OFILE_ACK OR MESSAGE_FILE_ERRMAXFILES \<and> sabs sv' = sabs sv
        else mtype out' = MESSAGE_OFILE_ACK OR MESSAGE_OP_SUCC
           \<and> sabs sv' = (sabs sv)(s \<mapsto> \<lparr>a_owner = (if lk then conn else OWNER_NULL), a_open = True, a_content = []\<rparr>)
           \<and> lastop_of ci sv' = (if lk then s else []))"
  using do_open_file_creates [OF assms(1,2) requests_names [OF assms(3)] assms(4) refl assms(5), of thread out ci] assms(6)
  unfolding Let_def by (simp only: simp_thms)

theorem create_request_witness:
  "\<exists>out' sv'. do_open_file ex_env 1 5 (ex_msg 6 (field [99, 0])) create_message 0 (ex_server 0 10) = (0, out', sv')
     \<and> server_inv sv' \<and> mtype out' = MESSAGE_OFILE_ACK OR MESSAGE_OP_SUCC
     \<and> sabs sv' = (sabs (ex_server 0 10))([99] \<mapsto> \<lparr>a_owner = 5, a_open = True, a_content = []\<rparr>) \<and> lastop_of 0 sv' = [99]"
  using create_request [of ex_env "ex_server 0 10" "ex_msg 6 (field [99, 0])" "[99]" 5 0 1 create_message]
    ex_server_inv [of 10 0] ex_requests [of "[99]" 6] ex_sabs [of 0 10] ex_flags ex_free
  by (simp add: ex_clients Let_def)

text \<open>Open without creation: the file is opened and taken by the client when the request
  asks for the lock, released when it does not; a file locked by somebody else is refused.\<close>

theorem open_request_refines:
  assumes "good_env e" and "server_inv sv" and "requests in_msg s" and "open_request lk in_msg" and "0 < conn"
  shows "\<exists>out' sv'. do_open_file e thread conn in_msg out ci sv = (0, out', sv') \<and> server_inv sv'
     \<and> (case request (open_op lk) conn s (sabs sv) of (r, m) \<Rightarrow>
          mtype out' = MESSAGE_OFILE_ACK OR std_flag r \<and> sabs sv' = m)"
  by (rule open_req.handles [OF assms(1,2) requests_names [OF assms(3)] assms(4,5)])

theorem open_request_refines_witness:
  "\<exists>out' sv'. do_open_file ex_env 1 7 (ex_msg 4 (field [98, 0])) create_message 0 (ex_server 0 10) = (0, out', sv')
     \<and> server_inv sv' \<and> mtype out' = MESSAGE_OFILE_ACK OR MESSAGE_OP_SUCC
     \<and> sabs sv' = (sabs (ex_server 0 10))([98] \<mapsto> \<lparr>a_owner = 7, a_open = True, a_content = [7, 8, 9]\<rparr>)"
  using open_request_refines [of ex_env "ex_server 0 10" "ex_msg 4 (field [98, 0])" "[98]" True 7 1 create_message 0]
    ex_server_inv [of 10 0] ex_requests [of "[98]" 4] ex_sabs [of 0 10] ex_flags
  by (simp add: open_request_def request_def open_op_def keep_def a_op_defs)

text \<open>Lock and unlock: only the owner unlocks, only an open file nobody else owns is locked,
  and the answer reports the outcome.\<close>

theorem lock_unlock_refine:
  assumes "good_env e" and "server_inv sv" and "requests in_msg s" and "0 < conn"
  shows "(\<exists>out' sv'. do_lock_file e thread conn in_msg out ci sv = (0, out', sv') \<and> server_inv sv'
          \<and> (case request (keep a_lock_op) conn s (sabs sv) of (r, m) \<Rightarrow>
               mtype out' = MESSAGE_LFILE_ACK OR std_flag r \<and> sabs sv' = m))
       \<and> (\<exists>out' sv'. do_unlock_file e thread conn in_msg out ci sv = (0, out', sv') \<and> server_inv sv'
          \<and> (case request (keep a_unlock_op) conn s (sabs sv) of (r, m) \<Rightarrow>
               mtype out' = MESSAGE_ULFILE_ACK OR std_flag r \<and> sabs sv' = m))"
  using lock_request.handles [OF assms(1,2) requests_names [OF assms(3)] TrueI assms(4)] unlock_request.handles [OF assms(1,2) requests_names [OF assms(3)] TrueI assms(4)]
  by blast

theorem lock_unlock_refine_witness:
  "\<exists>out' sv'. do_unlock_file ex_env 1 5 (ex_msg 0 (field [97, 0])) create_message 0 (ex_server 0 10) = (0, out', sv')
     \<and> server_inv sv' \<and> mtype out' = MESSAGE_ULFILE_ACK OR MESSAGE_OP_SUCC
     \<and> sabs sv' = (sabs (ex_server 0 10))([97] \<mapsto> \<lparr>a_owner = 0, a_open = True, a_content = [1, 2]\<rparr>)"
  using lock_unlock_refine [of ex_env "ex_server 0 10" "ex_msg 0 (field [97, 0])" "[97]" 5 1 create_message 0]
    ex_server_inv [of 10 0] ex_requests [of "[97]" 0] ex_sabs [of 0 10]
  by (simp add: request_def keep_def a_op_defs)

text \<open>Close and remove: closing releases the lock and keeps the contents; only the client
  that holds the lock removes a file, and then its name is free again and its bytes are no
  longer charged.\<close>

theorem close_remove_refine:
  assumes "good_env e" and "server_inv sv" and "requests in_msg s" and "0 < conn"
  shows "(\<exists>out' sv'. do_close_file e thread conn in_msg out ci sv = (0, out', sv') \<and> server_inv sv'
          \<and> (case request (keep a_close_op) conn s (sabs sv) of (r, m) \<Rightarrow>
               mtype out' = MESSAGE_CFILE_ACK OR std_flag r \<and> sabs sv' = m))
       \<and> (\<exists>out' sv'. do_remove_file e thread conn in_msg out ci sv = (0, out', sv') \<and> server_inv sv'
          \<and> (case request remove_op conn s (sabs sv) of (r, m) \<Rightarrow>
               mtype out' = MESSAGE_RMFILE_ACK OR remove_flag r \<and> sabs sv' = m))"
  using close_request.handles [OF assms(1,2) requests_names [OF assms(3)] TrueI assms(4)] remove_request.handles [OF assms(1,2) requests_names [OF assms(3)] TrueI assms(4)]
  by blast

theorem close_remove_refine_witness:
  "(\<exists>out' sv'. do_close_file ex_env 1 5 (ex_msg 0 (field [97, 0])) create_message 0 (ex_server 0 10) = (0, out', sv')
     \<and> sabs sv' = (sabs (ex_server 0 10))([97] \<mapsto> \<lparr>a_owner = 0, a_open = False, a_content = [1, 2]\<rparr>))
   \<and> (\<exists>out' sv'. do_remove_file ex_env 1 5 (ex_msg 0 (field [97, 0])) create_message 0 (ex_server 0 10) = (0, out', sv')
     \<and> sabs sv' = (sabs (ex_server 0 10))([97] := None))"
  using close_remove_refine [of ex_env "ex_server 0 10" "ex_msg 0 (field [97, 0])" "[97]" 5 1 create_message 0]
    ex_server_inv [of 10 0] ex_requests [of "[97]" 0] ex_sabs [of 0 10]
  by (auto simp: request_def keep_def remove_op_def a_op_defs)



text \<open>What is appended is read back: after a permitted append, a read by the same client
  returns the old contents followed by the appended bytes, whatever was evicted meanwhile.\<close>

theorem append_then_read:
  assumes "good_env e" and "server_inv sv" and "write_request in_msg s d" and "d \<noteq> []"
    and "fresh out" and "0 < conn" and "can_evict e s d sv"
    and "sabs sv s = Some a" and "\<not> locked_out conn a" and "a_open a"
    and "requests rd_msg s" and "fresh rd_out"
  shows "\<exists>out1 sv1 out2 sv2. do_append_file e thread conn in_msg out ci sv = Some (0, out1, sv1)
     \<and> do_read_file e thread conn rd_msg rd_out ci sv1 = (0, out2, sv2)
     \<and> db_stack (mdata out2) = field (a_content a @ d)"
proof -
  obtain res where run: "do_append_file e thread conn in_msg out ci sv = Some res"
    using do_append_file_returns [OF assms(1,2) data_ready_request [OF assms(1,3) capacity_small [OF assms(7)]] assms(5,7)] by fast
  obtain out1 sv1 vs where R: "res = (0, out1, sv1)" "server_inv sv1" "s \<notin> name ` set vs"
      "sabs sv1 = snd (data_request (a_append_op d) conn s vs (sabs sv))"
    using do_append_file_handles [OF assms(1,2) data_ready_request [OF assms(1,3) capacity_small [OF assms(7)]] assms(4-6) run]
    by (cases res) (auto simp: data_done_def split_def)
  have "sabs sv1 s = Some (a\<lparr>a_content := a_content a @ d\<rparr>)"
    using R(3,4) assms(8-10) by (simp add: data_request_def request_def keep_def a_append_op_def)
  then have "keep a_read_op conn (the (sabs sv1 s)) = Inr (Some (a\<lparr>a_content := a_content a @ d\<rparr>))"
    using assms(9,10) by (simp add: keep_def a_read_op_def locked_out_def)
  then have "fst (request (keep a_read_op) conn s (sabs sv1)) = Inr ()"
    using \<open>sabs sv1 s = _\<close> by (simp add: request_def)
  with do_read_file_replies [OF assms(1) R(2) requests_names [OF assms(11)] assms(12,6), of thread ci] \<open>sabs sv1 s = _\<close> run R(1)
  show ?thesis by (fastforce simp: split_def)
qed

theorem append_then_read_witness:
  "\<exists>out1 sv1 out2 sv2. do_append_file ex_env 1 5 (ex_msg 0 (field [4, 4, 4] @ field [97, 0])) create_message 0 (ex_server 1 5)
       = Some (0, out1, sv1)
     \<and> do_read_file ex_env 1 5 (ex_msg 0 (field [97, 0])) create_message 0 sv1 = (0, out2, sv2)
     \<and> db_stack (mdata out2) = field [1, 2, 4, 4, 4]"
  using append_then_read [of ex_env "ex_server 1 5" "ex_msg 0 (field [4, 4, 4] @ field [97, 0])" "[97]" "[4, 4, 4]"
      create_message 5 "\<lparr>a_owner = 5, a_open = True, a_content = [1, 2]\<rparr>" "ex_msg 0 (field [97, 0])" create_message 1 0]
    ex_server_inv [of 5 1] ex_write_request [of "[97]" "[4, 4, 4]" 0] ex_can_evict [of "[4, 4, 4]"]
    ex_requests [of "[97]" 0] ex_sabs [of 1 5]
  by (simp add: locked_out_def)

section \<open>Eviction\<close>

text \<open>C5. A cache miss either finds nothing to evict, reports \<open>ECANCELED\<close> and changes no file,
  or removes exactly one stored file, never the protected one, appends its contents and its
  slash-free name to the answer, gives its bytes back to the capacity and is counted.\<close>

theorem cache_miss_evicts_one:
  assumes "good_env e" and "server_inv sv" and "reply_room out sv"
  shows "case cache_miss e thread nd sv out of (r, out', sv') \<Rightarrow>
      server_inv sv' \<and> mtype out' = mtype out
    \<and> (if \<forall>i. \<not> picks e nd sv i
       then r = Inl ECANCELED \<and> out' = out \<and> sabs sv' = sabs sv \<and> used (files sv') = used (files sv)
       else \<exists>i. picks e nd sv i \<and> r = Inr () \<and> i < length (files sv) \<and> name (files sv ! i) \<noteq> cstr nd
          \<and> sabs sv' = (sabs sv)(name (files sv ! i) := None)
          \<and> used (files sv') + length (a_content (fabs (files sv ! i))) = used (files sv)
          \<and> used (files sv') < used (files sv)
          \<and> db_stack (mdata out') = db_stack (mdata out) @ file_fields (files sv ! i)
          \<and> cache_miss_execs (shared sv') = cache_miss_execs (shared sv) + 1)"
proof -
  obtain r out' sv' where run: "cache_miss e thread nd sv out = (r, out', sv')"
    by (cases "cache_miss e thread nd sv out")
  from cache_miss_spec [OF assms run] show ?thesis
  proof (elim disjE exE conjE)
    assume "\<forall>i. \<not> picks e nd sv i" "r = Inl ECANCELED" "out' = out" "server_inv sv'"
      "same_files (files sv') (files sv)"
    with run same_files_eq show ?thesis by simp
  next
    fix i
    assume i: "picks e nd sv i" and X: "r = Inr ()" "expelled sv i sv'" "mtype out' = mtype out"
      "db_stack (mdata out') = db_stack (mdata out) @ file_fields (files sv ! i)"
      "cache_miss_execs (shared sv') = cache_miss_execs (shared sv) + 1"
    have c: "i < length (files sv)" "candidate nd (files sv ! i)" using configured.chosen [OF i] by blast+
    have "0 < length (a_content (fabs (files sv ! i)))"
      by (rule candidate_content [OF store_inv_nth [OF server_inv_store [OF assms(2)] c(1)] c(2)])
    then have "used (files sv') < used (files sv)" using X(2) unfolding expelled_def by linarith
    with X i c run show ?thesis by (auto simp: expelled_def candidate_def)
  qed
qed

theorem cache_miss_evicts_one_witness:
  "case cache_miss ex_env 1 [97] (ex_server 2 5) create_message of (r, out', sv') \<Rightarrow>
     r = Inr () \<and> server_inv sv' \<and> sabs sv' = (sabs (ex_server 2 5))([98] := None)
   \<and> db_stack (mdata out') = field [7, 8, 9] @ field [98, 0]"
proof -
  have only: "picks ex_env [97] (ex_server 2 5) i \<longleftrightarrow> i = 1" for i
    by (auto simp: picks_def ex_server_def ex_shared_def least_def candidate_def fsize_def cstr_def ex_file_a_def
        ex_file_b_def init_file_struct_def ALGO_LFU_def INT_MAX_def nth_Cons' less_Suc_eq split: if_splits)
  have "server_inv (ex_server 2 5)" using ex_server_inv [of 5 2] by simp
  moreover have "file_fields ex_file_b = field [7, 8, 9] @ field [98, 0]"
    using slashes_cstr [of "[98]" 256 "[]"]
    by (simp add: file_fields_def ex_file_b_def fabs_def is_open_file_def convert_slashes_to_underscores_def
        FILE_NAME_MAX_SIZE_def)
  moreover have "db_stack (mdata create_message) = []" using fresh_create by (simp add: fresh_def)
  ultimately show ?thesis
    using cache_miss_evicts_one [where e = ex_env and sv = "ex_server 2 5" and out = create_message and thread = 1 and nd = "[97]"] only reply_room_fresh
    by (auto simp: split_def ex_server_def ex_file_b_def)
qed

text \<open>C6. FIFO: what is evicted was created strictly before now and is at least as old as every
  other candidate.\<close>

theorem fifo_evicts_oldest:
  assumes "good_env e" and "server_inv sv"
  shows "case evict_FIFO e thread nd sv (None, 0) (None, 0) of (r, sv') \<Rightarrow>
      if \<exists>f \<in> set (files sv). candidate nd f \<and> fifo_creation_time f < e_clock e (ticks sv)
      then \<exists>f \<in> set (files sv). candidate nd f \<and> sabs sv' = (sabs sv)(name f := None)
         \<and> (\<forall>g \<in> set (files sv). candidate nd g \<longrightarrow> fifo_creation_time f \<le> fifo_creation_time g)
      else sabs sv' = sabs sv"
proof -
  obtain r sv' where run: "evict_FIFO e thread nd sv (None, 0) (None, 0) = (r, sv')"
    by (cases "evict_FIFO e thread nd sv (None, 0) (None, 0)")
  have "least_effect fifo_creation_time (e_clock e (ticks sv)) nd sv sv'"
    using least_effectI fifo.policy [OF assms, of nd thread] run assms(2) by metis
  with run show ?thesis by (simp add: least_effect_def)
qed

theorem fifo_evicts_oldest_witness:
  "case evict_FIFO ex_env 1 [97] (ex_server 0 5) (None, 0) (None, 0) of (r, sv') \<Rightarrow>
     sabs sv' = (sabs (ex_server 0 5))([98] := None)"
  using fifo_evicts_oldest [where e = ex_env and sv = "ex_server 0 5" and thread = 1 and nd = "[97]"]
    ex_server_inv [of 5 0]
  by (simp add: split_def ex_simps)

text \<open>C8. LFU: what is evicted was used at most as often as every other candidate.\<close>

theorem lfu_evicts_least_used:
  assumes "good_env e" and "server_inv sv"
  shows "case evict_LFU e thread nd sv (None, 0) (None, 0) of (r, sv') \<Rightarrow>
      if \<exists>f \<in> set (files sv). candidate nd f \<and> sint (lfu_frequency f) < INT_MAX
      then \<exists>f \<in> set (files sv). candidate nd f \<and> sabs sv' = (sabs sv)(name f := None)
         \<and> (\<forall>g \<in> set (files sv). candidate nd g \<longrightarrow> sint (lfu_frequency f) \<le> sint (lfu_frequency g))
      else sabs sv' = sabs sv"
proof -
  obtain r sv' where run: "evict_LFU e thread nd sv (None, 0) (None, 0) = (r, sv')"
    by (cases "evict_LFU e thread nd sv (None, 0) (None, 0)")
  have "least_effect (\<lambda>f. sint (lfu_frequency f)) INT_MAX nd sv sv'"
    using least_effectI lfu.policy [OF assms, of nd thread] run assms(2) by metis
  with run show ?thesis by (simp add: least_effect_def)
qed

theorem lfu_evicts_least_used_witness:
  "case evict_LFU ex_env 1 [99] (ex_server 2 5) (None, 0) (None, 0) of (r, sv') \<Rightarrow>
     sabs sv' = (sabs (ex_server 2 5))([98] := None)"
  using lfu_evicts_least_used [where e = ex_env and sv = "ex_server 2 5" and thread = 1 and nd = "[99]"]
    ex_server_inv [of 5 2]
  by (simp add: split_def ex_simps INT_MAX_def)

text \<open>C7. Second chance: a file is evicted exactly when one of the candidates has a clear
  reference bit, and then it is the first such on the clock. The bits of the candidates that the
  hand passed before it, and no others, are clear afterwards, and the hand stands behind the
  emptied slot. A turn that evicts nothing clears the bit of every candidate, so that the next
  turn evicts one, and leaves the hand where it was.\<close>

theorem lru_second_chance:
  assumes "good_env e" and "server_inv sv"
  shows "case evict_LRU e thread nd sv (None, 0) (None, 0) of (r, sv') \<Rightarrow>
      let fs = files sv; pos = lru_clock_pos (shared sv); slot = clock_slot (length fs) pos in
      if \<exists>f \<in> set fs. candidate nd f \<and> lru_clock f \<noteq> 1
      then \<exists>k < length fs. candidate nd (fs ! slot k) \<and> lru_clock (fs ! slot k) \<noteq> 1
         \<and> (\<forall>k' < k. candidate nd (fs ! slot k') \<longrightarrow> lru_clock (fs ! slot k') = 1)
         \<and> files sv' = (passed nd pos k fs)[slot k := init_file_struct]
         \<and> lru_clock_pos (shared sv') = slot (Suc k)
         \<and> sabs sv' = (sabs sv)(name (fs ! slot k) := None)
      else files sv' = map (clear_bit nd) fs \<and> shared sv' = shared sv \<and> sabs sv' = sabs sv"
proof -
  let ?fs = "files sv" and ?pos = "lru_clock_pos (shared sv)"
  obtain r sv' where run: "evict_LRU e thread nd sv (None, 0) (None, 0) = (r, sv')"
    by (cases "evict_LRU e thread nd sv (None, 0) (None, 0)")
  have pos: "?pos < length ?fs" using assms(2) by (simp add: server_inv_def counters_inv_def)
  note ex = on_clock_iff [OF pos, of nd]
  from lru.policy [OF assms, of nd thread] run
  have "(\<forall>i. \<not> on_clock nd ?fs ?pos i) \<and> outcome sv None (r, sv')
      \<or> (\<exists>i. on_clock nd ?fs ?pos i \<and> outcome sv (Some i) (r, sv'))" by simp
  with evict_LRU_exact [OF assms run] show ?thesis
  proof (elim disjE exE conjE)
    fix k i
    assume k: "k < length ?fs" "on_clock nd ?fs ?pos (clock_slot (length ?fs) ?pos k)"
      and i: "on_clock nd ?fs ?pos i" "outcome sv (Some i) (r, sv')"
      and E: "files sv' = (passed nd ?pos k ?fs)[clock_slot (length ?fs) ?pos k := init_file_struct]"
        "lru_clock_pos (shared sv') = clock_slot (length ?fs) ?pos (Suc k)"
        "\<forall>k' < k. candidate nd (?fs ! clock_slot (length ?fs) ?pos k') \<longrightarrow> lru_clock (?fs ! clock_slot (length ?fs) ?pos k') = 1"
    have i_eq: "i = clock_slot (length ?fs) ?pos k" by (rule on_clock_unique [OF i(1) k(2)])
    have c: "i < length ?fs" "candidate nd (?fs ! i)" "lru_clock (?fs ! i) \<noteq> 1"
      using on_clock_slot [OF i(1)] i(1) by (auto simp: on_clock_def)
    then have "expelled sv i sv'" by (intro outcome_Some [OF assms(2) c(1) _ i(2)]) (simp add: candidate_def)
    then have S: "sabs sv' = (sabs sv)(name (?fs ! i) := None)" by (simp add: expelled_def)
    have "\<exists>f \<in> set ?fs. candidate nd f \<and> lru_clock f \<noteq> 1" using c by (meson nth_mem)
    then show ?thesis
      unfolding run prod.case Let_def using k(1) E c S unfolding i_eq by (simp only: if_True) blast
  next
    assume none: "\<forall>i. \<not> on_clock nd ?fs ?pos i" and o: "outcome sv None (r, sv')"
      and E: "shared sv' = shared sv" "files sv' = map (clear_bit nd) ?fs"
    have "\<not> (\<exists>f \<in> set ?fs. candidate nd f \<and> lru_clock f \<noteq> 1)" using ex none by simp
    then show ?thesis
      unfolding run prod.case Let_def using E outcome_None(2) [OF assms(2) o] by (simp only: if_False)
  qed blast+
qed

theorem lru_second_chance_witness:
  "(case evict_LRU ex_env 1 [98] (ex_server 1 5) (None, 0) (None, 0) of (r, sv') \<Rightarrow>
      sabs sv' = sabs (ex_server 1 5) \<and> files sv' = map (clear_bit [98]) (files (ex_server 1 5)))
   \<and> (case evict_LRU ex_env 1 [99] (ex_server 1 5) (None, 0) (None, 0) of (r, sv') \<Rightarrow>
      files sv' ! 0 = ex_file_a\<lparr>lru_clock := 0\<rparr> \<and> files sv' ! 1 = init_file_struct \<and> lru_clock_pos (shared sv') = 2)"
proof -
  have inv: "server_inv (ex_server 1 5)" using ex_server_inv [of 5 1] by simp
  have len: "length (files (ex_server 1 5)) = 4" "files (ex_server 1 5) ! 0 = ex_file_a" by (simp_all add: ex_server_def)
  obtain r sv' where run: "evict_LRU ex_env 1 [99] (ex_server 1 5) (None, 0) (None, 0) = (r, sv')"
    by (cases "evict_LRU ex_env 1 [99] (ex_server 1 5) (None, 0) (None, 0)")
  have only: "k = 1" if "k < 4" "candidate [99] (files (ex_server 1 5) ! k)" "lru_clock (files (ex_server 1 5) ! k) \<noteq> 1" for k
    using that by (auto simp: ex_server_def ex_file_a_def init_file_struct_def candidate_def nth_Cons' split: if_splits)
  have cand: "candidate [99] ex_file_a" by (simp add: candidate_def ex_file_a_def fsize_def cstr_def)
  from lru_second_chance [OF ex_env_good inv, of "[99]" 1] run len
  obtain k where k: "k < 4" "candidate [99] (files (ex_server 1 5) ! k)" "lru_clock (files (ex_server 1 5) ! k) \<noteq> 1"
      "files sv' = (passed [99] 0 k (files (ex_server 1 5)))[k := init_file_struct]" "lru_clock_pos (shared sv') = Suc k mod 4"
    by (auto simp: ex_simps ex_clock Let_def clock_slot_def)
  then have "files sv' = (passed [99] 0 1 (files (ex_server 1 5)))[1 := init_file_struct] \<and> lru_clock_pos (shared sv') = 2"
    using only [OF k(1-3)] by simp
  with run len cand have "files sv' ! 0 = ex_file_a\<lparr>lru_clock := 0\<rparr> \<and> files sv' ! 1 = init_file_struct \<and> lru_clock_pos (shared sv') = 2"
    by (simp add: nth_passed clear_bit_def clock_slot_def)
  with run lru_second_chance [OF ex_env_good inv, of "[98]" 1] show ?thesis
    by (auto simp: split_def ex_simps Let_def)
qed

section \<open>Files and the initial server\<close>

text \<open>One file, from its creation to a later read: what its creator writes survives the
  close, which stores it, and the next open, which restores it.\<close>

theorem file_roundtrip:
  assumes "file_inv f" and "owner f = OWNER_NEXIST" and "0 \<notin> set nm" and "length nm \<le> 256"
    and "0 \<le> who" and "d \<noteq> []" and "length d < 2 ^ 63"
  shows "\<exists>f1 f2 f3 f4 f5 b. create_file_struct now f (nm @ [0]) who = (Inr (), f1)
     \<and> open_file mem_ok f1 who = (Inr (), f2)
     \<and> write_file mem_ok f2 who d (wlen d) = (Inr (), f3)
     \<and> close_file mem_ok f3 who 0 = (Inr 0, f4) \<and> block (data f4) = d \<and> open_data f4 = None
     \<and> open_file mem_ok f4 who = (Inr (), f5)
     \<and> read_file mem_ok f5 who (None, 0) = (Inr (b, wlen d), touch f5) \<and> fst b = Some d"
proof -
  have nm: "cstr (nm @ [0]) = nm" using cstr_append_nul [OF assms(3)] by simp
  obtain f1 where f1: "create_file_struct now f (nm @ [0]) who = (Inr (), f1)" "file_inv f1" "existing f1"
      "fabs f1 = \<lparr>a_owner = who, a_open = False, a_content = []\<rparr>"
    using create_file_struct_ok [OF assms(1,2,5) nm assms(4)] by metis
  obtain f2 where f2: "open_file mem_ok f1 who = (Inr (), f2)" "file_inv f2" "existing f2"
      "fabs f2 = \<lparr>a_owner = who, a_open = True, a_content = []\<rparr>"
    by (rule fopen.run_ok [OF f1(2,3) assms(5) TrueI, of "\<lparr>a_owner = who, a_open = True, a_content = []\<rparr>"])
      (use f1 in \<open>simp_all add: a_open_op_def locked_out_def\<close>)
  obtain f3 where f3: "write_file mem_ok f2 who d (wlen d) = (Inr (), f3)" "file_inv f3" "existing f3"
      "fabs f3 = \<lparr>a_owner = who, a_open = True, a_content = d\<rparr>"
    by (rule fwrite.run_ok [where d = d, OF f2(2,3) assms(5), of "\<lparr>a_owner = who, a_open = True, a_content = d\<rparr>"])
      (use f2 assms in \<open>simp_all add: a_write_op_def\<close>)
  obtain n f4 where f4: "close_file mem_ok f3 who 0 = (Inr n, f4)" "file_inv f4" "existing f4"
      "fabs f4 = \<lparr>a_owner = OWNER_NULL, a_open = False, a_content = d\<rparr>"
    by (rule fclose.run_ok [OF f3(2,3) assms(5) TrueI, of "\<lparr>a_owner = OWNER_NULL, a_open = False, a_content = d\<rparr>"])
      (use f3 in \<open>simp_all add: a_close_op_def locked_out_def\<close>)
  have n: "n = 0" by (rule close_file_difference [OF f3(2) f4(1)])
  obtain f5 where f5: "open_file mem_ok f4 who = (Inr (), f5)" "file_inv f5" "existing f5"
      "fabs f5 = \<lparr>a_owner = who, a_open = True, a_content = d\<rparr>"
    by (rule fopen.run_ok [OF f4(2,3) assms(5) TrueI, of "\<lparr>a_owner = who, a_open = True, a_content = d\<rparr>"])
      (use f4 in \<open>simp_all add: a_open_op_def locked_out_def\<close>)
  have op: "is_open_file f5" using arg_cong [OF f5(4), of a_open] by simp
  have mine: "\<not> locked_out who (fabs f5)" using f5(4) by (simp add: locked_out_def)
  have closed: "\<not> is_open_file f4" using arg_cong [OF f4(4), of a_open] by simp
  have "unat (open_size f5) = unat (wlen d)" using assms(7) open_fileD(1) [OF f5(2) op] f5(4) op by (simp add: fabs_def unat_wlen)
  then have sz: "open_size f5 = wlen d" by (rule unsigned_word_eqI)
  have "wlen d \<noteq> 0" using assms(6,7) by (simp add: wlen_nonzero)
  then obtain b where "read_file mem_ok f5 who (None, 0) = (Inr (b, wlen d), touch f5)" "fst b = Some d"
    using read_file_fresh [OF f5(2) op assms(5) mine f5(3)] sz f5(4) by auto
  moreover have "block (data f4) = d" using arg_cong [OF f4(4), of a_content] closed by (simp add: fabs_def)
  moreover have "open_data f4 = None" using f4(2) closed by (simp add: file_inv_def)
  ultimately show ?thesis using f1(1) f2(1) f3(1) f4(1) f5(1) n by (cases b) auto
qed

theorem file_roundtrip_witness:
  "\<exists>f1 f2 f3 f4 f5 b. create_file_struct 9 init_file_struct [97, 0] 5 = (Inr (), f1)
     \<and> open_file mem_ok f1 5 = (Inr (), f2) \<and> write_file mem_ok f2 5 [1, 2] 2 = (Inr (), f3)
     \<and> close_file mem_ok f3 5 0 = (Inr 0, f4) \<and> block (data f4) = [1, 2] \<and> open_data f4 = None
     \<and> open_file mem_ok f4 5 = (Inr (), f5)
     \<and> read_file mem_ok f5 5 (None, 0) = (Inr (b, 2), touch f5) \<and> fst b = Some [1, 2]"
  using file_roundtrip [of init_file_struct "[97]" 5 "[1, 2]" 9] file_inv_init
  by (simp add: wlen_def)

text \<open>The server starts in a consistent state with no files and no clients.\<close>

theorem server_starts:
  assumes "init_shared_state alloc algo cap nfiles nconns acc = Inr ss"
    and "0 < n" and "n < 2 ^ 31" and "unat cap < 2 ^ 61" and "0 \<le> nconns"
  shows "server_inv \<lparr>files = initialize_file_structure n, shared = ss, slog = [], ticks = 0\<rparr>
     \<and> sabs \<lparr>files = initialize_file_structure n, shared = ss, slog = [], ticks = 0\<rparr> = Map.empty \<and> conns ss = {}"
  using fresh_server [OF assms] by blast

theorem server_starts_witness:
  "\<exists>ss. init_shared_state mem_ok 0 10 4 2 3 = Inr ss
     \<and> server_inv \<lparr>files = initialize_file_structure 4, shared = ss, slog = [], ticks = 0\<rparr>"
proof -
  obtain ss where "init_shared_state mem_ok 0 10 4 2 3 = Inr ss" by (simp add: init_shared_state_def mem_ok)
  with server_starts [of mem_ok 0 10 4 2 3 ss 4] show ?thesis by simp
qed

section \<open>The server as a whole\<close>

text \<open>C10. Whatever message, in whatever pieces, reaches a worker, and however the answer is taken: a call
  that returns keeps the invariant of the service, does to the files what one step of the
  abstract file system does, and changes the client table only by accepting a connection or by
  dropping the one it served, whose files are then closed.\<close>

theorem worker_call_refines:
  assumes "good_env e" and "service_inv sv" and "accept_ok io sv"
    and "worker_do e thread io conn newconn sv = Some w"
  shows "service_inv (s_server w) \<and> (\<exists>V. fs_step conn V (sabs sv) (sabs (s_server w))) \<and> table_moves conn w sv"
  using worker_do_serves [OF assms] by blast

lemma ex_close_call:
  "map_option s_ret (worker_do ex_env 1 (ex_io MESSAGE_CLOSE_FILE (field [97, 0])) 5 (-1) (ex_server 0 10)) = Some 0"
  by code_simp

theorem worker_call_refines_witness:
  "\<exists>w. worker_do ex_env 1 (ex_io MESSAGE_CLOSE_FILE (field [97, 0])) 5 (-1) (ex_server 0 10) = Some w
     \<and> s_ret w = 0 \<and> service_inv (s_server w)
     \<and> (\<exists>V. fs_step 5 V (sabs (ex_server 0 10)) (sabs (s_server w))) \<and> table_moves 5 w (ex_server 0 10)"
proof (rule map_option_SomeE [OF ex_close_call])
  fix w
  assume "worker_do ex_env 1 (ex_io MESSAGE_CLOSE_FILE (field [97, 0])) 5 (-1) (ex_server 0 10) = Some w" "s_ret w = 0"
  with worker_call_refines [OF ex_env_good ex_service_inv(1) [of 10 0] ex_accept_ok(1) this(1)] show ?thesis by simp
qed

text \<open>C11. In every state the server can reach from its start by calls of workers that run one after
  the other, whatever the messages and the sockets do: the counters are exact, the slots are well
  formed with distinct names, a closed file has no owner, and every other owner is a connected
  client. Nothing stays locked by a client that has left. (What remains of this when the sections
  of several calls interleave, and what does not, is in \<open>Concurrency\<close>.)\<close>

theorem reachable_safe:
  assumes "init_shared_state alloc algo cap nfiles nconns acc = Inr ss"
    and "0 < n" and "n < 2 ^ 31" and "unat cap < 2 ^ 61" and "0 \<le> nconns"
    and "run serves calls \<lparr>files = initialize_file_structure n, shared = ss, slog = [], ticks = 0\<rparr> sv"
  shows "server_inv sv
     \<and> (\<forall>s. case sabs sv s of None \<Rightarrow> True | Some a \<Rightarrow>
           (if a_open a then a_owner a \<in> insert OWNER_NULL (conns (shared sv)) else a_owner a = OWNER_NULL))"
proof -
  have "service_inv sv" by (rule service.run_keeps [OF assms(6) fresh_server(4) [OF assms(1-5)]])
  then show ?thesis by (auto simp: service_inv_def fs_inv_def split: option.split)
qed

definition ex_start :: server where
  "ex_start = \<lparr>files = initialize_file_structure 4, shared =
     (case init_shared_state mem_ok 0 10 4 2 3 of Inr ss \<Rightarrow> ss | Inl _ \<Rightarrow> ex_shared 0 10), slog = [], ticks = 0\<rparr>"

lemma ex_accept_call:
  "map_option (\<lambda>w. (s_ret w, s_newconn w)) (worker_do ex_env 1 (ex_io MESSAGE_OPEN_CONN []) 3 (-1) ex_start) = Some (0, 8)"
  by code_simp

lemma ex_start_init: "\<exists>ss. init_shared_state mem_ok 0 10 4 2 3 = Inr ss
    \<and> ex_start = \<lparr>files = initialize_file_structure 4, shared = ss, slog = [], ticks = 0\<rparr> \<and> conns ss = {} \<and> ro_acceptor_fd ss = 3"
  by (auto simp: ex_start_def init_shared_state_def mem_ok conns_def fds_def numeral_2_eq_2)

theorem reachable_safe_witness:
  "\<exists>sv. run serves [3] ex_start sv \<and> server_inv sv"
proof (rule map_option_SomeE [OF ex_accept_call])
  fix w
  assume w: "worker_do ex_env 1 (ex_io MESSAGE_OPEN_CONN []) 3 (-1) ex_start = Some w"
  obtain ss where ss: "init_shared_state mem_ok 0 10 4 2 3 = Inr ss"
      "ex_start = \<lparr>files = initialize_file_structure 4, shared = ss, slog = [], ticks = 0\<rparr>" "conns ss = {}" "ro_acceptor_fd ss = 3"
    using ex_start_init by blast
  have "accept_ok (ex_io MESSAGE_OPEN_CONN []) ex_start"
    unfolding ss(2) using ss(3,4) by (simp add: accept_ok_def ex_io_def)
  from call [OF ex_env_good this w] have "run serves [3] ex_start (s_server w)" by (simp add: run_Cons_iff)
  with reachable_safe [of mem_ok 0 10 4 2 3 ss 4 "[3]"] ss show ?thesis by auto
qed

text \<open>While other clients are served, in any number of calls, a file locked by a client stays as it
  is, contents included; the one thing that can happen to it is that a call evicts it, and then
  it was not empty.\<close>

theorem locked_file_protected:
  assumes "service_inv sv" and "run serves calls sv sv'" and "sabs sv s = Some a"
    and "a_owner a \<noteq> OWNER_NULL" and "a_owner a \<notin> set calls"
  shows "sabs sv' s = Some a
     \<or> (a_content a \<noteq> [] \<and> (\<exists>cs1 c cs2 sv1 sv2. calls = cs1 @ c # cs2 \<and> run serves cs1 sv sv1 \<and> serves c sv1 sv2
          \<and> sabs sv1 s = Some a \<and> sabs sv2 s = None))"
  by (rule run_serves_locked [OF assms(2,1,3)]) (use assms(4,5) in \<open>auto simp: locked_out_def\<close>)

lemma ex_remove_call:
  "map_option (\<lambda>w. (s_ret w, map existing (files (s_server w))))
     (worker_do ex_env 1 (ex_io MESSAGE_REMOVE_FILE (field [97, 0])) 7 (-1) (ex_two 0 10)) = Some (0, [True, True, False, False])"
  by code_simp

theorem locked_file_protected_witness:
  "\<exists>sv'. run serves [7] (ex_two 0 10) sv' \<and>
     (sabs sv' [97] = Some \<lparr>a_owner = 5, a_open = True, a_content = [1, 2]\<rparr> \<or>
      (\<exists>cs1 c cs2 sv1 sv2. [7] = cs1 @ c # cs2 \<and> run serves cs1 (ex_two 0 10) sv1 \<and> serves c sv1 sv2
          \<and> sabs sv1 [97] = Some \<lparr>a_owner = 5, a_open = True, a_content = [1, 2]\<rparr> \<and> sabs sv2 [97] = None))"
proof (rule map_option_SomeE [OF ex_remove_call])
  fix w
  assume w: "worker_do ex_env 1 (ex_io MESSAGE_REMOVE_FILE (field [97, 0])) 7 (-1) (ex_two 0 10) = Some w"
  from call [OF ex_env_good ex_accept_ok(2) w] have "run serves [7] (ex_two 0 10) (s_server w)"
    by (simp add: run_Cons_iff)
  moreover have "sabs (ex_two 0 10) [97] = Some \<lparr>a_owner = 5, a_open = True, a_content = [1, 2]\<rparr>"
    using ex_sabs(1) [of 0 10] by (simp add: ex_sabs_two)
  ultimately show ?thesis
    using locked_file_protected [OF ex_service_inv(2) [of 10 0], of "[7]" "s_server w" "[97]"] by fastforce
qed

text \<open>C24. Closing a connection: every file the client owns becomes closed and free, no other file
  changes, and the client leaves the table exactly when its answer could be sent.\<close>

theorem disconnect_frees_files:
  assumes "good_env e" and "service_inv sv" and "conn \<in> conns (shared sv)"
    and "do_close_connection e thread wevs conn out sv = (r, c, sent, sv')"
  shows "server_inv sv'
     \<and> (\<forall>s. sabs sv' s = map_option (\<lambda>a. if a_owner a = conn then a\<lparr>a_owner := OWNER_NULL, a_open := False\<rparr> else a) (sabs sv s))
     \<and> (if r = 0 then c = -1 \<and> conns (shared sv') = conns (shared sv) - {conn}
        else r = -1 \<and> c = conn \<and> conns (shared sv') = conns (shared sv))"
proof -
  have inv: "server_inv sv" "0 < conn" "fs_inv (conns (shared sv)) (sabs sv)"
    using assms(2,3) by (simp_all add: service_inv_def)
  note S = do_close_connection_spec [OF assms(1) inv(1,2) assms(3,4)]
  have "a_disconnect conn a = (if a_owner a = conn then a\<lparr>a_owner := OWNER_NULL, a_open := False\<rparr> else a)"
    if "sabs sv s = Some a" for s a
    using fs_invD [OF inv(3) that] inv(2) by (auto simp: a_disconnect_def)
  then have "map_option (a_disconnect conn) (sabs sv s)
      = map_option (\<lambda>a. if a_owner a = conn then a\<lparr>a_owner := OWNER_NULL, a_open := False\<rparr> else a) (sabs sv s)" for s
    by (cases "sabs sv s") simp_all
  with S show ?thesis by auto
qed

lemma ex_leave_call:
  "(case do_close_connection ex_env 1 [] 5 create_message (ex_server 0 10) of (r, c, _) \<Rightarrow> (r, c)) = (0, -1)"
  by code_simp

theorem disconnect_frees_files_witness:
  "\<exists>sent sv'. do_close_connection ex_env 1 [] 5 create_message (ex_server 0 10) = (0, -1, sent, sv')
     \<and> sabs sv' [97] = Some \<lparr>a_owner = 0, a_open = False, a_content = [1, 2]\<rparr> \<and> conns (shared sv') = {}"
proof -
  obtain sent sv' where d: "do_close_connection ex_env 1 [] 5 create_message (ex_server 0 10) = (0, -1, sent, sv')"
    using ex_leave_call by (auto split: prod.splits)
  from disconnect_frees_files [OF ex_env_good ex_service_inv(1) [of 10 0] _ d] show ?thesis
    using d ex_sabs [of 0 10] by (simp add: ex_conns)
qed

text \<open>While there is room, a client that introduces itself is entered in the table under the
  descriptor \<open>accept\<close> gave it, with no right to write, and receives the acknowledgement.\<close>

theorem connection_accepted:
  assumes "server_inv sv" and "\<not> state_mux (shared sv)"
    and "card (conns (shared sv)) < nat (ro_max_conns (shared sv))" and "0 < c" and "c \<notin> conns (shared sv)"
    and "read_msg (e_alloc e) evs create_message = (Inr (), m, rest)" and "is_client_message m MESSAGE_OPEN_CONN"
    and "willing wevs"
  shows "\<exists>sv'. do_acceptor e thread (Inr c) evs wevs newconn sv
       = Some (0, c, wire (set_checksum (create_message\<lparr>mtype := MESSAGE_OCONN_ACK\<rparr>)), sv')
     \<and> server_inv sv' \<and> files sv' = files sv \<and> conns (shared sv') = insert c (conns (shared sv))
     \<and> (\<exists>ci. get_client_lastop (shared sv') c = Inr ci \<and> lastop_of ci sv' = [])"
  by (rule do_acceptor_accepts [OF assms])

lemma ex_hello:
  "(case read_msg (e_alloc ex_env) (io_in (ex_io MESSAGE_OPEN_CONN [])) create_message of
      (r, m, _) \<Rightarrow> (r, is_client_message m MESSAGE_OPEN_CONN)) = (Inr (), True)"
  by code_simp

theorem connection_accepted_witness:
  "\<exists>sv'. do_acceptor ex_env 1 (Inr 8) (io_in (ex_io MESSAGE_OPEN_CONN [])) [] (-1) (ex_server 0 10)
       = Some (0, 8, wire (set_checksum (create_message\<lparr>mtype := MESSAGE_OCONN_ACK\<rparr>)), sv')
     \<and> server_inv sv' \<and> files sv' = files (ex_server 0 10) \<and> conns (shared sv') = {8, 5}
     \<and> (\<exists>ci. get_client_lastop (shared sv') 8 = Inr ci \<and> lastop_of ci sv' = [])"
proof -
  obtain m rest where m: "read_msg (e_alloc ex_env) (io_in (ex_io MESSAGE_OPEN_CONN [])) create_message = (Inr (), m, rest)"
      "is_client_message m MESSAGE_OPEN_CONN"
    using ex_hello by (auto split: prod.splits)
  have "ro_max_conns (shared (ex_server 0 10)) = 2" by (simp add: ex_server_def ex_shared_def)
  with connection_accepted [OF _ _ _ _ _ m, of "ex_server 0 10" 8 "[]" 1 "-1"] ex_server_inv [of 10 0]
  show ?thesis by (simp add: ex_conns willing_def)
qed

text \<open>C25. When \<open>accept\<close> fails, the server is lost: the worker returns with the state mutex locked,
  every later call that would accept a connection or serve a request waits for it for ever, and
  no later call has any effect or sends a byte.\<close>

theorem accept_failure_blocks:
  assumes "conn = ro_acceptor_fd (shared sv)" and "\<not> state_mux (shared sv)"
    and "current_conns (shared sv) < ro_max_conns (shared sv)" and "io_accept io = Inl err"
  shows "\<exists>w. worker_do e thread io conn newconn sv = Some w \<and> s_ret w = -1
     \<and> (\<forall>calls sv'. run serves calls (s_server w) sv' \<longrightarrow> sv' = s_server w)
     \<and> (\<forall>e t io nc. worker_do e t io conn nc (s_server w) = None)
     \<and> (\<forall>e t io c nc. case worker_do e t io c nc (s_server w) of None \<Rightarrow> True
           | Some w' \<Rightarrow> s_ret w' = -1 \<and> s_sent w' = [] \<and> s_server w' = s_server w)"
proof -
  let ?sv = "on_shared (\<lambda>ss. ss\<lparr>state_mux := True\<rparr>) sv"
  let ?w = "\<lparr>s_ret = -1, s_conn = conn, s_newconn = -1, s_sent = [], s_server = ?sv\<rparr>"
  have run: "worker_do e thread io conn newconn sv = Some ?w"
    using assms(1) do_acceptor_failed [OF assms(2-4)] by (simp add: worker_do_def Let_def)
  have mux: "state_mux (shared ?sv)" "conn = ro_acceptor_fd (shared ?sv)" using assms(1) by simp_all
  have "worker_do e t io conn nc ?sv = None" for e t io nc
    using worker_do_blocked [OF mux(1)] mux(2) by (metis not_None_eq)
  moreover have "case worker_do e t io c nc ?sv of None \<Rightarrow> True
      | Some w' \<Rightarrow> s_ret w' = -1 \<and> s_sent w' = [] \<and> s_server w' = ?sv" for e t io c nc
    using worker_do_blocked [OF mux(1)] by (auto split: option.split)
  ultimately show ?thesis using run run_blocked [OF _ mux(1)] by (auto cong: option.case_cong)
qed

theorem accept_failure_blocks_witness:
  "\<exists>w. worker_do ex_env 1 ((ex_io MESSAGE_OPEN_CONN [])\<lparr>io_accept := Inl EAGAIN\<rparr>) 3 (-1) (ex_server 0 10) = Some w
     \<and> s_ret w = -1 \<and> (\<forall>e t io nc. worker_do e t io 3 nc (s_server w) = None)"
proof -
  have "current_conns (shared (ex_server 0 10)) < ro_max_conns (shared (ex_server 0 10))"
    by (simp add: ex_server_def ex_shared_def)
  from accept_failure_blocks [OF _ _ this, of 3 "(ex_io MESSAGE_OPEN_CONN [])\<lparr>io_accept := Inl EAGAIN\<rparr>" EAGAIN ex_env 1 "-1"]
  show ?thesis by (auto simp: ex_conns)
qed

text \<open>C35. The main thread and the workers, started together and interleaved in any way: as long as no
  call of a worker fails and no terminating signal arrives, every connection of the client
  table, and the acceptor, is in exactly one place, polled or in the hands of one worker, so no
  two workers ever serve the same connection and none is lost; and the main thread's count of
  busy workers is right.\<close>

theorem connections_in_one_place:
  assumes "init_shared_state alloc algo cap nfiles (int maxc) acc = Inr ss"
    and "0 < n" and "n < 2 ^ 31" and "unat cap < 2 ^ 61" and "0 < acc"
    and "initialize_poll_array True acc sigfd maxc = Some ps"
    and "prepare_threads True (\<lambda>_. True) raw k n = Some ws"
    and "run (sys_step maxc) ls (started n acc ws ps ss) s" and "\<forall>l \<in> set ls. normal l"
  shows "places maxc s = mset_set (insert (ro_acceptor_fd (shared (srv s))) (conns (shared (srv s))))
     \<and> working_threads (main s) = int (length (filter (\<lambda>t. do_work t \<noteq> WORKER_IDLE) (threads_data (main s))))
     \<and> (\<forall>i j c d. i < j \<longrightarrow> j < length (threads_data (main s)) \<longrightarrow> pc (threads_data (main s) ! i) = Calling c \<longrightarrow>
          pc (threads_data (main s) ! j) = Calling d \<longrightarrow> c \<noteq> d)"
proof -
  have inv: "pool_inv maxc s" by (rule run_kept [OF assms(8,9) started_inv [OF assms(1-7)]])
  have "c \<noteq> d" if "i < j" "j < length (threads_data (main s))" "pc (threads_data (main s) ! i) = Calling c"
      "pc (threads_data (main s) ! j) = Calling d" for i j c d
    using calling_apart [OF inv _ that(2) _ that(3,4)] that(1,2) by simp
  with inv show ?thesis by (auto simp: pool_inv_def busy_def)
qed

theorem connections_in_one_place_witness:
  "\<exists>ss ws. init_shared_state mem_ok 0 10 4 (int 2) 3 = Inr ss
     \<and> prepare_threads True (\<lambda>_. True) \<lparr>do_work = 7, w_exit = True, in_conn = 0, add_conn = 0, thread_id = 9\<rparr> 2 4 = Some ws
     \<and> places 2 (started 4 3 ws [-1, -1, 3, 4] ss) = mset_set (insert (ro_acceptor_fd ss) (conns ss))"
proof -
  obtain ss where ss: "init_shared_state mem_ok 0 10 4 (int 2) 3 = Inr ss" by (simp add: init_shared_state_def mem_ok)
  obtain ws where ws: "prepare_threads True (\<lambda>_. True) \<lparr>do_work = 7, w_exit = True, in_conn = 0, add_conn = 0, thread_id = 9\<rparr> 2 4 = Some ws" by (simp add: prepare_threads_def)
  have ps: "initialize_poll_array True 3 4 2 = Some [-1, -1, 3, 4]" by (simp add: initialize_poll_array_def numeral_2_eq_2)
  show ?thesis
    using connections_in_one_place [OF ss _ _ _ _ ps ws run_Nil] ss ws by (simp add: started_def)
qed

text \<open>C36. In the same runs the main thread goes on: whatever \<open>poll\<close> reports, the round of the loop ends
  with success; in particular there is an idle worker for every connection that is handed out.\<close>

theorem main_loop_survives:
  assumes "pool_inv maxc s0" and "run (sys_step maxc) ls s0 s" and "\<forall>l \<in> set ls. normal l"
    and "\<forall>i. rdy i \<longrightarrow> i < maxc + 2 \<and> poll_array (main s) ! i \<noteq> -1" and "poll_call maxc rdy (main s) i"
  shows "\<exists>ms. server_round maxc (ro_acceptor_fd (shared (srv s))) SIGUSR1 rdy (shared (srv s)) (main s) = Some (0, ms)"
  by (rule round_succeeds [OF run_kept [OF assms(2,3,1)] assms(4,5)])

theorem main_loop_survives_witness:
  "\<exists>ms. server_round 2 3 SIGUSR1 (\<lambda>i. i = 0) (shared (ex_server 0 10))
      (main (ex_sys (ex_thread 0 (-1) Waiting 0 0) (ex_thread 0 (-1) Waiting 0 1) [5, -1, 3, 4] 0)) = Some (0, ms)"
  using main_loop_survives [OF ex_pool_inv run_Nil, of "\<lambda>i. i = 0" 0]
  by (simp add: ex_sys_def ex_conns poll_call_def)

text \<open>C37. One failing call is enough to break this: a worker whose client has gone reports its failure
  once before and once after it has put the results in its mailbox. If the main thread looks
  each time, the connection is polled twice, two workers then serve it at once, and the main
  thread counts one busy worker where there are two.\<close>

theorem failed_call_duplicates:
  "\<exists>s0 ls s. pool_inv 2 s0 \<and> run (sys_step 2) ls s0 s \<and> length (filter (\<lambda>l. \<not> normal l) ls) = 1
     \<and> map pc (threads_data (main s)) = [Calling 5, Calling 5] \<and> working_threads (main s) = 1"
proof -
  let ?i = "ex_thread 0 (-1) Waiting 0"
  let ?ls = "[Round SIGUSR1, Wake 0, Return 0 (-1), Round SIGUSR1, Report 0, Round SIGUSR1, Round SIGUSR1, Wake 0,
      Round SIGUSR1, Wake 1]"
  let ?s = "ex_sys (ex_thread 1 5 (Calling 5) 1 0) (ex_thread 1 5 (Calling 5) 0 1) [-1, -1, 3, 4] 1"
  note steps = run.run_Cons [where step = "sys_step 2"]
  have takes: "sys_step 2 (Round SIGUSR1) (ex_sys (?i 0) (?i 1) [5, -1, 3, 4] 0)
      (ex_sys (ex_thread 1 5 Waiting 0 0) (?i 1) [-1, -1, 3, 4] 1)"
    "sys_step 2 (Round SIGUSR1) (ex_sys (ex_thread 0 5 Waiting 1 0) (?i 1) [5, 5, 3, 4] (-1))
      (ex_sys (ex_thread 1 5 Waiting 1 0) (?i 1) [-1, 5, 3, 4] 0)"
    using ex_take [where n = 0 and c = "-1" and d = 0 and p = "-1"] ex_take [where n = "-1" and c = 5 and d = 1 and p = 5]
    by simp_all
  have "run (sys_step 2) ?ls (ex_sys (?i 0) (?i 1) [5, -1, 3, 4] 0) ?s"
    by (rule steps [OF takes(1)], rule steps [OF ex_wake(1)],
        rule steps [OF ex_fails], rule steps [OF ex_early], rule steps [OF ex_report], rule steps [OF ex_again],
        rule steps [OF takes(2)], rule steps [OF ex_wake(1)],
        rule steps [OF ex_take_second], rule steps [OF ex_wake(2)], rule run_Nil)
  moreover have "length (filter (\<lambda>l. \<not> normal l) ?ls) = 1" by simp
  moreover have "map pc (threads_data (main ?s)) = [Calling 5, Calling 5] \<and> working_threads (main ?s) = 1"
    by (simp add: ex_sys_def ex_thread_def)
  ultimately show ?thesis using ex_pool_inv by (intro exI [of _ "ex_sys (?i 0) (?i 1) [5, -1, 3, 4] 0"] exI [of _ ?ls] exI [of _ ?s]) blast
qed

text \<open>C26. The reply to a request for several files: in the order of the slots, the files the client is
  not locked out of, at most as many as asked (all of them when the number is not positive),
  each as its bytes and its flattened name, then their number. A file that was open without an
  owner stays open and becomes the client's; the others are as before.\<close>

theorem readn_request_reply:
  assumes "good_env e" and "server_inv sv" and "fresh out" and "0 < conn"
    and "db_inv (mdata in_msg)" and "db_stack (mdata in_msg) = rest @ int_bytes n"
  shows "\<exists>out' sv' js. do_readn_files e thread conn in_msg out ci sv = (0, out', sv') \<and> server_inv sv'
     \<and> js = (let ks = filter (\<lambda>j. readable conn (files sv ! j)) [0..<length (files sv)]
             in if sint n \<le> 0 then ks else take (nat (sint n)) ks)
     \<and> mtype out' = MESSAGE_RNFILE_ACK OR MESSAGE_OP_SUCC
     \<and> db_stack (mdata out') = concat (map (\<lambda>j. file_fields (files sv ! j)) js) @ size_bytes (of_nat (length js))
     \<and> (\<forall>s. sabs sv' s = map_option (\<lambda>a. if s \<in> (\<lambda>j. name (files sv ! j)) ` set js
             then a\<lparr>a_owner := (if a_open a then conn else OWNER_NULL)\<rparr> else a) (sabs sv s))"
proof -
  obtain b where pop: "pop_buf (mdata in_msg) 4 (Some (replicate 4 0)) = (Inr (int_bytes n), b)"
    using pop_buf_ok [OF assms(5,6), of 4 "replicate 4 0"] by auto
  define ks where "ks = filter (\<lambda>j. readable conn (files sv ! j)) [0..<length (files sv)]"
  have "length ks \<le> length (files sv)" unfolding ks_def by (rule order_trans [OF length_filter_le]) simp
  then have js: "readn_from conn (readn_limit (sint n) (files sv)) (files sv) 0
      = (if sint n \<le> 0 then ks else take (nat (sint n)) ks)"
    by (simp add: readn_from_def readn_limit_def ks_def)
  let ?js = "readn_from conn (readn_limit (sint n) (files sv)) (files sv) 0"
  obtain out' sv' where R: "do_readn_files e thread conn in_msg out ci sv = (0, out', sv')" "server_inv sv'"
      "mtype out' = MESSAGE_RNFILE_ACK OR MESSAGE_OP_SUCC"
      "db_stack (mdata out') = concat (map (\<lambda>j. file_fields (files sv ! j)) ?js) @ size_bytes (of_nat (length ?js))"
      "\<And>s. sabs sv' s = map_option (\<lambda>a. if s \<in> (\<lambda>j. name (files sv ! j)) ` set ?js then a_readn_op conn a else a) (sabs sv s)"
    using do_readn_files_serves [OF assms(1-4) pop, of thread ci] by auto
  show ?thesis
    by (intro exI [of _ out'] exI [of _ sv'] exI [of _ ?js] conjI)
      (use R js in \<open>simp_all add: ks_def Let_def a_readn_op_def cong: if_cong\<close>)
qed

theorem readn_request_reply_witness:
  "\<exists>out' sv'. do_readn_files ex_env 1 7 (ex_msg 0 (int_bytes 0)) create_message 0 (ex_two 0 10) = (0, out', sv')
     \<and> server_inv sv' \<and> db_stack (mdata out') = (field [7, 8, 9] @ field [98, 0]) @ size_bytes 1"
proof -
  have R: "\<not> readable 7 (files (ex_two 0 10) ! 0)" "readable 7 (files (ex_two 0 10) ! Suc 0)"
      "\<not> readable 7 (files (ex_two 0 10) ! 2)" "\<not> readable 7 (files (ex_two 0 10) ! 3)"
    by (simp_all add: readable_def locked_out_def fabs_def ex_two_def ex_server_def ex_file_a_def ex_file_b_def
        init_file_struct_def numeral_2_eq_2 numeral_3_eq_3)
  have L: "[0..<length (files (ex_two 0 10))] = [0, 1, 2, 3]" by (simp add: ex_two_def ex_server_def upt_conv_Cons)
  have "convert_slashes_to_underscores [98, 0] = [98, 0]" by code_simp
  then have F: "file_fields (files (ex_two 0 10) ! Suc 0) = field [7, 8, 9] @ field [98, 0]"
    by (simp add: file_fields_def fabs_def is_open_file_def ex_two_def ex_server_def ex_file_b_def)
  have "server_inv (ex_two 0 10)" using ex_service_inv(2) [of 10 0] by (simp add: service_inv_def)
  from readn_request_reply [OF ex_env_good this fresh_create, of 7 "ex_msg 0 (int_bytes 0)" "[]" 0 1 0]
    ex_msg_data [of "int_bytes 0" 0]
  show ?thesis by (auto simp: L R F)
qed

text \<open>C27. The client library against the server: for a call that opens (without creating), closes,
  unlocks or removes a file, whatever way the socket cuts up the request and the answer, the
  caller's result and \<open>errno\<close> are those of the abstract operation on the stored file, and the
  files of the server are what that operation makes of them.\<close>

theorem api_calls_refine:
  assumes "client_ready E c" and "path p s" and "serving e k io sv"
    and "connected (api_call q E p) c e thread io k sv w"
  shows "case request (api_op q) k s (sabs sv) of (r, m) \<Rightarrow>
           fst (api_call q E p c) = (case r of Inr _ \<Rightarrow> Inr () | Inl x \<Rightarrow> Inl (api_errno q x))
         \<and> sabs (s_server w) = m \<and> s_ret w = 0 \<and> s_conn w = k"
  by (rule api_call_served [OF assms])

theorem api_calls_refine_witness:
  "\<exists>c w. connected (api_call Close ex_cenv [97, 0, 0]) c ex_env 1 (ex_talk (api_call Close ex_cenv [97, 0, 0])) 5 (ex_server 0 10) w
     \<and> fst (api_call Close ex_cenv [97, 0, 0] c) = Inr ()
     \<and> sabs (s_server w) [97] = Some \<lparr>a_owner = 0, a_open = False, a_content = [1, 2]\<rparr>"
proof -
  let ?f = "api_call Close ex_cenv [97, 0, 0]"
  obtain w where w: "connected ?f (ex_client (s_sent w)) ex_env 1 (ex_talk ?f) 5 (ex_server 0 10) w"
    using ex_close_read_talk(1) by blast
  have "serving ex_env 5 (ex_talk ?f) (ex_server 0 10)" by (rule ex_serving) simp_all
  from api_calls_refine [OF ex_client_ready ex_path this w] ex_sabs [of 0 10]
  have "fst (?f (ex_client (s_sent w))) = Inr ()"
    "sabs (s_server w) [97] = Some \<lparr>a_owner = 0, a_open = False, a_content = [1, 2]\<rparr>"
    by (simp_all add: request_def keep_def a_close_op_def locked_out_def)
  with w show ?thesis by blast
qed

text \<open>A read that the server grants gives the caller exactly the bytes that the server stores; a
  refused one gives the reason as \<open>errno\<close>; and no contents change.\<close>

theorem read_returns_contents:
  assumes "client_ready E c" and "path p s" and "serving e k io sv"
    and "connected (readFile E p) c e thread io k sv w"
  shows "fst (readFile E p c) =
           (case sabs sv s of
              None \<Rightarrow> Inl ENOENT
            | Some a \<Rightarrow> if a_open a \<and> (a_owner a = OWNER_NULL \<or> a_owner a = k) then Inr (a_content a) else Inl EPERM)
     \<and> sabs (s_server w) = sabs sv"
  using readFile_served [OF assms]
  by (cases "sabs sv s") (auto simp: request_def keep_def a_read_op_def locked_out_def split: if_splits)

theorem read_returns_contents_witness:
  "\<exists>c w. connected (readFile ex_cenv [97, 0, 0]) c ex_env 1 (ex_talk (readFile ex_cenv [97, 0, 0])) 5 (ex_server 0 10) w
     \<and> fst (readFile ex_cenv [97, 0, 0] c) = Inr [1, 2]"
proof -
  let ?f = "readFile ex_cenv [97, 0, 0]"
  obtain w where w: "connected ?f (ex_client (s_sent w)) ex_env 1 (ex_talk ?f) 5 (ex_server 0 10) w"
    using ex_close_read_talk(2) by blast
  have "serving ex_env 5 (ex_talk ?f) (ex_server 0 10)" by (rule ex_serving) simp_all
  from read_returns_contents [OF ex_client_ready ex_path this w] ex_sabs [of 0 10]
  have "fst (?f (ex_client (s_sent w))) = Inr [1, 2]" by simp
  with w show ?thesis by blast
qed



end
